(* ===== verification/Prelude.thy ===== *)
theory Prelude
  imports Main "HOL-Library.Word"
begin

text \<open>
  Shared by every component: machine integer types, the failures a C++ operation can end in,
  the result type that carries them, raw byte storage with bounds checked copies, and the
  byte order of integers in memory.
\<close>

unbundle bit_operations_syntax

named_theorems result_simps \<open>evaluation of the result type\<close>
named_theorems mem_simps \<open>lengths and contents of byte storage after a copy\<close>

section \<open>Machine integers\<close>

type_synonym byte = "8 word"
type_synonym u16 = "16 word"
type_synonym u32 = "32 word"
type_synonym u64 = "64 word"
type_synonym size_t = "64 word"

lemma unat_plus_fits:
  fixes a b :: "'a::len word"
  assumes "unat a + unat b < 2 ^ LENGTH('a)"
  shows "unat (a + b) = unat a + unat b"
  using assms by (simp add: unat_word_ariths)

lemma unat_minus_fits:
  fixes a b :: "'a::len word"
  assumes "unat b \<le> unat a"
  shows "unat (a - b) = unat a - unat b"
  using assms by (simp add: unat_sub word_le_nat_alt)

lemma unat_plus_minus_cancel:
  fixes a b n :: "'a::len word"
  assumes "unat n \<le> unat (a - b)"
  shows "unat (a - (b + n)) = unat (a - b) - unat n"
proof -
  have "a - (b + n) = (a - b) - n" by simp
  with assms show ?thesis by (metis unat_minus_fits)
qed

lemma unat_grow_minus:
  fixes a b n :: "'a::len word"
  assumes "unat (a - b) + unat n < 2 ^ LENGTH('a)"
  shows "unat ((a + n) - b) = unat (a - b) + unat n"
proof -
  have "(a + n) - b = (a - b) + n" by simp
  with assms show ?thesis by (metis unat_plus_fits)
qed

lemma unat_and_mask_mod:
  fixes x :: "'a::len word"
  assumes "k < LENGTH('a)"
  shows "unat (x AND (2 ^ k - 1)) = unat x mod 2 ^ k"
proof -
  have "x AND (2 ^ k - 1) = take_bit k x"
    by (simp add: take_bit_eq_mask mask_eq_exp_minus_1)
  then show ?thesis
    by (simp only: unsigned_take_bit_eq) (simp add: take_bit_eq_mod)
qed

lemma unat_pow2:
  assumes "k < LENGTH('a::len)"
  shows "unat (2 ^ k :: 'a word) = 2 ^ k"
proof -
  have "unat (of_nat (2 ^ k) :: 'a word) = 2 ^ k mod 2 ^ LENGTH('a)"
    by (rule unat_of_nat)
  with assms show ?thesis by simp
qed

lemma unat_lt_2p32: "unat (x :: u32) < 4294967296"
  using unsigned_less [of x] by simp

lemma unat_lt_2p64: "unat (x :: u64) < 18446744073709551616"
  using unsigned_less [of x] by simp

section \<open>Failures and results\<close>

text \<open>
  The library is built without \<^verbatim>\<open>NDEBUG\<close> (no build type is set in CMakeLists.txt), so a failed
  \<^verbatim>\<open>assert\<close> aborts. A copy outside its storage, a call through an empty \<^verbatim>\<open>std::function\<close> and
  a member call on a null pointer are the other ways an operation ends abnormally.
\<close>

datatype fault =
    Assert_Failed
  | Out_Of_Bounds
  | Null_Deref
  | Bad_Function_Call
  | Out_Of_Range

type_synonym 'a result = "fault + 'a"

definition rbind :: "'a result \<Rightarrow> ('a \<Rightarrow> 'b result) \<Rightarrow> 'b result" where
  "rbind r f = (case r of Inl e \<Rightarrow> Inl e | Inr x \<Rightarrow> f x)"

definition assert_that :: "bool \<Rightarrow> 'a result \<Rightarrow> 'a result" where
  "assert_that p r = (if p then r else Inl Assert_Failed)"

lemma rbind_Inl [simp, result_simps]: "rbind (Inl e) f = Inl e"
  by (simp add: rbind_def)

lemma rbind_Inr [simp, result_simps]: "rbind (Inr x) f = f x"
  by (simp add: rbind_def)

lemma rbind_eq_Inr: "rbind r f = Inr y \<longleftrightarrow> (\<exists>x. r = Inr x \<and> f x = Inr y)"
  by (cases r) simp_all

lemma assert_that_True [simp, result_simps]: "p \<Longrightarrow> assert_that p r = r"
  by (simp add: assert_that_def)

lemma assert_that_False [simp, result_simps]: "\<not> p \<Longrightarrow> assert_that p r = Inl Assert_Failed"
  by (simp add: assert_that_def)

lemma assert_that_eq_Inr: "assert_that p r = Inr y \<longleftrightarrow> p \<and> r = Inr y"
  by (simp add: assert_that_def)

section \<open>Byte storage\<close>

text \<open>
  Storage is a byte list, a pointer into it an offset. \<^verbatim>\<open>memcpy\<close> is \<open>mem_read\<close> from the source
  followed by \<open>mem_write\<close> to the target, each of which fails when it leaves its storage.
  \<^verbatim>\<open>new char[n]\<close> does not initialise: \<open>alloc\<close> takes what the storage happens to hold.
\<close>

definition overlay :: "byte list \<Rightarrow> nat \<Rightarrow> byte list \<Rightarrow> byte list" where
  "overlay m off src = take off m @ src @ drop (off + length src) m"

definition mem_write :: "byte list \<Rightarrow> nat \<Rightarrow> byte list \<Rightarrow> byte list result" where
  "mem_write m off src =
     (if off + length src \<le> length m then Inr (overlay m off src) else Inl Out_Of_Bounds)"

definition mem_read :: "byte list \<Rightarrow> nat \<Rightarrow> nat \<Rightarrow> byte list result" where
  "mem_read m off n =
     (if off + n \<le> length m then Inr (take n (drop off m)) else Inl Out_Of_Bounds)"

definition alloc :: "(nat \<Rightarrow> byte) \<Rightarrow> nat \<Rightarrow> byte list" where
  "alloc g n = map g [0..<n]"

lemma length_alloc [simp, mem_simps]: "length (alloc g n) = n"
  by (simp add: alloc_def)

lemma length_overlay [simp, mem_simps]:
  "off + length src \<le> length m \<Longrightarrow> length (overlay m off src) = length m"
  by (simp add: overlay_def)

lemma mem_write_ok [simp, result_simps]:
  "off + length src \<le> length m \<Longrightarrow> mem_write m off src = Inr (overlay m off src)"
  by (simp add: mem_write_def)

lemma mem_read_ok [simp, result_simps]:
  "off + n \<le> length m \<Longrightarrow> mem_read m off n = Inr (take n (drop off m))"
  by (simp add: mem_read_def)

lemma take_overlay [mem_simps]:
  "off + length src \<le> length m \<Longrightarrow> n \<le> off \<Longrightarrow> take n (overlay m off src) = take n m"
  by (simp add: overlay_def min_def)

lemma drop_overlay [mem_simps]:
  assumes "off + length src \<le> length m"
  shows "drop off (overlay m off src) = src @ drop (off + length src) m"
  using assms by (simp add: overlay_def)

lemma take_drop_overlay [mem_simps]:
  assumes "off + length src \<le> length m"
  shows "take (length src) (drop off (overlay m off src)) = src"
  using assms by (simp add: drop_overlay)

lemma nth_overlay:
  assumes "off + length src \<le> length m" "i < length m"
  shows "overlay m off src ! i =
    (if off \<le> i \<and> i < off + length src then src ! (i - off) else m ! i)"
  using assms
  by (auto simp: overlay_def nth_append min_def)

text \<open>Writing right behind a region extends it by what was written.\<close>

lemma region_extend:
  assumes "lo \<le> hi" "hi + length src \<le> length m"
  shows "take (hi + length src - lo) (drop lo (overlay m hi src)) = take (hi - lo) (drop lo m) @ src"
proof (rule nth_equalityI)
  show "length (take (hi + length src - lo) (drop lo (overlay m hi src))) =
      length (take (hi - lo) (drop lo m) @ src)"
    using assms by simp
next
  fix i
  assume "i < length (take (hi + length src - lo) (drop lo (overlay m hi src)))"
  then show "take (hi + length src - lo) (drop lo (overlay m hi src)) ! i =
      (take (hi - lo) (drop lo m) @ src) ! i"
    using assms by (auto simp: nth_overlay nth_append intro!: arg_cong [where f = "nth src"])
qed

section \<open>Integers in memory\<close>

text \<open>
  \<open>le_bytes n w\<close> are the \<open>n\<close> low bytes of \<open>w\<close>, least significant first; \<open>le_word\<close> reads
  such a list. \<open>host_bytes le w\<close> is the object representation of \<open>w\<close> on a host that is little
  endian when \<open>le\<close> holds and big endian otherwise.
\<close>

definition le_bytes :: "nat \<Rightarrow> 'a::len word \<Rightarrow> byte list" where
  "le_bytes n w = map (\<lambda>i. ucast (drop_bit (8 * i) w)) [0..<n]"

fun le_word :: "byte list \<Rightarrow> 'a::len word" where
  "le_word [] = 0"
| "le_word (b # bs) = ucast b OR push_bit 8 (le_word bs)"

definition be_bytes :: "nat \<Rightarrow> 'a::len word \<Rightarrow> byte list" where
  "be_bytes n w = rev (le_bytes n w)"

definition be_word :: "byte list \<Rightarrow> 'a::len word" where
  "be_word bs = le_word (rev bs)"

definition host_bytes :: "bool \<Rightarrow> nat \<Rightarrow> 'a::len word \<Rightarrow> byte list" where
  "host_bytes le n w = (if le then le_bytes n w else be_bytes n w)"

definition host_word :: "bool \<Rightarrow> byte list \<Rightarrow> 'a::len word" where
  "host_word le bs = (if le then le_word bs else be_word bs)"

definition bswap :: "nat \<Rightarrow> 'a::len word \<Rightarrow> 'a word" where
  "bswap n w = le_word (be_bytes n w)"

lemma length_le_bytes [simp]: "length (le_bytes n w) = n"
  by (simp add: le_bytes_def)

lemma length_be_bytes [simp]: "length (be_bytes n w) = n"
  by (simp add: be_bytes_def)

lemma length_host_bytes [simp]: "length (host_bytes le n w) = n"
  by (simp add: host_bytes_def)

lemma bit_le_word:
  "bit (le_word bs :: 'a::len word) i \<longleftrightarrow>
     i < LENGTH('a) \<and> i div 8 < length bs \<and> bit (bs ! (i div 8)) (i mod 8)"
proof (induction bs arbitrary: i)
  case Nil
  then show ?case by simp
next
  case (Cons b bs)
  show ?case
  proof (cases "i < 8")
    case True
    then show ?thesis by (auto simp: bit_simps)
  next
    case False
    then obtain j where j: "i = j + 8" by (metis add.commute le_Suc_ex not_less)
    have d: "(j + 8) div 8 = Suc (j div 8)" by simp
    have b: "\<not> bit b (j + 8)" using impossible_bit [of "j + 8" b] by simp
    show ?thesis using Cons.IH [of j] b
      by (simp add: j d bit_or_iff bit_push_bit_iff bit_ucast_iff) linarith
  qed
qed

lemma nth_le_bytes [simp]: "i < n \<Longrightarrow> le_bytes n w ! i = ucast (drop_bit (8 * i) w)"
  by (simp add: le_bytes_def)

lemma le_word_le_bytes:
  fixes w :: "'a::len word"
  assumes "LENGTH('a) \<le> 8 * n"
  shows "le_word (le_bytes n w) = w"
proof (rule bit_word_eqI)
  fix i
  assume i: "i < LENGTH('a)"
  then have "i div 8 < n" using assms by auto
  with i show "bit (le_word (le_bytes n w) :: 'a word) i = bit w i"
    by (simp add: bit_le_word bit_simps)
qed

lemma le_bytes_le_word:
  assumes "8 * length bs \<le> LENGTH('a::len)" "n = length bs"
  shows "le_bytes n (le_word bs :: 'a word) = bs"
proof (rule nth_equalityI)
  fix i
  assume "i < length (le_bytes n (le_word bs :: 'a word))"
  then have i: "i < length bs" using assms(2) by simp
  show "le_bytes n (le_word bs :: 'a word) ! i = bs ! i"
  proof (rule bit_word_eqI)
    fix j
    assume "j < LENGTH(8)"
    then have j: "j < 8" by simp
    have "8 * i + j < LENGTH('a)" using assms(1) i j by linarith
    then show "bit (le_bytes n (le_word bs :: 'a word) ! i) j = bit (bs ! i) j"
      using i j assms(2) by (simp add: bit_simps bit_le_word)
  qed
qed (simp add: assms)

lemma host_word_host_bytes:
  fixes w :: "'a::len word"
  assumes "LENGTH('a) \<le> 8 * n"
  shows "host_word le (host_bytes le n w) = w"
  using assms
  by (simp add: host_word_def host_bytes_def be_word_def be_bytes_def le_word_le_bytes)

lemma host_bytes_host_word:
  assumes "8 * length bs \<le> LENGTH('a::len)" "n = length bs"
  shows "host_bytes le n (host_word le bs :: 'a word) = bs"
  using assms le_bytes_le_word [where bs = bs and 'a = 'a]
    le_bytes_le_word [where bs = "rev bs" and 'a = 'a]
  by (simp add: host_word_def host_bytes_def be_word_def be_bytes_def)

lemma be_word_be_bytes:
  fixes w :: "'a::len word"
  assumes "LENGTH('a) \<le> 8 * n"
  shows "be_word (be_bytes n w) = w"
  using assms by (simp add: be_word_def be_bytes_def le_word_le_bytes)

lemma le_bytes_bswap:
  fixes w :: "'a::len word"
  assumes "8 * n \<le> LENGTH('a)"
  shows "le_bytes n (bswap n w) = be_bytes n w"
  using assms by (simp add: bswap_def le_bytes_le_word)

lemma be_bytes_bswap:
  fixes w :: "'a::len word"
  assumes "8 * n \<le> LENGTH('a)"
  shows "be_bytes n (bswap n w) = le_bytes n w"
  using assms by (simp add: be_bytes_def [of n "bswap n w"] le_bytes_bswap) (simp add: be_bytes_def)

lemma bswap_bswap:
  fixes w :: "'a::len word"
  assumes "8 * n = LENGTH('a)"
  shows "bswap n (bswap n w) = w"
  using assms by (simp add: bswap_def [of n "bswap n w"] be_bytes_bswap le_word_le_bytes)

lemma bit_bswap:
  fixes w :: "'a::len word"
  assumes "8 * n = LENGTH('a)" "i < LENGTH('a)"
  shows "bit (bswap n w) i = bit w (8 * (n - 1 - i div 8) + i mod 8)"
proof -
  have "i div 8 < n" using assms by auto
  then show ?thesis using assms
    by (simp add: bswap_def bit_le_word be_bytes_def rev_nth bit_simps) 
qed

end
