(* ===== verification/Pool_Buffer.thy ===== *)
theory Pool_Buffer
  imports Prelude
begin

text \<open>
  \<^verbatim>\<open>PoolBuffer\<close> and \<^verbatim>\<open>UdpPoolBuffer\<close> of socket_buffer.hpp: a fixed block of storage that is
  overwritten as a whole. The constructor leaves \<^verbatim>\<open>data_len_\<close> uninitialised, which is \<open>None\<close> here;
  the address of a datagram is an extension of the record, as the class is a subclass.
\<close>

definition max_data_size :: size_t where
  "max_data_size = 81920"

record pool_buffer =
  pb_data :: "byte list"
  pb_data_len :: "size_t option"

record udp_pool_buffer = pool_buffer +
  pb_sock_addr :: "byte list"

definition PoolBuffer_new :: "(nat \<Rightarrow> byte) \<Rightarrow> pool_buffer" where
  "PoolBuffer_new g = \<lparr> pb_data = alloc g (unat max_data_size), pb_data_len = None \<rparr>"

text \<open>The destructor frees the storage and nulls the pointer; the length stays.\<close>

definition PoolBuffer_destroy :: "('a pool_buffer_scheme) \<Rightarrow> ('a pool_buffer_scheme)" where
  "PoolBuffer_destroy p = p\<lparr>pb_data := []\<rparr>"

definition pool_SetData ::
  "byte list \<Rightarrow> size_t \<Rightarrow> ('a pool_buffer_scheme) \<Rightarrow> ('a pool_buffer_scheme) result" where
  "pool_SetData data len p =
     (let available_copy = (if len > max_data_size then max_data_size else len) in
      rbind (mem_write (pb_data p) 0 (replicate (unat max_data_size) 0)) (\<lambda>m.
      rbind (mem_read data 0 (unat available_copy)) (\<lambda>src.
      rbind (mem_write m 0 src) (\<lambda>m'.
      Inr (p\<lparr>pb_data := m', pb_data_len := Some available_copy\<rparr>)))))"

definition pool_Data :: "('a pool_buffer_scheme) \<Rightarrow> byte list" where
  "pool_Data p = pb_data p"

definition pool_DataLen :: "('a pool_buffer_scheme) \<Rightarrow> size_t option" where
  "pool_DataLen p = pb_data_len p"

definition sizeof_sockaddr :: nat where
  "sizeof_sockaddr = 16"

definition udp_SetData ::
  "byte list \<Rightarrow> size_t \<Rightarrow> byte list \<Rightarrow> udp_pool_buffer \<Rightarrow> udp_pool_buffer result" where
  "udp_SetData data len sock_addr p =
     rbind (pool_SetData data len p) (\<lambda>p'.
     rbind (mem_read sock_addr 0 sizeof_sockaddr) (\<lambda>a.
     Inr (p'\<lparr>pb_sock_addr := a\<rparr>)))"

definition udp_TargetAddr :: "udp_pool_buffer \<Rightarrow> byte list" where
  "udp_TargetAddr p = pb_sock_addr p"

definition pool_inv :: "('a pool_buffer_scheme) \<Rightarrow> bool" where
  "pool_inv p \<longleftrightarrow> length (pb_data p) = unat max_data_size \<and>
     (\<forall>n. pb_data_len p = Some n \<longrightarrow> n \<le> max_data_size)"

lemma pool_destroyed:
  "pool_SetData data len (PoolBuffer_destroy p) = Inl Out_Of_Bounds"
  by (simp add: pool_SetData_def PoolBuffer_destroy_def mem_write_def max_data_size_def)

text \<open>What a reader of the buffer gets: the first \<^verbatim>\<open>DataLen()\<close> bytes.\<close>

definition pool_payload :: "('a pool_buffer_scheme) \<Rightarrow> byte list option" where
  "pool_payload p = map_option (\<lambda>n. take (unat n) (pool_Data p)) (pool_DataLen p)"

lemma unat_max_data_size: "unat max_data_size = 81920"
  by (simp add: max_data_size_def)

lemma pool_new_inv: "pool_inv (PoolBuffer_new g)"
  by (simp add: pool_inv_def PoolBuffer_new_def)

lemma overlay_all: "length src = length m \<Longrightarrow> overlay m 0 src = src"
  by (simp add: overlay_def)

text \<open>
  The stored message is the given one cut to the size of the block, and the rest of the block is
  zero: nothing of an earlier message survives.
\<close>

lemma pool_SetData_ok:
  assumes inv: "pool_inv p" and d: "unat len \<le> length data"
  defines "n \<equiv> min (unat len) 81920"
  shows "\<exists>p'. pool_SetData data len p = Inr p' \<and> pool_inv p' \<and>
    pool_payload p' = Some (take n data) \<and>
    pool_Data p' = take n data @ replicate (81920 - n) 0 \<and>
    pool_buffer.more p' = pool_buffer.more p"
proof -
  let ?c = "if len > max_data_size then max_data_size else len"
  have c: "unat ?c = n"
    by (auto simp: n_def unat_max_data_size word_less_nat_alt min_def)
  have z: "mem_write (pb_data p) 0 (replicate (unat max_data_size) 0) = Inr (replicate 81920 0)"
    using inv by (simp add: pool_inv_def unat_max_data_size overlay_all)
  have s: "mem_read data 0 n = Inr (take n data)" using d by (simp add: n_def)
  have ln: "length (take n data) = n" using d by (simp add: n_def)
  have w: "mem_write (replicate 81920 0) 0 (take n data) =
      Inr (take n data @ replicate (81920 - n) 0)"
    using ln by (simp add: overlay_def n_def)
  let ?p = "p\<lparr>pb_data := take n data @ replicate (81920 - n) 0, pb_data_len := Some ?c\<rparr>"
  have "pool_SetData data len p = Inr ?p"
    using c s w by (simp add: pool_SetData_def Let_def z)
  moreover have "pool_inv ?p"
    using c ln by (simp add: pool_inv_def unat_max_data_size word_le_nat_alt n_def)
  ultimately show ?thesis
    using c ln by (simp add: pool_payload_def pool_Data_def pool_DataLen_def)
qed

end
