(* ===== verification/Byte_Order.thy ===== *)
theory Byte_Order
  imports Prelude
begin

text \<open>
  Byte order: the 64 bit swap macro of socket_buffer.hpp, the POSIX conversions the socket code
  calls and the accessors of webrtc/rtc_base/byteorder.h. \<open>le\<close> tells whether the host is little
  endian; integers are bit patterns, so that \<^verbatim>\<open>int32_t\<close> and \<^verbatim>\<open>uint32_t\<close> are both \<^typ>\<open>u32\<close>.
\<close>

definition evppbswap_64 :: "u64 \<Rightarrow> u64" where
  "evppbswap_64 x =
     drop_bit 56 (x AND 0xff00000000000000)
  OR drop_bit 40 (x AND 0x00ff000000000000)
  OR drop_bit 24 (x AND 0x0000ff0000000000)
  OR drop_bit 8 (x AND 0x000000ff00000000)
  OR push_bit 8 (x AND 0x00000000ff000000)
  OR push_bit 24 (x AND 0x0000000000ff0000)
  OR push_bit 40 (x AND 0x000000000000ff00)
  OR push_bit 56 (x AND 0x00000000000000ff)"

text \<open>The masks of the macro are eight ones at a byte boundary: each selects one byte.\<close>

definition byte_mask :: "nat \<Rightarrow> u64" where
  "byte_mask n = push_bit n (mask 8)"

lemma bit_byte_mask: "bit (byte_mask n) i \<longleftrightarrow> i < 64 \<and> n \<le> i \<and> i < n + 8"
  by (auto simp: byte_mask_def bit_push_bit_iff bit_mask_iff)

lemma evppbswap_64_masks:
  "evppbswap_64 x =
     drop_bit 56 (x AND byte_mask 56) OR drop_bit 40 (x AND byte_mask 48)
  OR drop_bit 24 (x AND byte_mask 40) OR drop_bit 8 (x AND byte_mask 32)
  OR push_bit 8 (x AND byte_mask 24) OR push_bit 24 (x AND byte_mask 16)
  OR push_bit 40 (x AND byte_mask 8) OR push_bit 56 (x AND byte_mask 0)"
  by (simp add: evppbswap_64_def byte_mask_def mask_eq_exp_minus_1 push_bit_eq_mult)

lemma bit_evppbswap_64:
  assumes "k < 8" "r < 8"
  shows "bit (evppbswap_64 x) (8 * k + r) = bit x (8 * (7 - k) + r)"
proof -
  have "k = 0 \<or> k = 1 \<or> k = 2 \<or> k = 3 \<or> k = 4 \<or> k = 5 \<or> k = 6 \<or> k = 7"
    using assms(1) by linarith
  then show ?thesis using assms(2)
    by (elim disjE)
      (simp_all add: evppbswap_64_masks bit_or_iff bit_and_iff bit_drop_bit_eq bit_byte_mask
        bit_push_bit_iff)
qed

lemma evppbswap_64_bswap: "evppbswap_64 x = bswap 8 x"
proof (rule bit_word_eqI)
  fix i
  assume "i < LENGTH(64)"
  then have i: "i < 64" by simp
  have "bit (evppbswap_64 x) (8 * (i div 8) + i mod 8) = bit x (8 * (7 - i div 8) + i mod 8)"
    using i by (intro bit_evppbswap_64) auto
  with i show "bit (evppbswap_64 x) i = bit (bswap 8 x) i"
    by (simp add: bit_bswap)
qed

section \<open>Host and network order\<close>

definition htons :: "bool \<Rightarrow> u16 \<Rightarrow> u16" where
  "htons le x = (if le then bswap 2 x else x)"

definition ntohs :: "bool \<Rightarrow> u16 \<Rightarrow> u16" where
  "ntohs le x = (if le then bswap 2 x else x)"

definition htonl :: "bool \<Rightarrow> u32 \<Rightarrow> u32" where
  "htonl le x = (if le then bswap 4 x else x)"

definition ntohl :: "bool \<Rightarrow> u32 \<Rightarrow> u32" where
  "ntohl le x = (if le then bswap 4 x else x)"

lemma ntohs_htons [simp]: "ntohs le (htons le x) = x"
  by (simp add: ntohs_def htons_def bswap_bswap)

lemma ntohl_htonl [simp]: "ntohl le (htonl le x) = x"
  by (simp add: ntohl_def htonl_def bswap_bswap)

lemma host_bytes_htons: "host_bytes le 2 (htons le x) = be_bytes 2 x"
  by (simp add: host_bytes_def htons_def le_bytes_bswap)

lemma host_bytes_htonl: "host_bytes le 4 (htonl le x) = be_bytes 4 x"
  by (simp add: host_bytes_def htonl_def le_bytes_bswap)

lemma host_bytes_swap64_little: "host_bytes True 8 (evppbswap_64 x) = be_bytes 8 x"
  by (simp add: host_bytes_def evppbswap_64_bswap le_bytes_bswap)

lemma host_bytes_swap64_big: "host_bytes False 8 (evppbswap_64 x) = le_bytes 8 x"
  by (simp add: host_bytes_def evppbswap_64_bswap be_bytes_bswap)

lemma evppbswap_64_involutive [simp]: "evppbswap_64 (evppbswap_64 x) = x"
  by (simp add: evppbswap_64_bswap bswap_bswap)

lemma ntohs_host_word: "length bs = 2 \<Longrightarrow> ntohs le (host_word le bs) = be_word bs"
  by (simp add: ntohs_def host_word_def bswap_def be_bytes_def be_word_def le_bytes_le_word)

lemma ntohl_host_word: "length bs = 4 \<Longrightarrow> ntohl le (host_word le bs) = be_word bs"
  by (simp add: ntohl_def host_word_def bswap_def be_bytes_def be_word_def le_bytes_le_word)

lemma swap64_host_word_little: "length bs = 8 \<Longrightarrow> evppbswap_64 (host_word True bs) = be_word bs"
  by (simp add: evppbswap_64_bswap host_word_def bswap_def be_bytes_def be_word_def
      le_bytes_le_word)

end
