(* ===== verification/Byte_Queue.thy ===== *)
theory Byte_Queue
  imports Prelude
begin

text \<open>
  The interface the two buffers of socket_buffer.hpp share: a queue of bytes with a limited
  room. A producer that finds no room declines, as \<^verbatim>\<open>SendData\<close> does; a consumer takes what is
  there. \<open>RingBuffer\<close> and \<open>SocketBuffer\<close> both provide the interface, in their theories.
\<close>

datatype queue_op = Put "byte list" | Take nat

text \<open>
  A run of operations: the bytes the queue accepted, the bytes taken out of it, and the queue
  it ends with, or the failure that stopped it.
\<close>

fun queue_run ::
  "('q \<Rightarrow> byte list) \<Rightarrow> ('q \<Rightarrow> nat) \<Rightarrow> ('q \<Rightarrow> byte list \<Rightarrow> 'q result) \<Rightarrow>
   ('q \<Rightarrow> nat \<Rightarrow> (byte list \<times> 'q) result) \<Rightarrow> 'q \<Rightarrow> queue_op list \<Rightarrow>
   (byte list \<times> byte list \<times> 'q) result" where
  "queue_run contents room put get q [] = Inr ([], [], q)"
| "queue_run contents room put get q (Put bs # ops) =
     (if length bs \<le> room q then
        rbind (put q bs) (\<lambda>q'.
        rbind (queue_run contents room put get q' ops) (\<lambda>(acc, out, q'').
        Inr (bs @ acc, out, q'')))
      else queue_run contents room put get q ops)"
| "queue_run contents room put get q (Take n # ops) =
     rbind (get q (min n (length (contents q)))) (\<lambda>(bs, q').
     rbind (queue_run contents room put get q' ops) (\<lambda>(acc, out, q'').
     Inr (acc, bs @ out, q'')))"

locale byte_queue =
  fixes contents :: "'q \<Rightarrow> byte list"
    and inv :: "'q \<Rightarrow> bool"
    and room :: "'q \<Rightarrow> nat"
    and put :: "'q \<Rightarrow> byte list \<Rightarrow> 'q result"
    and get :: "'q \<Rightarrow> nat \<Rightarrow> (byte list \<times> 'q) result"
  assumes put_ok: "inv q \<Longrightarrow> length bs \<le> room q \<Longrightarrow>
      \<exists>q'. put q bs = Inr q' \<and> inv q' \<and> contents q' = contents q @ bs"
    and get_ok: "inv q \<Longrightarrow> n \<le> length (contents q) \<Longrightarrow>
      \<exists>q'. get q n = Inr (take n (contents q), q') \<and> inv q' \<and> contents q' = drop n (contents q)"
begin

text \<open>
  No schedule of puts and takes fails, and bytes leave in the order they were accepted, none
  lost, none duplicated.
\<close>

lemma run_conserves:
  "inv q \<Longrightarrow> \<exists>acc out q'. queue_run contents room put get q ops = Inr (acc, out, q') \<and>
    inv q' \<and> out @ contents q' = contents q @ acc"
proof (induction ops arbitrary: q)
  case Nil
  then show ?case by simp
next
  case (Cons oper ops)
  show ?case
  proof (cases oper)
    case (Put bs)
    show ?thesis
    proof (cases "length bs \<le> room q")
      case True
      with Cons.prems obtain q1
        where q1: "put q bs = Inr q1" "inv q1" "contents q1 = contents q @ bs"
        using put_ok by blast
      with Cons.IH [OF q1(2)] True Put show ?thesis by auto
    next
      case False
      with Cons.IH [OF Cons.prems] Put show ?thesis by simp
    qed
  next
    case (Take n)
    let ?n = "min n (length (contents q))"
    obtain q1 where q1: "get q ?n = Inr (take ?n (contents q), q1)" "inv q1"
        "contents q1 = drop ?n (contents q)"
      using get_ok [OF Cons.prems, of ?n] by auto
    obtain acc out q' where run: "queue_run contents room put get q1 ops = Inr (acc, out, q')"
        "inv q'" "out @ contents q' = drop ?n (contents q) @ acc"
      using Cons.IH [OF q1(2)] q1(3) by auto
    then have "take ?n (contents q) @ out @ contents q' = contents q @ acc"
      by (metis append.assoc append_take_drop_id)
    with q1 run Take show ?thesis by simp
  qed
qed

text \<open>Writing a message into an empty queue and taking its length out gives it back.\<close>

lemma put_get:
  assumes "inv q" "contents q = []" "length bs \<le> room q"
  shows "\<exists>q1 q2. put q bs = Inr q1 \<and> get q1 (length bs) = Inr (bs, q2) \<and> inv q2 \<and> contents q2 = []"
proof -
  obtain q1 where q1: "put q bs = Inr q1" "inv q1" "contents q1 = bs"
    using put_ok [OF assms(1,3)] assms(2) by auto
  then obtain q2 where "get q1 (length bs) = Inr (bs, q2)" "inv q2" "contents q2 = []"
    using get_ok [OF q1(2), of "length bs"] by auto
  with q1 show ?thesis by blast
qed

end

end
