(* ===== verification/Socket_Buffer.thy ===== *)
theory Socket_Buffer
  imports Byte_Order Byte_Queue
begin

text \<open>
  The growing buffer of socket_buffer.hpp and socket_buffer.cpp (class \<^verbatim>\<open>SocketBuffer\<close>): a
  prependable area, the unread bytes and the writable area, delimited by two indices of type
  \<^verbatim>\<open>size_t\<close> that wrap as the machine's do. \<open>le\<close> is the host's byte order, \<open>g\<close> what fresh storage
  holds. Every \<^verbatim>\<open>assert\<close> of the class is a check of the definition that models the member.
\<close>

section \<open>State\<close>

record socket_buffer =
  sb_buffer :: "byte list"
  sb_capacity :: size_t
  sb_read_index :: size_t
  sb_write_index :: size_t
  sb_reserved :: size_t

definition kCheapPrependSize :: size_t where
  "kCheapPrependSize = 8"

definition kInitialSize :: size_t where
  "kInitialSize = 65536"

definition sb_length :: "socket_buffer \<Rightarrow> size_t" where
  "sb_length b = sb_write_index b - sb_read_index b"

definition sb_WritableBytes :: "socket_buffer \<Rightarrow> size_t result" where
  "sb_WritableBytes b =
     assert_that (sb_capacity b \<ge> sb_write_index b) (Inr (sb_capacity b - sb_write_index b))"

definition sb_PrependableBytes :: "socket_buffer \<Rightarrow> size_t" where
  "sb_PrependableBytes b = sb_read_index b"

definition SocketBuffer_new ::
  "(nat \<Rightarrow> byte) \<Rightarrow> size_t \<Rightarrow> size_t \<Rightarrow> socket_buffer result" where
  "SocketBuffer_new g initial_size reserved_prepend_size =
     (let cap = reserved_prepend_size + initial_size;
          b = \<lparr> sb_buffer = alloc g (unat cap), sb_capacity = cap,
                sb_read_index = reserved_prepend_size, sb_write_index = reserved_prepend_size,
                sb_reserved = reserved_prepend_size \<rparr> in
      assert_that (sb_length b = 0)
        (rbind (sb_WritableBytes b) (\<lambda>w.
         assert_that (w = initial_size)
           (assert_that (sb_PrependableBytes b = reserved_prepend_size) (Inr b)))))"

text \<open>The destructor frees the storage and zeroes the capacity; the indices stay.\<close>

definition SocketBuffer_destroy :: "socket_buffer \<Rightarrow> socket_buffer" where
  "SocketBuffer_destroy b = b\<lparr>sb_buffer := [], sb_capacity := 0\<rparr>"

text \<open>Pointers into the storage are offsets from its begin.\<close>

definition sb_begin :: "socket_buffer \<Rightarrow> nat" where
  "sb_begin b = 0"

definition sb_data :: "socket_buffer \<Rightarrow> nat" where
  "sb_data b = sb_begin b + unat (sb_read_index b)"

definition sb_WriteBegin :: "socket_buffer \<Rightarrow> nat" where
  "sb_WriteBegin b = sb_begin b + unat (sb_write_index b)"

definition sb_get_capacity :: "socket_buffer \<Rightarrow> size_t" where
  "sb_get_capacity b = sb_capacity b"

section \<open>Discarding\<close>

definition sb_Truncate :: "size_t \<Rightarrow> socket_buffer \<Rightarrow> socket_buffer" where
  "sb_Truncate n b =
     (if n = 0 then b\<lparr>sb_read_index := sb_reserved b, sb_write_index := sb_reserved b\<rparr>
      else if sb_write_index b > sb_read_index b + n
      then b\<lparr>sb_write_index := sb_read_index b + n\<rparr>
      else b)"

definition sb_Reset :: "socket_buffer \<Rightarrow> socket_buffer" where
  "sb_Reset b = sb_Truncate 0 b"

definition sb_Skip :: "size_t \<Rightarrow> socket_buffer \<Rightarrow> socket_buffer" where
  "sb_Skip len b =
     (if len < sb_length b then b\<lparr>sb_read_index := sb_read_index b + len\<rparr> else sb_Reset b)"

definition sb_Retrieve :: "size_t \<Rightarrow> socket_buffer \<Rightarrow> socket_buffer" where
  "sb_Retrieve len b = sb_Skip len b"

definition sb_Next :: "size_t \<Rightarrow> socket_buffer \<Rightarrow> socket_buffer" where
  "sb_Next len b =
     (if len \<le> sb_length b then b\<lparr>sb_read_index := sb_read_index b + len\<rparr> else b)"

definition sb_UnreadBytes :: "size_t \<Rightarrow> socket_buffer \<Rightarrow> socket_buffer result" where
  "sb_UnreadBytes n b =
     assert_that (n < sb_read_index b) (Inr (b\<lparr>sb_read_index := sb_read_index b - n\<rparr>))"

definition sb_UnwriteBytes :: "size_t \<Rightarrow> socket_buffer \<Rightarrow> socket_buffer result" where
  "sb_UnwriteBytes n b =
     assert_that (n \<le> sb_length b) (Inr (b\<lparr>sb_write_index := sb_write_index b - n\<rparr>))"

definition sb_WriteBytes :: "size_t \<Rightarrow> socket_buffer \<Rightarrow> socket_buffer result" where
  "sb_WriteBytes n b =
     rbind (sb_WritableBytes b) (\<lambda>w.
     assert_that (n \<le> w) (Inr (b\<lparr>sb_write_index := sb_write_index b + n\<rparr>)))"

section \<open>Growing and writing\<close>

definition sb_grow :: "(nat \<Rightarrow> byte) \<Rightarrow> socket_buffer \<Rightarrow> size_t \<Rightarrow> socket_buffer result" where
  "sb_grow g b len =
     rbind (sb_WritableBytes b) (\<lambda>w.
     if w + sb_PrependableBytes b < len + sb_reserved b then
       let n = push_bit 1 (sb_capacity b) + len;
           m = sb_length b;
           d = alloc g (unat n) in
       rbind (mem_read (sb_buffer b) (unat (sb_read_index b)) (unat m)) (\<lambda>src.
       rbind (mem_write d (unat (sb_reserved b)) src) (\<lambda>d'.
       Inr (b\<lparr>sb_write_index := m + sb_reserved b, sb_read_index := sb_reserved b,
              sb_capacity := n, sb_buffer := d'\<rparr>)))
     else
       assert_that (sb_reserved b < sb_read_index b)
         (let readable = sb_length b in
          rbind (mem_read (sb_buffer b) (unat (sb_read_index b)) (unat readable)) (\<lambda>src.
          rbind (mem_write (sb_buffer b) (unat (sb_reserved b)) src) (\<lambda>d.
          let b' = b\<lparr>sb_buffer := d, sb_read_index := sb_reserved b,
                     sb_write_index := sb_reserved b + readable\<rparr> in
          assert_that (readable = sb_length b')
            (rbind (sb_WritableBytes b') (\<lambda>w'.
             assert_that (w' \<ge> len) (Inr b')))))))"

definition sb_Reserve :: "(nat \<Rightarrow> byte) \<Rightarrow> size_t \<Rightarrow> socket_buffer \<Rightarrow> socket_buffer result" where
  "sb_Reserve g len b =
     (if sb_capacity b \<ge> len + sb_reserved b then Inr b
      else sb_grow g b (len + sb_reserved b))"

definition sb_EnsureWritableBytes ::
  "(nat \<Rightarrow> byte) \<Rightarrow> size_t \<Rightarrow> socket_buffer \<Rightarrow> socket_buffer result" where
  "sb_EnsureWritableBytes g len b =
     rbind (sb_WritableBytes b) (\<lambda>w.
     rbind (if w < len then sb_grow g b len else Inr b) (\<lambda>b'.
     rbind (sb_WritableBytes b') (\<lambda>w'.
     assert_that (w' \<ge> len) (Inr b'))))"

text \<open>\<open>d\<close> is the memory the caller's pointer points to.\<close>

definition sb_Write ::
  "(nat \<Rightarrow> byte) \<Rightarrow> byte list \<Rightarrow> size_t \<Rightarrow> socket_buffer \<Rightarrow> socket_buffer result" where
  "sb_Write g d len b =
     rbind (sb_EnsureWritableBytes g len b) (\<lambda>b'.
     rbind (mem_read d 0 (unat len)) (\<lambda>src.
     rbind (mem_write (sb_buffer b') (unat (sb_write_index b')) src) (\<lambda>m.
     assert_that (sb_write_index b' + len \<le> sb_capacity b')
       (Inr (b'\<lparr>sb_buffer := m, sb_write_index := sb_write_index b' + len\<rparr>)))))"

definition sb_Append ::
  "(nat \<Rightarrow> byte) \<Rightarrow> byte list \<Rightarrow> size_t \<Rightarrow> socket_buffer \<Rightarrow> socket_buffer result" where
  "sb_Append g d len b = sb_Write g d len b"

definition sb_AppendInt64 :: "bool \<Rightarrow> (nat \<Rightarrow> byte) \<Rightarrow> u64 \<Rightarrow> socket_buffer \<Rightarrow> socket_buffer result" where
  "sb_AppendInt64 le g x b = (let be = evppbswap_64 x in sb_Write g (host_bytes le 8 be) 8 b)"

definition sb_AppendInt32 :: "bool \<Rightarrow> (nat \<Rightarrow> byte) \<Rightarrow> u32 \<Rightarrow> socket_buffer \<Rightarrow> socket_buffer result" where
  "sb_AppendInt32 le g x b = (let be32 = htonl le x in sb_Write g (host_bytes le 4 be32) 4 b)"

definition sb_AppendInt16 :: "bool \<Rightarrow> (nat \<Rightarrow> byte) \<Rightarrow> u16 \<Rightarrow> socket_buffer \<Rightarrow> socket_buffer result" where
  "sb_AppendInt16 le g x b = (let be16 = htons le x in sb_Write g (host_bytes le 2 be16) 2 b)"

definition sb_AppendInt8 :: "(nat \<Rightarrow> byte) \<Rightarrow> byte \<Rightarrow> socket_buffer \<Rightarrow> socket_buffer result" where
  "sb_AppendInt8 g x b = sb_Write g [x] 1 b"

definition sb_ToText :: "(nat \<Rightarrow> byte) \<Rightarrow> socket_buffer \<Rightarrow> socket_buffer result" where
  "sb_ToText g b = rbind (sb_AppendInt8 g 0 b) (sb_UnwriteBytes 1)"

definition sb_Prepend :: "byte list \<Rightarrow> size_t \<Rightarrow> socket_buffer \<Rightarrow> socket_buffer result" where
  "sb_Prepend d len b =
     assert_that (len \<le> sb_PrependableBytes b)
       (let b' = b\<lparr>sb_read_index := sb_read_index b - len\<rparr> in
        rbind (mem_read d 0 (unat len)) (\<lambda>src.
        rbind (mem_write (sb_buffer b') (unat (sb_read_index b')) src) (\<lambda>m.
        Inr (b'\<lparr>sb_buffer := m\<rparr>))))"

definition sb_PrependInt64 :: "bool \<Rightarrow> u64 \<Rightarrow> socket_buffer \<Rightarrow> socket_buffer result" where
  "sb_PrependInt64 le x b = (let be = evppbswap_64 x in sb_Prepend (host_bytes le 8 be) 8 b)"

definition sb_PrependInt32 :: "bool \<Rightarrow> u32 \<Rightarrow> socket_buffer \<Rightarrow> socket_buffer result" where
  "sb_PrependInt32 le x b = (let be32 = htonl le x in sb_Prepend (host_bytes le 4 be32) 4 b)"

definition sb_PrependInt16 :: "bool \<Rightarrow> u16 \<Rightarrow> socket_buffer \<Rightarrow> socket_buffer result" where
  "sb_PrependInt16 le x b = (let be16 = htons le x in sb_Prepend (host_bytes le 2 be16) 2 b)"

definition sb_PrependInt8 :: "byte \<Rightarrow> socket_buffer \<Rightarrow> socket_buffer result" where
  "sb_PrependInt8 x b = sb_Prepend [x] 1 b"

section \<open>Peeking and reading\<close>

definition sb_peek :: "size_t \<Rightarrow> socket_buffer \<Rightarrow> byte list result" where
  "sb_peek n b =
     assert_that (sb_length b \<ge> n) (mem_read (sb_buffer b) (unat (sb_read_index b)) (unat n))"

definition sb_PeekInt64 :: "bool \<Rightarrow> socket_buffer \<Rightarrow> u64 result" where
  "sb_PeekInt64 le b = rbind (sb_peek 8 b) (\<lambda>bs. Inr (evppbswap_64 (host_word le bs)))"

definition sb_PeekInt32 :: "bool \<Rightarrow> socket_buffer \<Rightarrow> u32 result" where
  "sb_PeekInt32 le b = rbind (sb_peek 4 b) (\<lambda>bs. Inr (ntohl le (host_word le bs)))"

definition sb_PeekInt16 :: "bool \<Rightarrow> socket_buffer \<Rightarrow> u16 result" where
  "sb_PeekInt16 le b = rbind (sb_peek 2 b) (\<lambda>bs. Inr (ntohs le (host_word le bs)))"

definition sb_PeekUInt16 :: "bool \<Rightarrow> socket_buffer \<Rightarrow> u16 result" where
  "sb_PeekUInt16 le b = rbind (sb_peek 2 b) (\<lambda>bs. Inr (ntohs le (host_word le bs)))"

definition sb_PeekInt8 :: "socket_buffer \<Rightarrow> byte result" where
  "sb_PeekInt8 b = rbind (sb_peek 1 b) (\<lambda>bs. Inr (hd bs))"

definition sb_ReadInt64 :: "bool \<Rightarrow> socket_buffer \<Rightarrow> (u64 \<times> socket_buffer) result" where
  "sb_ReadInt64 le b = rbind (sb_PeekInt64 le b) (\<lambda>x. Inr (x, sb_Skip 8 b))"

definition sb_ReadInt32 :: "bool \<Rightarrow> socket_buffer \<Rightarrow> (u32 \<times> socket_buffer) result" where
  "sb_ReadInt32 le b = rbind (sb_PeekInt32 le b) (\<lambda>x. Inr (x, sb_Skip 4 b))"

definition sb_ReadInt16 :: "bool \<Rightarrow> socket_buffer \<Rightarrow> (u16 \<times> socket_buffer) result" where
  "sb_ReadInt16 le b = rbind (sb_PeekInt16 le b) (\<lambda>x. Inr (x, sb_Skip 2 b))"

definition sb_ReadUInt16 :: "bool \<Rightarrow> socket_buffer \<Rightarrow> (u16 \<times> socket_buffer) result" where
  "sb_ReadUInt16 le b = rbind (sb_PeekInt16 le b) (\<lambda>x. Inr (x, sb_Skip 2 b))"

definition sb_ReadInt8 :: "socket_buffer \<Rightarrow> (byte \<times> socket_buffer) result" where
  "sb_ReadInt8 b = rbind (sb_PeekInt8 b) (\<lambda>x. Inr (x, sb_Skip 1 b))"

definition sb_ToString :: "socket_buffer \<Rightarrow> byte list result" where
  "sb_ToString b = mem_read (sb_buffer b) (unat (sb_read_index b)) (unat (sb_length b))"

definition sb_ReadByte :: "socket_buffer \<Rightarrow> (byte \<times> socket_buffer) result" where
  "sb_ReadByte b =
     assert_that (sb_length b \<ge> 1)
       (if sb_length b = 0 then Inr (0, b)
        else rbind (mem_read (sb_buffer b) (unat (sb_read_index b)) 1) (\<lambda>bs.
          Inr (hd bs, b\<lparr>sb_read_index := sb_read_index b + 1\<rparr>)))"

text \<open>
  \<^verbatim>\<open>readv\<close> is the system call: given the total length of the vectors it is called with, it fails
  with an errno or returns the bytes it stored, first behind the write index, then in the 64k
  extra buffer. The result is \<^verbatim>\<open>n\<close> or the saved errno, with the buffer afterwards.
\<close>

definition sb_ReadFromFD ::
  "(nat \<Rightarrow> byte) \<Rightarrow> (nat \<Rightarrow> int + byte list) \<Rightarrow> socket_buffer \<Rightarrow> ((int + nat) \<times> socket_buffer) result"
where
  "sb_ReadFromFD g readv b =
     rbind (sb_WritableBytes b) (\<lambda>writable.
     let total = (if writable < 65536 then unat writable + 65536 else unat writable) in
     case readv total of
       Inl errno \<Rightarrow> Inr (Inl errno, b)
     | Inr bs \<Rightarrow>
         let n = length bs;
             first = take (unat writable) bs;
             extrabuf = drop (unat writable) bs in
         rbind (mem_write (sb_buffer b) (unat (sb_write_index b)) first) (\<lambda>m.
         let b1 = b\<lparr>sb_buffer := m\<rparr> in
         if n \<le> unat writable then
           Inr (Inr n, b1\<lparr>sb_write_index := sb_write_index b1 + of_nat n\<rparr>)
         else
           rbind (sb_Append g extrabuf (of_nat n - writable)
             (b1\<lparr>sb_write_index := sb_capacity b1\<rparr>)) (\<lambda>b2.
           Inr (Inr n, b2))))"

section \<open>Searching\<close>

text \<open>\<^verbatim>\<open>std::search\<close> returns the first position of the pattern, or the end.\<close>

fun std_search :: "byte list \<Rightarrow> byte list \<Rightarrow> nat" where
  "std_search pat [] = 0"
| "std_search pat (x # xs) =
     (if take (length pat) (x # xs) = pat then 0 else Suc (std_search pat xs))"

definition kCRLF :: "byte list" where
  "kCRLF = [13, 10]"

text \<open>Results are offsets from \<^verbatim>\<open>begin()\<close>; \<open>None\<close> is the null pointer.\<close>

definition sb_FindCRLF_from :: "size_t \<Rightarrow> socket_buffer \<Rightarrow> nat option result" where
  "sb_FindCRLF_from start b =
     assert_that (sb_read_index b \<le> start)
       (assert_that (start \<le> sb_write_index b)
         (rbind (mem_read (sb_buffer b) (unat start) (unat (sb_write_index b - start))) (\<lambda>bs.
          let crlf = unat start + std_search kCRLF bs in
          Inr (if crlf = unat (sb_write_index b) then None else Some crlf))))"

definition sb_FindCRLF :: "socket_buffer \<Rightarrow> nat option result" where
  "sb_FindCRLF b =
     rbind (mem_read (sb_buffer b) (unat (sb_read_index b)) (unat (sb_length b))) (\<lambda>bs.
     let crlf = unat (sb_read_index b) + std_search kCRLF bs in
     Inr (if crlf = unat (sb_write_index b) then None else Some crlf))"

fun memchr :: "byte \<Rightarrow> byte list \<Rightarrow> nat option" where
  "memchr c [] = None"
| "memchr c (x # xs) = (if x = c then Some 0 else map_option Suc (memchr c xs))"

definition sb_FindEOL_from :: "size_t \<Rightarrow> socket_buffer \<Rightarrow> nat option result" where
  "sb_FindEOL_from start b =
     assert_that (sb_read_index b \<le> start)
       (assert_that (start \<le> sb_write_index b)
         (rbind (mem_read (sb_buffer b) (unat start) (unat (sb_write_index b - start))) (\<lambda>bs.
          Inr (map_option (\<lambda>i. unat start + i) (memchr 10 bs)))))"

definition sb_FindEOL :: "socket_buffer \<Rightarrow> nat option result" where
  "sb_FindEOL b =
     rbind (mem_read (sb_buffer b) (unat (sb_read_index b)) (unat (sb_length b))) (\<lambda>bs.
     Inr (map_option (\<lambda>i. unat (sb_read_index b) + i) (memchr 10 bs)))"

section \<open>Well-formedness and contents\<close>

definition sb_inv :: "socket_buffer \<Rightarrow> bool" where
  "sb_inv b \<longleftrightarrow>
     length (sb_buffer b) = unat (sb_capacity b) \<and>
     sb_read_index b \<le> sb_write_index b \<and>
     sb_write_index b \<le> sb_capacity b \<and>
     sb_reserved b \<le> sb_capacity b"

definition sb_contents :: "socket_buffer \<Rightarrow> byte list" where
  "sb_contents b =
     take (unat (sb_write_index b) - unat (sb_read_index b))
       (drop (unat (sb_read_index b)) (sb_buffer b))"

definition sb_writable :: "socket_buffer \<Rightarrow> nat" where
  "sb_writable b = unat (sb_capacity b) - unat (sb_write_index b)"

lemma sb_invD:
  assumes "sb_inv b"
  shows "length (sb_buffer b) = unat (sb_capacity b)"
    and "unat (sb_read_index b) \<le> unat (sb_write_index b)"
    and "unat (sb_write_index b) \<le> unat (sb_capacity b)"
    and "unat (sb_reserved b) \<le> unat (sb_capacity b)"
  using assms by (simp_all add: sb_inv_def word_le_nat_alt)

lemma sb_invI:
  assumes "length (sb_buffer b) = unat (sb_capacity b)"
    and "unat (sb_read_index b) \<le> unat (sb_write_index b)"
    and "unat (sb_write_index b) \<le> unat (sb_capacity b)"
    and "unat (sb_reserved b) \<le> unat (sb_capacity b)"
  shows "sb_inv b"
  using assms by (simp add: sb_inv_def word_le_nat_alt)

lemma unat_sb_length:
  assumes "sb_inv b"
  shows "unat (sb_length b) = unat (sb_write_index b) - unat (sb_read_index b)"
  using sb_invD(2) [OF assms] by (simp add: sb_length_def unat_minus_fits)

lemma length_sb_contents:
  assumes "sb_inv b"
  shows "length (sb_contents b) = unat (sb_length b)"
  using sb_invD [OF assms] by (simp add: unat_sb_length [OF assms] sb_contents_def)

lemma sb_WritableBytes_ok:
  assumes "sb_inv b"
  shows "sb_WritableBytes b = Inr (sb_capacity b - sb_write_index b)"
    and "unat (sb_capacity b - sb_write_index b) = sb_writable b"
  using sb_invD(3) [OF assms]
  by (simp_all add: sb_WritableBytes_def sb_writable_def word_le_nat_alt unat_minus_fits)

text \<open>The pointers delimit the unread bytes; a destroyed buffer has room for nothing.\<close>

lemma sb_pointers:
  assumes "sb_inv b"
  shows "sb_contents b = take (sb_WriteBegin b - sb_data b) (drop (sb_data b) (sb_buffer b))"
    and "sb_WriteBegin b \<le> unat (sb_get_capacity b)"
  using assms
  by (simp_all add: sb_contents_def sb_WriteBegin_def sb_data_def sb_begin_def sb_get_capacity_def
    sb_inv_def word_le_nat_alt)

lemma sb_destroyed:
  "sb_write_index b \<noteq> 0 \<Longrightarrow> sb_WritableBytes (SocketBuffer_destroy b) = Inl Assert_Failed"
  by (simp add: sb_WritableBytes_def SocketBuffer_destroy_def assert_that_def)

lemma sb_unread_read:
  assumes "sb_inv b" "n \<le> length (sb_contents b)"
  shows "mem_read (sb_buffer b) (unat (sb_read_index b)) n = Inr (take n (sb_contents b))"
proof -
  have "n \<le> unat (sb_write_index b) - unat (sb_read_index b)"
    using assms by (simp add: length_sb_contents unat_sb_length)
  with sb_invD [OF assms(1)] show ?thesis by (simp add: sb_contents_def min_def)
qed

section \<open>Construction and discarding\<close>

lemma SocketBuffer_new_ok:
  assumes "unat i + unat p < 2 ^ 64"
  shows "\<exists>b. SocketBuffer_new g i p = Inr b \<and> sb_inv b \<and> sb_contents b = [] \<and>
    sb_writable b = unat i \<and> sb_reserved b = p"
proof -
  have "unat (p + i) = unat p + unat i" using assms by (intro unat_plus_fits) simp
  then show ?thesis
    by (simp add: SocketBuffer_new_def sb_length_def sb_WritableBytes_def sb_PrependableBytes_def
        Let_def word_le_nat_alt sb_inv_def sb_contents_def sb_writable_def)
qed

lemma sb_Reset_ok:
  assumes "sb_inv b"
  shows "sb_inv (sb_Reset b)" and "sb_contents (sb_Reset b) = []"
  using assms by (simp_all add: sb_Reset_def sb_Truncate_def sb_inv_def sb_contents_def)

lemma sb_advance:
  assumes inv: "sb_inv b" and n: "unat n \<le> length (sb_contents b)"
  defines "b' \<equiv> b\<lparr>sb_read_index := sb_read_index b + n\<rparr>"
  shows "sb_inv b'" and "sb_contents b' = drop (unat n) (sb_contents b)"
proof -
  note bd = sb_invD [OF inv]
  have n': "unat n \<le> unat (sb_write_index b) - unat (sb_read_index b)"
    using n inv by (simp add: length_sb_contents unat_sb_length)
  have "unat (sb_read_index b) + unat n \<le> unat (sb_write_index b)"
    using n' bd(2) by linarith
  then have "unat (sb_read_index b + n) = unat (sb_read_index b) + unat n"
    by (intro unat_plus_fits) (use unat_lt_2p64 [of "sb_write_index b"] in simp)
  with bd n' show "sb_inv b'" and "sb_contents b' = drop (unat n) (sb_contents b)"
    by (auto intro!: sb_invI simp: b'_def sb_contents_def drop_take add.commute)
qed

lemma sb_Skip_ok:
  assumes "sb_inv b"
  shows "sb_inv (sb_Skip n b)" and "sb_contents (sb_Skip n b) = drop (unat n) (sb_contents b)"
  using sb_advance [OF assms, of n] sb_Reset_ok [OF assms] length_sb_contents [OF assms]
  by (auto simp: sb_Skip_def word_less_nat_alt)

lemma sb_Next_ok:
  assumes "sb_inv b" "unat n \<le> length (sb_contents b)"
  shows "sb_inv (sb_Next n b)" and "sb_contents (sb_Next n b) = drop (unat n) (sb_contents b)"
  using sb_advance [OF assms] assms length_sb_contents [OF assms(1)]
  by (auto simp: sb_Next_def word_le_nat_alt)

lemma sb_Truncate_ok:
  assumes inv: "sb_inv b" and n: "unat (sb_read_index b) + unat n < 2 ^ 64"
  shows "sb_inv (sb_Truncate n b)"
    and "sb_contents (sb_Truncate n b) = take (unat n) (sb_contents b)"
proof -
  note bd = sb_invD [OF inv]
  have "unat (sb_read_index b + n) = unat (sb_read_index b) + unat n"
    using n by (intro unat_plus_fits) simp
  note plus = this
  have full: "take (unat n) (sb_contents b) = sb_contents b"
    if "\<not> unat (sb_read_index b) + unat n < unat (sb_write_index b)"
    using that length_sb_contents [OF inv] unat_sb_length [OF inv] by simp
  have part: "take (unat n) (sb_contents b) = take (unat n) (drop (unat (sb_read_index b)) (sb_buffer b))"
    if "unat (sb_read_index b) + unat n < unat (sb_write_index b)"
    using that by (simp add: sb_contents_def min_def)
  show "sb_inv (sb_Truncate n b)"
    and "sb_contents (sb_Truncate n b) = take (unat n) (sb_contents b)"
  proof (atomize (full), cases "n = 0")
    case True
    then show "sb_inv (sb_Truncate n b) \<and>
        sb_contents (sb_Truncate n b) = take (unat n) (sb_contents b)"
      using sb_Reset_ok [OF inv] by (simp add: sb_Reset_def)
  next
    case nz: False
    show "sb_inv (sb_Truncate n b) \<and>
        sb_contents (sb_Truncate n b) = take (unat n) (sb_contents b)"
    proof (cases "unat (sb_read_index b) + unat n < unat (sb_write_index b)")
      case True
      with nz plus bd part show ?thesis
        by (simp add: sb_Truncate_def word_less_nat_alt sb_inv_def word_le_nat_alt sb_contents_def [of "b\<lparr>sb_write_index := sb_read_index b + n\<rparr>"])
    next
      case False
      with nz plus inv full show ?thesis
        by (simp add: sb_Truncate_def word_less_nat_alt)
    qed
  qed
qed

section \<open>Growing\<close>

text \<open>Moving the unread bytes to offset \<open>reserved\<close> of any storage that holds them.\<close>

lemma sb_relocate:
  assumes inv: "sb_inv b" and room: "unat (sb_reserved b) + length (sb_contents b) \<le> unat n"
    and d: "length d = unat n"
    and b': "sb_buffer b' = overlay d (unat (sb_reserved b)) (sb_contents b)"
      "sb_read_index b' = sb_reserved b" "sb_write_index b' = sb_length b + sb_reserved b"
      "sb_capacity b' = n" "sb_reserved b' = sb_reserved b"
  shows "sb_inv b'" and "sb_contents b' = sb_contents b"
    and "sb_writable b' = unat n - (unat (sb_reserved b) + length (sb_contents b))"
proof -
  have len: "unat (sb_length b) = length (sb_contents b)"
    using length_sb_contents [OF inv] by simp
  have w: "unat (sb_length b + sb_reserved b) = length (sb_contents b) + unat (sb_reserved b)"
    using room len unat_lt_2p64 [of n] by (subst unat_plus_fits) auto
  show "sb_inv b'" using w room d by (intro sb_invI) (simp_all add: b')
  show "sb_contents b' = sb_contents b"
    using w room d take_drop_overlay [of "unat (sb_reserved b)" "sb_contents b" d]
    by (simp add: sb_contents_def [of b'] b')
  show "sb_writable b' = unat n - (unat (sb_reserved b) + length (sb_contents b))"
    using w by (simp add: b' sb_writable_def add.commute)
qed

lemma sb_grow_ok:
  assumes inv: "sb_inv b" and need: "sb_writable b < unat len"
    and fit: "2 * unat (sb_capacity b) + unat len < 2 ^ 64"
  shows "\<exists>b'. sb_grow g b len = Inr b' \<and> sb_inv b' \<and> sb_contents b' = sb_contents b \<and>
    unat len \<le> sb_writable b' \<and> sb_reserved b' = sb_reserved b \<and>
    unat (sb_capacity b') \<le> 2 * unat (sb_capacity b) + unat len"
proof -
  note bd = sb_invD [OF inv]
  note wr = sb_WritableBytes_ok [OF inv]
  have len: "unat (sb_length b) = length (sb_contents b)"
      "length (sb_contents b) = unat (sb_write_index b) - unat (sb_read_index b)"
    using length_sb_contents [OF inv] unat_sb_length [OF inv] by simp_all
  have src: "mem_read (sb_buffer b) (unat (sb_read_index b)) (unat (sb_length b)) = Inr (sb_contents b)"
    using sb_unread_read [OF inv] len by simp
  have wp: "unat (sb_capacity b - sb_write_index b + sb_PrependableBytes b) =
      sb_writable b + unat (sb_read_index b)"
    using bd unat_lt_2p64 [of "sb_capacity b"]
    by (subst unat_plus_fits) (auto simp: wr(2) sb_PrependableBytes_def sb_writable_def)
  have lr: "unat (len + sb_reserved b) = unat len + unat (sb_reserved b)"
    using fit bd by (intro unat_plus_fits) simp
  have n: "unat (push_bit 1 (sb_capacity b) + len) = 2 * unat (sb_capacity b) + unat len"
    using fit by (simp add: push_bit_eq_mult unat_word_ariths)
  show ?thesis
  proof (cases "sb_writable b + unat (sb_read_index b) < unat len + unat (sb_reserved b)")
    case True
    let ?n = "push_bit 1 (sb_capacity b) + len"
    let ?d = "alloc g (unat ?n)"
    let ?b = "b\<lparr>sb_write_index := sb_length b + sb_reserved b, sb_read_index := sb_reserved b,
      sb_capacity := ?n, sb_buffer := overlay ?d (unat (sb_reserved b)) (sb_contents b)\<rparr>"
    have room: "unat (sb_reserved b) + length (sb_contents b) \<le> unat ?n"
      using n bd len by simp
    have "sb_grow g b len = Inr ?b"
      using True wp lr wr src room by (simp add: sb_grow_def Let_def word_less_nat_alt)
    moreover have "unat len \<le> sb_writable ?b"
      using sb_relocate(3) [OF inv room, of ?d ?b] n bd len by simp
    ultimately show ?thesis
      using sb_relocate(1,2) [OF inv room, of ?d ?b] n by simp
  next
    case False
    then have lt: "unat (sb_reserved b) < unat (sb_read_index b)" using need by linarith
    have room: "unat (sb_reserved b) + length (sb_contents b) \<le> unat (sb_capacity b)"
      using lt bd len by simp
    let ?b = "b\<lparr>sb_buffer := overlay (sb_buffer b) (unat (sb_reserved b)) (sb_contents b),
      sb_read_index := sb_reserved b, sb_write_index := sb_reserved b + sb_length b\<rparr>"
    have new: "sb_inv ?b" "sb_contents ?b = sb_contents b" "unat len \<le> sb_writable ?b"
      using sb_relocate [OF inv room bd(1), of ?b] False len bd
      by (simp_all add: sb_writable_def [of b] add.commute)
    moreover have "sb_length ?b = sb_length b" by (simp add: sb_length_def)
    moreover have "unat (sb_reserved b) + length (sb_contents b) \<le> length (sb_buffer b)"
      using room bd by simp
    ultimately have "sb_grow g b len = Inr ?b"
      using False wp lr wr src lt sb_WritableBytes_ok [OF new(1)]
      by (simp add: sb_grow_def Let_def word_less_nat_alt word_le_nat_alt)
    with new show ?thesis by simp
  qed
qed

lemma sb_EnsureWritableBytes_ok:
  assumes inv: "sb_inv b" and fit: "2 * unat (sb_capacity b) + unat len < 2 ^ 64"
  shows "\<exists>b'. sb_EnsureWritableBytes g len b = Inr b' \<and> sb_inv b' \<and>
    sb_contents b' = sb_contents b \<and> unat len \<le> sb_writable b' \<and> sb_reserved b' = sb_reserved b \<and>
    unat (sb_capacity b') \<le> 2 * unat (sb_capacity b) + unat len"
proof (cases "sb_writable b < unat len")
  case True
  then obtain b' where b': "sb_grow g b len = Inr b'" "sb_inv b'" "unat len \<le> sb_writable b'"
    "sb_contents b' = sb_contents b" "sb_reserved b' = sb_reserved b"
    "unat (sb_capacity b') \<le> 2 * unat (sb_capacity b) + unat len"
    using sb_grow_ok [OF inv _ fit] by blast
  with True show ?thesis
    using sb_WritableBytes_ok [OF inv] sb_WritableBytes_ok [OF b'(2)]
    by (simp add: sb_EnsureWritableBytes_def word_less_nat_alt word_le_nat_alt)
next
  case False
  with inv show ?thesis
    using sb_WritableBytes_ok [OF inv]
    by (simp add: sb_EnsureWritableBytes_def word_less_nat_alt word_le_nat_alt)
qed

section \<open>Writing\<close>

text \<open>Bytes stored behind the write index become the end of the contents.\<close>

lemma sb_extend:
  assumes inv: "sb_inv b" and n: "unat n = length bs" "length bs \<le> sb_writable b"
  defines "b' \<equiv> b\<lparr>sb_buffer := overlay (sb_buffer b) (unat (sb_write_index b)) bs,
      sb_write_index := sb_write_index b + n\<rparr>"
  shows "sb_inv b'" and "sb_contents b' = sb_contents b @ bs"
    and "unat (sb_write_index b + n) = unat (sb_write_index b) + length bs"
    and "mem_write (sb_buffer b) (unat (sb_write_index b)) bs =
      Inr (overlay (sb_buffer b) (unat (sb_write_index b)) bs)"
proof -
  note bd = sb_invD [OF inv]
  have fit: "unat (sb_write_index b) + length bs \<le> unat (sb_capacity b)"
    using n(2) bd(3) by (simp add: sb_writable_def)
  show w: "unat (sb_write_index b + n) = unat (sb_write_index b) + length bs"
    using fit n(1) unat_lt_2p64 [of "sb_capacity b"] by (subst unat_plus_fits) auto
  show "mem_write (sb_buffer b) (unat (sb_write_index b)) bs =
      Inr (overlay (sb_buffer b) (unat (sb_write_index b)) bs)"
    using fit bd(1) by simp
  show "sb_inv b'" using bd fit w by (intro sb_invI) (simp_all add: b'_def)
  show "sb_contents b' = sb_contents b @ bs"
    using region_extend [OF bd(2), of bs "sb_buffer b"] fit bd(1) w
    by (simp add: sb_contents_def b'_def)
qed

lemma sb_Write_ok:
  assumes inv: "sb_inv b" and fit: "2 * unat (sb_capacity b) + unat len < 2 ^ 64"
    and d: "unat len \<le> length d"
  shows "\<exists>b'. sb_Write g d len b = Inr b' \<and> sb_inv b' \<and>
    sb_contents b' = sb_contents b @ take (unat len) d \<and> sb_reserved b' = sb_reserved b \<and>
    unat (sb_capacity b') \<le> 2 * unat (sb_capacity b) + unat len"
proof -
  obtain b1 where b1: "sb_EnsureWritableBytes g len b = Inr b1" "sb_inv b1"
    "sb_contents b1 = sb_contents b" "unat len \<le> sb_writable b1" "sb_reserved b1 = sb_reserved b"
    "unat (sb_capacity b1) \<le> 2 * unat (sb_capacity b) + unat len"
    using sb_EnsureWritableBytes_ok [OF inv fit] by blast
  have n: "unat len = length (take (unat len) d)" "length (take (unat len) d) \<le> sb_writable b1"
    using d b1(4) by simp_all
  have "unat (sb_write_index b1 + len) \<le> unat (sb_capacity b1)"
    using sb_extend(3) [OF b1(2) n] n sb_invD(3) [OF b1(2)] by (simp add: sb_writable_def)
  then show ?thesis
    using b1 d sb_extend [OF b1(2) n] by (simp add: sb_Write_def word_le_nat_alt)
qed

lemma sb_UnwriteBytes_ok:
  assumes inv: "sb_inv b" and n: "unat n \<le> length (sb_contents b)"
  shows "\<exists>b'. sb_UnwriteBytes n b = Inr b' \<and> sb_inv b' \<and>
    sb_contents b' = take (length (sb_contents b) - unat n) (sb_contents b) \<and>
    sb_reserved b' = sb_reserved b \<and> sb_capacity b' = sb_capacity b"
proof -
  note bd = sb_invD [OF inv]
  have len: "length (sb_contents b) = unat (sb_write_index b) - unat (sb_read_index b)"
    using length_sb_contents [OF inv] unat_sb_length [OF inv] by simp
  have w: "unat (sb_write_index b - n) = unat (sb_write_index b) - unat n"
    using n len by (intro unat_minus_fits) simp
  let ?b = "b\<lparr>sb_write_index := sb_write_index b - n\<rparr>"
  have "sb_inv ?b" using w bd n len by (intro sb_invI) auto
  moreover have "sb_contents ?b = take (length (sb_contents b) - unat n) (sb_contents b)"
    unfolding len using w by (simp add: sb_contents_def min_def add.commute)
  ultimately show ?thesis
    using n length_sb_contents [OF inv] by (simp add: sb_UnwriteBytes_def word_le_nat_alt)
qed

lemma sb_Prepend_ok:
  assumes inv: "sb_inv b" and room: "unat len \<le> unat (sb_read_index b)"
    and d: "unat len \<le> length d"
  shows "\<exists>b'. sb_Prepend d len b = Inr b' \<and> sb_inv b' \<and>
    sb_contents b' = take (unat len) d @ sb_contents b \<and> sb_capacity b' = sb_capacity b \<and>
    sb_reserved b' = sb_reserved b"
proof -
  note bd = sb_invD [OF inv]
  have r: "unat (sb_read_index b - len) = unat (sb_read_index b) - unat len"
    using room by (rule unat_minus_fits)
  let ?src = "take (unat len) d"
  let ?m = "overlay (sb_buffer b) (unat (sb_read_index b) - unat len) ?src"
  let ?b = "b\<lparr>sb_read_index := sb_read_index b - len, sb_buffer := ?m\<rparr>"
  have fit: "unat (sb_read_index b) - unat len + length ?src \<le> length (sb_buffer b)"
    using bd d room by simp
  have "sb_Prepend d len b = Inr ?b"
    using room d r fit by (simp add: sb_Prepend_def sb_PrependableBytes_def word_le_nat_alt Let_def)
  moreover have "sb_inv ?b" using bd r fit by (intro sb_invI) simp_all
  moreover have "sb_contents ?b = ?src @ sb_contents b"
    using drop_overlay [OF fit] r d room bd(2) by (simp add: sb_contents_def)
  ultimately show ?thesis by simp
qed

section \<open>Integers\<close>

lemma sb_peek_ok:
  assumes "sb_inv b" "unat n \<le> length (sb_contents b)"
  shows "sb_peek n b = Inr (take (unat n) (sb_contents b))"
  using assms sb_unread_read [OF assms(1), of "unat n"] length_sb_contents [OF assms(1)]
  by (simp add: sb_peek_def word_le_nat_alt)

lemma sb_peek_short:
  assumes "sb_inv b" "length (sb_contents b) < unat n"
  shows "sb_peek n b = Inl Assert_Failed"
  using assms length_sb_contents [OF assms(1)] by (simp add: sb_peek_def word_le_nat_alt)

lemma sb_ReadInt32_ok:
  assumes inv: "sb_inv b" and c: "sb_contents b = be_bytes 4 x @ rest"
  shows "\<exists>b'. sb_ReadInt32 le b = Inr (x, b') \<and> sb_inv b' \<and> sb_contents b' = rest"
proof -
  have "sb_peek 4 b = Inr (be_bytes 4 x)" using sb_peek_ok [OF inv, of 4] c by simp
  then show ?thesis
    using sb_Skip_ok [OF inv, of 4] c
    by (simp add: sb_ReadInt32_def sb_PeekInt32_def ntohl_host_word be_word_be_bytes)
qed

lemma sb_ReadInt16_ok:
  assumes inv: "sb_inv b" and c: "sb_contents b = be_bytes 2 x @ rest"
  shows "\<exists>b'. sb_ReadInt16 le b = Inr (x, b') \<and> sb_inv b' \<and> sb_contents b' = rest"
    and "sb_ReadUInt16 le b = sb_ReadInt16 le b"
    and "sb_PeekUInt16 le b = Inr x"
proof -
  have p: "sb_peek 2 b = Inr (be_bytes 2 x)" using sb_peek_ok [OF inv, of 2] c by simp
  then show "\<exists>b'. sb_ReadInt16 le b = Inr (x, b') \<and> sb_inv b' \<and> sb_contents b' = rest"
    using sb_Skip_ok [OF inv, of 2] c
    by (simp add: sb_ReadInt16_def sb_PeekInt16_def ntohs_host_word be_word_be_bytes)
  show "sb_ReadUInt16 le b = sb_ReadInt16 le b"
    by (simp add: sb_ReadUInt16_def sb_ReadInt16_def)
  show "sb_PeekUInt16 le b = Inr x"
    using p by (simp add: sb_PeekUInt16_def ntohs_host_word be_word_be_bytes)
qed

lemma sb_ReadInt8_ok:
  assumes inv: "sb_inv b" and c: "sb_contents b = x # rest"
  shows "\<exists>b'. sb_ReadInt8 b = Inr (x, b') \<and> sb_inv b' \<and> sb_contents b' = rest"
proof -
  have "sb_peek 1 b = Inr [x]" using sb_peek_ok [OF inv, of 1] c by simp
  then show ?thesis
    using sb_Skip_ok [OF inv, of 1] c by (simp add: sb_ReadInt8_def sb_PeekInt8_def)
qed

text \<open>The 64 bit swap ignores the host order, so reading undoes appending on either host.\<close>

lemma sb_ReadInt64_ok:
  assumes inv: "sb_inv b" and c: "sb_contents b = host_bytes le 8 (evppbswap_64 x) @ rest"
  shows "\<exists>b'. sb_ReadInt64 le b = Inr (x, b') \<and> sb_inv b' \<and> sb_contents b' = rest"
proof -
  have "sb_peek 8 b = Inr (host_bytes le 8 (evppbswap_64 x))"
    using sb_peek_ok [OF inv, of 8] c by simp
  then show ?thesis
    using sb_Skip_ok [OF inv, of 8] c
    by (simp add: sb_ReadInt64_def sb_PeekInt64_def host_word_host_bytes)
qed

section \<open>Reading from a descriptor\<close>

lemma sb_ReadFromFD_error:
  assumes "sb_inv b" "\<And>n. readv n = Inl errno"
  shows "sb_ReadFromFD g readv b = Inr (Inl errno, b)"
  using assms sb_WritableBytes_ok [OF assms(1)] by (simp add: sb_ReadFromFD_def Let_def)

definition sb_fd_room :: "socket_buffer \<Rightarrow> nat" where
  "sb_fd_room b = (if sb_writable b < 65536 then sb_writable b + 65536 else sb_writable b)"

lemma sb_ReadFromFD_ok:
  assumes inv: "sb_inv b" and fit: "2 * unat (sb_capacity b) + 65536 < 2 ^ 64"
    and rd: "readv (sb_fd_room b) = Inr bs" and len: "length bs \<le> sb_fd_room b"
  shows "\<exists>b'. sb_ReadFromFD g readv b = Inr (Inr (length bs), b') \<and> sb_inv b' \<and>
    sb_contents b' = sb_contents b @ bs"
proof -
  let ?w = "sb_capacity b - sb_write_index b"
  note wr = sb_WritableBytes_ok [OF inv] and bd = sb_invD [OF inv]
  let ?first = "take (sb_writable b) bs"
  have total: "(if ?w < 65536 then unat ?w + 65536 else unat ?w) = sb_fd_room b"
    using wr(2) by (simp add: sb_fd_room_def word_less_nat_alt)
  show ?thesis
  proof (cases "length bs \<le> sb_writable b")
    case True
    have n: "unat (of_nat (length bs) :: size_t) = length bs"
      using True bd unat_lt_2p64 [of "sb_capacity b"] by (simp add: unat_of_nat sb_writable_def)
    show ?thesis
      using True wr rd total sb_extend [OF inv n True]
      by (simp add: sb_ReadFromFD_def Let_def)
  next
    case False
    have lf: "length ?first = sb_writable b" using False by simp
    have wn: "unat ?w = length ?first" using wr(2) lf by simp
    have end_is_cap: "sb_write_index b + ?w = sb_capacity b" by simp
    let ?b1 = "b\<lparr>sb_buffer := overlay (sb_buffer b) (unat (sb_write_index b)) ?first,
      sb_write_index := sb_write_index b + ?w\<rparr>"
    have ext: "sb_inv ?b1" "sb_contents ?b1 = sb_contents b @ ?first"
      "mem_write (sb_buffer b) (unat (sb_write_index b)) ?first =
        Inr (overlay (sb_buffer b) (unat (sb_write_index b)) ?first)"
      using sb_extend [OF inv wn] lf by simp_all
    have n64: "length bs < 2 ^ 64"
      using len bd unat_lt_2p64 [of "sb_capacity b"] fit
      by (simp add: sb_fd_room_def sb_writable_def split: if_splits)
    have rest: "length bs - sb_writable b \<le> 65536"
      using len False by (simp add: sb_fd_room_def split: if_splits)
    have m: "unat (of_nat (length bs) - ?w) = length bs - sb_writable b"
      using n64 False wr(2) by (subst unat_minus_fits) (auto simp: unat_of_nat)
    obtain b2 where "sb_Write g (drop (sb_writable b) bs) (of_nat (length bs) - ?w) ?b1 = Inr b2"
      "sb_inv b2" "sb_contents b2 = sb_contents ?b1 @ drop (sb_writable b) bs"
      using sb_Write_ok [OF ext(1), of "of_nat (length bs) - ?w" "drop (sb_writable b) bs" g]
        m rest fit by auto
    then show ?thesis
      using False wr rd total ext
      by (simp add: sb_ReadFromFD_def Let_def sb_Append_def)
  qed
qed

section \<open>Searching\<close>

lemma std_search_le: "std_search pat xs \<le> length xs"
  by (induction xs) auto

lemma std_search_found:
  "std_search pat xs < length xs \<Longrightarrow> take (length pat) (drop (std_search pat xs) xs) = pat"
  by (induction xs) auto

lemma std_search_first:
  "i < std_search pat xs \<Longrightarrow> take (length pat) (drop i xs) \<noteq> pat"
proof (induction xs arbitrary: i)
  case Nil
  then show ?case by simp
next
  case (Cons x xs)
  then show ?case by (cases i) (auto split: if_splits)
qed

lemma memchr_Some_iff:
  "memchr c xs = Some i \<longleftrightarrow> i < length xs \<and> xs ! i = c \<and> (\<forall>j<i. xs ! j \<noteq> c)"
proof (induction xs arbitrary: i)
  case Nil
  then show ?case by simp
next
  case (Cons x xs)
  show ?case
  proof (cases i)
    case 0
    then show ?thesis using Cons by auto
  next
    case (Suc j)
    then show ?thesis using Cons by (auto simp: less_Suc_eq_0_disj)
  qed
qed

lemma memchr_None_iff: "memchr c xs = None \<longleftrightarrow> c \<notin> set xs"
  by (induction xs) auto

section \<open>The socket buffer as a byte queue\<close>

text \<open>
  Its room is what the arithmetic of \<^verbatim>\<open>grow\<close> can represent: twice the capacity and the new bytes
  have to fit \<^verbatim>\<open>size_t\<close>.
\<close>

definition sb_room :: "socket_buffer \<Rightarrow> nat" where
  "sb_room b = 2 ^ 64 - 1 - 2 * unat (sb_capacity b)"

definition sb_put :: "(nat \<Rightarrow> byte) \<Rightarrow> socket_buffer \<Rightarrow> byte list \<Rightarrow> socket_buffer result" where
  "sb_put g b bs = sb_Append g bs (of_nat (length bs)) b"

definition sb_get :: "socket_buffer \<Rightarrow> nat \<Rightarrow> (byte list \<times> socket_buffer) result" where
  "sb_get b n =
     rbind (sb_peek (of_nat n) b) (\<lambda>bs. Inr (bs, sb_Retrieve (of_nat n) b))"

lemma sb_put_nothing:
  assumes "sb_inv b"
  shows "\<exists>b'. sb_put g b [] = Inr b' \<and> sb_inv b' \<and> sb_contents b' = sb_contents b"
  using assms sb_WritableBytes_ok [OF assms] sb_extend [OF assms, of 0 "[]"]
  by (simp add: sb_put_def sb_Append_def sb_Write_def sb_EnsureWritableBytes_def sb_inv_def)

interpretation socket_queue: byte_queue sb_contents sb_inv sb_room "sb_put g" sb_get for g
proof unfold_locales
  fix b :: socket_buffer and bs :: "byte list"
  assume inv: "sb_inv b" and len: "length bs \<le> sb_room b"
  show "\<exists>b'. sb_put g b bs = Inr b' \<and> sb_inv b' \<and> sb_contents b' = sb_contents b @ bs"
  proof (cases "bs = []")
    case True
    with sb_put_nothing [OF inv] show ?thesis by simp
  next
    case False
    then have pos: "1 \<le> length bs" by (cases bs) simp_all
    have le: "length bs \<le> 18446744073709551615 - 2 * unat (sb_capacity b)"
      using len by (simp add: sb_room_def)
    have fit: "2 * unat (sb_capacity b) + length bs < 18446744073709551616"
      using pos le by linarith
    then have n: "unat (of_nat (length bs) :: size_t) = length bs" by (simp add: unat_of_nat)
    show ?thesis
      using sb_Write_ok [OF inv, of "of_nat (length bs)" bs g] fit n
      by (auto simp: sb_put_def sb_Append_def)
  qed
next
  fix b :: socket_buffer and n :: nat
  assume inv: "sb_inv b" and n: "n \<le> length (sb_contents b)"
  then have "unat (of_nat n :: size_t) = n"
    using length_sb_contents [OF inv] unat_lt_2p64 [of "sb_length b"] by (simp add: unat_of_nat)
  then show "\<exists>b'. sb_get b n = Inr (take n (sb_contents b), b') \<and> sb_inv b' \<and>
      sb_contents b' = drop n (sb_contents b)"
    using sb_peek_ok [OF inv, of "of_nat n"] n sb_Skip_ok [OF inv, of "of_nat n"]
    by (simp add: sb_get_def sb_Retrieve_def)
qed

end
