(* ===== verification/Ring_Buffer.thy ===== *)
theory Ring_Buffer
  imports Byte_Queue
begin

text \<open>
  The single producer single consumer ring of socket_buffer.hpp and socket_buffer.cpp (class
  \<^verbatim>\<open>RingBuffer\<close>): its state, one definition per member function, the queue of bytes it stands
  for, and the effect of every member function on that queue.
\<close>

section \<open>State and operations\<close>

record ring_buffer =
  rb_capacity :: u32
  rb_max_index :: u32
  rb_data :: "byte list"
  rb_read_count :: u32
  rb_write_count :: u32

definition RingBuffer_new :: "(nat \<Rightarrow> byte) \<Rightarrow> u32 \<Rightarrow> ring_buffer" where
  "RingBuffer_new g capacity =
     \<lparr> rb_capacity = capacity,
       rb_max_index = capacity - 1,
       rb_data = alloc g (unat capacity),
       rb_read_count = 0,
       rb_write_count = 0 \<rparr>"

definition RingBuffer_destroy :: "ring_buffer \<Rightarrow> ring_buffer" where
  "RingBuffer_destroy r = r\<lparr>rb_data := []\<rparr>"

definition ring_IsEmpty :: "ring_buffer \<Rightarrow> bool" where
  "ring_IsEmpty r \<longleftrightarrow> rb_read_count r = rb_write_count r"

text \<open>Pointers into the storage are offsets from \<^verbatim>\<open>data_arr_\<close>.\<close>

definition ring_DataHead :: "ring_buffer \<Rightarrow> u32" where
  "ring_DataHead r = 0"

definition ring_AvailableRead :: "ring_buffer \<Rightarrow> u32 result" where
  "ring_AvailableRead r =
     (let available_read = rb_write_count r - rb_read_count r in
      assert_that (available_read < rb_capacity r) (Inr available_read))"

definition ring_AvailableSeriesRead :: "ring_buffer \<Rightarrow> u32 result" where
  "ring_AvailableSeriesRead r =
     (let read_count = rb_read_count r;
          available_read = rb_write_count r - read_count in
      assert_that (rb_capacity r \<ge> available_read)
        (if available_read = 0 then Inr 0
         else let read_index = read_count AND rb_max_index r in
           if read_index + available_read \<le> rb_capacity r then Inr available_read
           else Inr (rb_capacity r - read_index)))"

definition ring_CurrentSeriesReadHead :: "ring_buffer \<Rightarrow> u32" where
  "ring_CurrentSeriesReadHead r = rb_read_count r AND rb_max_index r"

definition ring_ConsumeSeriesReadLen :: "ring_buffer \<Rightarrow> u32 \<Rightarrow> ring_buffer result" where
  "ring_ConsumeSeriesReadLen r len =
     (let read_index = rb_read_count r AND rb_max_index r in
      assert_that (read_index + len \<le> rb_capacity r)
        (Inr (r\<lparr>rb_read_count := rb_read_count r + len\<rparr>)))"

text \<open>
  \<open>ring_copy_in\<close> is the copy of \<^verbatim>\<open>WriteContent\<close>: one \<^verbatim>\<open>memcpy\<close>, or two when the run reaches the end
  of the storage. \<open>content\<close> is what the caller's pointer points to.
\<close>

definition ring_copy_in :: "ring_buffer \<Rightarrow> u32 \<Rightarrow> byte list \<Rightarrow> u32 \<Rightarrow> byte list result" where
  "ring_copy_in r write_index content len =
     (if write_index + len \<le> rb_capacity r then
        rbind (mem_read content 0 (unat len)) (\<lambda>src.
        mem_write (rb_data r) (unat write_index) src)
      else
        let tail_left = rb_capacity r - write_index in
        rbind (mem_read content 0 (unat tail_left)) (\<lambda>src1.
        rbind (mem_write (rb_data r) (unat write_index) src1) (\<lambda>d.
        rbind (mem_read content (unat tail_left) (unat (len - tail_left))) (\<lambda>src2.
        mem_write d 0 src2))))"

definition ring_WriteContent ::
  "ring_buffer \<Rightarrow> byte list \<Rightarrow> u32 \<Rightarrow> (bool \<times> ring_buffer) result" where
  "ring_WriteContent r content len =
     (let write_count = rb_write_count r;
          content_size = write_count - rb_read_count r in
      assert_that (rb_capacity r \<ge> content_size)
        (let available_size = rb_capacity r - content_size in
         if available_size < len then Inr (False, r)
         else
           let write_index = write_count AND rb_max_index r in
           rbind (ring_copy_in r write_index content len) (\<lambda>d.
           Inr (True, r\<lparr>rb_data := d, rb_write_count := rb_write_count r + len\<rparr>))))"

definition ring_AvailableWrite :: "ring_buffer \<Rightarrow> u32 result" where
  "ring_AvailableWrite r =
     (let content_size = rb_write_count r - rb_read_count r in
      assert_that (rb_capacity r \<ge> content_size) (Inr (rb_capacity r - content_size)))"

definition ring_CurrentSeriesWriteHead :: "ring_buffer \<Rightarrow> u32" where
  "ring_CurrentSeriesWriteHead r = rb_write_count r AND rb_max_index r"

definition ring_AvailableSeriesWrite :: "ring_buffer \<Rightarrow> u32 result" where
  "ring_AvailableSeriesWrite r =
     (let read_count = rb_read_count r;
          write_count = rb_write_count r;
          content_size = write_count - read_count in
      assert_that (rb_capacity r \<ge> content_size)
        (let available_write = rb_capacity r - content_size;
             write_index = write_count AND rb_max_index r in
         if write_index + available_write > rb_capacity r
         then Inr (rb_capacity r - write_index)
         else Inr available_write))"

definition ring_ConsumeSeriesWriteLen :: "ring_buffer \<Rightarrow> u32 \<Rightarrow> ring_buffer result" where
  "ring_ConsumeSeriesWriteLen r len =
     (let write_index = rb_write_count r AND rb_max_index r in
      assert_that (write_index + len \<le> rb_capacity r)
        (Inr (r\<lparr>rb_write_count := rb_write_count r + len\<rparr>)))"

section \<open>Circular regions of a list\<close>

definition circ :: "'a list \<Rightarrow> nat \<Rightarrow> nat \<Rightarrow> 'a list" where
  "circ d s n = map (\<lambda>i. d ! ((s + i) mod length d)) [0..<n]"

lemma length_circ [simp]: "length (circ d s n) = n"
  by (simp add: circ_def)

lemma circ_0 [simp]: "circ d s 0 = []"
  by (simp add: circ_def)

lemma circ_mod: "circ d (s mod length d) n = circ d s n"
  by (simp add: circ_def mod_add_left_eq)

lemma circ_cong_mod: "s mod length d = t mod length d \<Longrightarrow> circ d s n = circ d t n"
  by (metis circ_mod)

lemma circ_append: "circ d s (m + n) = circ d s m @ circ d (s + m) n"
  by (rule nth_equalityI) (auto simp: circ_def nth_append add.assoc)

lemma circ_take: "m \<le> n \<Longrightarrow> take m (circ d s n) = circ d s m"
  by (auto simp: circ_def take_map min_def)

lemma circ_drop: "m \<le> n \<Longrightarrow> drop m (circ d s n) = circ d (s + m) (n - m)"
  using circ_append [of d s m "n - m"] by simp

lemma circ_linear:
  assumes "s + n \<le> length d"
  shows "circ d s n = take n (drop s d)"
  using assms by (intro nth_equalityI) (auto simp: circ_def)

lemma add_mod_wrap:
  assumes "s < c" "i < (c::nat)"
  shows "(s + i) mod c = (if s + i < c then s + i else s + i - c)"
  using assms by (auto simp: mod_if)

text \<open>
  \<open>circ_write\<close> puts \<open>bs\<close> at position \<open>s\<close>, wrapping at the end of the storage: what
  \<^const>\<open>ring_copy_in\<close> computes when the run fits.
\<close>

definition circ_write :: "byte list \<Rightarrow> nat \<Rightarrow> byte list \<Rightarrow> byte list" where
  "circ_write d s bs =
     (if s + length bs \<le> length d then overlay d s bs
      else overlay (overlay d s (take (length d - s) bs)) 0 (drop (length d - s) bs))"

lemma length_circ_write [simp]:
  "s < length d \<Longrightarrow> length bs \<le> length d \<Longrightarrow> length (circ_write d s bs) = length d"
  by (auto simp: circ_write_def)

lemma nth_circ_write:
  assumes "s < length d" "length bs \<le> length d" "i < length d"
  shows "circ_write d s bs ! ((s + i) mod length d) =
    (if i < length bs then bs ! i else d ! ((s + i) mod length d))"
proof (cases "s + length bs \<le> length d")
  case True
  then show ?thesis using assms
    by (auto simp: circ_write_def add_mod_wrap nth_overlay)
next
  case False
  let ?t = "length d - s"
  let ?d1 = "overlay d s (take ?t bs)"
  have l1: "length ?d1 = length d" using assms False by simp
  have l2: "0 + length (drop ?t bs) \<le> length ?d1" using assms False l1 by simp
  show ?thesis
  proof (cases "s + i < length d")
    case True
    then show ?thesis using assms False l1 l2
      by (auto simp: circ_write_def nth_overlay)
  next
    case wrap: False
    then have "(s + i) mod length d = s + i - length d"
      using assms by (simp add: add_mod_wrap)
    moreover have "?t + (s + i - length d) = i" using wrap assms by simp
    ultimately show ?thesis using assms False l1 l2 wrap
      by (auto simp: circ_write_def nth_overlay)
  qed
qed

lemma circ_circ_write:
  assumes "s < length d" "length bs \<le> length d"
  shows "circ (circ_write d s bs) s (length bs) = bs"
  using assms by (intro nth_equalityI) (auto simp: circ_def nth_circ_write)

lemma circ_circ_write_other:
  assumes s: "s < length d" and fit: "n + length bs \<le> length d"
    and st: "(t + n) mod length d = s"
  shows "circ (circ_write d s bs) t n = circ d t n"
proof (rule nth_equalityI)
  show "length (circ (circ_write d s bs) t n) = length (circ d t n)" by simp
next
  fix i
  assume "i < length (circ (circ_write d s bs) t n)"
  then have i: "i < n" by simp
  let ?j = "length d - n + i"
  have j: "?j < length d" "length bs \<le> ?j" using i fit by linarith+
  have "(s + ?j) mod length d = ((t + n) + ?j) mod length d"
    by (metis st mod_add_left_eq)
  also have "(t + n) + ?j = (t + i) + length d" using i fit by linarith
  finally have eq: "(s + ?j) mod length d = (t + i) mod length d" by simp
  have len: "length (circ_write d s bs) = length d" using s fit by simp
  have "circ_write d s bs ! ((t + i) mod length d) = d ! ((t + i) mod length d)"
    using nth_circ_write [of s d bs ?j] s fit j eq by simp
  then show "circ (circ_write d s bs) t n ! i = circ d t n ! i"
    using i len by (simp add: circ_def)
qed

lemma circ_circ_write_append:
  assumes "0 < length d" "n + length bs \<le> length d"
  shows "circ (circ_write d ((t + n) mod length d) bs) t (n + length bs) = circ d t n @ bs"
proof -
  let ?s = "(t + n) mod length d"
  let ?d = "circ_write d ?s bs"
  have s: "?s < length d" using assms by simp
  have len: "length ?d = length d" using s assms by simp
  have "circ ?d (t + n) (length bs) = circ ?d ?s (length bs)"
    using len by (intro circ_cong_mod) simp
  also have "\<dots> = bs" using s assms by (intro circ_circ_write) auto
  finally show ?thesis
    using circ_circ_write_other [OF s, of n bs t] assms
    by (simp add: circ_append)
qed

section \<open>Well-formedness and contents\<close>

text \<open>
  The index arithmetic of the class needs a capacity that is a power of two: the counters run
  modulo \<open>2 ^ 32\<close> and are cut to an index by the mask \<^verbatim>\<open>max_index_\<close>.
\<close>

definition ring_inv :: "ring_buffer \<Rightarrow> bool" where
  "ring_inv r \<longleftrightarrow>
     (\<exists>k<32. unat (rb_capacity r) = 2 ^ k) \<and>
     rb_max_index r = rb_capacity r - 1 \<and>
     length (rb_data r) = unat (rb_capacity r) \<and>
     unat (rb_write_count r - rb_read_count r) \<le> unat (rb_capacity r)"

definition ring_contents :: "ring_buffer \<Rightarrow> byte list" where
  "ring_contents r =
     circ (rb_data r) (unat (rb_read_count r)) (unat (rb_write_count r - rb_read_count r))"

definition ring_free :: "ring_buffer \<Rightarrow> nat" where
  "ring_free r = unat (rb_capacity r) - length (ring_contents r)"

lemma length_ring_contents [simp]:
  "length (ring_contents r) = unat (rb_write_count r - rb_read_count r)"
  by (simp add: ring_contents_def)

lemma ring_inv_capE:
  assumes "ring_inv r"
  obtains k where "k < 32" "unat (rb_capacity r) = 2 ^ k" "rb_capacity r = 2 ^ k"
    "rb_max_index r = 2 ^ k - 1"
proof -
  from assms obtain k where k: "k < 32" "unat (rb_capacity r) = 2 ^ k"
    by (auto simp: ring_inv_def)
  then have "rb_capacity r = 2 ^ k"
    by (simp add: word_unat_eq_iff unat_pow2)
  with k assms show ?thesis by (intro that) (auto simp: ring_inv_def)
qed

lemma ring_cap_pos: "ring_inv r \<Longrightarrow> 0 < unat (rb_capacity r)"
  by (erule ring_inv_capE) simp

lemma ring_cap_le: "ring_inv r \<Longrightarrow> unat (rb_capacity r) \<le> 2 ^ 31"
  by (erule ring_inv_capE) (simp add: power_increasing [of _ 31 "2::nat", simplified])

lemma ring_fit:
  assumes "ring_inv r" "n \<le> ring_free r"
  shows "unat (rb_write_count r - rb_read_count r) + n \<le> unat (rb_capacity r)"
  using assms by (auto simp: ring_free_def ring_inv_def)

lemma ring_data_length: "ring_inv r \<Longrightarrow> length (rb_data r) = unat (rb_capacity r)"
  by (simp add: ring_inv_def)

lemma ring_length_le: "ring_inv r \<Longrightarrow> length (ring_contents r) \<le> unat (rb_capacity r)"
  by (simp add: ring_inv_def)

lemma ring_index:
  assumes "ring_inv r"
  shows "unat (x AND rb_max_index r) = unat x mod unat (rb_capacity r)"
  using assms by (elim ring_inv_capE) (simp add: unat_and_mask_mod)

lemma ring_index_less:
  assumes "ring_inv r"
  shows "unat (x AND rb_max_index r) < unat (rb_capacity r)"
  using assms by (simp add: ring_index ring_cap_pos)

lemma ring_index_plus:
  assumes "ring_inv r" "unat n \<le> unat (rb_capacity r)"
  shows "unat ((x AND rb_max_index r) + n) = unat (x AND rb_max_index r) + unat n"
  using ring_index_less [OF assms(1), of x] assms(2) ring_cap_le [OF assms(1)]
  by (intro unat_plus_fits) simp

lemma ring_count_plus:
  fixes x n :: u32
  assumes "ring_inv r"
  shows "unat (x + n) mod unat (rb_capacity r) = (unat x + unat n) mod unat (rb_capacity r)"
proof -
  from assms obtain k where k: "k < 32" "unat (rb_capacity r) = 2 ^ k"
    by (elim ring_inv_capE)
  then have "(2::nat) ^ k dvd 2 ^ 32" by (intro le_imp_power_dvd) simp
  with k show ?thesis by (simp add: unat_word_ariths mod_mod_cancel)
qed

lemma ring_write_index:
  assumes "ring_inv r"
  shows "unat (rb_write_count r AND rb_max_index r) =
    (unat (rb_read_count r) + length (ring_contents r)) mod unat (rb_capacity r)"
  using ring_count_plus [OF assms, of "rb_read_count r" "rb_write_count r - rb_read_count r"]
    ring_index [OF assms, of "rb_write_count r"] by simp

lemma ring_new_inv:
  assumes "k < 32"
  shows "ring_inv (RingBuffer_new g (2 ^ k))"
  using assms by (auto simp: ring_inv_def RingBuffer_new_def unat_pow2)

lemma ring_new_contents: "ring_contents (RingBuffer_new g c) = []"
  by (simp add: ring_contents_def RingBuffer_new_def)

lemma ring_IsEmpty_iff: "ring_IsEmpty r \<longleftrightarrow> ring_contents r = []"
  by (simp add: ring_IsEmpty_def flip: length_0_conv) (metis eq_iff_diff_eq_0 unat_eq_zero)

section \<open>The read side\<close>

lemma ring_AvailableRead_ok:
  assumes "ring_inv r" "length (ring_contents r) < unat (rb_capacity r)"
  shows "ring_AvailableRead r = Inr (rb_write_count r - rb_read_count r)"
  using assms by (simp add: ring_AvailableRead_def Let_def word_less_nat_alt)

lemma ring_AvailableRead_full:
  assumes "length (ring_contents r) = unat (rb_capacity r)"
  shows "ring_AvailableRead r = Inl Assert_Failed"
  using assms by (simp add: ring_AvailableRead_def Let_def word_less_nat_alt)

definition ring_series_read :: "ring_buffer \<Rightarrow> nat" where
  "ring_series_read r =
     min (length (ring_contents r))
       (unat (rb_capacity r) - unat (rb_read_count r AND rb_max_index r))"

lemma ring_AvailableSeriesRead_ok:
  assumes inv: "ring_inv r"
  shows "\<exists>n. ring_AvailableSeriesRead r = Inr n \<and> unat n = ring_series_read r"
proof -
  let ?avail = "rb_write_count r - rb_read_count r"
  let ?i = "rb_read_count r AND rb_max_index r"
  have le: "unat ?avail \<le> unat (rb_capacity r)" using inv by (simp add: ring_inv_def)
  have plus: "unat (?i + ?avail) = unat ?i + unat ?avail"
    using inv le by (rule ring_index_plus)
  have minus: "unat (rb_capacity r - ?i) = unat (rb_capacity r) - unat ?i"
    using ring_index_less [OF inv, of "rb_read_count r"] by (intro unat_minus_fits) simp
  show ?thesis
    using le plus minus ring_index_less [OF inv, of "rb_read_count r"]
    by (auto simp: ring_AvailableSeriesRead_def ring_series_read_def Let_def word_le_nat_alt)
qed

lemma ring_series_read_prefix:
  assumes inv: "ring_inv r" and n: "n \<le> ring_series_read r"
  shows "mem_read (rb_data r) (unat (ring_CurrentSeriesReadHead r)) n =
    Inr (take n (ring_contents r))"
proof -
  let ?i = "unat (rb_read_count r AND rb_max_index r)"
  have fit: "?i + n \<le> length (rb_data r)"
    using n ring_index_less [OF inv, of "rb_read_count r"] ring_data_length [OF inv]
    by (auto simp: ring_series_read_def)
  have "take n (ring_contents r) = circ (rb_data r) (unat (rb_read_count r)) n"
    using n by (simp add: ring_contents_def ring_series_read_def circ_take)
  also have "\<dots> = circ (rb_data r) ?i n"
    using ring_index [OF inv] ring_data_length [OF inv] by (intro circ_cong_mod) simp
  also have "\<dots> = take n (drop ?i (rb_data r))" using fit by (rule circ_linear)
  finally show ?thesis using fit by (simp add: ring_CurrentSeriesReadHead_def)
qed

lemma ring_read_advance:
  assumes inv: "ring_inv r" and n: "unat n \<le> length (ring_contents r)"
  shows "ring_inv (r\<lparr>rb_read_count := rb_read_count r + n\<rparr>)"
    and "ring_contents (r\<lparr>rb_read_count := rb_read_count r + n\<rparr>) =
      drop (unat n) (ring_contents r)"
proof -
  let ?r = "rb_read_count r" and ?w = "rb_write_count r"
  have d: "unat (?w - (?r + n)) = unat (?w - ?r) - unat n"
    using n by (intro unat_plus_minus_cancel) simp
  then show "ring_inv (r\<lparr>rb_read_count := ?r + n\<rparr>)"
    using inv by (auto simp: ring_inv_def)
  have "circ (rb_data r) (unat (?r + n)) (unat (?w - ?r) - unat n) =
      circ (rb_data r) (unat ?r + unat n) (unat (?w - ?r) - unat n)"
    using ring_count_plus [OF inv] ring_data_length [OF inv] by (intro circ_cong_mod) simp
  then show "ring_contents (r\<lparr>rb_read_count := ?r + n\<rparr>) = drop (unat n) (ring_contents r)"
    using n d by (simp add: ring_contents_def circ_drop)
qed

lemma ring_Consume_read_ok:
  assumes inv: "ring_inv r" and n: "unat n \<le> ring_series_read r"
  shows "ring_ConsumeSeriesReadLen r n = Inr (r\<lparr>rb_read_count := rb_read_count r + n\<rparr>)"
proof -
  have "unat n \<le> unat (rb_capacity r)" using n by (auto simp: ring_series_read_def)
  then show ?thesis
    using n ring_index_plus [OF inv, of n "rb_read_count r"]
      ring_index_less [OF inv, of "rb_read_count r"]
    by (auto simp: ring_ConsumeSeriesReadLen_def ring_series_read_def Let_def word_le_nat_alt)
qed

section \<open>The write side\<close>

lemma ring_AvailableWrite_ok:
  assumes "ring_inv r"
  shows "\<exists>n. ring_AvailableWrite r = Inr n \<and> unat n = ring_free r"
proof -
  have le: "unat (rb_write_count r - rb_read_count r) \<le> unat (rb_capacity r)"
    using assms by (simp add: ring_inv_def)
  then show ?thesis
    using unat_minus_fits [OF le]
    by (simp add: ring_AvailableWrite_def ring_free_def Let_def word_le_nat_alt)
qed

lemma ring_copy_in_ok:
  assumes inv: "ring_inv r" and i: "unat i < unat (rb_capacity r)"
    and len: "unat len \<le> unat (rb_capacity r)" "unat len \<le> length content"
  shows "ring_copy_in r i content len =
    Inr (circ_write (rb_data r) (unat i) (take (unat len) content))"
proof -
  have plus: "unat (i + len) = unat i + unat len"
    using i len ring_cap_le [OF inv] by (intro unat_plus_fits) simp
  note dl = ring_data_length [OF inv]
  show ?thesis
  proof (cases "unat i + unat len \<le> unat (rb_capacity r)")
    case True
    then show ?thesis using plus len dl
      by (simp add: ring_copy_in_def word_le_nat_alt circ_write_def)
  next
    case False
    have t: "unat (rb_capacity r - i) = unat (rb_capacity r) - unat i"
      using i by (intro unat_minus_fits) simp
    have l: "unat (len - (rb_capacity r - i)) = unat len - (unat (rb_capacity r) - unat i)"
      using t False by (subst unat_minus_fits) auto
    have le: "unat (rb_capacity r) - unat i \<le> unat len" using False by linarith
    have sub: "take (unat len - (unat (rb_capacity r) - unat i))
          (drop (unat (rb_capacity r) - unat i) content) =
        drop (unat (rb_capacity r) - unat i) (take (unat len) content)"
      by (simp add: drop_take)
    show ?thesis using False plus len dl i t l sub le
      by (simp add: ring_copy_in_def word_le_nat_alt circ_write_def Let_def min_def)
  qed
qed

lemma ring_write_advance:
  assumes inv: "ring_inv r" and n: "unat n = length bs" "length bs \<le> ring_free r"
  defines "r' \<equiv> r\<lparr>rb_data := circ_write (rb_data r)
      (unat (rb_write_count r AND rb_max_index r)) bs, rb_write_count := rb_write_count r + n\<rparr>"
  shows "ring_inv r'" and "ring_contents r' = ring_contents r @ bs"
proof -
  let ?r = "rb_read_count r" and ?w = "rb_write_count r"
  let ?i = "unat (?w AND rb_max_index r)"
  have fit: "unat (?w - ?r) + length bs \<le> unat (rb_capacity r)"
    using ring_fit [OF inv n(2)] .
  then have d: "unat (?w + n - ?r) = unat (?w - ?r) + length bs"
    using ring_cap_le [OF inv] n(1) by (subst unat_grow_minus) auto
  note dl = ring_data_length [OF inv] and pos = ring_cap_pos [OF inv]
  have i: "?i = (unat ?r + unat (?w - ?r)) mod length (rb_data r)"
    using ring_write_index [OF inv] dl by simp
  have "length (circ_write (rb_data r) ?i bs) = length (rb_data r)"
    using ring_index_less [OF inv, of ?w] dl fit by simp
  then show "ring_inv r'" using inv d fit by (simp add: ring_inv_def r'_def)
  show "ring_contents r' = ring_contents r @ bs"
    using circ_circ_write_append [of "rb_data r" "unat (?w - ?r)" bs "unat ?r"] dl pos fit d i
    by (simp add: ring_contents_def r'_def)
qed

lemma ring_WriteContent_ok:
  assumes inv: "ring_inv r" and n: "unat len \<le> length content" "unat len \<le> ring_free r"
  shows "\<exists>r'. ring_WriteContent r content len = Inr (True, r') \<and> ring_inv r' \<and>
    ring_contents r' = ring_contents r @ take (unat len) content"
proof -
  let ?r = "rb_read_count r" and ?w = "rb_write_count r"
  let ?bs = "take (unat len) content"
  let ?i = "?w AND rb_max_index r"
  let ?r' = "r\<lparr>rb_data := circ_write (rb_data r) (unat ?i) ?bs, rb_write_count := ?w + len\<rparr>"
  have le: "unat (?w - ?r) \<le> unat (rb_capacity r)" using inv by (simp add: ring_inv_def)
  have free: "unat (rb_capacity r - (?w - ?r)) = ring_free r"
    using unat_minus_fits [OF le] by (simp add: ring_free_def)
  have copy: "ring_copy_in r ?i content len = Inr (circ_write (rb_data r) (unat ?i) ?bs)"
    using n ring_index_less [OF inv] by (intro ring_copy_in_ok [OF inv]) (auto simp: ring_free_def)
  have "ring_WriteContent r content len = Inr (True, ?r')"
    using le free copy n by (simp add: ring_WriteContent_def Let_def word_le_nat_alt word_less_nat_alt)
  moreover have "ring_inv ?r'" "ring_contents ?r' = ring_contents r @ ?bs"
    using ring_write_advance [OF inv, of len ?bs] n by simp_all
  ultimately show ?thesis by blast
qed

lemma ring_WriteContent_full:
  assumes inv: "ring_inv r" and n: "ring_free r < unat len"
  shows "ring_WriteContent r content len = Inr (False, r)"
proof -
  have le: "unat (rb_write_count r - rb_read_count r) \<le> unat (rb_capacity r)"
    using inv by (simp add: ring_inv_def)
  then show ?thesis
    using unat_minus_fits [OF le] n
    by (simp add: ring_WriteContent_def ring_free_def Let_def word_le_nat_alt word_less_nat_alt)
qed

definition ring_series_write :: "ring_buffer \<Rightarrow> nat" where
  "ring_series_write r =
     min (ring_free r) (unat (rb_capacity r) - unat (rb_write_count r AND rb_max_index r))"

lemma ring_AvailableSeriesWrite_ok:
  assumes inv: "ring_inv r"
  shows "\<exists>n. ring_AvailableSeriesWrite r = Inr n \<and> unat n = ring_series_write r"
proof -
  let ?size = "rb_write_count r - rb_read_count r"
  let ?i = "rb_write_count r AND rb_max_index r"
  have le: "unat ?size \<le> unat (rb_capacity r)" using inv by (simp add: ring_inv_def)
  have free: "unat (rb_capacity r - ?size) = ring_free r"
    using unat_minus_fits [OF le] by (simp add: ring_free_def)
  have plus: "unat (?i + (rb_capacity r - ?size)) = unat ?i + ring_free r"
    using free ring_index_plus [OF inv, of "rb_capacity r - ?size" "rb_write_count r"]
    by (simp add: ring_free_def)
  have minus: "unat (rb_capacity r - ?i) = unat (rb_capacity r) - unat ?i"
    using ring_index_less [OF inv, of "rb_write_count r"] by (intro unat_minus_fits) simp
  show ?thesis
    using le free plus minus ring_index_less [OF inv, of "rb_write_count r"]
    by (auto simp: ring_AvailableSeriesWrite_def ring_series_write_def Let_def word_le_nat_alt
        word_less_nat_alt)
qed

text \<open>
  A system call that stores \<open>bs\<close> at the write head, followed by \<^verbatim>\<open>ConsumeSeriesWriteLen\<close>.
\<close>

lemma ring_series_write_ok:
  assumes inv: "ring_inv r" and n: "unat n = length bs" "length bs \<le> ring_series_write r"
  shows "\<exists>d r'. mem_write (rb_data r) (unat (ring_CurrentSeriesWriteHead r)) bs = Inr d \<and>
    ring_ConsumeSeriesWriteLen (r\<lparr>rb_data := d\<rparr>) n = Inr r' \<and> ring_inv r' \<and>
    ring_contents r' = ring_contents r @ bs"
proof -
  let ?i = "rb_write_count r AND rb_max_index r"
  let ?d = "overlay (rb_data r) (unat ?i) bs"
  let ?r' = "r\<lparr>rb_data := ?d, rb_write_count := rb_write_count r + n\<rparr>"
  have less: "unat ?i < unat (rb_capacity r)" using inv by (rule ring_index_less)
  have fit: "unat ?i + length bs \<le> unat (rb_capacity r)" and "length bs \<le> ring_free r"
    using n less by (auto simp: ring_series_write_def)
  have plus: "unat (?i + n) = unat ?i + unat n"
    using fit n inv by (intro ring_index_plus) auto
  have "circ_write (rb_data r) (unat ?i) bs = ?d"
    using fit ring_data_length [OF inv] by (simp add: circ_write_def)
  with ring_write_advance [OF inv n(1)] \<open>length bs \<le> ring_free r\<close>
  have "ring_inv ?r'" "ring_contents ?r' = ring_contents r @ bs" by simp_all
  moreover have "ring_ConsumeSeriesWriteLen (r\<lparr>rb_data := ?d\<rparr>) n = Inr ?r'"
    using fit n plus by (simp add: ring_ConsumeSeriesWriteLen_def Let_def word_le_nat_alt)
  ultimately show ?thesis
    using fit ring_data_length [OF inv] by (simp add: ring_CurrentSeriesWriteHead_def)
qed

section \<open>The ring as a byte queue\<close>

text \<open>
  \<open>ring_put\<close> is a \<^verbatim>\<open>WriteContent\<close> of a whole message; \<open>ring_get\<close> reads \<open>n\<close> bytes the way
  \<^verbatim>\<open>TryProcessBufferedDataInWorkLoop\<close> does, in one piece when they lie in series and in two
  otherwise.
\<close>

definition ring_put :: "ring_buffer \<Rightarrow> byte list \<Rightarrow> ring_buffer result" where
  "ring_put r bs =
     rbind (ring_WriteContent r bs (of_nat (length bs))) (\<lambda>(ok, r').
     if ok then Inr r' else Inl Out_Of_Range)"

definition ring_get :: "ring_buffer \<Rightarrow> nat \<Rightarrow> (byte list \<times> ring_buffer) result" where
  "ring_get r n =
     rbind (ring_AvailableSeriesRead r) (\<lambda>series.
     if n \<le> unat series then
       rbind (mem_read (rb_data r) (unat (ring_CurrentSeriesReadHead r)) n) (\<lambda>bs.
       rbind (ring_ConsumeSeriesReadLen r (of_nat n)) (\<lambda>r'.
       Inr (bs, r')))
     else
       rbind (mem_read (rb_data r) (unat (ring_CurrentSeriesReadHead r)) (unat series)) (\<lambda>bs1.
       rbind (ring_ConsumeSeriesReadLen r series) (\<lambda>r1.
       let remain = of_nat n - series in
       rbind (mem_read (rb_data r1) (unat (ring_CurrentSeriesReadHead r1)) (unat remain)) (\<lambda>bs2.
       rbind (ring_ConsumeSeriesReadLen r1 remain) (\<lambda>r2.
       Inr (bs1 @ bs2, r2))))))"

lemma unat_of_nat32: "n < 2 ^ 32 \<Longrightarrow> unat (of_nat n :: u32) = n"
  by (simp add: unat_of_nat)

lemma ring_length_lt32: "ring_inv r \<Longrightarrow> n \<le> unat (rb_capacity r) \<Longrightarrow> unat (of_nat n :: u32) = n"
  using ring_cap_le by (intro unat_of_nat32) fastforce

text \<open>After the series part is consumed the rest lies in series from the start of the storage.\<close>

lemma ring_series_rest:
  assumes inv: "ring_inv r" and s: "unat s = ring_series_read r"
  defines "r1 \<equiv> r\<lparr>rb_read_count := rb_read_count r + s\<rparr>"
  shows "ring_series_read r1 = length (ring_contents r) - ring_series_read r"
proof -
  let ?c = "unat (rb_capacity r)"
  let ?i = "unat (rb_read_count r AND rb_max_index r)"
  have less: "?i < ?c" using inv by (rule ring_index_less)
  have le: "unat s \<le> length (ring_contents r)" using s by (simp add: ring_series_read_def)
  have inv1: "ring_inv r1" and len: "length (ring_contents r1) = length (ring_contents r) - unat s"
    using ring_read_advance [OF inv le] by (simp_all add: r1_def)
  have "unat (rb_read_count r1 AND rb_max_index r1) = (?i + unat s) mod ?c"
    using ring_index [OF inv1, of "rb_read_count r1"] ring_index [OF inv, of "rb_read_count r"]
      ring_count_plus [OF inv, of "rb_read_count r" s] by (simp add: r1_def mod_add_left_eq)
  moreover have "?i + unat s \<le> ?c" using s less by (auto simp: ring_series_read_def)
  ultimately have "unat (rb_read_count r1 AND rb_max_index r1) = (if ?i + unat s = ?c then 0 else ?i + unat s)"
    by simp
  moreover have "length (ring_contents r) \<le> ?c" using inv by (rule ring_length_le)
  ultimately show ?thesis
    using len s less by (auto simp: ring_series_read_def r1_def min_def split: if_splits)
qed

lemma ring_get_ok:
  assumes inv: "ring_inv r" and n: "n \<le> length (ring_contents r)"
  shows "\<exists>r'. ring_get r n = Inr (take n (ring_contents r), r') \<and> ring_inv r' \<and>
    ring_contents r' = drop n (ring_contents r)"
proof -
  have n32: "unat (of_nat n :: u32) = n"
    using n ring_length_le [OF inv] by (intro ring_length_lt32 [OF inv]) simp
  obtain s where s: "ring_AvailableSeriesRead r = Inr s" "unat s = ring_series_read r"
    using ring_AvailableSeriesRead_ok [OF inv] by blast
  show ?thesis
  proof (cases "n \<le> unat s")
    case True
    with s n32 show ?thesis
      using ring_read_advance [OF inv, of "of_nat n"] ring_series_read_prefix [OF inv, of n]
        ring_Consume_read_ok [OF inv, of "of_nat n"] n
      by (simp add: ring_get_def)
  next
    case False
    let ?r1 = "r\<lparr>rb_read_count := rb_read_count r + s\<rparr>"
    let ?m = "of_nat n - s :: u32"
    have m: "unat ?m = n - unat s" using False n32 by (subst unat_minus_fits) auto
    have le: "unat s \<le> length (ring_contents r)" using s by (simp add: ring_series_read_def)
    have inv1: "ring_inv ?r1" and c1: "ring_contents ?r1 = drop (unat s) (ring_contents r)"
      using ring_read_advance [OF inv le] by simp_all
    have m1: "unat ?m \<le> ring_series_read ?r1"
      using ring_series_rest [OF inv s(2)] m n s by simp
    have m2: "unat ?m \<le> length (ring_contents ?r1)"
      using m1 by (simp add: ring_series_read_def)
    have bs: "take (unat s) (ring_contents r) @ take (unat ?m) (ring_contents ?r1) =
        take n (ring_contents r)"
      using m False c1 by (metis le_add_diff_inverse nat_le_linear take_add)
    have "ring_contents (?r1\<lparr>rb_read_count := rb_read_count ?r1 + ?m\<rparr>) = drop n (ring_contents r)"
      using ring_read_advance(2) [OF inv1 m2] m c1 False by simp
    then show ?thesis
      using s False bs ring_series_read_prefix [OF inv, of "unat s"]
        ring_Consume_read_ok [OF inv, of s] ring_series_read_prefix [OF inv1 m1]
        ring_Consume_read_ok [OF inv1 m1] ring_read_advance(1) [OF inv1 m2]
      by (simp add: ring_get_def Let_def)
  qed
qed

interpretation ring_queue: byte_queue ring_contents ring_inv ring_free ring_put ring_get
proof unfold_locales
  fix r :: ring_buffer and bs :: "byte list"
  assume inv: "ring_inv r" and len: "length bs \<le> ring_free r"
  then have "unat (of_nat (length bs) :: u32) = length bs"
    by (intro ring_length_lt32 [OF inv]) (simp add: ring_free_def)
  with inv len show "\<exists>r'. ring_put r bs = Inr r' \<and> ring_inv r' \<and> ring_contents r' = ring_contents r @ bs"
    using ring_WriteContent_ok [OF inv, of "of_nat (length bs)" bs] by (auto simp: ring_put_def)
qed (rule ring_get_ok)

end
