(* ===== verification/Step_Systems.thy ===== *)
theory Step_Systems
  imports Prelude
begin

text \<open>
  The interface of the concurrent models: a step relation with a state predicate that every step
  keeps, and, where the system cannot run for ever, a measure that every step decreases.
\<close>

locale invariant_system =
  fixes step :: "'s \<Rightarrow> 's \<Rightarrow> bool"
    and inv :: "'s \<Rightarrow> bool"
  assumes step_inv: "\<lbrakk> inv s; step s t \<rbrakk> \<Longrightarrow> inv t"
begin

lemma run_inv:
  assumes "step\<^sup>*\<^sup>* s t" "inv s"
  shows "inv t"
  using assms by (induction rule: rtranclp_induct) (auto intro: step_inv)

end

locale measured_system = invariant_system +
  fixes m :: "'s \<Rightarrow> nat"
  assumes step_less: "\<lbrakk> inv s; step s t \<rbrakk> \<Longrightarrow> m t < m s"
begin

lemma run_bounded:
  assumes "(step ^^ n) s t" "inv s"
  shows "n + m t \<le> m s"
  using assms(1)
proof (induction n arbitrary: t)
  case 0
  then show ?case by simp
next
  case (Suc n)
  then obtain u where u: "(step ^^ n) s u" "step u t" by auto
  have "inv u" using run_inv [OF _ assms(2)] u(1) by (metis relpowp_imp_rtranclp)
  from step_less [OF this u(2)] Suc.IH [OF u(1)] show ?case by simp
qed

lemma comes_to_rest:
  assumes "inv s"
  shows "\<exists>t. step\<^sup>*\<^sup>* s t \<and> inv t \<and> \<not> (\<exists>u. step t u)"
  using assms
proof (induction "m s" arbitrary: s rule: less_induct)
  case less
  show ?case
  proof (cases "\<exists>u. step s u")
    case False
    then show ?thesis using less.prems by blast
  next
    case True
    then obtain u where u: "step s u" by blast
    from less.hyps [OF step_less [OF less.prems u] step_inv [OF less.prems u]] obtain t where
      "step\<^sup>*\<^sup>* u t" "inv t" "\<not> (\<exists>v. step t v)" by blast
    with u show ?thesis by (meson converse_rtranclp_into_rtranclp)
  qed
qed

end

text \<open>
  A system that refines an abstract one: read through \<open>abs\<close>, a step is an abstract step or none.
  The simulation may be stated up to a moment: \<open>still\<close> is a condition that, once lost, stays lost.
\<close>

locale simulation_system = invariant_system step inv
  for step :: "'s \<Rightarrow> 's \<Rightarrow> bool" and inv :: "'s \<Rightarrow> bool" +
  fixes astep :: "'a \<Rightarrow> 'a \<Rightarrow> bool"
    and abs :: "'s \<Rightarrow> 'a"
    and still :: "'s \<Rightarrow> bool"
  assumes step_simulates: "\<lbrakk> inv s; step s t; still t \<rbrakk> \<Longrightarrow> abs s = abs t \<or> astep (abs s) (abs t)"
    and still_back: "\<lbrakk> inv s; step s t; still t \<rbrakk> \<Longrightarrow> still s"
begin

lemma run_simulates:
  assumes "step\<^sup>*\<^sup>* s t" "inv s" "still t"
  shows "still s \<and> astep\<^sup>*\<^sup>* (abs s) (abs t)"
  using assms(1,3)
proof (induction rule: rtranclp_induct)
  case base
  then show ?case by simp
next
  case (step u v)
  have u: "inv u" using run_inv [OF step.hyps(1) assms(2)] .
  have "still u" using still_back [OF u step.hyps(2) step.prems] .
  then have "still s \<and> astep\<^sup>*\<^sup>* (abs s) (abs u)" by (rule step.IH)
  with step_simulates [OF u step.hyps(2) step.prems] show ?case
    by (auto intro: rtranclp.rtrancl_into_rtrancl)
qed

end

end
