(* ===== verification/Ring_Threads.thy ===== *)
theory Ring_Threads
  imports Ring_Buffer Step_Systems
begin

text \<open>
  The ring under its two threads. socket_buffer.hpp gives each counter one writing thread; the
  comments there name them. A step is what one thread does between two accesses to the other
  thread's counter: \<^verbatim>\<open>WriteContent\<close> is load, copy, publish; a read is load, copy, consume, with
  any number \<open>m\<close> of the available bytes taken, as \<^verbatim>\<open>send\<close> may. Steps of the two threads
  interleave in any order. \<open>produced\<close> and \<open>consumed\<close> record what was written and read so far.
\<close>

datatype writer_pc = W_Idle | W_Copy "byte list" | W_Publish "byte list"

datatype reader_pc = R_Idle | R_Have nat | R_Copied "byte list"

record spsc =
  sp_ring :: ring_buffer
  sp_writer :: writer_pc
  sp_reader :: reader_pc
  sp_produced :: "byte list"
  sp_consumed :: "byte list"

definition spsc_init :: "ring_buffer \<Rightarrow> spsc" where
  "spsc_init r = \<lparr> sp_ring = r, sp_writer = W_Idle, sp_reader = R_Idle,
     sp_produced = [], sp_consumed = [] \<rparr>"

inductive spsc_step :: "spsc \<Rightarrow> spsc \<Rightarrow> bool" where
  w_load: "sp_writer s = W_Idle \<Longrightarrow> ring_AvailableWrite (sp_ring s) = Inr a \<Longrightarrow>
     length bs \<le> unat a \<Longrightarrow> spsc_step s (s\<lparr>sp_writer := W_Copy bs\<rparr>)"
| w_copy: "sp_writer s = W_Copy bs \<Longrightarrow>
     ring_copy_in (sp_ring s) (ring_CurrentSeriesWriteHead (sp_ring s)) bs (of_nat (length bs)) = Inr d \<Longrightarrow>
     spsc_step s (s\<lparr>sp_ring := (sp_ring s)\<lparr>rb_data := d\<rparr>, sp_writer := W_Publish bs\<rparr>)"
| w_publish: "sp_writer s = W_Publish bs \<Longrightarrow>
     spsc_step s (s\<lparr>sp_ring := (sp_ring s)\<lparr>rb_write_count := rb_write_count (sp_ring s) + of_nat (length bs)\<rparr>,
       sp_writer := W_Idle, sp_produced := sp_produced s @ bs\<rparr>)"
| r_load: "sp_reader s = R_Idle \<Longrightarrow> ring_AvailableSeriesRead (sp_ring s) = Inr n \<Longrightarrow>
     spsc_step s (s\<lparr>sp_reader := R_Have (unat n)\<rparr>)"
| r_copy: "sp_reader s = R_Have n \<Longrightarrow> m \<le> n \<Longrightarrow>
     mem_read (rb_data (sp_ring s)) (unat (ring_CurrentSeriesReadHead (sp_ring s))) m = Inr bs \<Longrightarrow>
     spsc_step s (s\<lparr>sp_reader := R_Copied bs\<rparr>)"
| r_consume: "sp_reader s = R_Copied bs \<Longrightarrow>
     ring_ConsumeSeriesReadLen (sp_ring s) (of_nat (length bs)) = Inr r' \<Longrightarrow>
     spsc_step s (s\<lparr>sp_ring := r', sp_reader := R_Idle, sp_consumed := sp_consumed s @ bs\<rparr>)"

section \<open>The invariant that ties the counters to both threads\<close>

definition writer_ok :: "ring_buffer \<Rightarrow> writer_pc \<Rightarrow> bool" where
  "writer_ok r w = (case w of
       W_Idle \<Rightarrow> True
     | W_Copy bs \<Rightarrow> length bs \<le> ring_free r
     | W_Publish bs \<Rightarrow> length bs \<le> ring_free r \<and>
         circ (rb_data r) (unat (rb_write_count r)) (length bs) = bs)"

definition reader_ok :: "ring_buffer \<Rightarrow> reader_pc \<Rightarrow> bool" where
  "reader_ok r p = (case p of
       R_Idle \<Rightarrow> True
     | R_Have n \<Rightarrow> n \<le> ring_series_read r
     | R_Copied bs \<Rightarrow> length bs \<le> ring_series_read r \<and> bs = take (length bs) (ring_contents r))"

definition spsc_inv :: "spsc \<Rightarrow> bool" where
  "spsc_inv s \<longleftrightarrow> ring_inv (sp_ring s) \<and> writer_ok (sp_ring s) (sp_writer s) \<and>
     reader_ok (sp_ring s) (sp_reader s) \<and>
     sp_produced s = sp_consumed s @ ring_contents (sp_ring s)"

lemmas thread_ok_simps = writer_ok_def reader_ok_def

text \<open>Copying in front of the published counter changes nothing a reader may look at.\<close>

lemma copy_in_step:
  assumes inv: "ring_inv r" and len: "length bs \<le> ring_free r"
    and d: "ring_copy_in r (ring_CurrentSeriesWriteHead r) bs (of_nat (length bs)) = Inr d"
  shows "ring_inv (r\<lparr>rb_data := d\<rparr>)" and "ring_contents (r\<lparr>rb_data := d\<rparr>) = ring_contents r"
    and "circ d (unat (rb_write_count r)) (length bs) = bs"
proof -
  let ?i = "rb_write_count r AND rb_max_index r"
  let ?w = "unat (rb_write_count r - rb_read_count r)"
  note dl = ring_data_length [OF inv] and i = ring_index_less [OF inv, of "rb_write_count r"]
  have n: "unat (of_nat (length bs) :: u32) = length bs"
    using len by (intro ring_length_lt32 [OF inv]) (simp add: ring_free_def)
  have "d = circ_write (rb_data r) (unat ?i) bs"
    using d n len i ring_copy_in_ok [OF inv, of ?i "of_nat (length bs)" bs]
    by (simp add: ring_CurrentSeriesWriteHead_def ring_free_def)
  moreover have fit: "?w + length bs \<le> length (rb_data r)"
    using ring_fit [OF inv len] dl by simp
  moreover have "(unat (rb_read_count r) + ?w) mod length (rb_data r) = unat ?i"
    using ring_write_index [OF inv] dl by simp
  ultimately have ld: "length d = length (rb_data r)" and
    cs: "circ d (unat (rb_read_count r)) ?w = circ (rb_data r) (unat (rb_read_count r)) ?w" and
    own: "circ d (unat ?i) (length bs) = bs"
    using i dl circ_circ_write [of "unat ?i" "rb_data r" bs]
      circ_circ_write_other [of "unat ?i" "rb_data r" ?w bs "unat (rb_read_count r)"] by simp_all
  show "ring_inv (r\<lparr>rb_data := d\<rparr>)" using inv ld dl by (simp add: ring_inv_def)
  show "ring_contents (r\<lparr>rb_data := d\<rparr>) = ring_contents r" using cs by (simp add: ring_contents_def)
  have "unat ?i mod length d = unat (rb_write_count r) mod length d"
    using ring_index [OF inv] ld dl by simp
  then show "circ d (unat (rb_write_count r)) (length bs) = bs"
    using own circ_cong_mod by metis
qed

text \<open>Publishing extends the contents by the copied bytes.\<close>

lemma publish_step:
  assumes inv: "ring_inv r" and len: "length bs \<le> ring_free r"
    and own: "circ (rb_data r) (unat (rb_write_count r)) (length bs) = bs"
  defines "r' \<equiv> r\<lparr>rb_write_count := rb_write_count r + of_nat (length bs)\<rparr>"
  shows "ring_inv r'" and "ring_contents r' = ring_contents r @ bs"
proof -
  let ?r = "rb_read_count r" and ?w = "rb_write_count r"
  have n: "unat (of_nat (length bs) :: u32) = length bs"
    using len by (intro ring_length_lt32 [OF inv]) (simp add: ring_free_def)
  have fit: "unat (?w - ?r) + length bs \<le> unat (rb_capacity r)"
    using ring_fit [OF inv len] .
  have d: "unat (?w + of_nat (length bs) - ?r) = unat (?w - ?r) + length bs"
    using fit ring_cap_le [OF inv] n by (subst unat_grow_minus) auto
  show "ring_inv r'" using inv d fit by (simp add: ring_inv_def r'_def)
  have "(unat ?r + unat (?w - ?r)) mod length (rb_data r) = unat ?w mod length (rb_data r)"
    using ring_count_plus [OF inv, of ?r "?w - ?r"] ring_data_length [OF inv] by simp
  then have "circ (rb_data r) (unat ?r + unat (?w - ?r)) (length bs) = bs"
    using own circ_cong_mod by metis
  then show "ring_contents r' = ring_contents r @ bs"
    using d by (simp add: ring_contents_def r'_def circ_append)
qed

text \<open>What the reader knows survives every writer step, what the writer knows every reader step.\<close>

lemma reader_ok_extend:
  assumes "reader_ok r p" "ring_contents r' = ring_contents r @ bs"
    and "rb_capacity r' = rb_capacity r" "rb_max_index r' = rb_max_index r"
    and "rb_read_count r' = rb_read_count r"
  shows "reader_ok r' p"
proof -
  have "ring_series_read r \<le> ring_series_read r'" "ring_series_read r \<le> length (ring_contents r)"
    using assms by (simp_all add: ring_series_read_def del: length_ring_contents) 
  with assms(1,2) show ?thesis
    by (auto simp: reader_ok_def simp del: length_ring_contents split: reader_pc.splits)
qed

lemma writer_ok_consume:
  assumes "writer_ok r w" "ring_free r \<le> ring_free r'"
    and "rb_data r' = rb_data r" "rb_write_count r' = rb_write_count r"
  shows "writer_ok r' w"
  using assms by (auto simp: writer_ok_def split: writer_pc.splits)

lemma spsc_inv_init: "ring_inv r \<Longrightarrow> ring_contents r = [] \<Longrightarrow> spsc_inv (spsc_init r)"
  by (simp add: spsc_inv_def spsc_init_def thread_ok_simps)

lemma spsc_step_inv: "spsc_step s t \<Longrightarrow> spsc_inv s \<Longrightarrow> spsc_inv t"
proof (induction rule: spsc_step.induct)
  case (w_load s a bs)
  then have "unat a = ring_free (sp_ring s)"
    using ring_AvailableWrite_ok [of "sp_ring s"] by (auto simp: spsc_inv_def)
  with w_load show ?case by (simp add: spsc_inv_def writer_ok_def)
next
  case (w_copy s bs d)
  then have "ring_inv (sp_ring s)" "length bs \<le> ring_free (sp_ring s)"
    by (simp_all add: spsc_inv_def writer_ok_def)
  from copy_in_step [OF this w_copy.hyps(2)] w_copy show ?case
    by (simp add: spsc_inv_def thread_ok_simps ring_free_def ring_series_read_def
        split: reader_pc.splits)
next
  case (w_publish s bs)
  then have "ring_inv (sp_ring s)" "length bs \<le> ring_free (sp_ring s)"
    "circ (rb_data (sp_ring s)) (unat (rb_write_count (sp_ring s))) (length bs) = bs"
    by (simp_all add: spsc_inv_def writer_ok_def)
  from publish_step [OF this] w_publish show ?case
    by (auto simp: spsc_inv_def writer_ok_def intro: reader_ok_extend)
next
  case (r_load s n)
  then have "unat n = ring_series_read (sp_ring s)"
    using ring_AvailableSeriesRead_ok [of "sp_ring s"] by (auto simp: spsc_inv_def)
  with r_load show ?case by (simp add: spsc_inv_def reader_ok_def)
next
  case (r_copy s n m bs)
  then have "ring_inv (sp_ring s)" "m \<le> ring_series_read (sp_ring s)"
    by (simp_all add: spsc_inv_def reader_ok_def)
  from ring_series_read_prefix [OF this] r_copy(3) have "bs = take m (ring_contents (sp_ring s))"
    by simp
  moreover have "m \<le> length (ring_contents (sp_ring s))"
    using \<open>m \<le> ring_series_read (sp_ring s)\<close> by (simp add: ring_series_read_def)
  ultimately show ?case
    using r_copy \<open>m \<le> ring_series_read (sp_ring s)\<close>
    by (simp add: spsc_inv_def reader_ok_def min_def)
next
  case (r_consume s bs r')
  let ?r = "sp_ring s"
  let ?n = "of_nat (length bs) :: u32"
  from r_consume have inv: "ring_inv ?r" and le: "length bs \<le> ring_series_read ?r"
    and bs: "bs = take (length bs) (ring_contents ?r)"
    by (simp_all add: spsc_inv_def reader_ok_def)
  have lec: "length bs \<le> length (ring_contents ?r)" using le by (simp add: ring_series_read_def)
  then have n: "unat ?n = length bs"
    using ring_length_le [OF inv] by (intro ring_length_lt32 [OF inv]) simp
  have r': "r' = ?r\<lparr>rb_read_count := rb_read_count ?r + ?n\<rparr>"
    using ring_Consume_read_ok [OF inv, of ?n] r_consume(2) le n by simp
  have new: "ring_inv r'" "ring_contents r' = drop (length bs) (ring_contents ?r)"
    using ring_read_advance [OF inv, of ?n] lec n r' by simp_all
  moreover have "writer_ok r' (sp_writer s)"
  proof (rule writer_ok_consume)
    show "writer_ok ?r (sp_writer s)" using r_consume(3) by (simp add: spsc_inv_def)
    show "ring_free ?r \<le> ring_free r'"
      using new(2) r' by (simp add: ring_free_def del: length_ring_contents)
  qed (simp_all add: r')
  moreover have "bs @ drop (length bs) (ring_contents ?r) = ring_contents ?r"
    using bs by (metis append_take_drop_id)
  ultimately show ?case
    using r_consume(3) by (simp add: spsc_inv_def reader_ok_def)
qed

interpretation spsc_system: invariant_system spsc_step spsc_inv
  by unfold_locales (rule spsc_step_inv)

section \<open>No step of either thread can fault\<close>

definition spsc_no_fault :: "spsc \<Rightarrow> bool" where
  "spsc_no_fault s \<longleftrightarrow>
     (\<exists>a. ring_AvailableWrite (sp_ring s) = Inr a) \<and>
     (\<forall>bs. sp_writer s = W_Copy bs \<longrightarrow>
        (\<exists>d. ring_copy_in (sp_ring s) (ring_CurrentSeriesWriteHead (sp_ring s)) bs
           (of_nat (length bs)) = Inr d)) \<and>
     (\<exists>n. ring_AvailableSeriesRead (sp_ring s) = Inr n) \<and>
     (\<forall>n m. sp_reader s = R_Have n \<longrightarrow> m \<le> n \<longrightarrow>
        (\<exists>bs. mem_read (rb_data (sp_ring s))
           (unat (ring_CurrentSeriesReadHead (sp_ring s))) m = Inr bs)) \<and>
     (\<forall>bs. sp_reader s = R_Copied bs \<longrightarrow>
        (\<exists>r'. ring_ConsumeSeriesReadLen (sp_ring s) (of_nat (length bs)) = Inr r'))"

lemma spsc_inv_no_fault:
  assumes "spsc_inv s"
  shows "spsc_no_fault s"
proof -
  from assms have inv: "ring_inv (sp_ring s)" by (simp add: spsc_inv_def)
  let ?i = "rb_write_count (sp_ring s) AND rb_max_index (sp_ring s)"
  have n: "unat (of_nat m :: u32) = m" if "m \<le> unat (rb_capacity (sp_ring s))" for m
    using ring_length_lt32 [OF inv that] .
  have "\<exists>d. ring_copy_in (sp_ring s) ?i bs (of_nat (length bs)) = Inr d"
    if "sp_writer s = W_Copy bs" for bs
  proof -
    have "length bs \<le> unat (rb_capacity (sp_ring s))"
      using that assms by (auto simp: spsc_inv_def writer_ok_def ring_free_def)
    with n show ?thesis
      using ring_copy_in_ok [OF inv ring_index_less [OF inv], of "of_nat (length bs)" bs] by simp
  qed
  moreover have "\<exists>r'. ring_ConsumeSeriesReadLen (sp_ring s) (of_nat (length bs)) = Inr r'"
    if "sp_reader s = R_Copied bs" for bs
  proof -
    have le: "length bs \<le> ring_series_read (sp_ring s)"
      using that assms by (simp add: spsc_inv_def reader_ok_def)
    then have "length bs \<le> unat (rb_capacity (sp_ring s))"
      using ring_length_le [OF inv] by (auto simp: ring_series_read_def)
    with n le show ?thesis
      using ring_Consume_read_ok [OF inv, of "of_nat (length bs)"] by simp
  qed
  moreover have "\<exists>bs. mem_read (rb_data (sp_ring s))
      (unat (ring_CurrentSeriesReadHead (sp_ring s))) m = Inr bs"
    if "sp_reader s = R_Have n" "m \<le> n" for n m
    using that assms ring_series_read_prefix [OF inv, of m] by (simp add: spsc_inv_def reader_ok_def)
  ultimately show ?thesis
    using ring_AvailableWrite_ok [OF inv] ring_AvailableSeriesRead_ok [OF inv]
    unfolding spsc_no_fault_def ring_CurrentSeriesWriteHead_def by blast
qed

end
