(* ===== verification/Log_Wrapper.thy ===== *)
theory Log_Wrapper
  imports Prelude
begin

text \<open>
  The severity gate of rtc_log_wrapper.hpp: \<^verbatim>\<open>RTCHAT_LOG\<close> builds a message only when its severity
  reaches the minimum level, and adds the source position only above \<^verbatim>\<open>LS_INFO\<close>. The severities are
  those of webrtc/rtc_base/logging.h; the formatting behind \<^verbatim>\<open>rtc::LogMessage\<close> is not modelled.
\<close>

datatype severity = LS_SENSITIVE | LS_VERBOSE | LS_INFO | LS_WARNING | LS_ERROR | LS_NONE

fun severity_code :: "severity \<Rightarrow> nat" where
  "severity_code LS_SENSITIVE = 0"
| "severity_code LS_VERBOSE = 1"
| "severity_code LS_INFO = 2"
| "severity_code LS_WARNING = 3"
| "severity_code LS_ERROR = 4"
| "severity_code LS_NONE = 5"

instantiation severity :: linorder
begin

definition less_eq_severity :: "severity \<Rightarrow> severity \<Rightarrow> bool" where
  "less_eq_severity a b \<longleftrightarrow> severity_code a \<le> severity_code b"

definition less_severity :: "severity \<Rightarrow> severity \<Rightarrow> bool" where
  "less_severity a b \<longleftrightarrow> severity_code a < severity_code b"

instance
proof
  fix a b c :: severity
  show "a < b \<longleftrightarrow> a \<le> b \<and> \<not> b \<le> a" by (auto simp: less_eq_severity_def less_severity_def)
  show "a \<le> a" by (simp add: less_eq_severity_def)
  show "a \<le> b \<Longrightarrow> b \<le> c \<Longrightarrow> a \<le> c" by (simp add: less_eq_severity_def)
  show "a \<le> b \<Longrightarrow> b \<le> a \<Longrightarrow> a = b"
    by (cases a; cases b) (simp_all add: less_eq_severity_def)
  show "a \<le> b \<or> b \<le> a" by (auto simp: less_eq_severity_def)
qed

end

record log_entry =
  le_severity :: severity
  le_position :: "(string \<times> nat) option"

record log_wrapper =
  lw_min_log_lev :: severity
  lw_emitted :: "log_entry list"

definition RtcLogWrapper_init :: log_wrapper where
  "RtcLogWrapper_init = \<lparr> lw_min_log_lev = LS_INFO, lw_emitted = [] \<rparr>"

definition SetMinLogLevel :: "severity \<Rightarrow> log_wrapper \<Rightarrow> log_wrapper" where
  "SetMinLogLevel sev w = w\<lparr>lw_min_log_lev := sev\<rparr>"

definition RTCHAT_LOG :: "severity \<Rightarrow> string \<Rightarrow> nat \<Rightarrow> log_wrapper \<Rightarrow> log_wrapper" where
  "RTCHAT_LOG sev file line w =
     (if \<not> sev \<ge> lw_min_log_lev w then w
      else w\<lparr>lw_emitted := lw_emitted w @
        [\<lparr> le_severity = sev,
           le_position = (if sev > LS_INFO then Some (file, line) else None) \<rparr>]\<rparr>)"

definition log_all :: "(severity \<times> string \<times> nat) list \<Rightarrow> log_wrapper \<Rightarrow> log_wrapper" where
  "log_all = fold (\<lambda>(sev, file, line). RTCHAT_LOG sev file line)"

text \<open>Exactly the statements at or above the level are emitted, in order.\<close>

lemma log_all_filter:
  "lw_emitted (log_all ms w) = lw_emitted w @
     map (\<lambda>(sev, file, line). \<lparr> le_severity = sev,
        le_position = (if sev > LS_INFO then Some (file, line) else None) \<rparr>)
       (filter (\<lambda>(sev, _). lw_min_log_lev w \<le> sev) ms)"
proof (induction ms arbitrary: w)
  case Nil
  then show ?case by (simp add: log_all_def)
next
  case (Cons m ms)
  obtain sev f n where m: "m = (sev, f, n)" by (cases m)
  have "log_all (m # ms) w = log_all ms (RTCHAT_LOG sev f n w)"
    by (simp add: log_all_def m)
  moreover have "lw_min_log_lev (RTCHAT_LOG sev f n w) = lw_min_log_lev w"
    by (simp add: RTCHAT_LOG_def)
  ultimately show ?case
    using Cons.IH [of "RTCHAT_LOG sev f n w"] by (simp add: m RTCHAT_LOG_def)
qed

end
