(* ===== verification/String_Helper.thy ===== *)
theory String_Helper
  imports Prelude
begin

text \<open>
  \<^verbatim>\<open>stringtok\<close> and \<^verbatim>\<open>Avar\<close> of string_helper.h. The searches of \<^verbatim>\<open>std::string\<close> are modelled with
  their positions, \<^verbatim>\<open>npos\<close> being \<open>None\<close>; what \<^verbatim>\<open>vsnprintf\<close> formats is a parameter of \<open>Avar\<close>.
\<close>

function find_from :: "('a \<Rightarrow> bool) \<Rightarrow> 'a list \<Rightarrow> nat \<Rightarrow> nat option" where
  "find_from P xs i =
     (if i < length xs then if P (xs ! i) then Some i else find_from P xs (Suc i) else None)"
  by pat_completeness auto
termination
  by (relation "measure (\<lambda>(P, xs, i). length xs - i)") auto

declare find_from.simps [simp del]

definition find_first_not_of :: "string \<Rightarrow> string \<Rightarrow> nat \<Rightarrow> nat option" where
  "find_first_not_of s delims i = find_from (\<lambda>c. c \<notin> set delims) s i"

definition find_first_of :: "string \<Rightarrow> string \<Rightarrow> nat \<Rightarrow> nat option" where
  "find_first_of s delims i = find_from (\<lambda>c. c \<in> set delims) s i"

lemma find_from_Some:
  "find_from P xs i = Some j \<Longrightarrow>
     i \<le> j \<and> j < length xs \<and> P (xs ! j) \<and> (\<forall>k. i \<le> k \<longrightarrow> k < j \<longrightarrow> \<not> P (xs ! k))"
proof (induction P xs i rule: find_from.induct)
  case (1 P xs i)
  show ?case
  proof (cases "i < length xs \<and> \<not> P (xs ! i)")
    case True
    with 1 have "Suc i \<le> j \<and> j < length xs \<and> P (xs ! j) \<and> (\<forall>k. Suc i \<le> k \<longrightarrow> k < j \<longrightarrow> \<not> P (xs ! k))"
      by (simp add: find_from.simps [of P xs i])
    with True show ?thesis by (metis Suc_leI Suc_leD le_neq_implies_less)
  next
    case False
    with 1 show ?thesis by (auto simp: find_from.simps [of P xs i] split: if_splits)
  qed
qed

lemma find_from_None:
  "find_from P xs i = None \<Longrightarrow> \<forall>k. i \<le> k \<longrightarrow> k < length xs \<longrightarrow> \<not> P (xs ! k)"
proof (induction P xs i rule: find_from.induct)
  case (1 P xs i)
  then have hit: "i < length xs \<Longrightarrow> \<not> P (xs ! i)"
    by (auto simp: find_from.simps [of P xs i])
  show ?case
  proof (cases "i < length xs")
    case True
    with 1 hit have "\<forall>k. Suc i \<le> k \<longrightarrow> k < length xs \<longrightarrow> \<not> P (xs ! k)"
      by (simp add: find_from.simps [of P xs i])
    with hit show ?thesis by (metis Suc_leI le_neq_implies_less)
  qed auto
qed

definition substr :: "string \<Rightarrow> nat \<Rightarrow> nat \<Rightarrow> string" where
  "substr s i n = take n (drop i s)"

text \<open>
  The loop of \<^verbatim>\<open>stringtok\<close>: position \<open>i\<close>, tokens counted so far, and the container. The loop ends
  because each round moves past a token and the delimiter behind it.
\<close>

function tok_loop :: "string \<Rightarrow> string \<Rightarrow> int \<Rightarrow> nat \<Rightarrow> int \<Rightarrow> string list \<Rightarrow> string list" where
  "tok_loop s delims deep i count container =
     (if i < length s then
        case find_first_not_of s delims i of
          None \<Rightarrow> container
        | Some i' \<Rightarrow>
            (case find_first_of s delims i' of
               None \<Rightarrow> container @ [substr s i' (length s - i')]
             | Some j \<Rightarrow>
                 if deep > 0 \<and> count + 1 > deep
                 then container @ [substr s i' (length s - i')]
                 else tok_loop s delims deep (j + 1) (count + 1) (container @ [substr s i' (j - i')]))
      else container)"
  by pat_completeness auto
termination
  by (relation "measure (\<lambda>(s, delims, deep, i, count, container). length s - i)")
    (auto simp: find_first_of_def find_first_not_of_def dest!: find_from_Some)

declare tok_loop.simps [simp del]

definition stringtok :: "string list \<Rightarrow> string \<Rightarrow> string \<Rightarrow> int \<Rightarrow> string list" where
  "stringtok container s delims deep = tok_loop s delims deep 0 0 container"

definition default_delimiters :: string where
  "default_delimiters = [CHR 0x20, CHR 0x09, CHR 0x0A]"

text \<open>The tokens by structural means: runs of non-delimiters.\<close>

function words_of :: "string \<Rightarrow> string \<Rightarrow> string list" where
  "words_of delims s =
     (let s' = dropWhile (\<lambda>c. c \<in> set delims) s in
      if s' = [] then []
      else takeWhile (\<lambda>c. c \<notin> set delims) s' #
        words_of delims (dropWhile (\<lambda>c. c \<notin> set delims) s'))"
  by pat_completeness auto
termination
proof (relation "measure (\<lambda>(delims, s). length s)", simp)
  fix delims s s' :: string
  assume s': "s' = dropWhile (\<lambda>c. c \<in> set delims) s" and "s' \<noteq> []"
  then have "hd s' \<notin> set delims" by (metis hd_dropWhile)
  with \<open>s' \<noteq> []\<close> have "length (dropWhile (\<lambda>c. c \<notin> set delims) s') < length s'"
    by (cases s') (auto simp: length_dropWhile_le less_Suc_eq_le)
  moreover have "length s' \<le> length s" unfolding s' by (rule length_dropWhile_le)
  ultimately show "((delims, dropWhile (\<lambda>c. c \<notin> set delims) s'), delims, s)
      \<in> measure (\<lambda>(delims, s). length s)" by simp
qed

declare words_of.simps [simp del]

lemma words_of_none:
  "dropWhile (\<lambda>c. c \<in> set delims) s = [] \<Longrightarrow> words_of delims s = []"
  by (simp only: words_of.simps [of delims s] Let_def simp_thms if_True)

lemma words_of_some:
  assumes "d = dropWhile (\<lambda>c. c \<in> set delims) s" "d \<noteq> []"
  shows "words_of delims s = takeWhile (\<lambda>c. c \<notin> set delims) d #
    words_of delims (dropWhile (\<lambda>c. c \<notin> set delims) d)"
  by (simp only: words_of.simps [of delims s] Let_def assms(1) [symmetric] if_not_P [OF assms(2)])

lemma find_from_dropWhile:
  assumes "i \<le> length xs"
  shows "find_from P xs i =
    (let d = dropWhile (\<lambda>c. \<not> P c) (drop i xs) in
     if d = [] then None else Some (length xs - length d))"
  using assms
proof (induction P xs i rule: find_from.induct)
  case (1 P xs i)
  show ?case
  proof (cases "i < length xs")
    case True
    then have "drop i xs = xs ! i # drop (Suc i) xs" by (rule Cons_nth_drop_Suc [symmetric])
    with True 1 show ?thesis by (simp add: find_from.simps [of P xs i] Let_def)
  next
    case False
    then show ?thesis by (simp add: find_from.simps [of P xs i])
  qed
qed

lemma dropWhile_position:
  assumes "i \<le> length xs" "d = dropWhile Q (drop i xs)"
  shows "drop (length xs - length d) xs = d" and "length d \<le> length xs - i"
    and "take (length xs - length d - i) (drop i xs) = takeWhile Q (drop i xs)"
proof -
  show le: "length d \<le> length xs - i"
    using length_dropWhile_le [of Q "drop i xs"] assms by simp
  have d: "d = drop (length (takeWhile Q (drop i xs))) (drop i xs)"
    using assms(2) by (simp add: dropWhile_eq_drop)
  then have len: "length xs - length d = i + length (takeWhile Q (drop i xs))"
    using assms(1) length_takeWhile_le [of Q "drop i xs"] by simp
  have "drop (length xs - length d) xs = drop (length (takeWhile Q (drop i xs))) (drop i xs)"
    by (simp only: len drop_drop add.commute)
  then show "drop (length xs - length d) xs = d" by (simp only: d [symmetric])
  show "take (length xs - length d - i) (drop i xs) = takeWhile Q (drop i xs)"
    by (simp only: len diff_add_inverse takeWhile_eq_take [symmetric])
qed

lemma words_of_after:
  assumes j: "drop j s = e" "e \<noteq> []" "j < length s" and hd: "hd e \<in> set delims"
  shows "words_of delims (drop (j + 1) s) = words_of delims e"
proof -
  have "e = hd e # drop (j + 1) s"
    using j by (metis Cons_nth_drop_Suc Suc_eq_plus1 list.sel(1))
  with hd have "dropWhile (\<lambda>c. c \<in> set delims) e = dropWhile (\<lambda>c. c \<in> set delims) (drop (j + 1) s)"
    by (metis dropWhile.simps(2))
  then show ?thesis
    by (simp only: words_of.simps [of delims e] words_of.simps [of delims "drop (j + 1) s"])
qed

lemma tok_loop_words:
  assumes "i \<le> length s" "deep \<le> 0"
  shows "tok_loop s delims deep i count container = container @ words_of delims (drop i s)"
  using assms
proof (induction s delims deep i count container rule: tok_loop.induct)
  case (1 s delims deep i count container)
  let ?D = "\<lambda>c. c \<in> set delims"
  let ?d = "dropWhile ?D (drop i s)"
  show ?case
  proof (cases "?d = []")
    case True
    then have "words_of delims (drop i s) = []" by (rule words_of_none)
    moreover from True have "find_first_not_of s delims i = None"
      using find_from_dropWhile [OF "1.prems"(1), of "\<lambda>c. \<not> ?D c"]
      by (simp add: find_first_not_of_def)
    ultimately show ?thesis by (simp add: tok_loop.simps [of s delims deep i])
  next
    case nonempty: False
    let ?i = "length s - length ?d"
    let ?e = "dropWhile (\<lambda>c. \<not> ?D c) (drop ?i s)"
    have lt: "i < length s" using nonempty by (metis drop_all dropWhile.simps(1) not_le)
    have f1: "find_first_not_of s delims i = Some ?i"
      using find_from_dropWhile [OF "1.prems"(1), of "\<lambda>c. \<not> ?D c"] nonempty
      by (simp add: find_first_not_of_def Let_def)
    have di: "drop ?i s = ?d" using dropWhile_position(1) [OF "1.prems"(1) refl] .
    have f2: "find_first_of s delims ?i = (if ?e = [] then None else Some (length s - length ?e))"
      using find_from_dropWhile [of ?i s ?D] by (simp add: find_first_of_def Let_def)
    have w: "words_of delims (drop i s) = takeWhile (\<lambda>c. \<not> ?D c) ?d # words_of delims ?e"
      using words_of_some [OF refl nonempty] by (simp only: di)
    show ?thesis
    proof (cases "?e = []")
      case True
      then have all: "takeWhile (\<lambda>c. \<not> ?D c) ?d = ?d"
        using di by (metis append.right_neutral takeWhile_dropWhile_id)
      have "tok_loop s delims deep i count container = container @ [substr s ?i (length s - ?i)]"
        by (simp only: tok_loop.simps [of s delims deep i] lt f1 f2 True simp_thms if_True option.case)
      moreover have "substr s ?i (length s - ?i) = ?d"
      proof -
        have "length ?d \<le> length s - ?i"
          using dropWhile_position(2) [OF "1.prems"(1) refl, of ?D] "1.prems"(1) by linarith
        then have "take (length s - ?i) ?d = ?d" by (rule take_all)
        then show ?thesis by (simp only: substr_def di)
      qed
      moreover have "words_of delims (drop i s) = [?d]"
      proof -
        have "words_of delims ?e = []" unfolding True by (rule words_of_none) simp
        with all show ?thesis by (intro trans [OF w] arg_cong2 [where f = Cons])
      qed
      ultimately show ?thesis by (simp only:)
    next
      case False
      let ?j = "length s - length ?e"
      have j: "drop ?j s = ?e" and tk: "take (?j - ?i) (drop ?i s) = takeWhile (\<lambda>c. \<not> ?D c) ?d"
        using dropWhile_position [of ?i s ?e "\<lambda>c. \<not> ?D c"] di by simp_all
      have jl: "?j < length s"
      proof (rule ccontr)
        assume "\<not> ?j < length s"
        then have "drop ?j s = []" by (intro drop_all) (rule leI)
        with j False show False by (simp only: simp_thms)
      qed
      have hd: "?D (hd ?e)" using hd_dropWhile [OF False] by simp
      have skip: "words_of delims (drop (?j + 1) s) = words_of delims ?e"
        using words_of_after [OF j False jl hd] .
      have "tok_loop s delims deep (?j + 1) (count + 1) (container @ [substr s ?i (?j - ?i)]) =
          (container @ [substr s ?i (?j - ?i)]) @ words_of delims (drop (?j + 1) s)"
        using "1.IH" [OF lt f1 f2 [unfolded if_not_P [OF False]]] "1.prems"(2) jl by simp
      moreover have "tok_loop s delims deep i count container =
          tok_loop s delims deep (?j + 1) (count + 1) (container @ [substr s ?i (?j - ?i)])"
        using "1.prems"(2)
        by (simp only: tok_loop.simps [of s delims deep i] lt f1 f2 if_not_P [OF False] simp_thms if_True option.case)
          simp
      moreover have "substr s ?i (?j - ?i) = takeWhile (\<lambda>c. \<not> ?D c) ?d"
        by (simp only: substr_def tk)
      ultimately show ?thesis by (simp only: skip w append.assoc append.simps)
    qed
  qed
qed

lemma words_of_tokens:
  "set (words_of delims s) \<subseteq> {w. w \<noteq> [] \<and> set w \<inter> set delims = {}}"
proof (induction delims s rule: words_of.induct)
  case (1 delims s)
  let ?d = "dropWhile (\<lambda>c. c \<in> set delims) s"
  show ?case
  proof (cases "?d = []")
    case True
    then show ?thesis by (simp add: words_of_none)
  next
    case False
    then have "hd ?d \<notin> set delims" by (metis hd_dropWhile)
    with False have "takeWhile (\<lambda>c. c \<notin> set delims) ?d \<noteq> []" by (cases ?d) auto
    moreover have "set (takeWhile (\<lambda>c. c \<notin> set delims) ?d) \<inter> set delims = {}"
      by (auto dest: set_takeWhileD)
    ultimately show ?thesis
      using "1.IH" [OF refl False] words_of_some [OF refl False] by simp
  qed
qed

lemma words_of_concat: "concat (words_of delims s) = filter (\<lambda>c. c \<notin> set delims) s"
proof (induction delims s rule: words_of.induct)
  case (1 delims s)
  let ?d = "dropWhile (\<lambda>c. c \<in> set delims) s"
  let ?Q = "\<lambda>c. c \<notin> set delims"
  have s: "filter ?Q s = filter ?Q ?d"
    by (induction s) auto
  show ?case
  proof (cases "?d = []")
    case True
    with s show ?thesis by (simp only: words_of_none concat.simps filter.simps)
  next
    case False
    have "filter ?Q ?d = filter ?Q (takeWhile ?Q ?d) @ filter ?Q (dropWhile ?Q ?d)"
      by (metis filter_append takeWhile_dropWhile_id)
    moreover have "filter ?Q (takeWhile ?Q ?d) = takeWhile ?Q ?d"
      by (auto simp: filter_id_conv dest: set_takeWhileD)
    ultimately show ?thesis
      using "1.IH" [OF refl False] s
      by (simp only: words_of_some [OF refl False] concat.simps)
  qed
qed

text \<open>With a positive \<^verbatim>\<open>deep\<close> there are at most \<open>deep + 1\<close> tokens.\<close>

lemma tok_loop_deep:
  assumes "deep > 0" "0 \<le> count" "count \<le> deep"
  shows "int (length (tok_loop s delims deep i count container)) \<le>
    int (length container) + (deep + 1 - count)"
  using assms
proof (induction s delims deep i count container rule: tok_loop.induct)
  case (1 s delims deep i count container)
  then show ?case
    by (subst tok_loop.simps) (fastforce split: option.splits)
qed

text \<open>
  \<^verbatim>\<open>Avar\<close> formats into 1024 bytes with a terminating NUL; the string it returns ends at the first
  NUL. \<open>formatted\<close> is the complete text the format and its arguments stand for.
\<close>

definition Avar :: "string \<Rightarrow> string" where
  "Avar formatted =
     (let szBuffer = take 1023 formatted @ replicate (1024 - length (take 1023 formatted)) (CHR 0x00)
      in takeWhile (\<lambda>c. c \<noteq> CHR 0x00) szBuffer)"

lemma takeWhile_padded:
  "takeWhile (\<lambda>c. c \<noteq> z) (xs @ replicate n z) = takeWhile (\<lambda>c. c \<noteq> z) xs"
  by (induction xs) (cases n, auto)

lemma Avar_eq: "Avar s = takeWhile (\<lambda>c. c \<noteq> CHR 0x00) (take 1023 s)"
  by (simp only: Avar_def Let_def takeWhile_padded)

lemma Avar_short:
  assumes "length s < 1024" "CHR 0x00 \<notin> set s"
  shows "Avar s = s"
  using assms by (auto simp: Avar_eq takeWhile_eq_all_conv)

lemma Avar_bound: "length (Avar s) < 1024"
  using length_takeWhile_le [of "\<lambda>c. c \<noteq> CHR 0x00" "take 1023 s"] by (simp add: Avar_eq)

end
