(* ===== verification/Singleton.thy ===== *)
theory Singleton
  imports Prelude
begin

text \<open>
  \<^verbatim>\<open>Singleton\<close> of singleton.h with its default factory: one static pointer, which the first
  constructor sets and every destructor clears. Objects are numbered as they are allocated; an
  operation on the class is a step of the heap of live objects and that pointer.
\<close>

record singleton_heap =
  sg_ms_Singleton :: "nat option"
  sg_live :: "nat list"
  sg_next :: nat

definition singleton_init :: singleton_heap where
  "singleton_init = \<lparr> sg_ms_Singleton = None, sg_live = [], sg_next = 0 \<rparr>"

text \<open>\<^verbatim>\<open>SingletonFactory::create\<close> allocates; the base constructor registers the first object.\<close>

definition Singleton_ctor :: "nat \<Rightarrow> singleton_heap \<Rightarrow> singleton_heap" where
  "Singleton_ctor this h =
     (case sg_ms_Singleton h of
        None \<Rightarrow> h\<lparr>sg_ms_Singleton := Some this\<rparr>
      | Some _ \<Rightarrow> h)"

definition SingletonFactory_create :: "singleton_heap \<Rightarrow> nat \<times> singleton_heap" where
  "SingletonFactory_create h =
     (let this = sg_next h in
      (this, Singleton_ctor this (h\<lparr>sg_live := this # sg_live h, sg_next := Suc this\<rparr>)))"

text \<open>\<^verbatim>\<open>delete p\<close> runs the destructor, which clears the pointer whichever object dies.\<close>

definition Singleton_delete :: "nat \<Rightarrow> singleton_heap \<Rightarrow> singleton_heap" where
  "Singleton_delete this h =
     h\<lparr>sg_live := filter (\<lambda>x. x \<noteq> this) (sg_live h), sg_ms_Singleton := None\<rparr>"

definition Singleton_delMe :: "singleton_heap \<Rightarrow> singleton_heap" where
  "Singleton_delMe h =
     (case sg_ms_Singleton h of
        None \<Rightarrow> h
      | Some p \<Rightarrow> (Singleton_delete p h)\<lparr>sg_ms_Singleton := None\<rparr>)"

definition Singleton_instance :: "singleton_heap \<Rightarrow> nat option \<times> singleton_heap" where
  "Singleton_instance h =
     (let h' = (if sg_ms_Singleton h = None then snd (SingletonFactory_create h) else h) in
      (sg_ms_Singleton h', h'))"

definition Singleton_getMe :: "singleton_heap \<Rightarrow> (nat \<times> singleton_heap) result" where
  "Singleton_getMe h =
     (case Singleton_instance h of
        (None, _) \<Rightarrow> Inl Null_Deref
      | (Some p, h') \<Rightarrow> Inr (p, h'))"

text \<open>Used through \<^verbatim>\<open>instance\<close>, \<^verbatim>\<open>getMe\<close> and \<^verbatim>\<open>delMe\<close> only, the class keeps at most one object.\<close>

datatype singleton_call = Instance | GetMe | DelMe

fun singleton_step :: "singleton_call \<Rightarrow> singleton_heap \<Rightarrow> singleton_heap" where
  "singleton_step Instance h = snd (Singleton_instance h)"
| "singleton_step GetMe h = (case Singleton_getMe h of Inl _ \<Rightarrow> h | Inr (_, h') \<Rightarrow> h')"
| "singleton_step DelMe h = Singleton_delMe h"

definition singleton_inv :: "singleton_heap \<Rightarrow> bool" where
  "singleton_inv h \<longleftrightarrow>
     sg_live h = (case sg_ms_Singleton h of None \<Rightarrow> [] | Some p \<Rightarrow> [p]) \<and>
     (\<forall>p. sg_ms_Singleton h = Some p \<longrightarrow> p < sg_next h)"

lemma singleton_instance_ok:
  assumes "singleton_inv h"
  shows "\<exists>p h'. Singleton_instance h = (Some p, h') \<and> singleton_inv h' \<and> p \<in> set (sg_live h') \<and>
    Singleton_instance h' = (Some p, h')"
  using assms
  by (cases "sg_ms_Singleton h")
    (auto simp: Singleton_instance_def SingletonFactory_create_def Singleton_ctor_def
      singleton_inv_def Let_def)

lemma singleton_delMe_ok:
  assumes "singleton_inv h"
  shows "singleton_inv (Singleton_delMe h)" and "sg_live (Singleton_delMe h) = []"
  using assms
  by (auto simp: Singleton_delMe_def Singleton_delete_def singleton_inv_def split: option.splits)

lemma singleton_step_inv: "singleton_inv h \<Longrightarrow> singleton_inv (singleton_step c h)"
  using singleton_instance_ok [of h] singleton_delMe_ok [of h]
  by (cases c) (auto simp: Singleton_getMe_def)

lemma singleton_run_inv: "singleton_inv h \<Longrightarrow> singleton_inv (fold singleton_step cs h)"
  by (induction cs arbitrary: h) (auto intro: singleton_step_inv)

end
