(* ===== verification/Base_Status.thy ===== *)
theory Base_Status
  imports Prelude
begin

text \<open>
  \<^verbatim>\<open>BaseStatus\<close> of base_status.hpp: the life cycle states every service of the library carries, their
  numeric codes, the names they print as, and the queries on them.
\<close>

datatype status = kNull | kInitializing | kInitialized | kStarting | kRunning | kStopping | kStopped

datatype substatus = kSubStatusNull | kStoppingListener | kStoppingThreadPool

fun status_code :: "status \<Rightarrow> nat" where
  "status_code kNull = 0"
| "status_code kInitializing = 1"
| "status_code kInitialized = 2"
| "status_code kStarting = 3"
| "status_code kRunning = 4"
| "status_code kStopping = 5"
| "status_code kStopped = 6"

fun substatus_code :: "substatus \<Rightarrow> nat" where
  "substatus_code kSubStatusNull = 0"
| "substatus_code kStoppingListener = 1"
| "substatus_code kStoppingThreadPool = 2"

definition StatusDesc :: "string list" where
  "StatusDesc = [''kNull'', ''kInitializing'', ''kInitialized'', ''kStarting'', ''kRunning'',
     ''kStopping'', ''kStopped'']"

record base_status =
  bs_status :: status
  bs_substatus :: substatus

definition BaseStatus_new :: base_status where
  "BaseStatus_new = \<lparr> bs_status = kNull, bs_substatus = kSubStatusNull \<rparr>"

definition StatusToString :: "('a base_status_scheme) \<Rightarrow> string result" where
  "StatusToString b =
     (let i = status_code (bs_status b) in
      if i < length StatusDesc then Inr (StatusDesc ! i) else Inl Out_Of_Bounds)"

definition IsRunning :: "('a base_status_scheme) \<Rightarrow> bool" where
  "IsRunning b \<longleftrightarrow> bs_status b = kRunning"

definition IsStopped :: "('a base_status_scheme) \<Rightarrow> bool" where
  "IsStopped b \<longleftrightarrow> bs_status b = kStopped"

definition IsStopping :: "('a base_status_scheme) \<Rightarrow> bool" where
  "IsStopping b \<longleftrightarrow> bs_status b = kStopping"

text \<open>The codes order the states as the life cycle visits them.\<close>

instantiation status :: linorder
begin

definition less_eq_status :: "status \<Rightarrow> status \<Rightarrow> bool" where
  "less_eq_status a b \<longleftrightarrow> status_code a \<le> status_code b"

definition less_status :: "status \<Rightarrow> status \<Rightarrow> bool" where
  "less_status a b \<longleftrightarrow> status_code a < status_code b"

instance
proof
  fix a b c :: status
  show "a < b \<longleftrightarrow> a \<le> b \<and> \<not> b \<le> a" by (auto simp: less_eq_status_def less_status_def)
  show "a \<le> a" by (simp add: less_eq_status_def)
  show "a \<le> b \<Longrightarrow> b \<le> c \<Longrightarrow> a \<le> c" by (simp add: less_eq_status_def)
  show "a \<le> b \<Longrightarrow> b \<le> a \<Longrightarrow> a = b"
    by (cases a; cases b) (simp_all add: less_eq_status_def)
  show "a \<le> b \<or> b \<le> a" by (auto simp: less_eq_status_def)
qed

end

lemma status_code_less: "status_code s < 7"
  by (cases s) simp_all

lemma StatusToString_total: "\<exists>d. StatusToString b = Inr d"
  using status_code_less [of "bs_status b"] by (simp add: StatusToString_def StatusDesc_def Let_def)

lemma StatusToString_inj:
  assumes "StatusToString a = StatusToString b"
  shows "bs_status a = bs_status b"
  using assms
  by (cases "bs_status a"; cases "bs_status b") (simp_all add: StatusToString_def StatusDesc_def)

end
