(* ===== verification/Event_Watcher.thy ===== *)
theory Event_Watcher
  imports Prelude
begin

text \<open>
  event_watcher.hpp and event_watcher.cpp: the watcher base class and its pipe, timer and signal
  variants. A \<^verbatim>\<open>std::function\<close> is an optional name; calling an empty one is
  \<^term>\<open>Bad_Function_Call\<close>, calling a full one is left to a parameter \<open>call\<close>. What libevent and
  the kernel answer (\<^verbatim>\<open>event_add\<close>, \<^verbatim>\<open>event_del\<close>, \<^verbatim>\<open>socketpair\<close>, \<^verbatim>\<open>recv\<close>) are
  arguments of the operations; the event record keeps what the calls promise when they succeed.
\<close>

section \<open>The event record of libevent, as far as the watchers use it\<close>

definition EV_TIMEOUT :: "16 word" where "EV_TIMEOUT = 1"
definition EV_READ :: "16 word" where "EV_READ = 2"
definition EV_WRITE :: "16 word" where "EV_WRITE = 4"
definition EV_SIGNAL :: "16 word" where "EV_SIGNAL = 8"
definition EV_PERSIST :: "16 word" where "EV_PERSIST = 16"

datatype watcher_kind = Pipe_Watcher | Timer_Watcher | Signal_Watcher

record 'c levent =
  ev_fd :: int
  ev_events :: "16 word"
  ev_callback :: "'c option"
  ev_base :: bool
  ev_added :: bool
  ev_timeout :: "(int \<times> int) option"

definition event_zero :: "'c levent" where
  "event_zero = \<lparr> ev_fd = 0, ev_events = 0, ev_callback = None, ev_base = False,
     ev_added = False, ev_timeout = None \<rparr>"

definition event_set :: "int \<Rightarrow> 16 word \<Rightarrow> 'c \<Rightarrow> 'c levent \<Rightarrow> 'c levent" where
  "event_set fd evs k e = e\<lparr>ev_fd := fd, ev_events := evs, ev_callback := Some k\<rparr>"

definition event_add :: "int \<Rightarrow> (int \<times> int) option \<Rightarrow> 'c levent \<Rightarrow> 'c levent" where
  "event_add rc tm e = (if rc = 0 then e\<lparr>ev_added := True, ev_timeout := tm\<rparr> else e)"

definition event_del :: "int \<Rightarrow> 'c levent \<Rightarrow> 'c levent" where
  "event_del rc e = (if rc = 0 then e\<lparr>ev_added := False, ev_timeout := None\<rparr> else e)"

section \<open>EventWatcher\<close>

record 'h watcher =
  w_event :: "watcher_kind levent option"
  w_attached :: bool
  w_handler :: "'h option"
  w_cancel_callback :: "'h option"

definition EventWatcher_new :: "'h option \<Rightarrow> 'h watcher" where
  "EventWatcher_new handler =
     \<lparr> w_event = Some event_zero, w_attached = False, w_handler = handler,
       w_cancel_callback = None \<rparr>"

definition call_handler ::
  "('h \<Rightarrow> 's \<Rightarrow> 's result) \<Rightarrow> 'h option \<Rightarrow> 's \<Rightarrow> 's result" where
  "call_handler call h s = (case h of None \<Rightarrow> Inl Bad_Function_Call | Some f \<Rightarrow> call f s)"

definition with_event ::
  "(watcher_kind levent \<Rightarrow> watcher_kind levent) \<Rightarrow> ('h, 'a) watcher_scheme \<Rightarrow> ('h, 'a) watcher_scheme result" where
  "with_event f w =
     (case w_event w of
        None \<Rightarrow> Inl Null_Deref
      | Some e \<Rightarrow> Inr (w\<lparr>w_event := Some (f e)\<rparr>))"

definition watch_timeval :: "int \<Rightarrow> (int \<times> int) option" where
  "watch_timeval timeout_ms =
     (if timeout_ms > 0 then Some (timeout_ms div 1000, (timeout_ms mod 1000) * 1000) else None)"

definition EventWatcher_Watch ::
  "int \<Rightarrow> int \<Rightarrow> int \<Rightarrow> ('h, 'a) watcher_scheme \<Rightarrow> (bool \<times> ('h, 'a) watcher_scheme) result" where
  "EventWatcher_Watch del_rc add_rc timeout_ms w =
     rbind (if w_attached w
            then rbind (with_event (event_del del_rc) w) (\<lambda>w. Inr (w\<lparr>w_attached := False\<rparr>))
            else Inr w) (\<lambda>w.
     assert_that (\<not> w_attached w) (
     rbind (with_event (event_add add_rc (watch_timeval timeout_ms)) w) (\<lambda>w.
     if add_rc \<noteq> 0 then Inr (False, w)
     else Inr (True, w\<lparr>w_attached := True\<rparr>))))"

text \<open>The event is deleted from its base before its storage goes, whatever the call answers.\<close>

definition EventWatcher_FreeEvent :: "('h, 'a) watcher_scheme \<Rightarrow> ('h, 'a) watcher_scheme" where
  "EventWatcher_FreeEvent w =
     (case w_event w of
        None \<Rightarrow> w
      | Some _ \<Rightarrow> w\<lparr>w_attached := False, w_event := None\<rparr>)"

definition EventWatcher_Cancel ::
  "('h \<Rightarrow> ('h, 'a) watcher_scheme \<Rightarrow> ('h, 'a) watcher_scheme result) \<Rightarrow>
   ('h, 'a) watcher_scheme \<Rightarrow> ('h, 'a) watcher_scheme result" where
  "EventWatcher_Cancel call w =
     assert_that (w_event w \<noteq> None) (
     let w = EventWatcher_FreeEvent w in
     if w_cancel_callback w \<noteq> None
     then rbind (call_handler call (w_cancel_callback w) w) (\<lambda>w. Inr (w\<lparr>w_cancel_callback := None\<rparr>))
     else Inr w)"

definition EventWatcher_SetCancelCallback ::
  "'h option \<Rightarrow> ('h, 'a) watcher_scheme \<Rightarrow> ('h, 'a) watcher_scheme" where
  "EventWatcher_SetCancelCallback cb w = w\<lparr>w_cancel_callback := cb\<rparr>"

definition EventWatcher_ClearHandler :: "('h, 'a) watcher_scheme \<Rightarrow> ('h, 'a) watcher_scheme" where
  "EventWatcher_ClearHandler w = w\<lparr>w_handler := None\<rparr>"

definition EventWatcher_SetHandler ::
  "'h option \<Rightarrow> ('h, 'a) watcher_scheme \<Rightarrow> ('h, 'a) watcher_scheme" where
  "EventWatcher_SetHandler cb w = w\<lparr>w_handler := cb\<rparr>"

text \<open>\<^verbatim>\<open>Init\<close> is a template method: \<open>doInit\<close> and \<open>doClose\<close> are the virtual members.\<close>

definition EventWatcher_Init ::
  "(('h, 'a) watcher_scheme \<Rightarrow> (bool \<times> ('h, 'a) watcher_scheme) result) \<Rightarrow>
   (('h, 'a) watcher_scheme \<Rightarrow> ('h, 'a) watcher_scheme) \<Rightarrow>
   ('h, 'a) watcher_scheme \<Rightarrow> (bool \<times> ('h, 'a) watcher_scheme) result" where
  "EventWatcher_Init doInit doClose w =
     rbind (doInit w) (\<lambda>(ok, w).
     if \<not> ok then Inr (False, doClose w)
     else rbind (with_event (\<lambda>e. e\<lparr>ev_base := True\<rparr>) w) (\<lambda>w. Inr (True, w)))"

text \<open>
  In a base destructor the virtual \<^verbatim>\<open>DoClose\<close> is the base's own, which does nothing; so a
  subclass that has something to close does so in its own destructor.
\<close>

definition EventWatcher_destroy ::
  "(('h, 'a) watcher_scheme \<Rightarrow> ('h, 'a) watcher_scheme) \<Rightarrow>
   ('h, 'a) watcher_scheme \<Rightarrow> ('h, 'a) watcher_scheme" where
  "EventWatcher_destroy baseDoClose w = baseDoClose (EventWatcher_FreeEvent w)"

section \<open>PipeEventWatcher\<close>

text \<open>
  \<open>pw_closed\<close> records the descriptors handed to \<^verbatim>\<open>EVUTIL_CLOSESOCKET\<close>, in order. The constructor
  zeroes \<^verbatim>\<open>sizeof(pipe_[0] * 2)\<close> bytes, one descriptor: the second stays what memory held.
\<close>

record 'h pipe_watcher = "'h watcher" +
  pw_pipe0 :: int
  pw_pipe1 :: int
  pw_closed :: "int list"

definition PipeEventWatcher_new :: "int \<Rightarrow> 'h option \<Rightarrow> 'h pipe_watcher" where
  "PipeEventWatcher_new garbage handler =
     watcher.extend (EventWatcher_new handler)
       (pipe_watcher.fields 0 garbage [])"

definition Pipe_DoClose :: "'h pipe_watcher \<Rightarrow> 'h pipe_watcher" where
  "Pipe_DoClose w =
     (if pw_pipe0 w > 0
      then w\<lparr>pw_closed := pw_closed w @ [pw_pipe0 w, pw_pipe1 w], pw_pipe0 := 0, pw_pipe1 := 0\<rparr>
      else w)"

definition Pipe_DoInit ::
  "(int \<times> int) option \<Rightarrow> int \<Rightarrow> int \<Rightarrow> 'h pipe_watcher \<Rightarrow> (bool \<times> 'h pipe_watcher) result" where
  "Pipe_DoInit pair nb0 nb1 w =
     assert_that (pw_pipe0 w = 0) (
     case pair of
       None \<Rightarrow> Inr (False, Pipe_DoClose w)
     | Some (a, b) \<Rightarrow>
         let w = w\<lparr>pw_pipe0 := a, pw_pipe1 := b\<rparr> in
         if nb0 < 0 \<or> nb1 < 0 then Inr (False, Pipe_DoClose w)
         else rbind (with_event (event_set (pw_pipe1 w) (EV_READ OR EV_PERSIST) Pipe_Watcher) w)
                (\<lambda>w. Inr (True, w)))"

definition PipeEventWatcher_Init ::
  "(int \<times> int) option \<Rightarrow> int \<Rightarrow> int \<Rightarrow> 'h pipe_watcher \<Rightarrow> (bool \<times> 'h pipe_watcher) result" where
  "PipeEventWatcher_Init pair nb0 nb1 = EventWatcher_Init (Pipe_DoInit pair nb0 nb1) Pipe_DoClose"

text \<open>The destructor closes the pipe first; the base destructor then frees the event.\<close>

definition PipeEventWatcher_destroy :: "'h pipe_watcher \<Rightarrow> 'h pipe_watcher" where
  "PipeEventWatcher_destroy w = EventWatcher_destroy (\<lambda>w. w) (Pipe_DoClose w)"

definition Pipe_wfd :: "'h pipe_watcher \<Rightarrow> int" where
  "Pipe_wfd w = pw_pipe0 w"

definition PipeEventWatcher_AsyncWait ::
  "int \<Rightarrow> int \<Rightarrow> 'h pipe_watcher \<Rightarrow> (bool \<times> 'h pipe_watcher) result" where
  "PipeEventWatcher_AsyncWait del_rc add_rc = EventWatcher_Watch del_rc add_rc 0"

text \<open>\<^verbatim>\<open>recv\<close>'s answer is stored in a \<^verbatim>\<open>size_t\<close>, so that -1 counts as a positive length.\<close>

definition Pipe_HandlerFn ::
  "('h \<Rightarrow> 's \<Rightarrow> 's result) \<Rightarrow> int \<Rightarrow> 'h pipe_watcher \<Rightarrow> 's \<Rightarrow> 's result" where
  "Pipe_HandlerFn call recv_rc w s =
     (let n = (word_of_int recv_rc :: size_t) in
      if n > 0 then call_handler call (w_handler w) s else Inr s)"

text \<open>\<^verbatim>\<open>Notify\<close> sends one byte; the number of unread bytes at the other end is \<open>n\<close>.\<close>

definition Pipe_Notify :: "int \<Rightarrow> nat \<Rightarrow> nat" where
  "Pipe_Notify send_rc n = (if send_rc < 0 then n else n + 1)"

definition pipe_recv :: "nat \<Rightarrow> int \<times> nat" where
  "pipe_recv n = (if n = 0 then (- 1, 0) else (int (min 128 n), n - min 128 n))"

section \<open>TimerEventWatcher and SignalEventWatcher\<close>

record 'h timer_watcher = "'h watcher" +
  tw_timeout_ms :: int

definition TimerEventWatcher_new :: "'h option \<Rightarrow> int \<Rightarrow> 'h timer_watcher" where
  "TimerEventWatcher_new handler timeout_ms =
     watcher.extend (EventWatcher_new handler) (timer_watcher.fields timeout_ms)"

definition Timer_DoInit :: "'h timer_watcher \<Rightarrow> (bool \<times> 'h timer_watcher) result" where
  "Timer_DoInit w = rbind (with_event (event_set (- 1) 0 Timer_Watcher) w) (\<lambda>w. Inr (True, w))"

definition TimerEventWatcher_Init :: "'h timer_watcher \<Rightarrow> (bool \<times> 'h timer_watcher) result" where
  "TimerEventWatcher_Init = EventWatcher_Init Timer_DoInit (\<lambda>w. w)"

definition Timer_HandlerFn ::
  "('h \<Rightarrow> 's \<Rightarrow> 's result) \<Rightarrow> 'h timer_watcher \<Rightarrow> 's \<Rightarrow> 's result" where
  "Timer_HandlerFn call w = call_handler call (w_handler w)"

definition TimerEventWatcher_AsyncWait ::
  "int \<Rightarrow> int \<Rightarrow> 'h timer_watcher \<Rightarrow> (bool \<times> 'h timer_watcher) result" where
  "TimerEventWatcher_AsyncWait del_rc add_rc w =
     EventWatcher_Watch del_rc add_rc (tw_timeout_ms w) w"

record 'h signal_watcher = "'h watcher" +
  sw_signo :: int

definition SignalEventWatcher_new :: "int \<Rightarrow> 'h option \<Rightarrow> 'h signal_watcher result" where
  "SignalEventWatcher_new signo handler =
     assert_that (signo \<noteq> 0) (
     Inr (watcher.extend (EventWatcher_new handler) (signal_watcher.fields signo)))"

definition Signal_DoInit :: "'h signal_watcher \<Rightarrow> (bool \<times> 'h signal_watcher) result" where
  "Signal_DoInit w =
     assert_that (sw_signo w \<noteq> 0) (
     rbind (with_event (event_set (sw_signo w) (EV_SIGNAL OR EV_PERSIST) Signal_Watcher) w)
       (\<lambda>w. Inr (True, w)))"

definition SignalEventWatcher_Init :: "'h signal_watcher \<Rightarrow> (bool \<times> 'h signal_watcher) result" where
  "SignalEventWatcher_Init = EventWatcher_Init Signal_DoInit (\<lambda>w. w)"

definition Signal_HandlerFn ::
  "('h \<Rightarrow> 's \<Rightarrow> 's result) \<Rightarrow> 'h signal_watcher \<Rightarrow> 's \<Rightarrow> 's result" where
  "Signal_HandlerFn call w = call_handler call (w_handler w)"

definition SignalEventWatcher_AsyncWait ::
  "int \<Rightarrow> int \<Rightarrow> 'h signal_watcher \<Rightarrow> (bool \<times> 'h signal_watcher) result" where
  "SignalEventWatcher_AsyncWait del_rc add_rc = EventWatcher_Watch del_rc add_rc 0"

section \<open>The watcher's life: attached only with an event\<close>

text \<open>An attached watcher has its event, which a timer that has fired no longer has added.\<close>

definition watcher_inv :: "('h, 'a) watcher_scheme \<Rightarrow> bool" where
  "watcher_inv w \<longleftrightarrow> (w_attached w \<longrightarrow> w_event w \<noteq> None)"

lemma EventWatcher_new_inv: "watcher_inv (EventWatcher_new h)"
  by (simp add: watcher_inv_def EventWatcher_new_def)

lemma Watch_cases:
  assumes "watcher_inv w" "w_event w = Some e"
  shows "EventWatcher_Watch del_rc add_rc ms w =
    Inr (add_rc = 0, w\<lparr>w_attached := (add_rc = 0),
      w_event := Some (event_add add_rc (watch_timeval ms)
        (if w_attached w then event_del del_rc e else e))\<rparr>)"
  using assms
  by (auto simp: EventWatcher_Watch_def with_event_def rbind_def assert_that_def watcher_inv_def)

lemma Watch_none:
  assumes "watcher_inv w" "w_event w = None"
  shows "EventWatcher_Watch del_rc add_rc ms w = Inl Null_Deref"
  using assms
  by (auto simp: EventWatcher_Watch_def with_event_def rbind_def assert_that_def watcher_inv_def)

lemma Watch_inv:
  assumes "watcher_inv w" "EventWatcher_Watch del_rc add_rc ms w = Inr (ok, w')"
  shows "watcher_inv w'"
  using assms Watch_none [OF assms(1)] Watch_cases [OF assms(1)]
  by (cases "w_event w") (auto simp: watcher_inv_def event_add_def)

lemma watch_timeval_exact:
  assumes "ms > 0"
  shows "\<exists>s us. watch_timeval ms = Some (s, us) \<and> s * 1000000 + us = ms * 1000 \<and>
    0 \<le> us \<and> us < 1000000 \<and> 0 \<le> s"
proof -
  have "ms div 1000 * 1000 + ms mod 1000 = ms" by simp
  then have "ms div 1000 * 1000000 + ms mod 1000 * 1000 = ms * 1000" by linarith
  moreover have "0 \<le> ms mod 1000" "ms mod 1000 < 1000" by simp_all
  ultimately show ?thesis
    using assms by (auto simp: watch_timeval_def pos_imp_zdiv_nonneg_iff)
qed

lemma FreeEvent_ok:
  assumes "watcher_inv w"
  shows "w_event (EventWatcher_FreeEvent w) = None" "\<not> w_attached (EventWatcher_FreeEvent w)"
    "w_cancel_callback (EventWatcher_FreeEvent w) = w_cancel_callback w"
    "w_handler (EventWatcher_FreeEvent w) = w_handler w"
  using assms
  by (auto simp: EventWatcher_FreeEvent_def watcher_inv_def split: option.splits)

lemma Cancel_twice:
  assumes "EventWatcher_Cancel call w = Inr w'"
    "\<And>f v v'. call f v = Inr v' \<Longrightarrow> w_event v = None \<Longrightarrow> w_event v' = None"
  shows "w_event w' = None \<and> w_cancel_callback w' = None \<and>
    EventWatcher_Cancel call w' = Inl Assert_Failed"
proof -
  from assms(1) obtain e where e: "w_event w = Some e"
    by (cases "w_event w") (auto simp: EventWatcher_Cancel_def rbind_def assert_that_def)
  let ?v = "EventWatcher_FreeEvent w"
  have v: "w_event ?v = None" using e by (simp add: EventWatcher_FreeEvent_def)
  have "w_event w' = None \<and> w_cancel_callback w' = None"
  proof (cases "w_cancel_callback ?v")
    case None
    with assms(1) e v show ?thesis
      by (auto simp: EventWatcher_Cancel_def rbind_def assert_that_def Let_def)
  next
    case (Some f)
    with assms(1) e obtain u where u: "call f ?v = Inr u" "w' = u\<lparr>w_cancel_callback := None\<rparr>"
      by (cases "call f ?v")
        (auto simp: EventWatcher_Cancel_def rbind_def assert_that_def Let_def call_handler_def)
    with assms(2) [OF u(1) v] show ?thesis by simp
  qed
  then show ?thesis by (simp add: EventWatcher_Cancel_def rbind_def assert_that_def)
qed

section \<open>The pipe: nothing leaks and nothing is closed twice\<close>

lemma DoClose_idem: "Pipe_DoClose (Pipe_DoClose w) = Pipe_DoClose w"
  by (simp add: Pipe_DoClose_def)

lemma Pipe_Init_cases:
  assumes "pw_pipe0 w = 0" "w_event w = Some e"
  shows "PipeEventWatcher_Init pair nb0 nb1 w =
    (case pair of
       None \<Rightarrow> Inr (False, w)
     | Some (a, b) \<Rightarrow>
         if nb0 < 0 \<or> nb1 < 0 then Inr (False, Pipe_DoClose (w\<lparr>pw_pipe0 := a, pw_pipe1 := b\<rparr>))
         else Inr (True, w\<lparr>pw_pipe0 := a, pw_pipe1 := b,
           w_event := Some (e\<lparr>ev_fd := b, ev_events := EV_READ OR EV_PERSIST,
             ev_callback := Some Pipe_Watcher, ev_base := True\<rparr>)\<rparr>))"
  using assms
  by (auto simp: PipeEventWatcher_Init_def EventWatcher_Init_def Pipe_DoInit_def rbind_def
    assert_that_def with_event_def event_set_def DoClose_idem Pipe_DoClose_def Let_def
    split: option.splits prod.splits)

lemma Pipe_lifetime:
  assumes "PipeEventWatcher_Init pair nb0 nb1 (PipeEventWatcher_new g h) = Inr (ok, w)"
  shows "pw_closed (PipeEventWatcher_destroy w) =
      (case pair of None \<Rightarrow> [] | Some (a, b) \<Rightarrow> if a > 0 then [a, b] else [])"
    and "pw_pipe0 w > 0 \<Longrightarrow> ok"
proof -
  have n: "pw_pipe0 (PipeEventWatcher_new g h) = 0" "pw_closed (PipeEventWatcher_new g h) = []"
    "w_event (PipeEventWatcher_new g h) = Some event_zero"
    by (simp_all add: PipeEventWatcher_new_def EventWatcher_new_def watcher.defs pipe_watcher.defs)
  show "pw_closed (PipeEventWatcher_destroy w) =
      (case pair of None \<Rightarrow> [] | Some (a, b) \<Rightarrow> if a > 0 then [a, b] else [])"
    and "pw_pipe0 w > 0 \<Longrightarrow> ok"
    using assms n
    by (auto simp: Pipe_Init_cases [OF n(1) n(3)] PipeEventWatcher_destroy_def Pipe_DoClose_def
      EventWatcher_destroy_def EventWatcher_FreeEvent_def split: option.splits if_splits prod.splits)
qed

lemma Pipe_HandlerFn_calls:
  assumes "w_handler w = Some h" "\<bar>rc\<bar> \<le> 128"
  shows "Pipe_HandlerFn call rc w s = (if rc = 0 then Inr s else call h s)"
proof -
  have "(0 :: size_t) < word_of_int rc \<longleftrightarrow> rc \<noteq> 0"
  proof -
    have "(word_of_int rc :: size_t) = 0 \<longleftrightarrow> 2 ^ 64 dvd rc"
      by (simp add: word_of_int_eq_0_iff)
    moreover have "2 ^ 64 dvd rc \<longleftrightarrow> rc = 0"
      using assms(2) zdvd_imp_le [of "2 ^ 64" rc] zdvd_imp_le [of "2 ^ 64" "- rc"] by fastforce
    ultimately show ?thesis by (simp add: word_gt_0)
  qed
  then show ?thesis using assms(1) by (simp add: Pipe_HandlerFn_def call_handler_def Let_def)
qed

end
