(* ===== verification/Event_Loop.thy ===== *)
theory Event_Loop
  imports Base_Status Event_Watcher "HOL-Library.Multiset"
begin

text \<open>
  event_loop.hpp and event_loop.cpp. A functor is a finite script of the calls it makes back into
  the loop. The loop thread is a machine whose stack of frames is the control stack of
  \<^verbatim>\<open>event_base_dispatch\<close>; its steps are cut where the code takes the mutex or reads an atomic,
  and the steps of other threads fall between them. \<open>el_queued\<close> and \<open>el_called\<close> are history
  variables: the functors ever queued and those \<^verbatim>\<open>DoPendingFunctors\<close> has called, in order.
\<close>

section \<open>Functors, frames and the loop's state\<close>

text \<open>
  A script calls \<^verbatim>\<open>RunInLoop\<close> and \<^verbatim>\<open>QueueInLoop\<close> with tasks, which are scripts with a name, and
  \<^verbatim>\<open>Stop\<close>; \<open>Queue_Stop\<close> is the second half of a \<^verbatim>\<open>Stop\<close> that has stored the status. The only other
  functor is the private \<^verbatim>\<open>StopInLoop\<close>, which \<^verbatim>\<open>Stop\<close> queues.
\<close>

datatype action =
    Run_In_Loop nat "action list"
  | Queue_In_Loop nat "action list"
  | Stop_Loop
  | Queue_Stop

datatype "functor" = Task nat "action list" | Stop_In_Loop

datatype frame =
    Do_Pending                    \<comment> \<open>at the lock of \<^verbatim>\<open>DoPendingFunctors\<close>\<close>
  | Functors "functor list"       \<comment> \<open>in its loop, with these functors left\<close>
  | Decrement                     \<comment> \<open>at \<^verbatim>\<open>--pending_functor_count_\<close>\<close>
  | Body "action list"            \<comment> \<open>in a functor, with these statements left\<close>
  | Drain_Check bool              \<comment> \<open>at \<^verbatim>\<open>IsPendingQueueEmpty\<close> in \<^verbatim>\<open>StopInLoop\<close>; after loopexit?\<close>

datatype loop_phase = Not_Started | Dispatching | Returned

datatype loop_handler = Do_Pending_Functors

record event_loop = base_status +
  el_create_event_base_myself :: bool
  el_tid :: nat
  el_watcher :: "loop_handler pipe_watcher option"
  el_notified :: bool
  el_pending_functors :: "functor list"
  el_pending_functor_count :: int
  el_exit :: bool
  el_pipe :: nat
  el_pipe_cap :: nat
  el_phase :: loop_phase
  el_stack :: "frame list"
  el_queued :: "functor list"
  el_called :: "functor list"

section \<open>Construction, Run and destruction\<close>

text \<open>
  \<^verbatim>\<open>Init\<close>, after the members are set by the constructors. \<open>pair\<close>, \<open>nb0\<close>, \<open>nb1\<close> are the
  system's answers in the watcher's \<^verbatim>\<open>Init\<close>, \<open>self\<close> the constructing thread, \<open>cap\<close> the number
  of bytes the pipe holds.
\<close>

definition EventLoop_Init ::
  "(int \<times> int) option \<Rightarrow> int \<Rightarrow> int \<Rightarrow> nat \<Rightarrow> event_loop \<Rightarrow> event_loop result" where
  "EventLoop_Init pair nb0 nb1 self l =
     (let l = l\<lparr>bs_status := kInitializing, el_pending_functors := [], el_tid := self\<rparr> in
      rbind (PipeEventWatcher_Init pair nb0 nb1
               (PipeEventWatcher_new 0 (Some Do_Pending_Functors))) (\<lambda>(rc, w).
      assert_that rc (Inr (l\<lparr>el_watcher := Some w, bs_status := kInitialized\<rparr>))))"

definition EventLoop_members :: "bool \<Rightarrow> nat \<Rightarrow> event_loop" where
  "EventLoop_members mine cap =
     base_status.extend BaseStatus_new
       (event_loop.fields mine 0 None False [] 0 False 0 cap Not_Started [] [] [])"

definition EventLoop_new ::
  "(int \<times> int) option \<Rightarrow> int \<Rightarrow> int \<Rightarrow> nat \<Rightarrow> nat \<Rightarrow> event_loop result" where
  "EventLoop_new pair nb0 nb1 self cap =
     EventLoop_Init pair nb0 nb1 self (EventLoop_members True cap)"

text \<open>\<^verbatim>\<open>watcher_->AsyncWait()\<close> on the loop's pipe watcher.\<close>

definition EventLoop_wait :: "int \<Rightarrow> event_loop \<Rightarrow> (bool \<times> event_loop) result" where
  "EventLoop_wait add_rc l =
     (case el_watcher l of
        None \<Rightarrow> Inl Null_Deref
      | Some w \<Rightarrow> rbind (PipeEventWatcher_AsyncWait 0 add_rc w)
          (\<lambda>(rc, w). Inr (rc, l\<lparr>el_watcher := Some w\<rparr>)))"

text \<open>On an existing base nobody calls \<^verbatim>\<open>Run\<close>: the owner of the base dispatches.\<close>

definition EventLoop_new_on_base ::
  "(int \<times> int) option \<Rightarrow> int \<Rightarrow> int \<Rightarrow> int \<Rightarrow> nat \<Rightarrow> nat \<Rightarrow> event_loop result" where
  "EventLoop_new_on_base pair nb0 nb1 add_rc self cap =
     rbind (EventLoop_Init pair nb0 nb1 self (EventLoop_members False cap)) (\<lambda>l.
     rbind (EventLoop_wait add_rc l) (\<lambda>(rc, l).
     assert_that rc (Inr (l\<lparr>bs_status := kRunning, el_phase := Dispatching\<rparr>))))"

definition EventLoop_destroy :: "event_loop \<Rightarrow> event_loop" where
  "EventLoop_destroy l = l\<lparr>el_watcher := None, el_pending_functors := []\<rparr>"

text \<open>\<^verbatim>\<open>Run\<close> up to the dispatch, and what it does when the dispatch has returned.\<close>

definition EventLoop_Run_begin :: "int \<Rightarrow> nat \<Rightarrow> event_loop \<Rightarrow> event_loop result" where
  "EventLoop_Run_begin add_rc self l =
     rbind (EventLoop_wait add_rc (l\<lparr>bs_status := kStarting, el_tid := self\<rparr>)) (\<lambda>(rc, l).
     assert_that rc (Inr (l\<lparr>bs_status := kRunning, el_phase := Dispatching\<rparr>)))"

definition EventLoop_Run_end :: "event_loop \<Rightarrow> event_loop" where
  "EventLoop_Run_end l = l\<lparr>el_watcher := None, bs_status := kStopped, el_phase := Returned\<rparr>"

definition EventLoop_Cancel :: "event_loop \<Rightarrow> event_loop" where
  "EventLoop_Cancel l = l\<lparr>el_watcher := None\<rparr>"

section \<open>Queueing\<close>

definition IsInLoopThread :: "nat \<Rightarrow> event_loop \<Rightarrow> bool" where
  "IsInLoopThread self l \<longleftrightarrow> el_tid l = self"

definition loop_send_rc :: "event_loop \<Rightarrow> int" where
  "loop_send_rc l = (if el_pipe l < el_pipe_cap l then 1 else - 1)"

definition QueueInLoop :: "functor \<Rightarrow> event_loop \<Rightarrow> event_loop result" where
  "QueueInLoop cb l =
     (let l = l\<lparr>el_pending_functors := el_pending_functors l @ [cb],
                el_pending_functor_count := el_pending_functor_count l + 1,
                el_queued := el_queued l @ [cb]\<rparr> in
      if \<not> el_notified l
      then let l = l\<lparr>el_notified := True\<rparr> in
           (case el_watcher l of
              Some _ \<Rightarrow> Inr (l\<lparr>el_pipe := Pipe_Notify (loop_send_rc l) (el_pipe l)\<rparr>)
            | None \<Rightarrow> assert_that (\<not> IsRunning l) (Inr l))
      else Inr l)"

text \<open>\<^verbatim>\<open>RunInLoop\<close>: the flag tells whether the caller is to call the functor here and now.\<close>

definition RunInLoop :: "nat \<Rightarrow> functor \<Rightarrow> event_loop \<Rightarrow> (bool \<times> event_loop) result" where
  "RunInLoop self f l =
     (if IsRunning l \<and> IsInLoopThread self l then Inr (True, l)
      else rbind (QueueInLoop f l) (\<lambda>l. Inr (False, l)))"

text \<open>\<^verbatim>\<open>Stop\<close> up to its call of \<^verbatim>\<open>QueueInLoop\<close>.\<close>

definition EventLoop_Stop :: "event_loop \<Rightarrow> event_loop result" where
  "EventLoop_Stop l =
     assert_that (bs_status l = kRunning) (Inr (l\<lparr>bs_status := kStopping\<rparr>))"

definition IsPendingQueueEmpty :: "event_loop \<Rightarrow> bool" where
  "IsPendingQueueEmpty l \<longleftrightarrow> el_pending_functors l = []"

section \<open>The loop thread\<close>

text \<open>Calling a functor: a task runs its script, \<^verbatim>\<open>StopInLoop\<close> asserts and starts to drain.\<close>

definition call_functor :: "functor \<Rightarrow> event_loop \<Rightarrow> event_loop result" where
  "call_functor f l =
     (case f of
        Task _ acts \<Rightarrow> Inr (l\<lparr>el_stack := Body acts # el_stack l\<rparr>)
      | Stop_In_Loop \<Rightarrow>
          assert_that (bs_status l = kStopping)
            (Inr (l\<lparr>el_stack := Do_Pending # Drain_Check False # el_stack l\<rparr>)))"

text \<open>The lock of \<^verbatim>\<open>DoPendingFunctors\<close>: clear the flag, swap the queue with an empty one.\<close>

definition DoPendingFunctors_swap :: "event_loop \<Rightarrow> event_loop" where
  "DoPendingFunctors_swap l =
     l\<lparr>el_notified := False, el_pending_functors := [],
       el_stack := Functors (el_pending_functors l) # el_stack l\<rparr>"

definition loop_thread_id :: nat where
  "loop_thread_id = 0"

text \<open>One step of the frame on top of the stack; \<open>l\<close> is the state with that frame popped.\<close>

fun frame_step :: "frame \<Rightarrow> event_loop \<Rightarrow> event_loop result" where
  "frame_step Do_Pending l = Inr (DoPendingFunctors_swap l)"
| "frame_step (Functors []) l = Inr l"
| "frame_step (Functors (f # fs)) l =
     call_functor f (l\<lparr>el_called := el_called l @ [f],
       el_stack := Decrement # Functors fs # el_stack l\<rparr>)"
| "frame_step Decrement l =
     Inr (l\<lparr>el_pending_functor_count := el_pending_functor_count l - 1\<rparr>)"
| "frame_step (Body []) l = Inr l"
| "frame_step (Body (Run_In_Loop i fa # acts)) l =
     rbind (RunInLoop loop_thread_id (Task i fa) (l\<lparr>el_stack := Body acts # el_stack l\<rparr>))
       (\<lambda>(direct, l). if direct then call_functor (Task i fa) l else Inr l)"
| "frame_step (Body (Queue_In_Loop i fa # acts)) l =
     QueueInLoop (Task i fa) (l\<lparr>el_stack := Body acts # el_stack l\<rparr>)"
| "frame_step (Body (Stop_Loop # acts)) l =
     EventLoop_Stop (l\<lparr>el_stack := Body (Queue_Stop # acts) # el_stack l\<rparr>)"
| "frame_step (Body (Queue_Stop # acts)) l =
     QueueInLoop Stop_In_Loop (l\<lparr>el_stack := Body acts # el_stack l\<rparr>)"
| "frame_step (Drain_Check exited) l =
     (if IsPendingQueueEmpty l
      then if exited then Inr l
           else Inr (l\<lparr>el_exit := True, el_stack := Do_Pending # Drain_Check True # el_stack l\<rparr>)
      else Inr (l\<lparr>el_stack := Do_Pending # Drain_Check exited # el_stack l\<rparr>))"

definition loop_busy_step :: "event_loop \<Rightarrow> event_loop result" where
  "loop_busy_step l =
     (case el_stack l of
        [] \<Rightarrow> Inr l
      | fr # st \<Rightarrow> frame_step fr (l\<lparr>el_stack := st\<rparr>))"

text \<open>The dispatch finds the pipe readable: the watcher's handler reads and enters
  \<^verbatim>\<open>DoPendingFunctors\<close>.\<close>

definition loop_wake_step :: "event_loop \<Rightarrow> event_loop result" where
  "loop_wake_step l =
     (case el_watcher l of
        None \<Rightarrow> Inl Null_Deref
      | Some w \<Rightarrow>
          (case pipe_recv (el_pipe l) of
             (rc, left) \<Rightarrow>
               Pipe_HandlerFn (\<lambda>Do_Pending_Functors l. Inr (l\<lparr>el_stack := Do_Pending # el_stack l\<rparr>))
                 rc w (l\<lparr>el_pipe := left\<rparr>)))"

section \<open>Other threads\<close>

text \<open>A statement of another thread: what is left to do of it, and the new state.\<close>

fun thread_step :: "nat \<Rightarrow> action \<Rightarrow> event_loop \<Rightarrow> (action list \<times> event_loop) result" where
  "thread_step self (Run_In_Loop i acts) l =
     rbind (RunInLoop self (Task i acts) l) (\<lambda>(direct, l). Inr (if direct then acts else [], l))"
| "thread_step self (Queue_In_Loop i acts) l =
     rbind (QueueInLoop (Task i acts) l) (\<lambda>l. Inr ([], l))"
| "thread_step self Stop_Loop l = rbind (EventLoop_Stop l) (\<lambda>l. Inr ([Queue_Stop], l))"
| "thread_step self Queue_Stop l = rbind (QueueInLoop Stop_In_Loop l) (\<lambda>l. Inr ([], l))"

section \<open>The system: the loop thread and the programs of the other threads\<close>

record loop_system =
  ls_loop :: event_loop
  ls_progs :: "action list list"

inductive loop_step :: "loop_system \<Rightarrow> loop_system \<Rightarrow> bool" where
  start: "\<lbrakk> el_phase (ls_loop s) = Not_Started;
     EventLoop_Run_begin 0 loop_thread_id (ls_loop s) = Inr l \<rbrakk>
     \<Longrightarrow> loop_step s (s\<lparr>ls_loop := l\<rparr>)"
| busy: "\<lbrakk> el_phase (ls_loop s) = Dispatching; el_stack (ls_loop s) \<noteq> [];
     loop_busy_step (ls_loop s) = Inr l \<rbrakk>
     \<Longrightarrow> loop_step s (s\<lparr>ls_loop := l\<rparr>)"
| wake: "\<lbrakk> el_phase (ls_loop s) = Dispatching; el_stack (ls_loop s) = []; el_pipe (ls_loop s) > 0;
     el_watcher (ls_loop s) = Some w; w_attached w; loop_wake_step (ls_loop s) = Inr l \<rbrakk>
     \<Longrightarrow> loop_step s (s\<lparr>ls_loop := l\<rparr>)"
| leave: "\<lbrakk> el_phase (ls_loop s) = Dispatching; el_stack (ls_loop s) = []; el_exit (ls_loop s) \<rbrakk>
     \<Longrightarrow> loop_step s (s\<lparr>ls_loop := EventLoop_Run_end (ls_loop s)\<rparr>)"
| other: "\<lbrakk> i < length (ls_progs s); ls_progs s ! i = a # as;
     thread_step (Suc i) a (ls_loop s) = Inr (rest, l) \<rbrakk>
     \<Longrightarrow> loop_step s (s\<lparr>ls_loop := l, ls_progs := (ls_progs s)[i := rest @ as]\<rparr>)"

end
