(* ===== verification/Event_Loop_Runs.thy ===== *)
theory Event_Loop_Runs
  imports Event_Loop
begin

text \<open>
  What every run of the event loop keeps, whatever the other threads do in between: a queued
  functor is waited for, called once and in order; and every run ends.
\<close>

section \<open>The invariant\<close>

text \<open>The watcher lives until the dispatch has returned, and is attached while it runs.\<close>

definition loop_alive :: "event_loop \<Rightarrow> bool" where
  "loop_alive l \<longleftrightarrow> el_pipe_cap l > 0 \<and>
     (case el_phase l of
        Not_Started \<Rightarrow> el_stack l = [] \<and> bs_status l = kInitialized
      | Dispatching \<Rightarrow> el_tid l = loop_thread_id \<and> bs_status l \<in> {kRunning, kStopping}
      | Returned \<Rightarrow> el_stack l = [] \<and> bs_status l = kStopped) \<and>
     (case el_watcher l of
        None \<Rightarrow> el_phase l = Returned
      | Some w \<Rightarrow> el_phase l \<noteq> Returned \<and> w_handler w = Some Do_Pending_Functors \<and>
          w_event w \<noteq> None \<and> watcher_inv w \<and> (el_phase l = Dispatching \<longrightarrow> w_attached w))"

text \<open>No wake-up is lost: a waiting functor has the flag set, and a set flag has an unread byte in
  the pipe unless the loop thread already stands before the lock.\<close>

definition loop_wakeup :: "event_loop \<Rightarrow> bool" where
  "loop_wakeup l \<longleftrightarrow> Do_Pending \<notin> set (tl (el_stack l)) \<and>
     (el_phase l \<noteq> Returned \<longrightarrow>
        (el_pending_functors l \<noteq> [] \<longrightarrow> el_notified l) \<and>
        (el_notified l \<longrightarrow> el_pipe l > 0 \<or> Do_Pending \<in> set (el_stack l)))"

fun frame_functors :: "frame \<Rightarrow> functor list" where
  "frame_functors (Functors fs) = fs"
| "frame_functors _ = []"

definition stack_functors :: "frame list \<Rightarrow> functor list" where
  "stack_functors st = concat (map frame_functors st)"

definition loop_account :: "event_loop \<Rightarrow> bool" where
  "loop_account l \<longleftrightarrow>
     mset (el_queued l) = mset (el_called l) + mset (stack_functors (el_stack l)) +
       mset (el_pending_functors l) \<and>
     el_pending_functor_count l = int (length (el_pending_functors l) +
       length (stack_functors (el_stack l)) + count_list (el_stack l) Decrement)"

fun is_drain :: "frame \<Rightarrow> bool" where
  "is_drain (Drain_Check _) = True"
| "is_drain _ = False"

definition loop_fifo :: "event_loop \<Rightarrow> bool" where
  "loop_fifo l \<longleftrightarrow> (Stop_In_Loop \<notin> set (el_called l) \<longrightarrow>
     el_queued l = el_called l @ stack_functors (el_stack l) @ el_pending_functors l \<and>
     (Do_Pending \<in> set (el_stack l) \<longrightarrow> el_stack l = [Do_Pending]) \<and>
     (\<forall>fr \<in> set (el_stack l). \<not> is_drain fr))"

definition loop_inv :: "event_loop \<Rightarrow> bool" where
  "loop_inv l \<longleftrightarrow> loop_alive l \<and> loop_wakeup l \<and> loop_account l \<and> loop_fifo l"

lemma stack_functors_simps [simp]:
  "stack_functors [] = []"
  "stack_functors (fr # st) = frame_functors fr @ stack_functors st"
  by (simp_all add: stack_functors_def)

lemmas loop_inv_defs = loop_inv_def loop_alive_def loop_wakeup_def loop_account_def loop_fifo_def

lemma loop_invE:
  assumes "loop_inv l"
  obtains "loop_alive l" "loop_wakeup l" "loop_account l" "loop_fifo l"
  using assms by (simp add: loop_inv_def)

lemma loop_invI:
  "\<lbrakk> loop_alive l; loop_wakeup l; loop_account l; loop_fifo l \<rbrakk> \<Longrightarrow> loop_inv l"
  by (simp add: loop_inv_def)

lemma in_tl: "x \<in> set (tl xs) \<Longrightarrow> x \<in> set xs"
  by (cases xs) auto

section \<open>Queueing\<close>

definition queue_effect :: "functor \<Rightarrow> event_loop \<Rightarrow> event_loop" where
  "queue_effect f l =
     l\<lparr>el_pending_functors := el_pending_functors l @ [f],
       el_pending_functor_count := el_pending_functor_count l + 1,
       el_queued := el_queued l @ [f], el_notified := True,
       el_pipe := (if el_notified l \<or> el_watcher l = None \<or> \<not> el_pipe l < el_pipe_cap l
                   then el_pipe l else el_pipe l + 1)\<rparr>"

lemma QueueInLoop_ok:
  assumes "loop_alive l"
  shows "QueueInLoop f l = Inr (queue_effect f l)"
proof (cases "el_notified l")
  case True
  then show ?thesis by (simp add: QueueInLoop_def queue_effect_def)
next
  case False
  show ?thesis
  proof (cases "el_watcher l")
    case None
    with assms have "bs_status l = kStopped" by (auto simp: loop_alive_def)
    with None False show ?thesis
      by (simp add: QueueInLoop_def queue_effect_def IsRunning_def)
  next
    case (Some w)
    with False show ?thesis
      by (simp add: QueueInLoop_def queue_effect_def loop_send_rc_def Pipe_Notify_def)
  qed
qed

lemma queue_effect_inv:
  assumes "loop_inv l"
  shows "loop_inv (queue_effect f l)"
  using assms
  unfolding queue_effect_def
  by (elim loop_invE, intro loop_invI)
    ((auto simp: loop_alive_def split: option.splits loop_phase.splits)[1],
     (auto simp: loop_wakeup_def loop_alive_def split: option.splits loop_phase.splits)[1],
     (auto simp: loop_account_def)[1],
     (auto simp: loop_fifo_def)[1])

section \<open>Each step keeps the invariant\<close>

text \<open>
  The frame on top of the stack gives way to others that hold no functors. Only a drain is followed
  by the lock of \<^verbatim>\<open>DoPendingFunctors\<close>.
\<close>

lemma loop_inv_exit [simp]: "loop_inv (l\<lparr>el_exit := x\<rparr>) = loop_inv l"
  by (simp add: loop_inv_defs cong: option.case_cong loop_phase.case_cong)

lemma stack_functors_append [simp]: "stack_functors (xs @ ys) = stack_functors xs @ stack_functors ys"
  by (simp add: stack_functors_def)

lemma count_list_append [simp]: "count_list (xs @ ys) x = count_list xs x + count_list ys x"
  by (induction xs) auto

lemma top_frame_inv:
  assumes "loop_inv l" "el_phase l = Dispatching" "el_stack l = fr # st"
    and fr: "frame_functors fr = []" "fr \<noteq> Decrement" "fr \<noteq> Do_Pending"
    and pre: "stack_functors pre = []" "Decrement \<notin> set pre" "Do_Pending \<notin> set (tl pre)"
      "is_drain fr \<or> Do_Pending \<notin> set pre \<and> (\<forall>x \<in> set pre. \<not> is_drain x)"
  shows "loop_inv (l\<lparr>el_stack := pre @ st\<rparr>)"
proof -
  have st: "Do_Pending \<notin> set st" using assms(1,3) by (simp add: loop_inv_defs)
  have tl: "Do_Pending \<notin> set (tl (pre @ st))" using st pre(3) by (cases pre) (auto dest: in_tl)
  have no: "count_list pre Decrement = 0" using pre(2) by (simp add: count_list_0_iff)
  show ?thesis
    using assms(1)
  proof (elim loop_invE, intro loop_invI)
    assume "loop_alive l"
    then show "loop_alive (l\<lparr>el_stack := pre @ st\<rparr>)"
      using assms(2) by (auto simp: loop_alive_def split: option.splits)
  next
    assume "loop_wakeup l"
    then show "loop_wakeup (l\<lparr>el_stack := pre @ st\<rparr>)"
      using assms(3) st fr(3) tl by (auto simp: loop_wakeup_def)
  next
    assume "loop_account l"
    then show "loop_account (l\<lparr>el_stack := pre @ st\<rparr>)"
      using assms(3) fr pre(1) no by (simp add: loop_account_def)
  next
    assume "loop_fifo l"
    then show "loop_fifo (l\<lparr>el_stack := pre @ st\<rparr>)"
      using assms(3) fr(1) pre(1,4) st by (auto simp: loop_fifo_def)
  qed
qed

lemma body_frame_inv:
  assumes "loop_inv l" "el_phase l = Dispatching" "el_stack l = Body acts # st"
  shows "loop_inv (l\<lparr>el_stack := Body acts' # st\<rparr>)"
  using top_frame_inv [OF assms, of "[Body acts']"] by simp

lemma direct_call_inv:
  assumes "loop_inv l" "el_phase l = Dispatching" "el_stack l = Body acts # st"
  shows "loop_inv (l\<lparr>el_stack := Body fa # Body acts # st\<rparr>)"
  using top_frame_inv [OF assms, of "[Body fa, Body acts]"] by simp

lemma drain_inv:
  assumes "loop_inv l" "el_phase l = Dispatching" "el_stack l = Drain_Check b # st"
  shows "loop_inv (l\<lparr>el_stack := Do_Pending # Drain_Check b' # st\<rparr>)"
  using top_frame_inv [OF assms, of "[Do_Pending, Drain_Check b']"] by simp

lemma drain_exit_inv:
  assumes "loop_inv l" "el_phase l = Dispatching" "el_stack l = Drain_Check b # st"
  shows "loop_inv (l\<lparr>el_exit := x, el_stack := Do_Pending # Drain_Check b' # st\<rparr>)"
  using drain_inv [of "l\<lparr>el_exit := x\<rparr>"] assms by simp

lemma pop_inv:
  assumes "loop_inv l" "el_phase l = Dispatching" "el_stack l = fr # st"
    "frame_functors fr = []" "fr \<noteq> Decrement" "fr \<noteq> Do_Pending"
  shows "loop_inv (l\<lparr>el_stack := st\<rparr>)"
  using top_frame_inv [OF assms, of "[]"] by simp

lemma swap_inv:
  assumes "loop_inv l" "el_phase l = Dispatching" "el_stack l = Do_Pending # st"
  shows "loop_inv (DoPendingFunctors_swap (l\<lparr>el_stack := st\<rparr>))"
  using assms
  unfolding DoPendingFunctors_swap_def
  by (elim loop_invE, intro loop_invI)
    ((auto simp: loop_alive_def split: option.splits loop_phase.splits)[1],
     (auto simp: loop_wakeup_def dest: in_tl)[1],
     (auto simp: loop_account_def)[1],
     (auto simp: loop_fifo_def)[1])

lemma decrement_inv:
  assumes "loop_inv l" "el_phase l = Dispatching" "el_stack l = Decrement # st"
  shows "loop_inv (l\<lparr>el_stack := st, el_pending_functor_count := el_pending_functor_count l - 1\<rparr>)"
  using assms
  by (elim loop_invE, intro loop_invI)
    (auto simp: loop_alive_def loop_wakeup_def loop_account_def loop_fifo_def dest: in_tl
      split: option.splits loop_phase.splits)

lemma call_task_inv:
  assumes "loop_inv l" "el_phase l = Dispatching" "el_stack l = Functors (f # fs) # st"
    "call_functor f (l\<lparr>el_called := el_called l @ [f],
       el_stack := Decrement # Functors fs # st\<rparr>) = Inr l'"
  shows "loop_inv l'"
proof (cases f)
  case (Task i acts)
  with assms show ?thesis
    unfolding call_functor_def
    by (elim loop_invE, intro loop_invI)
      ((auto simp: assert_that_def loop_alive_def split: option.splits if_splits loop_phase.splits)[1],
       (auto simp: assert_that_def loop_wakeup_def split: if_splits dest: in_tl)[1],
       (auto simp: assert_that_def loop_account_def split: if_splits)[1],
       (auto simp: assert_that_def loop_fifo_def split: if_splits)[1])
next
  case Stop_In_Loop
  with assms show ?thesis
    unfolding call_functor_def
    by (elim loop_invE, intro loop_invI)
      ((auto simp: assert_that_def loop_alive_def split: option.splits if_splits loop_phase.splits)[1],
       (auto simp: assert_that_def loop_wakeup_def split: if_splits dest: in_tl)[1],
       (auto simp: assert_that_def loop_account_def split: if_splits)[1],
       (auto simp: assert_that_def loop_fifo_def split: if_splits)[1])
qed

lemma stop_inv:
  assumes "loop_inv l" "EventLoop_Stop l = Inr l'"
  shows "loop_inv l'"
  using assms
  unfolding EventLoop_Stop_def assert_that_eq_Inr
  by (elim loop_invE, intro loop_invI)
    (auto simp: loop_alive_def loop_wakeup_def loop_account_def loop_fifo_def
      split: option.splits loop_phase.splits)

lemma busy_step_inv:
  assumes "loop_inv l" "el_phase l = Dispatching" "el_stack l = fr # st"
    "frame_step fr (l\<lparr>el_stack := st\<rparr>) = Inr l'"
  shows "loop_inv l'"
proof -
  have body: "loop_inv (l\<lparr>el_stack := Body acts' # st\<rparr>)" if "fr = Body acts" for acts acts'
    using body_frame_inv [OF assms(1,2)] assms(3) that by simp
  have alive: "loop_alive (l\<lparr>el_stack := Body acts' # st\<rparr>)" if "fr = Body acts" for acts acts'
    using body [OF that] by (simp add: loop_inv_def)
  show ?thesis
  proof (cases fr)
    case Do_Pending
    then show ?thesis using assms swap_inv [OF assms(1,2)] by simp
  next
    case (Functors fs)
    then show ?thesis
      using assms pop_inv [OF assms(1,2,3)] call_task_inv [OF assms(1,2)] by (cases fs) auto
  next
    case Decrement
    then show ?thesis using assms decrement_inv [OF assms(1,2)] by auto
  next
    case (Drain_Check b)
    then show ?thesis
      using assms(3,4) drain_inv [OF assms(1,2)] drain_exit_inv [OF assms(1,2)] pop_inv [OF assms(1,2,3)]
      by (auto split: if_splits)
  next
    case (Body acts)
    show ?thesis
    proof (cases acts)
      case Nil
      then show ?thesis using assms(3,4) Body pop_inv [OF assms(1,2,3)] by simp
    next
      case (Cons a as)
      let ?l = "l\<lparr>el_stack := Body as # st\<rparr>"
      have q: "QueueInLoop f ?l = Inr (queue_effect f ?l)" "loop_inv (queue_effect f ?l)" for f
        using QueueInLoop_ok [OF alive [OF Body]] queue_effect_inv [OF body [OF Body]] by auto
      have d: "loop_inv (?l\<lparr>el_stack := Body fa # Body as # st\<rparr>)" for fa
        using direct_call_inv [OF body [OF Body, of as]] assms(2) by simp
      show ?thesis
      proof (cases a)
        case (Run_In_Loop i fa)
        then show ?thesis
          using assms(4) Body Cons q [of "Task i fa"] d
          by (cases "IsRunning ?l \<and> IsInLoopThread loop_thread_id ?l")
            (auto simp: RunInLoop_def call_functor_def)
      next
        case (Queue_In_Loop i fa)
        then show ?thesis using assms(4) Body Cons q by auto
      next
        case Stop_Loop
        then show ?thesis using assms(4) Body Cons stop_inv [OF body [OF Body]] by auto
      next
        case Queue_Stop
        then show ?thesis using assms(4) Body Cons q by auto
      qed
    qed
  qed
qed

lemma EventLoop_wait_ok:
  assumes "el_watcher l = Some w" "watcher_inv w" "w_event w = Some e"
  shows "\<exists>w'. EventLoop_wait 0 l = Inr (True, l\<lparr>el_watcher := Some w'\<rparr>) \<and> watcher_inv w' \<and>
    w_attached w' \<and> w_handler w' = w_handler w \<and> w_event w' \<noteq> None"
proof -
  let ?w = "w\<lparr>w_attached := True, w_event := Some (event_add 0 (watch_timeval 0)
    (if w_attached w then event_del 0 e else e))\<rparr>"
  have "PipeEventWatcher_AsyncWait 0 0 w = Inr (True, ?w)"
    using Watch_cases [OF assms(2,3)] by (simp add: PipeEventWatcher_AsyncWait_def)
  then have "EventLoop_wait 0 l = Inr (True, l\<lparr>el_watcher := Some ?w\<rparr>)"
    using assms(1) by (simp add: EventLoop_wait_def)
  moreover have "watcher_inv ?w" by (simp add: watcher_inv_def event_add_def)
  ultimately show ?thesis by (intro exI [of _ ?w]) simp
qed

lemma Run_begin_ok:
  assumes "loop_inv l" "el_phase l = Not_Started"
  shows "\<exists>l'. EventLoop_Run_begin 0 loop_thread_id l = Inr l' \<and> loop_inv l' \<and>
    el_phase l' = Dispatching \<and> bs_status l' = kRunning"
proof -
  let ?l = "l\<lparr>bs_status := kStarting, el_tid := loop_thread_id\<rparr>"
  from assms obtain w e where w: "el_watcher l = Some w" "watcher_inv w" "w_event w = Some e"
    "w_handler w = Some Do_Pending_Functors"
    by (auto simp: loop_inv_def loop_alive_def split: option.splits)
  from EventLoop_wait_ok [of ?l w e] w obtain w' where
    w': "EventLoop_wait 0 ?l = Inr (True, ?l\<lparr>el_watcher := Some w'\<rparr>)"
    "watcher_inv w'" "w_attached w'" "w_handler w' = w_handler w" "w_event w' \<noteq> None" by auto
  let ?m = "?l\<lparr>el_watcher := Some w', bs_status := kRunning, el_phase := Dispatching\<rparr>"
  have "loop_inv ?m"
    using assms w w'
    by (elim loop_invE, intro loop_invI)
      ((simp add: loop_alive_def split: option.splits)[1],
       simp_all add: loop_wakeup_def loop_account_def loop_fifo_def)
  moreover have "EventLoop_Run_begin 0 loop_thread_id l = Inr ?m"
    using w'(1) by (simp add: EventLoop_Run_begin_def)
  ultimately show ?thesis by auto
qed

lemma wake_ok:
  assumes "loop_inv l" "el_phase l = Dispatching" "el_stack l = []" "el_pipe l > 0"
  shows "loop_wake_step l = Inr (l\<lparr>el_pipe := el_pipe l - min 128 (el_pipe l), el_stack := [Do_Pending]\<rparr>)"
    and "loop_inv (l\<lparr>el_pipe := el_pipe l - min 128 (el_pipe l), el_stack := [Do_Pending]\<rparr>)"
proof -
  from assms obtain w where w: "el_watcher l = Some w" "w_handler w = Some Do_Pending_Functors"
    by (auto simp: loop_inv_def loop_alive_def split: option.splits)
  have rc: "\<bar>int (min 128 (el_pipe l))\<bar> \<le> 128" by simp
  show "loop_wake_step l = Inr (l\<lparr>el_pipe := el_pipe l - min 128 (el_pipe l), el_stack := [Do_Pending]\<rparr>)"
    using assms(3,4) w
    by (simp add: loop_wake_step_def pipe_recv_def Pipe_HandlerFn_calls [OF w(2) rc]
      split: loop_handler.split)
  show "loop_inv (l\<lparr>el_pipe := el_pipe l - min 128 (el_pipe l), el_stack := [Do_Pending]\<rparr>)"
    using assms
    by (elim loop_invE, intro loop_invI)
      ((simp add: loop_alive_def split: option.splits)[1],
       simp_all add: loop_wakeup_def loop_account_def loop_fifo_def)
qed

lemma Run_end_inv:
  assumes "loop_inv l" "el_phase l = Dispatching" "el_stack l = []"
  shows "loop_inv (EventLoop_Run_end l)"
  using assms unfolding EventLoop_Run_end_def
  by (elim loop_invE, intro loop_invI)
    ((simp add: loop_alive_def split: option.splits)[1],
     simp_all add: loop_wakeup_def loop_account_def loop_fifo_def)

lemma not_direct:
  assumes "loop_inv l"
  shows "\<not> (IsRunning l \<and> IsInLoopThread (Suc i) l)"
  using assms
  by (auto simp: loop_inv_def loop_alive_def IsRunning_def IsInLoopThread_def loop_thread_id_def
    split: loop_phase.splits)

lemma thread_step_cases:
  assumes "loop_inv l"
  shows "thread_step (Suc i) a l =
    (case a of
       Run_In_Loop n acts \<Rightarrow> Inr ([], queue_effect (Task n acts) l)
     | Queue_In_Loop n acts \<Rightarrow> Inr ([], queue_effect (Task n acts) l)
     | Queue_Stop \<Rightarrow> Inr ([], queue_effect Stop_In_Loop l)
     | Stop_Loop \<Rightarrow> if bs_status l = kRunning then Inr ([Queue_Stop], l\<lparr>bs_status := kStopping\<rparr>)
                   else Inl Assert_Failed)"
proof -
  have a: "loop_alive l" using assms by (rule loop_invE)
  show ?thesis
    using QueueInLoop_ok [OF a] not_direct [OF assms, of i]
    by (cases a) (auto simp: RunInLoop_def EventLoop_Stop_def)
qed

lemma thread_step_inv:
  assumes "loop_inv l" "thread_step (Suc i) a l = Inr (rest, l')"
  shows "loop_inv l'"
proof -
  have "EventLoop_Stop l = Inr (l\<lparr>bs_status := kStopping\<rparr>)" if "bs_status l = kRunning"
    using that by (simp add: EventLoop_Stop_def)
  then show ?thesis
    using assms(2) [unfolded thread_step_cases [OF assms(1)]] queue_effect_inv [OF assms(1)]
      stop_inv [OF assms(1)]
    by (auto split: action.splits if_splits)
qed

lemma loop_step_inv:
  assumes "loop_step s t" "loop_inv (ls_loop s)"
  shows "loop_inv (ls_loop t)"
  using assms
proof (cases rule: loop_step.cases)
  case (start l)
  with assms(2) Run_begin_ok [OF assms(2)] show ?thesis by auto
next
  case (busy l)
  then obtain fr st where st: "el_stack (ls_loop s) = fr # st" by (cases "el_stack (ls_loop s)") auto
  have "frame_step fr ((ls_loop s)\<lparr>el_stack := st\<rparr>) = Inr l"
    using busy(4) st by (simp add: loop_busy_step_def)
  with busy(1,2) st busy_step_inv [OF assms(2)] show ?thesis by simp
next
  case (wake w l)
  with wake_ok [OF assms(2)] show ?thesis by simp
next
  case leave
  with Run_end_inv [OF assms(2)] show ?thesis by simp
next
  case (other i a as rest l)
  with thread_step_inv [OF assms(2)] show ?thesis by auto
qed

lemma EventLoop_new_ok:
  assumes "a > 0" "nb0 \<ge> 0" "nb1 \<ge> 0" "cap > 0"
  shows "\<exists>l. EventLoop_new (Some (a, b)) nb0 nb1 self cap = Inr l \<and> loop_inv l \<and>
    el_phase l = Not_Started \<and> el_queued l = [] \<and> el_exit l = False"
proof -
  have w: "pw_pipe0 (PipeEventWatcher_new 0 h) = 0"
    "w_event (PipeEventWatcher_new 0 h) = Some event_zero"
    "w_handler (PipeEventWatcher_new 0 h) = h" "w_attached (PipeEventWatcher_new 0 h) = False"
    for h :: "loop_handler option"
    by (simp_all add: PipeEventWatcher_new_def EventWatcher_new_def watcher.defs pipe_watcher.defs)
  show ?thesis
    using assms w
    by (simp add: EventLoop_new_def EventLoop_Init_def Pipe_Init_cases [OF w(1,2)]
      EventLoop_members_def loop_inv_defs watcher_inv_def event_zero_def base_status.defs
      event_loop.defs BaseStatus_new_def Let_def)
qed

end
