(* ===== verification/Event_Loop_Progress.thy ===== *)
theory Event_Loop_Progress
  imports Event_Loop_Runs Step_Systems
begin

text \<open>
  Progress of the event loop: a measure that every step of every thread decreases, so that no run
  is longer than its start allows; no assertion fires while at most one \<^verbatim>\<open>Stop\<close> is made; and a
  loop that comes to rest has called all that was queued, in order.
\<close>

section \<open>Sums over scripts\<close>

lemma sum_list_replace:
  "i < length xs \<Longrightarrow> sum_list (xs[i := y]) + xs ! i = sum_list xs + (y :: nat)"
  by (induction xs arbitrary: i) (auto split: nat.splits)

text \<open>\<open>action_total t q s\<close> counts \<open>t\<close> for a call with a task, \<open>q\<close> for \<open>Queue_Stop\<close> and \<open>s\<close> for
  \<open>Stop_Loop\<close>, through all nested scripts.\<close>

fun action_total :: "nat \<Rightarrow> nat \<Rightarrow> nat \<Rightarrow> action \<Rightarrow> nat" where
  "action_total t q s (Run_In_Loop i acts) = t + sum_list (map (action_total t q s) acts)"
| "action_total t q s (Queue_In_Loop i acts) = t + sum_list (map (action_total t q s) acts)"
| "action_total t q s Stop_Loop = s"
| "action_total t q s Queue_Stop = q"

definition script_total :: "nat \<Rightarrow> nat \<Rightarrow> nat \<Rightarrow> action list \<Rightarrow> nat" where
  "script_total t q s acts = sum_list (map (action_total t q s) acts)"

lemma script_total_simps [simp]:
  "script_total t q s [] = 0"
  "script_total t q s (a # as) = action_total t q s a + script_total t q s as"
  "script_total t q s (as @ bs) = script_total t q s as + script_total t q s bs"
  by (simp_all add: script_total_def)

lemma action_total_tasks [simp]:
  "action_total t q s (Run_In_Loop i acts) = t + script_total t q s acts"
  "action_total t q s (Queue_In_Loop i acts) = t + script_total t q s acts"
  by (simp_all add: script_total_def)

declare action_total.simps(1,2) [simp del]

section \<open>The measure\<close>

fun functor_weight :: "functor \<Rightarrow> nat" where
  "functor_weight (Task _ acts) = 3 + script_total 10 15 16 acts"
| "functor_weight Stop_In_Loop = 8"

fun frame_weight :: "frame \<Rightarrow> nat" where
  "frame_weight Do_Pending = 0"
| "frame_weight (Functors fs) = 1 + sum_list (map functor_weight fs)"
| "frame_weight Decrement = 1"
| "frame_weight (Body acts) = 1 + script_total 10 15 16 acts"
| "frame_weight (Drain_Check exited) = (if exited then 1 else 4)"

fun phase_weight :: "loop_phase \<Rightarrow> nat" where
  "phase_weight Not_Started = 2"
| "phase_weight Dispatching = 1"
| "phase_weight Returned = 0"

definition loop_weight :: "event_loop \<Rightarrow> nat" where
  "loop_weight l = phase_weight (el_phase l) + 3 * el_pipe l +
     sum_list (map frame_weight (el_stack l)) +
     sum_list (map (\<lambda>f. functor_weight f + 3) (el_pending_functors l)) +
     (if Do_Pending \<in> set (el_stack l) \<and> el_pending_functors l = [] then 2 else 0)"

definition at_check :: "event_loop \<Rightarrow> nat" where
  "at_check l = (case el_stack l of fr # _ \<Rightarrow> if is_drain fr then 1 else 0 | [] \<Rightarrow> 0)"

definition loop_measure :: "loop_system \<Rightarrow> nat" where
  "loop_measure s = 2 * (loop_weight (ls_loop s) +
     sum_list (map (script_total 10 15 16) (ls_progs s))) + at_check (ls_loop s)"

lemma at_check_le: "at_check l \<le> 1"
  by (simp add: at_check_def split: list.split)

lemma queue_effect_weight:
  "loop_weight (queue_effect f l) \<le> loop_weight l + functor_weight f + 6"
  by (simp add: loop_weight_def queue_effect_def)

lemma frame_step_weight:
  assumes "loop_inv l" "el_phase l = Dispatching" "el_stack l = fr # st" "\<not> is_drain fr"
    "frame_step fr (l\<lparr>el_stack := st\<rparr>) = Inr l'"
  shows "loop_weight l' < loop_weight l"
proof -
  have notin: "Do_Pending \<notin> set st"
    using assms(1,3) by (auto simp: loop_inv_def loop_wakeup_def)
  have alive: "loop_alive (l\<lparr>el_stack := x\<rparr>)" for x
    using assms(1,2) by (auto simp: loop_inv_def loop_alive_def split: option.splits)
  show ?thesis
  proof (cases fr)
    case Do_Pending
    with assms(3,5) notin show ?thesis
      by (auto simp: DoPendingFunctors_swap_def loop_weight_def sum_list_addf sum_list_triv
        neq_Nil_conv)
  next
    case (Functors fs)
    with assms(3,5) notin show ?thesis
      by (cases fs; cases "hd fs")
        (auto simp: loop_weight_def call_functor_def assert_that_def split: if_splits)
  next
    case Decrement
    with assms(3,5) notin show ?thesis by (auto simp: loop_weight_def)
  next
    case (Drain_Check b)
    with assms(4) show ?thesis by simp
  next
    case (Body acts)
    show ?thesis
    proof (cases acts)
      case Nil
      with Body assms(3,5) notin show ?thesis by (auto simp: loop_weight_def)
    next
      case (Cons a as)
      let ?l = "l\<lparr>el_stack := Body as # st\<rparr>"
      have w: "loop_weight l = loop_weight ?l + action_total 10 15 16 a"
        using Body Cons assms(3) by (simp add: loop_weight_def)
      have q: "QueueInLoop f ?l = Inr (queue_effect f ?l)" for f
        using QueueInLoop_ok [OF alive] .
      have qw: "loop_weight (queue_effect f ?l) \<le> loop_weight ?l + functor_weight f + 6" for f
        by (rule queue_effect_weight)
      have direct: "loop_weight (?l\<lparr>el_stack := Body fa # el_stack ?l\<rparr>) =
          loop_weight ?l + 1 + script_total 10 15 16 fa" for fa
        using notin by (simp add: loop_weight_def)
      have stop: "loop_weight (l\<lparr>el_stack := Body (Queue_Stop # as) # st, bs_status := kStopping\<rparr>) =
          loop_weight ?l + 15"
        using notin by (simp add: loop_weight_def)
      show ?thesis
      proof (cases a)
        case (Run_In_Loop i fa)
        then show ?thesis
          using assms(5) Body Cons q [of "Task i fa"] qw [of "Task i fa"] direct [of fa] w
          by (cases "IsRunning ?l \<and> IsInLoopThread loop_thread_id ?l")
            (auto simp: RunInLoop_def call_functor_def)
      next
        case (Queue_In_Loop i fa)
        then show ?thesis using assms(5) Body Cons q qw [of "Task i fa"] w by auto
      next
        case Stop_Loop
        then show ?thesis
          using assms(5) Body Cons w stop by (auto simp: EventLoop_Stop_def assert_that_eq_Inr)
      next
        case Queue_Stop
        then show ?thesis using assms(5) Body Cons q qw [of Stop_In_Loop] w by auto
      qed
    qed
  qed
qed

lemma drain_step_weight:
  assumes "loop_inv l" "el_stack l = Drain_Check b # st"
    "frame_step (Drain_Check b) (l\<lparr>el_stack := st\<rparr>) = Inr l'"
  shows "2 * loop_weight l' + at_check l' < 2 * loop_weight l + at_check l"
proof -
  have notin: "Do_Pending \<notin> set st"
    using assms(1,2) by (auto simp: loop_inv_def loop_wakeup_def)
  show ?thesis
    using assms(2,3) notin at_check_le [of l']
    by (auto simp: loop_weight_def at_check_def IsPendingQueueEmpty_def split: if_splits)
qed

lemma busy_step_weight:
  assumes "loop_inv l" "el_phase l = Dispatching" "el_stack l = fr # st"
    "frame_step fr (l\<lparr>el_stack := st\<rparr>) = Inr l'"
  shows "2 * loop_weight l' + at_check l' < 2 * loop_weight l + at_check l"
proof (cases "is_drain fr")
  case True
  then obtain b where "fr = Drain_Check b" by (cases fr) auto
  with drain_step_weight [OF assms(1)] assms(3,4) show ?thesis by simp
next
  case False
  from frame_step_weight [OF assms(1,2,3) False assms(4)] at_check_le [of l'] show ?thesis
    by linarith
qed

lemma thread_step_weight:
  assumes "loop_inv l" "thread_step (Suc i) a l = Inr (rest, l')"
  shows "loop_weight l' + script_total 10 15 16 rest < loop_weight l + action_total 10 15 16 a"
proof -
  have s: "loop_weight (l\<lparr>bs_status := kStopping\<rparr>) = loop_weight l" by (simp add: loop_weight_def)
  show ?thesis
    using assms(2) [unfolded thread_step_cases [OF assms(1)]] s queue_effect_weight [of _ l]
    by (cases a)
      (force intro: le_less_trans [OF queue_effect_weight] split: if_splits)+
qed

lemma loop_step_measure:
  assumes "loop_step s t" "loop_inv (ls_loop s)"
  shows "loop_measure t < loop_measure s"
  using assms
proof (cases rule: loop_step.cases)
  case (start l)
  from Run_begin_ok [OF assms(2) start(2)] start(3)
  have p: "el_phase l = Dispatching" by simp
  have "el_stack l = el_stack (ls_loop s) \<and> el_pipe l = el_pipe (ls_loop s) \<and>
      el_pending_functors l = el_pending_functors (ls_loop s)"
    using start(3)
    by (auto simp: EventLoop_Run_begin_def EventLoop_wait_def rbind_eq_Inr assert_that_eq_Inr
      split: option.splits)
  with p start(1,2) show ?thesis
    by (simp add: loop_measure_def loop_weight_def at_check_def)
next
  case (busy l)
  then obtain fr st where st: "el_stack (ls_loop s) = fr # st" by (cases "el_stack (ls_loop s)") auto
  have "frame_step fr ((ls_loop s)\<lparr>el_stack := st\<rparr>) = Inr l"
    using busy(4) st by (simp add: loop_busy_step_def)
  from busy_step_weight [OF assms(2) busy(2) st this] busy(1) show ?thesis
    by (simp add: loop_measure_def)
next
  case (wake w l)
  with wake_ok [OF assms(2)] show ?thesis
    by (auto simp: loop_measure_def loop_weight_def at_check_def min_def)
next
  case leave
  then show ?thesis
    by (simp add: loop_measure_def loop_weight_def at_check_def EventLoop_Run_end_def)
next
  case (other i a as rest l)
  have "el_stack l = el_stack (ls_loop s)"
    using other(4) [unfolded thread_step_cases [OF assms(2)]]
    by (auto simp: queue_effect_def split: action.splits if_splits)
  then have c: "at_check l = at_check (ls_loop s)" by (simp add: at_check_def)
  let ?w = "script_total 10 15 16"
  have "sum_list (map ?w ((ls_progs s)[i := rest @ as])) + ?w (a # as) =
      sum_list (map ?w (ls_progs s)) + ?w (rest @ as)"
    using sum_list_replace [of i "map ?w (ls_progs s)" "?w (rest @ as)"] other(2,3)
    by (simp add: map_update)
  with thread_step_weight [OF assms(2) other(4)] c other(1) show ?thesis
    by (simp add: loop_measure_def)
qed

interpretation loop_runs: measured_system loop_step "\<lambda>s. loop_inv (ls_loop s)" loop_measure
  by unfold_locales (auto dest: loop_step_inv loop_step_measure)

section \<open>Stopping\<close>

text \<open>With \<open>q = 1\<close>, \<open>s = 0\<close> the totals count the halves of \<^verbatim>\<open>Stop\<close> that are under way, with
  \<open>q = 0\<close>, \<open>s = 1\<close> the calls of \<^verbatim>\<open>Stop\<close> still to be made.\<close>

fun functor_total :: "nat \<Rightarrow> nat \<Rightarrow> functor \<Rightarrow> nat" where
  "functor_total q s (Task _ acts) = script_total 0 q s acts"
| "functor_total q s Stop_In_Loop = q"

fun frame_total :: "nat \<Rightarrow> nat \<Rightarrow> frame \<Rightarrow> nat" where
  "frame_total q s (Functors fs) = sum_list (map (functor_total q s) fs)"
| "frame_total q s (Body acts) = script_total 0 q s acts"
| "frame_total q s _ = 0"

definition loop_total :: "nat \<Rightarrow> nat \<Rightarrow> event_loop \<Rightarrow> nat" where
  "loop_total q s l = sum_list (map (frame_total q s) (el_stack l)) +
     sum_list (map (functor_total q s) (el_pending_functors l))"

definition system_total :: "nat \<Rightarrow> nat \<Rightarrow> loop_system \<Rightarrow> nat" where
  "system_total q s S =
     loop_total q s (ls_loop S) + sum_list (map (script_total 0 q s) (ls_progs S))"

definition stop_seen :: "event_loop \<Rightarrow> bool" where
  "stop_seen l \<longleftrightarrow> (Stop_In_Loop \<in> set (el_called l) \<longrightarrow>
     el_exit l \<or> Drain_Check False \<in> set (el_stack l)) \<and>
     (el_exit l \<or> (\<exists>fr \<in> set (el_stack l). is_drain fr) \<longrightarrow> bs_status l \<in> {kStopping, kStopped})"

text \<open>What a step does to the status and the totals: nothing, unless it is a \<^verbatim>\<open>Stop\<close>.\<close>

definition stop_move :: "event_loop \<Rightarrow> nat \<Rightarrow> nat \<Rightarrow> event_loop \<Rightarrow> nat \<Rightarrow> nat \<Rightarrow> bool" where
  "stop_move l tails stops l' tails' stops' \<longleftrightarrow>
     (bs_status l' = bs_status l \<and> stops' = stops \<and>
        (tails' = tails \<or> tails' \<le> tails \<and> Stop_In_Loop \<in> set (el_called l')) \<or>
      bs_status l = kRunning \<and> bs_status l' = kStopping \<and> stops = Suc stops' \<and>
        tails' = Suc tails) \<and>
     (Stop_In_Loop \<in> set (el_called l) \<longrightarrow> Stop_In_Loop \<in> set (el_called l'))"

lemma queue_effect_total:
  "loop_total q s (queue_effect f l) = loop_total q s l + functor_total q s f"
  "bs_status (queue_effect f l) = bs_status l"
  "el_called (queue_effect f l) = el_called l"
  "stop_seen (queue_effect f l) = stop_seen l"
  by (simp_all add: loop_total_def queue_effect_def stop_seen_def)

lemma frame_step_stop:
  assumes "loop_inv l" "el_phase l = Dispatching" "el_stack l = fr # st" "stop_seen l"
    "loop_total 1 0 l > 0 \<Longrightarrow> bs_status l = kStopping"
    "loop_total 0 1 l > 0 \<Longrightarrow> bs_status l = kRunning"
  shows "\<exists>l'. frame_step fr (l\<lparr>el_stack := st\<rparr>) = Inr l' \<and> stop_seen l' \<and>
    stop_move l (loop_total 1 0 l) (loop_total 0 1 l) l' (loop_total 1 0 l') (loop_total 0 1 l')"
proof -
  have alive: "loop_alive (l\<lparr>el_stack := x\<rparr>)" for x
    using assms(1,2) by (auto simp: loop_inv_def loop_alive_def split: option.splits)
  note d = stop_move_def loop_total_def stop_seen_def
  show ?thesis
  proof (cases fr)
    case Do_Pending
    with assms(3,4) show ?thesis by (simp add: DoPendingFunctors_swap_def d)
  next
    case (Functors fs)
    show ?thesis
    proof (cases fs)
      case Nil
      with Functors assms(3,4) show ?thesis by (simp add: d)
    next
      case (Cons f gs)
      show ?thesis
      proof (cases f)
        case (Task i acts)
        with Functors Cons assms(3,4) show ?thesis by (simp add: call_functor_def d)
      next
        case Stop_In_Loop
        with Functors Cons assms(3) have "bs_status l = kStopping"
          by (intro assms(5)) (simp add: loop_total_def)
        with Stop_In_Loop Functors Cons assms(3,4) show ?thesis
          by (simp add: call_functor_def d)
      qed
    qed
  next
    case Decrement
    with assms(3,4) show ?thesis by (simp add: d)
  next
    case (Drain_Check b)
    with assms(3,4) show ?thesis by (auto simp: d IsPendingQueueEmpty_def)
  next
    case (Body acts)
    show ?thesis
    proof (cases acts)
      case Nil
      with Body assms(3,4) show ?thesis by (simp add: d)
    next
      case (Cons a as)
      let ?l = "l\<lparr>el_stack := Body as # st\<rparr>"
      have l: "bs_status ?l = bs_status l" "el_called ?l = el_called l" "stop_seen ?l"
        "loop_total q s l = loop_total q s ?l + action_total 0 q s a" for q s
        using assms(3,4) Body Cons by (simp_all add: d)
      have q: "QueueInLoop f ?l = Inr (queue_effect f ?l)" for f
        using QueueInLoop_ok [OF alive] .
      show ?thesis
      proof (cases a)
        case (Run_In_Loop i fa)
        have "stop_move l (loop_total 1 0 l) (loop_total 0 1 l) (?l\<lparr>el_stack := Body fa # Body as # st\<rparr>)
            (loop_total 1 0 (?l\<lparr>el_stack := Body fa # Body as # st\<rparr>))
            (loop_total 0 1 (?l\<lparr>el_stack := Body fa # Body as # st\<rparr>)) \<and>
            stop_seen (?l\<lparr>el_stack := Body fa # Body as # st\<rparr>)"
          using assms(3,4) Body Cons Run_In_Loop by (simp add: d)
        then show ?thesis
          using Body Cons Run_In_Loop q [of "Task i fa"] l
          by (cases "IsRunning ?l \<and> IsInLoopThread loop_thread_id ?l")
            (auto simp: RunInLoop_def call_functor_def queue_effect_total stop_move_def)
      next
        case (Queue_In_Loop i fa)
        then show ?thesis using Body Cons q l by (auto simp: queue_effect_total stop_move_def)
      next
        case Stop_Loop
        have "bs_status l = kRunning"
          using Stop_Loop l(4) [of 0 1] by (intro assms(6)) simp
        with Stop_Loop assms(3,4) Body Cons show ?thesis by (auto simp: EventLoop_Stop_def d)
      next
        case Queue_Stop
        then show ?thesis using Body Cons q l by (auto simp: queue_effect_total stop_move_def)
      qed
    qed
  qed
qed

lemma thread_step_stop:
  assumes "loop_inv l" "stop_seen l" "action_total 0 0 1 a > 0 \<Longrightarrow> bs_status l = kRunning"
  shows "\<exists>rest l'. thread_step (Suc i) a l = Inr (rest, l') \<and> stop_seen l' \<and>
    stop_move l (loop_total 1 0 l + action_total 0 1 0 a) (loop_total 0 1 l + action_total 0 0 1 a)
      l' (loop_total 1 0 l' + script_total 0 1 0 rest) (loop_total 0 1 l' + script_total 0 0 1 rest)"
proof -
  have s: "stop_seen (l\<lparr>bs_status := kStopping\<rparr>)"
    "loop_total q s (l\<lparr>bs_status := kStopping\<rparr>) = loop_total q s l" for q s
    using assms(2) by (simp_all add: stop_seen_def loop_total_def)
  show ?thesis
    unfolding thread_step_cases [OF assms(1)]
    using assms(2,3) s by (cases a) (simp_all add: queue_effect_total stop_move_def)
qed

definition stop_inv :: "loop_system \<Rightarrow> bool" where
  "stop_inv S \<longleftrightarrow> loop_inv (ls_loop S) \<and> stop_seen (ls_loop S) \<and>
     (case bs_status (ls_loop S) of
        kInitialized \<Rightarrow> system_total 1 0 S = 0 \<and> system_total 0 1 S = 0
      | kRunning \<Rightarrow> system_total 1 0 S = 0 \<and> system_total 0 1 S \<le> 1
      | kStopping \<Rightarrow> system_total 0 1 S = 0 \<and>
          (system_total 1 0 S > 0 \<or> Stop_In_Loop \<in> set (el_called (ls_loop S)))
      | kStopped \<Rightarrow> system_total 0 1 S = 0
      | _ \<Rightarrow> False)"

lemma stop_move_inv:
  assumes "stop_inv S" "loop_inv (ls_loop T)" "stop_seen (ls_loop T)"
    "stop_move (ls_loop S) (system_total 1 0 S) (system_total 0 1 S)
       (ls_loop T) (system_total 1 0 T) (system_total 0 1 T)"
  shows "stop_inv T"
  using assms
  by (cases "bs_status (ls_loop S)") (auto simp: stop_inv_def stop_move_def)

lemma stop_inv_phase:
  assumes "stop_inv S"
  shows "bs_status (ls_loop S) =
    (case el_phase (ls_loop S) of
       Not_Started \<Rightarrow> kInitialized
     | Dispatching \<Rightarrow> if bs_status (ls_loop S) = kRunning then kRunning else kStopping
     | Returned \<Rightarrow> kStopped)"
  using assms by (auto simp: stop_inv_def loop_inv_def loop_alive_def split: loop_phase.splits)

lemma stop_inv_tails:
  assumes "stop_inv S" "el_phase (ls_loop S) = Dispatching"
  shows "system_total 1 0 S > 0 \<Longrightarrow> bs_status (ls_loop S) = kStopping"
    and "system_total 0 1 S > 0 \<Longrightarrow> bs_status (ls_loop S) = kRunning"
  using assms stop_inv_phase [OF assms(1)]
  by (auto simp: stop_inv_def split: if_splits)

lemma stop_inv_stops:
  assumes "stop_inv S" "system_total 0 1 S > 0"
  shows "bs_status (ls_loop S) = kRunning"
  using assms by (auto simp: stop_inv_def split: status.splits)

lemma busy_stop:
  assumes "stop_inv S" "el_phase (ls_loop S) = Dispatching" "el_stack (ls_loop S) \<noteq> []"
  shows "\<exists>l. loop_busy_step (ls_loop S) = Inr l \<and> stop_inv (S\<lparr>ls_loop := l\<rparr>)"
proof -
  let ?l = "ls_loop S" and ?p = "\<lambda>q s. sum_list (map (script_total 0 q s) (ls_progs S))"
  obtain fr st where st: "el_stack ?l = fr # st" using assms(3) by (cases "el_stack ?l") auto
  have i: "loop_inv ?l" "stop_seen ?l" using assms(1) by (simp_all add: stop_inv_def)
  have "loop_total 1 0 ?l > 0 \<Longrightarrow> bs_status ?l = kStopping"
    "loop_total 0 1 ?l > 0 \<Longrightarrow> bs_status ?l = kRunning"
    using stop_inv_tails [OF assms(1,2)] by (simp_all add: system_total_def)
  with frame_step_stop [OF i(1) assms(2) st i(2)] obtain l' where
    l': "frame_step fr (?l\<lparr>el_stack := st\<rparr>) = Inr l'" "stop_seen l'"
    "stop_move ?l (loop_total 1 0 ?l) (loop_total 0 1 ?l) l' (loop_total 1 0 l') (loop_total 0 1 l')"
    by auto
  have "stop_inv (S\<lparr>ls_loop := l'\<rparr>)"
    using stop_move_inv [OF assms(1), of "S\<lparr>ls_loop := l'\<rparr>"] l'
      busy_step_inv [OF i(1) assms(2) st l'(1)]
    by (auto simp: system_total_def stop_move_def)
  then show ?thesis using l'(1) st by (simp add: loop_busy_step_def)
qed

lemma thread_stop:
  assumes "stop_inv S" "i < length (ls_progs S)" "ls_progs S ! i = a # as"
  shows "\<exists>rest l. thread_step (Suc i) a (ls_loop S) = Inr (rest, l) \<and>
    stop_inv (S\<lparr>ls_loop := l, ls_progs := (ls_progs S)[i := rest @ as]\<rparr>)"
proof -
  let ?l = "ls_loop S"
  have inv: "loop_inv ?l" "stop_seen ?l" using assms(1) by (simp_all add: stop_inv_def)
  have split: "sum_list (map (script_total 0 q s) ((ls_progs S)[i := rest @ as])) + action_total 0 q s a =
      sum_list (map (script_total 0 q s) (ls_progs S)) + script_total 0 q s rest" for q s rest
    using sum_list_replace [of i "map (script_total 0 q s) (ls_progs S)" "script_total 0 q s (rest @ as)"]
      assms(2,3)
    by (simp add: map_update)
  have "bs_status ?l = kRunning" if "action_total 0 0 1 a > 0"
    using that split [of 0 1 "[]"] by (intro stop_inv_stops [OF assms(1)]) (simp add: system_total_def)
  with thread_step_stop [OF inv, of a i] obtain rest l' where
    l': "thread_step (Suc i) a ?l = Inr (rest, l')" "stop_seen l'"
    "stop_move ?l (loop_total 1 0 ?l + action_total 0 1 0 a) (loop_total 0 1 ?l + action_total 0 0 1 a)
      l' (loop_total 1 0 l' + script_total 0 1 0 rest) (loop_total 0 1 l' + script_total 0 0 1 rest)"
    by auto
  let ?T = "S\<lparr>ls_loop := l', ls_progs := (ls_progs S)[i := rest @ as]\<rparr>"
  have "stop_move ?l (system_total 1 0 S) (system_total 0 1 S) l' (system_total 1 0 ?T) (system_total 0 1 ?T)"
    using l'(3) split [of 1 0 rest] split [of 0 1 rest]
    by (auto simp: stop_move_def system_total_def)
  then have "stop_inv ?T"
    using stop_move_inv [OF assms(1), of ?T] l'(2) thread_step_inv [OF inv(1) l'(1)] by simp
  then show ?thesis using l'(1) by auto
qed

lemma loop_step_stop:
  assumes "loop_step S T" "stop_inv S"
  shows "stop_inv T"
  using assms(1)
proof (cases rule: loop_step.cases)
  case (start l)
  have inv: "loop_inv (ls_loop S)" using assms(2) by (simp add: stop_inv_def)
  have "el_stack l = el_stack (ls_loop S) \<and> el_called l = el_called (ls_loop S) \<and>
      el_pending_functors l = el_pending_functors (ls_loop S) \<and> el_exit l = el_exit (ls_loop S)"
    using start(3)
    by (auto simp: EventLoop_Run_begin_def EventLoop_wait_def rbind_eq_Inr assert_that_eq_Inr
      split: option.splits)
  moreover from this have "system_total q s (S\<lparr>ls_loop := l\<rparr>) = system_total q s S" for q s
    by (simp add: system_total_def loop_total_def)
  moreover have "bs_status (ls_loop S) = kInitialized" "el_stack (ls_loop S) = []"
    using inv start(2) by (simp_all add: loop_inv_def loop_alive_def)
  moreover have "loop_inv l" "bs_status l = kRunning"
    using Run_begin_ok [OF inv start(2)] start(3) by auto
  ultimately show ?thesis
    using start(1) assms(2) by (auto simp: stop_inv_def stop_seen_def)
next
  case (busy l)
  with busy_stop [OF assms(2)] show ?thesis by auto
next
  case (wake w l)
  have inv: "loop_inv (ls_loop S)" using assms(2) by (simp add: stop_inv_def)
  let ?l = "(ls_loop S)\<lparr>el_pipe := el_pipe (ls_loop S) - min 128 (el_pipe (ls_loop S)),
    el_stack := [Do_Pending]\<rparr>"
  have "stop_inv (S\<lparr>ls_loop := ?l\<rparr>)"
    using stop_move_inv [OF assms(2), of "S\<lparr>ls_loop := ?l\<rparr>"] wake_ok(2) [OF inv wake(2,3,4)]
      assms(2) wake(3)
    by (simp add: stop_move_def system_total_def loop_total_def stop_inv_def stop_seen_def)
  with wake(1,7) wake_ok(1) [OF inv wake(2,3,4)] show ?thesis by simp
next
  case leave
  have inv: "loop_inv (ls_loop S)" using assms(2) by (simp add: stop_inv_def)
  have "bs_status (ls_loop S) = kStopping"
    using assms(2) leave inv
    by (auto simp: stop_inv_def stop_seen_def loop_inv_def loop_alive_def)
  moreover have "system_total 0 1 (S\<lparr>ls_loop := EventLoop_Run_end (ls_loop S)\<rparr>) = system_total 0 1 S"
    by (simp add: system_total_def loop_total_def EventLoop_Run_end_def)
  ultimately show ?thesis
    using leave assms(2) Run_end_inv [OF inv leave(2,3)]
    by (simp add: stop_inv_def stop_seen_def EventLoop_Run_end_def)
next
  case (other i a as rest l)
  with thread_stop [OF assms(2) other(2,3)] show ?thesis by auto
qed

section \<open>Rest\<close>

text \<open>A state in which some thread stands before a step that aborts.\<close>

definition loop_faulty :: "loop_system \<Rightarrow> bool" where
  "loop_faulty S \<longleftrightarrow>
     (el_phase (ls_loop S) = Not_Started \<and>
        isl (EventLoop_Run_begin 0 loop_thread_id (ls_loop S))) \<or>
     (el_phase (ls_loop S) = Dispatching \<and> el_stack (ls_loop S) \<noteq> [] \<and>
        isl (loop_busy_step (ls_loop S))) \<or>
     (el_phase (ls_loop S) = Dispatching \<and> el_stack (ls_loop S) = [] \<and> el_pipe (ls_loop S) > 0 \<and>
        isl (loop_wake_step (ls_loop S))) \<or>
     (\<exists>i < length (ls_progs S). \<exists>a as. ls_progs S ! i = a # as \<and>
        isl (thread_step (Suc i) a (ls_loop S)))"

lemma stop_inv_not_faulty:
  assumes "stop_inv S"
  shows "\<not> loop_faulty S"
proof -
  have inv: "loop_inv (ls_loop S)" using assms by (simp add: stop_inv_def)
  have "\<not> isl (EventLoop_Run_begin 0 loop_thread_id (ls_loop S))"
    if "el_phase (ls_loop S) = Not_Started"
    using Run_begin_ok [OF inv that] by auto
  moreover have "\<not> isl (loop_busy_step (ls_loop S))"
    if "el_phase (ls_loop S) = Dispatching" "el_stack (ls_loop S) \<noteq> []"
    using busy_stop [OF assms that] by auto
  moreover have "\<not> isl (loop_wake_step (ls_loop S))"
    if "el_phase (ls_loop S) = Dispatching" "el_stack (ls_loop S) = []" "el_pipe (ls_loop S) > 0"
    using wake_ok(1) [OF inv that] by simp
  moreover have "\<not> isl (thread_step (Suc i) a (ls_loop S))"
    if "i < length (ls_progs S)" "ls_progs S ! i = a # as" for i a as
    using thread_stop [OF assms that] by auto
  ultimately show ?thesis by (auto simp: loop_faulty_def)
qed

interpretation stop_runs: measured_system loop_step stop_inv loop_measure
proof unfold_locales
  fix s t :: loop_system
  assume s: "stop_inv s" "loop_step s t"
  then show "stop_inv t" by (blast intro: loop_step_stop)
  from s show "loop_measure t < loop_measure s"
    by (auto simp: stop_inv_def intro: loop_step_measure)
qed

lemma rest_state:
  assumes "stop_inv S" "\<not> (\<exists>T. loop_step S T)"
  shows "\<forall>p \<in> set (ls_progs S). p = []" "el_stack (ls_loop S) = []"
    "el_phase (ls_loop S) = Dispatching \<Longrightarrow> \<not> el_exit (ls_loop S) \<and> el_pipe (ls_loop S) = 0"
    "el_phase (ls_loop S) \<noteq> Not_Started"
proof -
  have inv: "loop_inv (ls_loop S)" using assms(1) by (simp add: stop_inv_def)
  have "ls_progs S ! i = []" if "i < length (ls_progs S)" for i
    using thread_stop [OF assms(1) that] assms(2) loop_step.other [OF that]
    by (cases "ls_progs S ! i") blast+
  then show "\<forall>p \<in> set (ls_progs S). p = []" by (auto simp: in_set_conv_nth)
  show started: "el_phase (ls_loop S) \<noteq> Not_Started"
    using Run_begin_ok [OF inv] assms(2) loop_step.start by blast
  show stack: "el_stack (ls_loop S) = []"
  proof (cases "el_phase (ls_loop S)")
    case Dispatching
    then show ?thesis using busy_stop [OF assms(1)] assms(2) loop_step.busy by blast
  next
    case Returned
    then show ?thesis using inv by (simp add: loop_inv_def loop_alive_def)
  qed (use started in simp)
  show "\<not> el_exit (ls_loop S) \<and> el_pipe (ls_loop S) = 0" if d: "el_phase (ls_loop S) = Dispatching"
  proof -
    obtain w where w: "el_watcher (ls_loop S) = Some w" "w_attached w"
      using inv d by (auto simp: loop_inv_def loop_alive_def split: option.splits)
    show ?thesis
      using assms(2) loop_step.leave [OF d stack] loop_step.wake [OF d stack _ w]
        wake_ok(1) [OF inv d stack] by blast
  qed
qed

text \<open>At rest nothing is left to do: a loop that was not stopped has called everything in order.\<close>

lemma rest_outcome:
  assumes "stop_inv S" "\<not> (\<exists>T. loop_step S T)"
  shows "bs_status (ls_loop S) = kRunning \<and> el_called (ls_loop S) = el_queued (ls_loop S) \<and>
      el_pending_functors (ls_loop S) = [] \<and> el_pending_functor_count (ls_loop S) = 0 \<or>
    bs_status (ls_loop S) = kStopped \<and>
      mset (el_queued (ls_loop S)) =
        mset (el_called (ls_loop S)) + mset (el_pending_functors (ls_loop S))"
proof -
  note r = rest_state [OF assms]
  have inv: "loop_inv (ls_loop S)" and seen: "stop_seen (ls_loop S)"
    using assms(1) by (simp_all add: stop_inv_def)
  show ?thesis
  proof (cases "el_phase (ls_loop S)")
    case Not_Started
    with r(4) show ?thesis by simp
  next
    case Returned
    with inv r(2) show ?thesis by (simp add: loop_inv_def loop_alive_def loop_account_def)
  next
    case Dispatching
    with r(2,3) inv have pend: "el_pending_functors (ls_loop S) = []"
      by (auto simp: loop_inv_def loop_wakeup_def)
    have nostop: "Stop_In_Loop \<notin> set (el_called (ls_loop S))"
      using seen r(2,3) Dispatching by (auto simp: stop_seen_def)
    have "system_total 1 0 S = 0"
      using r(1,2) pend by (auto simp: system_total_def loop_total_def)
    then have "bs_status (ls_loop S) \<noteq> kStopping" using assms(1) nostop by (auto simp: stop_inv_def)
    with stop_inv_phase [OF assms(1)] Dispatching have "bs_status (ls_loop S) = kRunning"
      by (simp split: if_splits)
    with inv r(2) nostop pend show ?thesis
      by (simp add: loop_inv_def loop_fifo_def loop_account_def)
  qed
qed

end
