(* ===== verification/Event_Loop_Fifo.thy ===== *)
theory Event_Loop_Fifo
  imports Event_Loop_Runs Step_Systems
begin

text \<open>
  What a loop promises its callers, as a specification: a queue of functors, taken from the front
  and called one after the other. Until a \<^verbatim>\<open>StopInLoop\<close> is called, the loop thread with its stack,
  the flag, the pipe and the two vectors of \<^verbatim>\<open>DoPendingFunctors\<close> is a refinement of that queue. The
  models of the components that hand functors to a loop use the queue.
\<close>

record call_queue =
  cq_waiting :: "functor list"
  cq_called :: "functor list"

inductive fifo_step :: "call_queue \<Rightarrow> call_queue \<Rightarrow> bool" where
  enqueue: "fifo_step q (q\<lparr>cq_waiting := cq_waiting q @ [f]\<rparr>)"
| call: "cq_waiting q = f # fs \<Longrightarrow>
    fifo_step q (q\<lparr>cq_waiting := fs, cq_called := cq_called q @ [f]\<rparr>)"

text \<open>The functors still to be called: those a \<^verbatim>\<open>DoPendingFunctors\<close> has taken, then the vector.\<close>

definition loop_queue :: "event_loop \<Rightarrow> call_queue" where
  "loop_queue l = \<lparr> cq_waiting = stack_functors (el_stack l) @ el_pending_functors l,
     cq_called = el_called l \<rparr>"

definition not_stopped :: "event_loop \<Rightarrow> bool" where
  "not_stopped l \<longleftrightarrow> Stop_In_Loop \<notin> set (el_called l)"

definition queue_moves :: "event_loop \<Rightarrow> event_loop \<Rightarrow> bool" where
  "queue_moves l l' \<longleftrightarrow> (not_stopped l' \<longrightarrow> not_stopped l \<and>
     (loop_queue l = loop_queue l' \<or> fifo_step (loop_queue l) (loop_queue l')))"

lemma moves_same:
  "\<lbrakk> stack_functors (el_stack l) = stack_functors (el_stack l');
     el_pending_functors l = el_pending_functors l'; el_called l = el_called l' \<rbrakk> \<Longrightarrow> queue_moves l l'"
  by (simp add: queue_moves_def loop_queue_def not_stopped_def)

lemma moves_queue: "queue_moves l (queue_effect f l)"
  using fifo_step.enqueue [of "loop_queue l" f]
  by (simp add: queue_moves_def loop_queue_def not_stopped_def queue_effect_def)

lemma moves_call:
  assumes "el_stack l = Functors (f # fs) # st" "stack_functors (el_stack l') = fs @ stack_functors st"
    "el_pending_functors l = el_pending_functors l'" "el_called l' = el_called l @ [f]"
  shows "queue_moves l l'"
  using assms fifo_step.call [of "loop_queue l" f "fs @ stack_functors st @ el_pending_functors l"]
  by (simp add: queue_moves_def loop_queue_def not_stopped_def)

text \<open>Taking the vector under the lock moves nothing: its frame is all there is on the stack.\<close>

lemma moves_swap:
  assumes "loop_inv l" "el_stack l = Do_Pending # st"
  shows "queue_moves l (DoPendingFunctors_swap (l\<lparr>el_stack := st\<rparr>))"
proof -
  have "not_stopped l \<Longrightarrow> st = []"
    using assms by (auto simp: loop_inv_def loop_fifo_def not_stopped_def)
  then show ?thesis
    using assms(2) by (auto simp: queue_moves_def not_stopped_def loop_queue_def DoPendingFunctors_swap_def)
qed

lemma busy_step_moves:
  assumes "loop_inv l" "el_phase l = Dispatching" "el_stack l = fr # st"
    "frame_step fr (l\<lparr>el_stack := st\<rparr>) = Inr l'"
  shows "queue_moves l l'"
proof (cases fr)
  case Do_Pending
  with assms moves_swap show ?thesis by auto
next
  case (Functors fs)
  show ?thesis
  proof (cases fs)
    case Nil
    with assms(3,4) Functors show ?thesis by (auto intro: moves_same)
  next
    case (Cons f gs)
    with assms(3,4) Functors show ?thesis
      by (intro moves_call [of l f gs st]; cases f) (auto simp: call_functor_def assert_that_eq_Inr)
  qed
next
  case Decrement
  with assms(3,4) show ?thesis by (auto intro!: moves_same)
next
  case (Drain_Check b)
  with assms(3,4) show ?thesis by (auto intro!: moves_same split: if_splits)
next
  case (Body acts)
  show ?thesis
  proof (cases acts)
    case Nil
    with assms(3,4) Body show ?thesis by (auto intro: moves_same)
  next
    case (Cons a as)
    let ?l = "l\<lparr>el_stack := Body as # st\<rparr>"
    have "loop_alive ?l"
      using body_frame_inv [OF assms(1,2)] assms(3) Body by (simp add: loop_inv_def)
    note q = QueueInLoop_ok [OF this]
    have m: "queue_moves l (queue_effect f ?l)" for f
      using moves_queue [of ?l f] assms(3) Body
      by (simp add: queue_moves_def loop_queue_def not_stopped_def)
    show ?thesis
      using assms(3,4) Body Cons q m
      by (cases a)
        (auto simp: RunInLoop_def call_functor_def EventLoop_Stop_def assert_that_eq_Inr
          split: if_splits intro: moves_same)
  qed
qed

lemma loop_step_moves:
  assumes "loop_inv (ls_loop s)" "loop_step s t"
  shows "queue_moves (ls_loop s) (ls_loop t)"
  using assms(2)
proof (cases rule: loop_step.cases)
  case (start l)
  then show ?thesis
    by (auto simp: EventLoop_Run_begin_def EventLoop_wait_def rbind_eq_Inr assert_that_eq_Inr
      split: option.splits intro!: moves_same)
next
  case (busy l)
  then obtain fr st where st: "el_stack (ls_loop s) = fr # st" by (cases "el_stack (ls_loop s)") auto
  have "frame_step fr ((ls_loop s)\<lparr>el_stack := st\<rparr>) = Inr l"
    using busy(4) st by (simp add: loop_busy_step_def)
  with busy(1,2) st busy_step_moves [OF assms(1)] show ?thesis by simp
next
  case (wake w l)
  with wake_ok(1) [OF assms(1)] show ?thesis by (auto intro!: moves_same)
next
  case leave
  then show ?thesis by (auto simp: EventLoop_Run_end_def intro!: moves_same)
next
  case (other i a as rest l)
  then show ?thesis
    using thread_step_cases [OF assms(1), of i a] moves_queue
    by (auto split: action.splits if_splits intro: moves_same)
qed

interpretation loop_fifo_system: simulation_system loop_step "\<lambda>s. loop_inv (ls_loop s)" fifo_step
  "\<lambda>s. loop_queue (ls_loop s)" "\<lambda>s. not_stopped (ls_loop s)"
proof unfold_locales
  fix s t
  assume "loop_inv (ls_loop s)" "loop_step s t"
  then show "loop_inv (ls_loop t)" using loop_step_inv by blast
next
  fix s t
  assume "loop_inv (ls_loop s)" "loop_step s t" "not_stopped (ls_loop t)"
  then show "loop_queue (ls_loop s) = loop_queue (ls_loop t) \<or>
      fifo_step (loop_queue (ls_loop s)) (loop_queue (ls_loop t))"
    and "not_stopped (ls_loop s)"
    using loop_step_moves by (simp_all add: queue_moves_def)
qed

end
