(* ===== verification/Tcp_Socket.thy ===== *)
theory Tcp_Socket
  imports Ring_Buffer Event_Watcher
begin

text \<open>
  \<^verbatim>\<open>TcpSocketWrapper\<close> of tcp_socket_wrapper.hpp and tcp_socket_wrapper.cpp: its members, one
  definition per member function, and the two event handlers' dispatch. A call handed to a loop is
  run in place when the caller is that loop's running thread, and is otherwise appended to
  \<open>tsw_posts\<close>. \<open>tsw_signals\<close>, \<open>tsw_wire\<close>, \<open>tsw_sends\<close> and \<open>tsw_closed\<close> are history: the
  callbacks made, the bytes the kernel took, the calls of \<^verbatim>\<open>send\<close> so far, the descriptors closed.
\<close>

section \<open>Data\<close>

datatype conn_state = CS_CLOSED | CS_CONNECTING | CS_CONNECTED

datatype tcp_callback = On_New_Connection | On_Connection | On_Read_Event | On_Write_Event

datatype tcp_signal =
    Signal_Read_Packet "byte list"
  | Signal_New_Connection
  | Signal_On_Close
  | Signal_On_Connected

datatype tcp_post =
    Net_Connect_Server
  | Net_Begin_Process int
  | Net_Try_Write
  | Net_Close_Connection
  | Work_Process_Buffered
  | Work_Close_Signal
  | Work_Connected_Signal
  | Work_Destroy_Socket

text \<open>The argument of an event is the helper as it was when the event was set: null or not.\<close>

type_synonym tcp_event = "(tcp_callback \<times> bool) levent"

definition MaxBufferSize :: u32 where
  "MaxBufferSize = 16 * 1024 * 1024"

record tcp_socket =
  tsw_socketfd :: int
  tsw_listen :: bool
  tsw_auto_reconnect :: bool
  tsw_reconnect_interval :: int
  tsw_connecting_timeout :: int
  tsw_socket_read_event :: "tcp_event option"
  tsw_socket_write_event :: "tcp_event option"
  tsw_sender_buffer :: ring_buffer
  tsw_receiver_buffer :: ring_buffer
  tsw_remote_addr :: "string \<times> u16"
  tsw_high_water_mark :: size_t
  tsw_share_this_helper :: bool
  tsw_listen_port :: u16
  tsw_state :: conn_state
  tsw_SignalReadPacket :: bool
  tsw_SignalNewConnection :: bool
  tsw_SignalOnCloseEvent :: bool
  tsw_SignalOnConnected :: bool
  tsw_posts :: "tcp_post list"
  tsw_signals :: "tcp_signal list"
  tsw_wire :: "byte list"
  tsw_sends :: nat
  tsw_closed :: "int list"

text \<open>
  What a call runs against: the byte order, whether the calling thread runs the network or the
  worker loop, the user's callbacks, and the kernel's answer (result and \<^verbatim>\<open>errno\<close>) to the n-th
  \<^verbatim>\<open>send\<close>.
\<close>

record tcp_env =
  env_le :: bool
  env_in_network :: bool
  env_in_worker :: bool
  env_signal :: "tcp_signal \<Rightarrow> tcp_socket \<Rightarrow> tcp_socket result"
  env_send :: "nat \<Rightarrow> byte list \<Rightarrow> int \<times> int"

definition EINTR :: int where "EINTR = 4"
definition EAGAIN :: int where "EAGAIN = 11"
definition EINPROGRESS :: int where "EINPROGRESS = 115"

section \<open>Construction, destruction and the events\<close>

definition TcpSocketWrapper_new :: "(nat \<Rightarrow> byte) \<Rightarrow> (nat \<Rightarrow> byte) \<Rightarrow> tcp_socket" where
  "TcpSocketWrapper_new g1 g2 =
     \<lparr> tsw_socketfd = - 1, tsw_listen = False, tsw_auto_reconnect = True,
       tsw_reconnect_interval = 3000, tsw_connecting_timeout = 3000,
       tsw_socket_read_event = Some event_zero, tsw_socket_write_event = Some event_zero,
       tsw_sender_buffer = RingBuffer_new g1 MaxBufferSize,
       tsw_receiver_buffer = RingBuffer_new g2 MaxBufferSize,
       tsw_remote_addr = ([], 0), tsw_high_water_mark = ucast MaxBufferSize,
       tsw_share_this_helper = False, tsw_listen_port = 0, tsw_state = CS_CLOSED,
       tsw_SignalReadPacket = False, tsw_SignalNewConnection = False,
       tsw_SignalOnCloseEvent = False, tsw_SignalOnConnected = False,
       tsw_posts = [], tsw_signals = [], tsw_wire = [], tsw_sends = 0, tsw_closed = [] \<rparr>"

text \<open>libevent refuses an event that has no base; otherwise both calls succeed.\<close>

definition tcp_event_rc :: "tcp_event \<Rightarrow> int" where
  "tcp_event_rc e = (if ev_base e then 0 else - 1)"

definition tcp_event_add :: "(int \<times> int) option \<Rightarrow> tcp_event \<Rightarrow> tcp_event" where
  "tcp_event_add tm e = event_add (tcp_event_rc e) tm e"

definition tcp_event_del :: "tcp_event \<Rightarrow> tcp_event" where
  "tcp_event_del e = event_del (tcp_event_rc e) e"

definition tcp_event_set :: "int \<Rightarrow> 16 word \<Rightarrow> tcp_callback \<Rightarrow> bool \<Rightarrow> tcp_event \<Rightarrow> tcp_event" where
  "tcp_event_set fd evs cb arg e = (event_set fd evs (cb, arg) e)\<lparr>ev_base := True\<rparr>"

definition on_read_event :: "(tcp_event \<Rightarrow> tcp_event) \<Rightarrow> tcp_socket \<Rightarrow> tcp_socket result" where
  "on_read_event f s =
     (case tsw_socket_read_event s of
        None \<Rightarrow> Inl Null_Deref
      | Some e \<Rightarrow> Inr (s\<lparr>tsw_socket_read_event := Some (f e)\<rparr>))"

definition on_write_event :: "(tcp_event \<Rightarrow> tcp_event) \<Rightarrow> tcp_socket \<Rightarrow> tcp_socket result" where
  "on_write_event f s =
     (case tsw_socket_write_event s of
        None \<Rightarrow> Inl Null_Deref
      | Some e \<Rightarrow> Inr (s\<lparr>tsw_socket_write_event := Some (f e)\<rparr>))"

definition TcpSocketWrapper_destroy :: "tcp_socket \<Rightarrow> tcp_socket" where
  "TcpSocketWrapper_destroy s =
     (let s = s\<lparr>tsw_socket_read_event := None, tsw_socket_write_event := None\<rparr> in
      if tsw_socketfd s > 0 then s\<lparr>tsw_closed := tsw_closed s @ [tsw_socketfd s]\<rparr> else s)"

definition post :: "tcp_post \<Rightarrow> tcp_socket \<Rightarrow> tcp_socket" where
  "post p s = s\<lparr>tsw_posts := tsw_posts s @ [p]\<rparr>"

definition emit :: "tcp_env \<Rightarrow> tcp_signal \<Rightarrow> tcp_socket \<Rightarrow> tcp_socket result" where
  "emit env sig s = env_signal env sig (s\<lparr>tsw_signals := tsw_signals s @ [sig]\<rparr>)"

definition GetRemoteAddress :: "tcp_socket \<Rightarrow> string \<times> u16" where
  "GetRemoteAddress s = tsw_remote_addr s"

definition GetState :: "tcp_socket \<Rightarrow> conn_state" where
  "GetState s = tsw_state s"

definition get_listen_port :: "tcp_socket \<Rightarrow> u16" where
  "get_listen_port s = tsw_listen_port s"

definition set_listen_port :: "u16 \<Rightarrow> tcp_socket \<Rightarrow> tcp_socket" where
  "set_listen_port port s = s\<lparr>tsw_listen_port := port\<rparr>"

section \<open>Closing and errors\<close>

definition OnDestroySocket :: "tcp_socket \<Rightarrow> tcp_socket" where
  "OnDestroySocket s = s\<lparr>tsw_share_this_helper := False\<rparr>"

definition OnErrorEvent :: "tcp_env \<Rightarrow> tcp_socket \<Rightarrow> tcp_socket result" where
  "OnErrorEvent env s =
     rbind (on_read_event tcp_event_del s) (\<lambda>s.
     rbind (on_write_event tcp_event_del s) (\<lambda>s.
     let s = s\<lparr>tsw_state := CS_CLOSED\<rparr> in
     if tsw_SignalOnCloseEvent s
     then if env_in_worker env then emit env Signal_On_Close s
          else Inr (post Work_Close_Signal s)
     else Inr s))"

definition CloseConnectionInNetworkLoop :: "tcp_env \<Rightarrow> tcp_socket \<Rightarrow> tcp_socket" where
  "CloseConnectionInNetworkLoop env s =
     (let s = s\<lparr>tsw_state := CS_CLOSED,
           tsw_socket_read_event := map_option tcp_event_del (tsw_socket_read_event s),
           tsw_socket_write_event := map_option tcp_event_del (tsw_socket_write_event s)\<rparr> in
      if env_in_worker env then OnDestroySocket s else post Work_Destroy_Socket s)"

definition CloseConnection :: "tcp_env \<Rightarrow> tcp_socket \<Rightarrow> tcp_socket" where
  "CloseConnection env s =
     (if env_in_network env then CloseConnectionInNetworkLoop env s
      else post Net_Close_Connection s)"

section \<open>Listening, connecting, accepting\<close>

text \<open>\<open>fd\<close>, \<open>nb\<close>, \<open>so\<close>, \<open>bd\<close>, \<open>li\<close> answer \<^verbatim>\<open>socket\<close>, the non-blocking switch, \<^verbatim>\<open>setsockopt\<close>,
  \<^verbatim>\<open>bind\<close> and \<^verbatim>\<open>listen\<close>.\<close>

definition BeginListen ::
  "int \<Rightarrow> int \<Rightarrow> int \<Rightarrow> int \<Rightarrow> int \<Rightarrow> u16 \<Rightarrow> tcp_socket \<Rightarrow> (bool \<times> tcp_socket) result" where
  "BeginListen fd nb so bd li port s =
     (let s = s\<lparr>tsw_socketfd := fd\<rparr> in
      if tsw_socketfd s = - 1 then Inr (False, s)
      else if nb = - 1 then Inr (False, s)
      else if so = - 1 then Inr (False, s)
      else if bd = - 1 then Inr (False, s)
      else if li = - 1 then Inr (False, s)
      else
        let s = s\<lparr>tsw_listen := True, tsw_listen_port := port, tsw_share_this_helper := True\<rparr> in
        rbind (on_read_event (tcp_event_set (tsw_socketfd s) (EV_READ OR EV_PERSIST)
                 On_New_Connection (tsw_share_this_helper s)) s) (\<lambda>s.
        rbind (on_read_event (tcp_event_add None) s) (\<lambda>s.
        Inr (True, s\<lparr>tsw_socket_write_event := None\<rparr>))))"

text \<open>\<open>fd\<close> answers \<^verbatim>\<open>socket\<close>, \<open>conn\<close> is \<^verbatim>\<open>connect\<close>'s result and \<^verbatim>\<open>errno\<close>.\<close>

definition ConnectServerInNetworkLoop ::
  "tcp_env \<Rightarrow> int \<Rightarrow> int \<times> int \<Rightarrow> tcp_socket \<Rightarrow> tcp_socket result" where
  "ConnectServerInNetworkLoop env fd conn s =
     (let s = s\<lparr>tsw_socketfd := fd\<rparr> in
      if tsw_socketfd s = - 1 then OnErrorEvent env s
      else
        rbind (on_write_event (tcp_event_set (tsw_socketfd s) (EV_WRITE OR EV_TIMEOUT)
                 On_Connection (tsw_share_this_helper s)) s) (\<lambda>s.
        rbind (on_read_event (tcp_event_set (tsw_socketfd s) (EV_READ OR EV_PERSIST)
                 On_Read_Event (tsw_share_this_helper s)) s) (\<lambda>s.
        rbind (if fst conn \<noteq> 0 \<and> snd conn \<noteq> EINPROGRESS \<and> snd conn \<noteq> EINTR
               then OnErrorEvent env s else Inr s) (\<lambda>s.
        on_write_event (tcp_event_add (Some (5, 0))) (s\<lparr>tsw_state := CS_CONNECTING\<rparr>)))))"

definition BeginConnect ::
  "tcp_env \<Rightarrow> int \<Rightarrow> int \<times> int \<Rightarrow> string \<Rightarrow> u16 \<Rightarrow> tcp_socket \<Rightarrow> (bool \<times> tcp_socket) result" where
  "BeginConnect env fd conn ip port s =
     (let s = s\<lparr>tsw_remote_addr := (ip, port), tsw_share_this_helper := True\<rparr> in
      rbind (if env_in_network env then ConnectServerInNetworkLoop env fd conn s
             else Inr (post Net_Connect_Server s)) (\<lambda>s.
      Inr (True, s)))"

definition BeginProcessInNetworkLoop ::
  "tcp_env \<Rightarrow> int \<Rightarrow> int \<Rightarrow> tcp_socket \<Rightarrow> tcp_socket result" where
  "BeginProcessInNetworkLoop env nb client_fd s =
     (let s = s\<lparr>tsw_socketfd := client_fd\<rparr> in
      if nb = - 1 then OnErrorEvent env s
      else
        let s = s\<lparr>tsw_state := CS_CONNECTED, tsw_share_this_helper := True\<rparr> in
        rbind (on_read_event (tcp_event_set client_fd (EV_READ OR EV_PERSIST)
                 On_Read_Event (tsw_share_this_helper s)) s) (\<lambda>s.
        rbind (on_read_event (tcp_event_add None) s) (\<lambda>s.
        on_write_event (tcp_event_set client_fd EV_WRITE
          On_Write_Event (tsw_share_this_helper s)) s)))"

definition BeginProcess :: "tcp_env \<Rightarrow> int \<Rightarrow> int \<Rightarrow> tcp_socket \<Rightarrow> tcp_socket result" where
  "BeginProcess env nb client_fd s =
     (if env_in_network env then BeginProcessInNetworkLoop env nb client_fd s
      else Inr (post (Net_Begin_Process client_fd) s))"

text \<open>\<open>acc\<close> is \<^verbatim>\<open>accept\<close>'s descriptor; the new socket runs on \<open>env\<close>, that of its own loops.\<close>

definition AcceptConnection ::
  "tcp_env \<Rightarrow> int \<Rightarrow> int \<Rightarrow> string \<times> u16 \<Rightarrow> (nat \<Rightarrow> byte) \<Rightarrow> (nat \<Rightarrow> byte) \<Rightarrow>
   tcp_socket option result" where
  "AcceptConnection env acc nb client_addr g1 g2 =
     (if acc = - 1 then Inr None
      else
        let client = (TcpSocketWrapper_new g1 g2)\<lparr>tsw_remote_addr := client_addr\<rparr> in
        rbind (BeginProcess env nb acc client) (\<lambda>client. Inr (Some client)))"

section \<open>Sending\<close>

text \<open>The loop of \<^verbatim>\<open>TryWriteBufferToSocket\<close>, entered with \<^verbatim>\<open>available_read\<close>; \<open>None\<close> if it never
  ends.\<close>

partial_function (option) try_write_loop ::
  "tcp_env \<Rightarrow> u32 \<Rightarrow> tcp_socket \<Rightarrow> tcp_socket result option" where
  "try_write_loop env available_read s =
     (if available_read > 0 then
        (case mem_read (rb_data (tsw_sender_buffer s))
                (unat (ring_CurrentSeriesReadHead (tsw_sender_buffer s))) (unat available_read) of
           Inl e \<Rightarrow> Some (Inl e)
         | Inr bs \<Rightarrow>
           (case env_send env (tsw_sends s) bs of
              (send_n, errno) \<Rightarrow>
                if send_n < 0 then
                  if errno \<noteq> EAGAIN \<and> errno \<noteq> EINTR
                  then Some (OnErrorEvent env (s\<lparr>tsw_sends := Suc (tsw_sends s)\<rparr>))
                  else Some (on_write_event (tcp_event_add None)
                         (s\<lparr>tsw_sends := Suc (tsw_sends s)\<rparr>))
                else
                  (case ring_ConsumeSeriesReadLen (tsw_sender_buffer s) (word_of_int send_n) of
                     Inl e \<Rightarrow> Some (Inl e)
                   | Inr r \<Rightarrow>
                     (case ring_AvailableSeriesRead r of
                        Inl e \<Rightarrow> Some (Inl e)
                      | Inr available_read' \<Rightarrow>
                          try_write_loop env available_read'
                            (s\<lparr>tsw_sends := Suc (tsw_sends s), tsw_sender_buffer := r,
                               tsw_wire := tsw_wire s @ take (nat send_n) bs\<rparr>)))))
      else Some (Inr s))"

definition TryWriteBufferToSocket :: "tcp_env \<Rightarrow> tcp_socket \<Rightarrow> tcp_socket result option" where
  "TryWriteBufferToSocket env s =
     (case ring_AvailableSeriesRead (tsw_sender_buffer s) of
        Inl e \<Rightarrow> Some (Inl e)
      | Inr available_read \<Rightarrow> try_write_loop env available_read s)"

definition run_try_write :: "tcp_env \<Rightarrow> tcp_socket \<Rightarrow> tcp_socket result option" where
  "run_try_write env s =
     (if env_in_network env then TryWriteBufferToSocket env s
      else Some (Inr (post Net_Try_Write s)))"

text \<open>
  \<^verbatim>\<open>SendData\<close> stores the header through the caller's pointer, which the result returns.
\<close>

definition SendData ::
  "tcp_env \<Rightarrow> byte list \<Rightarrow> size_t \<Rightarrow> tcp_socket \<Rightarrow> (bool \<times> byte list \<times> tcp_socket) result option" where
  "SendData env data len s =
     (if len > 65537 then Some (Inr (False, data, s))
      else
        case ring_AvailableWrite (tsw_sender_buffer s) of
          Inl e \<Rightarrow> Some (Inl e)
        | Inr avail \<Rightarrow>
            if (ucast avail :: size_t) < len + 2 then Some (Inr (False, data, s))
            else
              case rbind (mem_write data 0 (host_bytes (env_le env) 2 (ucast (len - 2) :: u16)))
                     (\<lambda>data'.
                   rbind (ring_WriteContent (tsw_sender_buffer s) data' (ucast len))
                     (\<lambda>(_, r). Inr (data', s\<lparr>tsw_sender_buffer := r\<rparr>))) of
                Inl e \<Rightarrow> Some (Inl e)
              | Inr (data', s') \<Rightarrow>
                  map_option (\<lambda>r. rbind r (\<lambda>s''. Inr (True, data', s''))) (run_try_write env s'))"

definition SendDataWithHead ::
  "tcp_env \<Rightarrow> byte list \<Rightarrow> tcp_socket \<Rightarrow> (bool \<times> tcp_socket) result option" where
  "SendDataWithHead env buff s =
     (case ring_WriteContent (tsw_sender_buffer s) buff (of_nat (length buff)) of
        Inl e \<Rightarrow> Some (Inl e)
      | Inr (_, r) \<Rightarrow>
          map_option (\<lambda>r. rbind r (\<lambda>s'. Inr (True, s')))
            (run_try_write env (s\<lparr>tsw_sender_buffer := r\<rparr>)))"

section \<open>Receiving\<close>

text \<open>The kernel's answer to \<^verbatim>\<open>read\<close>: data, of which it stores what fits, or an \<^verbatim>\<open>errno\<close>.\<close>

datatype sys_read = Sys_Data "byte list" | Sys_Error int

definition TryReadDataFromSocket :: "tcp_env \<Rightarrow> sys_read \<Rightarrow> tcp_socket \<Rightarrow> tcp_socket result" where
  "TryReadDataFromSocket env answer s =
     rbind (ring_AvailableSeriesWrite (tsw_receiver_buffer s)) (\<lambda>available_series_write.
     case answer of
       Sys_Error errno \<Rightarrow>
         if errno = EAGAIN \<or> errno = EINTR then Inr s else OnErrorEvent env s
     | Sys_Data bytes \<Rightarrow>
         let bs = take (unat available_series_write) bytes in
         if bs = [] then OnErrorEvent env s
         else
           rbind (mem_write (rb_data (tsw_receiver_buffer s))
                    (unat (ring_CurrentSeriesWriteHead (tsw_receiver_buffer s))) bs) (\<lambda>d.
           rbind (ring_ConsumeSeriesWriteLen ((tsw_receiver_buffer s)\<lparr>rb_data := d\<rparr>)
                    (of_nat (length bs))) (\<lambda>r.
           Inr (post Work_Process_Buffered (s\<lparr>tsw_receiver_buffer := r\<rparr>)))))"

text \<open>
  A packet is handed to the user's callback. The receiver ring is private and no public member
  reaches it, so it is after the callback what it was before.
\<close>

definition emit_packet :: "tcp_env \<Rightarrow> byte list \<Rightarrow> tcp_socket \<Rightarrow> tcp_socket result" where
  "emit_packet env bytes s =
     (if tsw_SignalReadPacket s then
        rbind (emit env (Signal_Read_Packet bytes) s) (\<lambda>s'.
        Inr (s'\<lparr>tsw_receiver_buffer := tsw_receiver_buffer s\<rparr>))
      else Inr s)"

text \<open>The length header at the read head: two bytes in series, or one at each end of the storage.\<close>

definition read_header :: "bool \<Rightarrow> u32 \<Rightarrow> ring_buffer \<Rightarrow> u16 result" where
  "read_header le available_series_read r =
     (if available_series_read \<ge> 2 then
        rbind (mem_read (rb_data r) (unat (ring_CurrentSeriesReadHead r)) 2) (\<lambda>h.
        Inr (host_word le h))
      else
        rbind (mem_read (rb_data r) (unat (ring_CurrentSeriesReadHead r)) 1) (\<lambda>h0.
        rbind (mem_read (rb_data r) (unat (ring_DataHead r)) 1) (\<lambda>h1.
        Inr (host_word le (h0 @ h1)))))"

text \<open>One round of the loop of \<^verbatim>\<open>TryProcessBufferedDataInWorkLoop\<close>; the flag: go round again?\<close>

definition process_round :: "tcp_env \<Rightarrow> tcp_socket \<Rightarrow> (bool \<times> tcp_socket) result" where
  "process_round env s =
     (let r = tsw_receiver_buffer s in
      rbind (ring_AvailableRead r) (\<lambda>available_read.
      rbind (ring_AvailableSeriesRead r) (\<lambda>available_series_read.
      if available_read < 2 then Inr (False, s)
      else
        rbind (read_header (env_le env) available_series_read r) (\<lambda>payload_len.
        if (ucast payload_len :: u32) > 65535 \<or> payload_len \<le> 0 then
          rbind (on_read_event tcp_event_del s) (\<lambda>s.
          rbind (on_write_event tcp_event_del s) (\<lambda>s.
          if tsw_SignalOnCloseEvent s
          then rbind (emit env Signal_On_Close s) (\<lambda>s. Inr (False, s))
          else Inr (False, s)))
        else
          let msg_len = (ucast payload_len :: u32) + 2 in
          if available_read < msg_len then Inr (False, s)
          else if available_series_read \<ge> msg_len then
            rbind (mem_read (rb_data r) (unat (ring_CurrentSeriesReadHead r)) (unat msg_len)) (\<lambda>bs.
            rbind (emit_packet env bs s) (\<lambda>s.
            rbind (ring_ConsumeSeriesReadLen (tsw_receiver_buffer s) msg_len) (\<lambda>r.
            Inr (True, s\<lparr>tsw_receiver_buffer := r\<rparr>))))
          else
            rbind (mem_read (rb_data r) (unat (ring_CurrentSeriesReadHead r))
                     (unat available_series_read)) (\<lambda>bs1.
            rbind (ring_ConsumeSeriesReadLen r available_series_read) (\<lambda>r1.
            let remain_len = msg_len - available_series_read in
            rbind (mem_read (rb_data r1) (unat (ring_CurrentSeriesReadHead r1)) (unat remain_len)) (\<lambda>bs2.
            rbind (ring_ConsumeSeriesReadLen r1 remain_len) (\<lambda>r2.
            rbind (emit_packet env (bs1 @ bs2) (s\<lparr>tsw_receiver_buffer := r2\<rparr>)) (\<lambda>s.
            Inr (True, s))))))))))"

definition receiver_fill :: "tcp_socket \<Rightarrow> u32" where
  "receiver_fill s =
     rb_write_count (tsw_receiver_buffer s) - rb_read_count (tsw_receiver_buffer s)"

lemma unat_ucast_u16: "unat (ucast (p :: u16) :: u32) = unat p"
proof -
  have "unat p < 2 ^ 16" using unsigned_less [of p] by simp
  then have "unat p < 2 ^ 32" by (rule less_trans) simp
  then have "take_bit 32 (unat p) = unat p" by (rule take_bit_nat_eq_self)
  then show ?thesis by (simp add: unsigned_ucast_eq)
qed

lemma ring_Consume_read_Inr:
  "ring_ConsumeSeriesReadLen r n = Inr r' \<Longrightarrow> r' = r\<lparr>rb_read_count := rb_read_count r + n\<rparr>"
  by (simp add: ring_ConsumeSeriesReadLen_def Let_def assert_that_eq_Inr)

lemma emit_packet_ring:
  "emit_packet env bs s = Inr s' \<Longrightarrow> tsw_receiver_buffer s' = tsw_receiver_buffer s"
  by (auto simp: emit_packet_def rbind_eq_Inr split: if_splits)

lemma process_round_less:
  assumes "process_round env s = Inr (True, s')"
  shows "receiver_fill s' < receiver_fill s"
proof -
  let ?r = "tsw_receiver_buffer s"
  have avail: "ring_AvailableRead ?r = Inr a \<Longrightarrow> a = receiver_fill s" for a
    by (simp add: ring_AvailableRead_def receiver_fill_def Let_def assert_that_eq_Inr)
  have "\<exists>p. p \<noteq> (0 :: u16) \<and> \<not> receiver_fill s < (ucast p :: u32) + 2 \<and>
      receiver_fill s' = receiver_fill s - (ucast p + 2)"
    using assms
    by (auto simp: process_round_def rbind_eq_Inr Let_def receiver_fill_def
        dest!: avail ring_Consume_read_Inr emit_packet_ring split: if_splits prod.splits)
  then obtain p :: u16 where p: "p \<noteq> 0" "\<not> receiver_fill s < (ucast p :: u32) + 2"
    "receiver_fill s' = receiver_fill s - (ucast p + 2)" by blast
  have "unat (ucast p :: u32) = unat p" by (rule unat_ucast_u16)
  moreover have "unat p < 65536" using unsigned_less [of p] by simp
  ultimately have m: "unat ((ucast p :: u32) + 2) = unat p + 2"
    by (subst unat_plus_fits) auto
  with p(2) have "unat (receiver_fill s - (ucast p + 2)) = unat (receiver_fill s) - (unat p + 2)"
    by (subst unat_minus_fits) (auto simp: word_less_nat_alt)
  with p m show ?thesis by (simp add: word_less_nat_alt)
qed

function TryProcessBufferedDataInWorkLoop :: "tcp_env \<Rightarrow> tcp_socket \<Rightarrow> tcp_socket result" where
  "TryProcessBufferedDataInWorkLoop env s =
     (case process_round env s of
        Inl e \<Rightarrow> Inl e
      | Inr (again, s') \<Rightarrow>
          if again then TryProcessBufferedDataInWorkLoop env s' else Inr s')"
  by pat_completeness auto
termination
  by (relation "measure (\<lambda>(env, s). unat (receiver_fill s))")
    (auto simp: word_less_nat_alt [symmetric] intro: process_round_less)

declare TryProcessBufferedDataInWorkLoop.simps [simp del]

section \<open>Event handlers\<close>

text \<open>Each static handler returns at once when its argument is null.\<close>

definition OnNewConnection :: "tcp_env \<Rightarrow> bool \<Rightarrow> tcp_socket \<Rightarrow> tcp_socket result" where
  "OnNewConnection env arg s =
     (if \<not> arg then Inr s
      else if tsw_SignalNewConnection s then emit env Signal_New_Connection s
      else Inr s)"

definition ClientConnected :: "tcp_env \<Rightarrow> tcp_socket \<Rightarrow> tcp_socket result" where
  "ClientConnected env s =
     rbind (on_read_event (tcp_event_add None) s) (\<lambda>s.
     rbind (on_write_event (tcp_event_set (tsw_socketfd s) EV_WRITE On_Write_Event
              (tsw_share_this_helper s)) s) (\<lambda>s.
     let s = s\<lparr>tsw_state := CS_CONNECTED\<rparr> in
     if tsw_SignalOnConnected s
     then if env_in_worker env then emit env Signal_On_Connected s
          else Inr (post Work_Connected_Signal s)
     else Inr s))"

text \<open>\<open>so_error\<close> is what \<^verbatim>\<open>getsockopt\<close> reports for \<^verbatim>\<open>SO_ERROR\<close>.\<close>

definition OnConnection ::
  "tcp_env \<Rightarrow> int \<Rightarrow> 16 word \<Rightarrow> bool \<Rightarrow> tcp_socket \<Rightarrow> tcp_socket result" where
  "OnConnection env so_error event arg s =
     (if \<not> arg then Inr s
      else if event = EV_WRITE then
        if so_error \<noteq> 0 then OnErrorEvent env s else ClientConnected env s
      else if event = EV_TIMEOUT then OnErrorEvent env s
      else Inr s)"

definition OnReadEvent :: "tcp_env \<Rightarrow> sys_read \<Rightarrow> bool \<Rightarrow> tcp_socket \<Rightarrow> tcp_socket result" where
  "OnReadEvent env answer arg s =
     (if \<not> arg then Inr s
      else if tsw_state s = CS_CONNECTED then TryReadDataFromSocket env answer s
      else Inr s)"

definition OnWriteEvent :: "tcp_env \<Rightarrow> bool \<Rightarrow> tcp_socket \<Rightarrow> tcp_socket result option" where
  "OnWriteEvent env arg s =
     (if \<not> arg then Some (Inr s) else TryWriteBufferToSocket env s)"

end
