(* ===== verification/Tcp_Framing.thy ===== *)
theory Tcp_Framing
  imports Tcp_Socket
begin

text \<open>
  What the receiving side of \<^verbatim>\<open>TcpSocketWrapper\<close> promises: the byte stream is cut into frames
  of a two byte length and a payload, however the stream arrives and wherever the ring wraps.
\<close>

section \<open>The specification: cutting a stream into frames\<close>

definition is_payload :: "byte list \<Rightarrow> bool" where
  "is_payload p \<longleftrightarrow> p \<noteq> [] \<and> length p \<le> 65535"

definition frame_of :: "bool \<Rightarrow> byte list \<Rightarrow> byte list" where
  "frame_of le p = host_bytes le 2 (of_nat (length p) :: u16) @ p"

text \<open>The frames of a stream, what is left of it, and whether it is stuck at a zero length.\<close>

function parse_frames :: "bool \<Rightarrow> byte list \<Rightarrow> byte list list \<times> byte list \<times> bool" where
  "parse_frames le bs =
     (if length bs < 2 then ([], bs, False)
      else
        let n = unat (host_word le (take 2 bs) :: u16) in
        if n = 0 then ([], bs, True)
        else if length bs < n + 2 then ([], bs, False)
        else
          case parse_frames le (drop (n + 2) bs) of
            (fs, rest, illegal) \<Rightarrow> (take (n + 2) bs # fs, rest, illegal))"
  by pat_completeness auto
termination
  by (relation "measure (\<lambda>(le, bs). length bs)") auto

declare parse_frames.simps [simp del]

definition prepend :: "byte list list \<Rightarrow> byte list list \<times> 'a \<Rightarrow> byte list list \<times> 'a" where
  "prepend fs p = (fs @ fst p, snd p)"

lemma prepend_simps [simp]:
  "prepend [] p = p"
  "prepend fs (prepend gs p) = prepend (fs @ gs) p"
  "fst (prepend fs p) = fs @ fst p"
  "snd (prepend fs p) = snd p"
  by (simp_all add: prepend_def)

lemma parse_frames_step:
  assumes "n = unat (host_word le (take 2 bs) :: u16)" "n \<noteq> 0" "n + 2 \<le> length bs"
  shows "parse_frames le bs = prepend [take (n + 2) bs] (parse_frames le (drop (n + 2) bs))"
  using assms by (subst parse_frames.simps) (simp add: prepend_def Let_def split: prod.split)

lemma parse_frames_append:
  "parse_frames le (bs @ ys) =
     prepend (fst (parse_frames le bs)) (parse_frames le (fst (snd (parse_frames le bs)) @ ys))"
proof (induction le bs rule: parse_frames.induct)
  case (1 le bs)
  let ?n = "unat (host_word le (take 2 bs) :: u16)"
  show ?case
  proof (cases "length bs < 2 \<or> ?n = 0 \<or> length bs < ?n + 2")
    case True
    then have "parse_frames le bs = ([], bs, snd (snd (parse_frames le bs)))"
      by (subst (1 2) parse_frames.simps) (auto simp: Let_def)
    then show ?thesis by (metis fst_conv prepend_simps(1) snd_conv)
  next
    case False
    then have c: "\<not> length bs < 2" "?n \<noteq> 0" "\<not> length bs < ?n + 2" "?n + 2 \<le> length bs" by auto
    have p: "parse_frames le bs = prepend [take (?n + 2) bs] (parse_frames le (drop (?n + 2) bs))"
      using c by (intro parse_frames_step) auto
    have q: "parse_frames le (bs @ ys) =
        prepend [take (?n + 2) bs] (parse_frames le (drop (?n + 2) bs @ ys))"
      using parse_frames_step [of ?n le "bs @ ys"] c by simp
    show ?thesis
      unfolding q p using "1.IH" [OF c(1) refl c(2) c(3)] by simp
  qed
qed

lemma frame_of_parse:
  assumes "is_payload p"
  shows "parse_frames le (frame_of le p @ ys) = prepend [frame_of le p] (parse_frames le ys)"
proof -
  let ?h = "host_bytes le 2 (of_nat (length p) :: u16)"
  have l: "length ?h = 2" by simp
  have n: "unat (of_nat (length p) :: u16) = length p"
    using assms by (simp add: is_payload_def unat_of_nat)
  have "host_word le (take 2 (frame_of le p @ ys)) = (of_nat (length p) :: u16)"
    using l by (simp add: frame_of_def host_word_host_bytes)
  with n assms show ?thesis
    by (subst parse_frames_step [of "length p"]) (auto simp: frame_of_def is_payload_def)
qed

lemma frames_parse:
  assumes "\<forall>p \<in> set ps. is_payload p"
  shows "parse_frames le (concat (map (frame_of le) ps) @ ys) =
    prepend (map (frame_of le) ps) (parse_frames le ys)"
  using assms by (induction ps) (simp_all add: frame_of_parse)

lemma parse_frames_Nil [simp]: "parse_frames le [] = ([], [], False)"
  by (simp add: parse_frames.simps)

section \<open>One round of the receiving loop\<close>

text \<open>Callbacks that return, and leave the callbacks in place and the history as it is.\<close>

definition calm :: "tcp_env \<Rightarrow> bool" where
  "calm env \<longleftrightarrow> (\<forall>sig s. \<exists>s'. env_signal env sig s = Inr s' \<and>
     tsw_signals s' = tsw_signals s \<and>
     tsw_SignalReadPacket s' = tsw_SignalReadPacket s \<and>
     (tsw_socket_read_event s' = None \<longleftrightarrow> tsw_socket_read_event s = None) \<and>
     (tsw_socket_write_event s' = None \<longleftrightarrow> tsw_socket_write_event s = None) \<and>
     ring_contents (tsw_receiver_buffer s') = ring_contents (tsw_receiver_buffer s) \<and>
     ring_inv (tsw_receiver_buffer s') = ring_inv (tsw_receiver_buffer s))"

definition receiver_ready :: "tcp_socket \<Rightarrow> bool" where
  "receiver_ready s \<longleftrightarrow> ring_inv (tsw_receiver_buffer s) \<and> tsw_SignalReadPacket s \<and>
     tsw_socket_read_event s \<noteq> None \<and> tsw_socket_write_event s \<noteq> None"

abbreviation received :: "tcp_socket \<Rightarrow> byte list" where
  "received s \<equiv> ring_contents (tsw_receiver_buffer s)"

fun packets_of :: "tcp_signal list \<Rightarrow> byte list list" where
  "packets_of [] = []"
| "packets_of (Signal_Read_Packet bs # sigs) = bs # packets_of sigs"
| "packets_of (_ # sigs) = packets_of sigs"

lemma packets_of_append [simp]: "packets_of (xs @ ys) = packets_of xs @ packets_of ys"
  by (induction xs rule: packets_of.induct) auto

lemma emit_calm:
  assumes "calm env" "receiver_ready s"
  shows "\<exists>s'. emit env sig s = Inr s' \<and> tsw_signals s' = tsw_signals s @ [sig] \<and>
    receiver_ready s' \<and> received s' = received s"
  using assms(1) [unfolded calm_def, rule_format, of sig "s\<lparr>tsw_signals := tsw_signals s @ [sig]\<rparr>"]
    assms(2)
  by (auto simp: emit_def receiver_ready_def)

lemma emit_packet_calm:
  assumes "calm env" "receiver_ready s"
  shows "\<exists>s'. emit_packet env bs s = Inr s' \<and>
    tsw_signals s' = tsw_signals s @ [Signal_Read_Packet bs] \<and>
    receiver_ready s' \<and> tsw_receiver_buffer s' = tsw_receiver_buffer s"
  using emit_calm [OF assms, of "Signal_Read_Packet bs"] assms(2)
  by (auto simp: emit_packet_def receiver_ready_def)

lemma read_header_ok:
  assumes inv: "ring_inv r" and len: "2 \<le> length (ring_contents r)"
    and s: "unat series = ring_series_read r"
  shows "read_header le series r = Inr (host_word le (take 2 (ring_contents r)))"
proof (cases "2 \<le> unat series")
  case True
  then show ?thesis
    using ring_series_read_prefix [OF inv, of 2] s
    by (simp add: read_header_def word_le_nat_alt)
next
  case False
  let ?i = "unat (rb_read_count r AND rb_max_index r)" and ?c = "unat (rb_capacity r)"
  have less: "?i < ?c" using inv by (rule ring_index_less)
  with False s len have one: "ring_series_read r = 1" and last: "Suc ?i = ?c"
    by (auto simp: ring_series_read_def)
  have dl: "length (rb_data r) = ?c" using inv by (rule ring_data_length)
  have i: "?i = unat (rb_read_count r) mod ?c" using inv by (rule ring_index)
  have "(unat (rb_read_count r) + 1) mod ?c = (?i + 1) mod ?c"
    unfolding i by (rule mod_add_left_eq [symmetric])
  then have "(unat (rb_read_count r) + 1) mod ?c = 0" using last by simp
  then have second: "ring_contents r ! 1 = rb_data r ! 0"
    using len dl by (simp add: ring_contents_def circ_def)
  have "mem_read (rb_data r) 0 1 = Inr [rb_data r ! 0]"
    using dl less by (cases "rb_data r") (auto simp: mem_read_def)
  moreover have "take 1 (ring_contents r) @ [ring_contents r ! 1] = take 2 (ring_contents r)"
    using len take_Suc_conv_app_nth [of 1 "ring_contents r"] by (simp add: numeral_2_eq_2)
  ultimately show ?thesis
    using False ring_series_read_prefix [OF inv, of 1] one second
    by (simp add: read_header_def word_le_nat_alt ring_DataHead_def)
qed

lemma ring_get_capacity:
  "ring_get r n = Inr (bs, r') \<Longrightarrow> rb_capacity r' = rb_capacity r"
  by (auto simp: ring_get_def rbind_eq_Inr Let_def dest!: ring_Consume_read_Inr split: if_splits)

text \<open>What one round does, in terms of the bytes the ring holds.\<close>

definition round_spec :: "bool \<Rightarrow> tcp_socket \<Rightarrow> bool \<Rightarrow> tcp_socket \<Rightarrow> bool" where
  "round_spec le s again s' \<longleftrightarrow>
     (let c = received s; n = unat (host_word le (take 2 c) :: u16) in
      receiver_ready s' \<and>
      (if length c < 2 then \<not> again \<and> s' = s
       else if n = 0 then \<not> again \<and> received s' = c \<and>
         packets_of (tsw_signals s') = packets_of (tsw_signals s)
       else if length c < n + 2 then \<not> again \<and> s' = s
       else again \<and> received s' = drop (n + 2) c \<and>
         rb_capacity (tsw_receiver_buffer s') = rb_capacity (tsw_receiver_buffer s) \<and>
         tsw_signals s' = tsw_signals s @ [Signal_Read_Packet (take (n + 2) c)]))"

text \<open>
  What a round does depends on the bytes in the ring alone, wherever they lie: it stops, or it
  closes, or it hands over a packet. The packet is consumed after the callback when it lies in
  series, and before it when it wraps.
\<close>

abbreviation header_of :: "bool \<Rightarrow> byte list \<Rightarrow> nat" where
  "header_of le c \<equiv> unat (host_word le (take 2 c) :: u16)"

definition illegal_length :: "tcp_env \<Rightarrow> tcp_socket \<Rightarrow> tcp_socket result" where
  "illegal_length env s =
     rbind (on_read_event tcp_event_del s) (\<lambda>s.
     rbind (on_write_event tcp_event_del s) (\<lambda>s.
     if tsw_SignalOnCloseEvent s then emit env Signal_On_Close s else Inr s))"

definition hand_over :: "tcp_env \<Rightarrow> byte list \<Rightarrow> ring_buffer \<Rightarrow> tcp_socket \<Rightarrow> tcp_socket result \<Rightarrow> bool" where
  "hand_over env packet r s result \<longleftrightarrow>
     result = rbind (emit_packet env packet s) (\<lambda>s'. Inr (s'\<lparr>tsw_receiver_buffer := r\<rparr>)) \<or>
     result = emit_packet env packet (s\<lparr>tsw_receiver_buffer := r\<rparr>)"

lemma process_round_near:
  assumes inv: "ring_inv (tsw_receiver_buffer s)" and two: "2 \<le> length (received s)"
    and avail: "ring_AvailableRead (tsw_receiver_buffer s) = Inr avail" "unat avail = length (received s)"
    and series: "ring_AvailableSeriesRead (tsw_receiver_buffer s) = Inr series"
      "unat series = ring_series_read (tsw_receiver_buffer s)"
    and hdr: "read_header (env_le env) series (tsw_receiver_buffer s) = Inr (h :: u16)"
    and legal: "\<not> (ucast h :: u32) > 65535" and nz: "h \<noteq> 0"
    and enough: "\<not> avail < (ucast h :: u32) + 2"
    and m: "unat ((ucast h :: u32) + 2) = unat h + 2" and whole: "unat h + 2 \<le> length (received s)"
    and near: "series \<ge> (ucast h :: u32) + 2"
  shows "\<exists>r result. process_round env s = rbind result (\<lambda>s'. Inr (True, s')) \<and>
      hand_over env (take (unat h + 2) (received s)) r s result \<and> ring_inv r \<and>
      ring_contents r = drop (unat h + 2) (received s) \<and> rb_capacity r = rb_capacity (tsw_receiver_buffer s)"
proof -
  let ?r = "tsw_receiver_buffer s" and ?c = "received s" and ?m = "(ucast h :: u32) + 2"
  have fits: "unat ?m \<le> ring_series_read ?r" using near series by (simp add: word_le_nat_alt)
  let ?r' = "?r\<lparr>rb_read_count := rb_read_count ?r + ?m\<rparr>"
  let ?result = "rbind (emit_packet env (take (unat h + 2) ?c) s) (\<lambda>s'. Inr (s'\<lparr>tsw_receiver_buffer := ?r'\<rparr>))"
  have bs: "mem_read (rb_data ?r) (unat (ring_CurrentSeriesReadHead ?r)) (unat ?m) = Inr (take (unat h + 2) ?c)"
    using ring_series_read_prefix [OF inv fits] m by simp
  have "process_round env s = rbind ?result (\<lambda>s'. Inr (True, s'))"
  proof (cases "emit_packet env (take (unat h + 2) ?c) s")
    case (Inl err)
    then show ?thesis
      using avail series two hdr legal nz enough near bs
      by (simp add: process_round_def word_less_nat_alt Let_def)
  next
    case (Inr s1)
    then show ?thesis
      using avail series two hdr legal nz enough near bs emit_packet_ring [OF Inr]
        ring_Consume_read_ok [OF inv fits]
      by (simp add: process_round_def word_less_nat_alt Let_def)
  qed
  moreover have "ring_inv ?r'" "ring_contents ?r' = drop (unat ?m) ?c"
    using ring_read_advance [OF inv, of ?m] whole m by simp_all
  ultimately show ?thesis
    using m by (intro exI [of _ ?r'] exI [of _ ?result]) (simp add: hand_over_def)
qed

lemma process_round_far:
  assumes inv: "ring_inv (tsw_receiver_buffer s)" and two: "2 \<le> length (received s)"
    and avail: "ring_AvailableRead (tsw_receiver_buffer s) = Inr avail" "unat avail = length (received s)"
    and series: "ring_AvailableSeriesRead (tsw_receiver_buffer s) = Inr series"
      "unat series = ring_series_read (tsw_receiver_buffer s)"
    and hdr: "read_header (env_le env) series (tsw_receiver_buffer s) = Inr (h :: u16)"
    and legal: "\<not> (ucast h :: u32) > 65535" and nz: "h \<noteq> 0"
    and enough: "\<not> avail < (ucast h :: u32) + 2"
    and m: "unat ((ucast h :: u32) + 2) = unat h + 2" and whole: "unat h + 2 \<le> length (received s)"
    and far: "\<not> series \<ge> (ucast h :: u32) + 2"
  shows "\<exists>r result. process_round env s = rbind result (\<lambda>s'. Inr (True, s')) \<and>
      hand_over env (take (unat h + 2) (received s)) r s result \<and> ring_inv r \<and>
      ring_contents r = drop (unat h + 2) (received s) \<and> rb_capacity r = rb_capacity (tsw_receiver_buffer s)"
proof -
  let ?r = "tsw_receiver_buffer s" and ?c = "received s" and ?m = "(ucast h :: u32) + 2"
  have notin: "\<not> unat h + 2 \<le> unat series" using far m by (simp add: word_le_nat_alt)
  have n32: "of_nat (unat h + 2) = ?m" by (simp flip: m)
  obtain r2 where r2: "ring_get ?r (unat h + 2) = Inr (take (unat h + 2) ?c, r2)"
    "ring_inv r2" "ring_contents r2 = drop (unat h + 2) ?c"
    using ring_get_ok [OF inv, of "unat h + 2"] whole by auto
  have cap2: "rb_capacity r2 = rb_capacity ?r" using r2(1) by (rule ring_get_capacity)
  let ?result = "emit_packet env (take (unat h + 2) ?c) (s\<lparr>tsw_receiver_buffer := r2\<rparr>)"
  have "process_round env s = rbind ?result (\<lambda>s'. Inr (True, s'))"
    using avail series two hdr legal nz enough far
      r2(1) [unfolded ring_get_def series(1) rbind_Inr if_not_P [OF notin] n32]
    by (auto simp: process_round_def word_less_nat_alt Let_def rbind_eq_Inr)
  with r2 cap2 show ?thesis
    by (intro exI [of _ r2] exI [of _ ?result]) (simp add: hand_over_def)
qed

lemma process_round_forms:
  assumes inv: "ring_inv (tsw_receiver_buffer s)"
    and notfull: "length (received s) < unat (rb_capacity (tsw_receiver_buffer s))"
  defines "c \<equiv> received s"
  shows "length c < 2 \<or> header_of (env_le env) c \<noteq> 0 \<and> length c < header_of (env_le env) c + 2 \<Longrightarrow>
      process_round env s = Inr (False, s)"
    and "2 \<le> length c \<Longrightarrow> header_of (env_le env) c = 0 \<Longrightarrow>
      process_round env s = rbind (illegal_length env s) (\<lambda>s'. Inr (False, s'))"
    and "header_of (env_le env) c \<noteq> 0 \<Longrightarrow> header_of (env_le env) c + 2 \<le> length c \<Longrightarrow>
      \<exists>r result. process_round env s = rbind result (\<lambda>s'. Inr (True, s')) \<and>
        hand_over env (take (header_of (env_le env) c + 2) c) r s result \<and> ring_inv r \<and>
        ring_contents r = drop (header_of (env_le env) c + 2) c \<and>
        rb_capacity r = rb_capacity (tsw_receiver_buffer s)"
proof -
  let ?r = "tsw_receiver_buffer s"
  let ?h = "host_word (env_le env) (take 2 c) :: u16"
  define avail where "avail = rb_write_count ?r - rb_read_count ?r"
  have avail: "ring_AvailableRead ?r = Inr avail" "unat avail = length c"
    using ring_AvailableRead_ok [OF inv notfull] by (simp_all add: avail_def c_def)
  obtain series where series: "ring_AvailableSeriesRead ?r = Inr series"
    "unat series = ring_series_read ?r"
    using ring_AvailableSeriesRead_ok [OF inv] by blast
  have hdr: "read_header (env_le env) series ?r = Inr ?h" if "2 \<le> length c"
    using read_header_ok [OF inv _ series(2)] that by (simp add: c_def)
  have h32: "unat (ucast ?h :: u32) = unat ?h" by (rule unat_ucast_u16)
  have hlt: "unat ?h < 65536" using unsigned_less [of ?h] by simp
  have legal: "\<not> (ucast ?h :: u32) > 65535" using h32 hlt by (simp add: word_less_nat_alt)
  let ?m = "(ucast ?h :: u32) + 2"
  have m: "unat ?m = unat ?h + 2" using h32 hlt by (subst unat_plus_fits) auto
  show "process_round env s = Inr (False, s)" if "length c < 2 \<or> unat ?h \<noteq> 0 \<and> length c < unat ?h + 2"
  proof (cases "length c < 2")
    case True
    then show ?thesis
      using avail series by (simp add: process_round_def word_less_nat_alt)
  next
    case False
    with that m avail have "avail < ?m" by (simp add: word_less_nat_alt)
    with that False show ?thesis
      using avail series hdr legal by (simp add: process_round_def word_less_nat_alt unat_eq_zero)
  qed
  show "process_round env s = rbind (illegal_length env s) (\<lambda>s'. Inr (False, s'))"
    if "2 \<le> length c" "unat ?h = 0"
    using that avail series hdr [OF that(1)]
    by (auto simp: process_round_def illegal_length_def word_less_nat_alt unat_eq_zero on_read_event_def
      on_write_event_def split: option.splits)
  assume whole: "unat ?h \<noteq> 0" "unat ?h + 2 \<le> length c"
  then have two: "2 \<le> length c" by simp
  have enough: "\<not> avail < ?m" using whole m avail by (simp add: word_less_nat_alt)
  have nz: "?h \<noteq> 0" using whole(1) by auto
  show "\<exists>r result. process_round env s = rbind result (\<lambda>s'. Inr (True, s')) \<and>
      hand_over env (take (unat ?h + 2) c) r s result \<and> ring_inv r \<and>
      ring_contents r = drop (unat ?h + 2) c \<and> rb_capacity r = rb_capacity ?r"
    using process_round_near [OF inv two [unfolded c_def] avail [unfolded c_def] series hdr [OF two] legal nz enough m]
      process_round_far [OF inv two [unfolded c_def] avail [unfolded c_def] series hdr [OF two] legal nz enough m] whole(2)
    unfolding c_def by blast
qed

lemma process_round_ok:
  assumes ready: "receiver_ready s" and calm: "calm env"
    and notfull: "length (received s) < unat (rb_capacity (tsw_receiver_buffer s))"
  shows "\<exists>again s'. process_round env s = Inr (again, s') \<and> round_spec (env_le env) s again s'"
proof -
  let ?c = "received s" and ?n = "header_of (env_le env) (received s)"
  have inv: "ring_inv (tsw_receiver_buffer s)" using ready by (simp add: receiver_ready_def)
  note forms = process_round_forms [OF inv notfull, of env]
  consider (stop) "length ?c < 2 \<or> ?n \<noteq> 0 \<and> length ?c < ?n + 2"
    | (illegal) "2 \<le> length ?c" "?n = 0" | (whole) "?n \<noteq> 0" "?n + 2 \<le> length ?c"
    by linarith
  then show ?thesis
  proof cases
    case stop
    then have "round_spec (env_le env) s False s"
      using ready unfolding round_spec_def Let_def by argo
    with forms(1) [OF stop] show ?thesis by blast
  next
    case illegal
    from ready obtain e f where ev: "tsw_socket_read_event s = Some e" "tsw_socket_write_event s = Some f"
      by (auto simp: receiver_ready_def)
    let ?s = "s\<lparr>tsw_socket_read_event := Some (tcp_event_del e),
      tsw_socket_write_event := Some (tcp_event_del f)\<rparr>"
    have rs: "receiver_ready ?s" using ready by (simp add: receiver_ready_def)
    from emit_calm [OF calm this, of Signal_On_Close] obtain s' where
      s': "emit env Signal_On_Close ?s = Inr s'" "receiver_ready s'" "received s' = ?c"
        "tsw_signals s' = tsw_signals s @ [Signal_On_Close]" by auto
    have "illegal_length env s = (if tsw_SignalOnCloseEvent s then Inr s' else Inr ?s)"
      using ev s'(1) by (simp add: illegal_length_def on_read_event_def on_write_event_def)
    moreover have "round_spec (env_le env) s False t" if "t = s' \<or> t = ?s" for t
      using that s' rs illegal by (auto simp: round_spec_def Let_def)
    ultimately show ?thesis using forms(2) [OF illegal] by (cases "tsw_SignalOnCloseEvent s") auto
  next
    case whole
    let ?p = "take (?n + 2) ?c"
    obtain r result where r: "process_round env s = rbind result (\<lambda>s'. Inr (True, s'))"
      "hand_over env ?p r s result" "ring_inv r" "ring_contents r = drop (?n + 2) ?c"
      "rb_capacity r = rb_capacity (tsw_receiver_buffer s)" using forms(3) [OF whole] by blast
    have "receiver_ready (s\<lparr>tsw_receiver_buffer := r\<rparr>)" using ready r(3) by (simp add: receiver_ready_def)
    then obtain s1 where s1: "result = Inr s1" "tsw_receiver_buffer s1 = r" "receiver_ready s1"
      "tsw_signals s1 = tsw_signals s @ [Signal_Read_Packet ?p]"
      using r(2,3) emit_packet_calm [OF calm ready, of ?p]
        emit_packet_calm [OF calm, of "s\<lparr>tsw_receiver_buffer := r\<rparr>" ?p]
      by (auto simp: hand_over_def receiver_ready_def)
    moreover have "round_spec (env_le env) s True s1"
      using r(4,5) whole s1 by (simp add: round_spec_def Let_def)
    ultimately show ?thesis using r(1) by auto
  qed
qed

section \<open>The receiving loop implements the specification\<close>

lemma round_spec_parse:
  assumes "round_spec le s again s'"
  shows "\<not> again \<and>
      packets_of (tsw_signals s') = packets_of (tsw_signals s) \<and> received s' = received s \<and>
      fst (parse_frames le (received s)) = [] \<and>
      fst (snd (parse_frames le (received s))) = received s \<or>
    again \<and> (\<exists>f. packets_of (tsw_signals s') = packets_of (tsw_signals s) @ [f] \<and>
      parse_frames le (received s) = prepend [f] (parse_frames le (received s')) \<and>
      rb_capacity (tsw_receiver_buffer s') = rb_capacity (tsw_receiver_buffer s) \<and>
      length (received s') < length (received s))"
proof -
  let ?c = "received s" and ?n = "unat (host_word le (take 2 (received s)) :: u16)"
  show ?thesis
  proof (cases "length ?c < 2 \<or> ?n = 0 \<or> length ?c < ?n + 2")
    case True
    then have "fst (parse_frames le ?c) = [] \<and> fst (snd (parse_frames le ?c)) = ?c"
      by (subst (1 2) parse_frames.simps) (auto simp: Let_def)
    with True assms show ?thesis by (auto simp: round_spec_def Let_def split: if_splits)
  next
    case False
    then have "parse_frames le ?c = prepend [take (?n + 2) ?c] (parse_frames le (drop (?n + 2) ?c))"
      by (intro parse_frames_step) auto
    moreover have "received s' = drop (?n + 2) ?c \<and> again \<and>
        rb_capacity (tsw_receiver_buffer s') = rb_capacity (tsw_receiver_buffer s) \<and>
        packets_of (tsw_signals s') = packets_of (tsw_signals s) @ [take (?n + 2) ?c]"
      using assms False by (simp add: round_spec_def Let_def)
    ultimately show ?thesis using False by (intro disjI2) auto
  qed
qed

lemma process_loop_ok:
  assumes "receiver_ready s" "calm env"
    "length (received s) < unat (rb_capacity (tsw_receiver_buffer s))"
  shows "\<exists>s'. TryProcessBufferedDataInWorkLoop env s = Inr s' \<and> receiver_ready s' \<and>
    packets_of (tsw_signals s') =
      packets_of (tsw_signals s) @ fst (parse_frames (env_le env) (received s)) \<and>
    received s' = fst (snd (parse_frames (env_le env) (received s)))"
  using assms
proof (induction env s rule: TryProcessBufferedDataInWorkLoop.induct)
  case (1 env s)
  obtain again s1 where s1: "process_round env s = Inr (again, s1)"
    "round_spec (env_le env) s again s1"
    using process_round_ok [OF "1.prems"] by blast
  have ready1: "receiver_ready s1" using s1(2) by (simp add: round_spec_def Let_def)
  from round_spec_parse [OF s1(2)] show ?case
  proof (elim disjE conjE exE)
    assume "\<not> again" "packets_of (tsw_signals s1) = packets_of (tsw_signals s)"
      "received s1 = received s" "fst (parse_frames (env_le env) (received s)) = []"
      "fst (snd (parse_frames (env_le env) (received s))) = received s"
    with s1(1) ready1 show ?thesis
      by (subst TryProcessBufferedDataInWorkLoop.simps) simp
  next
    fix f
    assume a: "again"
      and f: "packets_of (tsw_signals s1) = packets_of (tsw_signals s) @ [f]"
      "parse_frames (env_le env) (received s) = prepend [f] (parse_frames (env_le env) (received s1))"
      "rb_capacity (tsw_receiver_buffer s1) = rb_capacity (tsw_receiver_buffer s)"
      "length (received s1) < length (received s)"
    have "length (received s1) < unat (rb_capacity (tsw_receiver_buffer s1))"
      using f(3,4) "1.prems"(3) by simp
    from "1.IH" [OF s1(1) refl a ready1 "1.prems"(2) this] f(1,2) s1(1) a show ?thesis
      by (subst TryProcessBufferedDataInWorkLoop.simps) auto
  qed
qed

end
