(* ===== verification/Tcp_Delivery.thy ===== *)
theory Tcp_Delivery
  imports Tcp_Framing
begin

text \<open>
  Whole connections: what arrives in any pieces, with the worker loop running at any moments in
  between, is delivered frame by frame in order; what is sent leaves in order, whatever part of it
  the kernel takes at a time.
\<close>

section \<open>Receiving a stream\<close>

lemma TryRead_data_ok:
  assumes ready: "receiver_ready s"
    and bs: "bs = take (ring_series_write (tsw_receiver_buffer s)) bytes" "bs \<noteq> []"
  shows "\<exists>r'. TryReadDataFromSocket env (Sys_Data bytes) s =
      Inr (post Work_Process_Buffered (s\<lparr>tsw_receiver_buffer := r'\<rparr>)) \<and>
    ring_inv r' \<and> ring_contents r' = received s @ bs"
proof -
  let ?r = "tsw_receiver_buffer s"
  have inv: "ring_inv ?r" using ready by (simp add: receiver_ready_def)
  obtain n where n: "ring_AvailableSeriesWrite ?r = Inr n" "unat n = ring_series_write ?r"
    using ring_AvailableSeriesWrite_ok [OF inv] by blast
  have le: "length bs \<le> ring_series_write ?r" using bs(1) by simp
  then have l: "unat (of_nat (length bs) :: u32) = length bs"
    by (intro ring_length_lt32 [OF inv]) (auto simp: ring_series_write_def)
  obtain d r' where d: "mem_write (rb_data ?r) (unat (ring_CurrentSeriesWriteHead ?r)) bs = Inr d"
    "ring_ConsumeSeriesWriteLen (?r\<lparr>rb_data := d\<rparr>) (of_nat (length bs)) = Inr r'"
    "ring_inv r'" "ring_contents r' = received s @ bs"
    using ring_series_write_ok [OF inv l le] by blast
  have "TryReadDataFromSocket env (Sys_Data bytes) s =
      Inr (post Work_Process_Buffered (s\<lparr>tsw_receiver_buffer := r'\<rparr>))"
    using n d(1,2) bs by (simp add: TryReadDataFromSocket_def)
  with d show ?thesis by blast
qed

text \<open>
  A connection's receiving side: bytes arrive (\<open>xs\<close> are those stored so far) and the worker loop
  runs, in any order.
\<close>

inductive stream_run :: "tcp_env \<Rightarrow> tcp_socket \<Rightarrow> byte list \<Rightarrow> tcp_socket \<Rightarrow> bool" for env s where
  start: "stream_run env s [] s"
| arrive: "\<lbrakk> stream_run env s xs t; bs = take (ring_series_write (tsw_receiver_buffer t)) bytes;
     bs \<noteq> []; TryReadDataFromSocket env (Sys_Data bytes) t = Inr u \<rbrakk>
     \<Longrightarrow> stream_run env s (xs @ bs) u"
| work: "\<lbrakk> stream_run env s xs t; TryProcessBufferedDataInWorkLoop env t = Inr u \<rbrakk>
     \<Longrightarrow> stream_run env s xs u"

lemma process_not_full:
  assumes "TryProcessBufferedDataInWorkLoop env s = Inr s'" "receiver_ready s"
  shows "length (received s) < unat (rb_capacity (tsw_receiver_buffer s))"
proof (rule ccontr)
  assume "\<not> ?thesis"
  with assms(2) have "length (received s) = unat (rb_capacity (tsw_receiver_buffer s))"
    using ring_length_le [of "tsw_receiver_buffer s"] by (simp add: receiver_ready_def)
  then have "process_round env s = Inl Assert_Failed"
    by (simp only: process_round_def ring_AvailableRead_full Let_def rbind_Inl)
  with assms(1) show False by (subst (asm) TryProcessBufferedDataInWorkLoop.simps) simp
qed

lemma process_full:
  assumes "length (received s) = unat (rb_capacity (tsw_receiver_buffer s))"
  shows "TryProcessBufferedDataInWorkLoop env s = Inl Assert_Failed"
  using assms
  by (subst TryProcessBufferedDataInWorkLoop.simps)
    (simp only: process_round_def ring_AvailableRead_full Let_def rbind_Inl sum.case)

lemma stream_run_parse:
  assumes "stream_run env s xs t" "receiver_ready s" "calm env" "received s = []"
    "packets_of (tsw_signals s) = []"
  shows "receiver_ready t \<and> (\<forall>ys. parse_frames (env_le env) (xs @ ys) =
    prepend (packets_of (tsw_signals t)) (parse_frames (env_le env) (received t @ ys)))"
  using assms(1)
proof induction
  case start
  then show ?case using assms by simp
next
  case (arrive xs t bs bytes u)
  with TryRead_data_ok [of t bs bytes env] obtain r' where
    "u = post Work_Process_Buffered (t\<lparr>tsw_receiver_buffer := r'\<rparr>)" "ring_inv r'"
    "ring_contents r' = received t @ bs"
    by auto
  with arrive.IH show ?case by (auto simp: receiver_ready_def post_def)
next
  case (work xs t u)
  have ready: "receiver_ready t" using work.IH by simp
  from process_loop_ok [OF ready assms(3) process_not_full [OF work.hyps(2) ready]] work.hyps(2)
  have u: "receiver_ready u"
    "packets_of (tsw_signals u) =
      packets_of (tsw_signals t) @ fst (parse_frames (env_le env) (received t))"
    "received u = fst (snd (parse_frames (env_le env) (received t)))" by auto
  have "parse_frames (env_le env) (xs @ ys) =
      prepend (packets_of (tsw_signals u)) (parse_frames (env_le env) (received u @ ys))" for ys
    using work.IH parse_frames_append [of "env_le env" "received t" ys] u by simp
  with u(1) show ?case by blast
qed

lemma parse_frames_idem:
  "fst (parse_frames le (fst (snd (parse_frames le bs)))) = []"
proof -
  have "parse_frames le bs =
      prepend (fst (parse_frames le bs)) (parse_frames le (fst (snd (parse_frames le bs))))"
    using parse_frames_append [of le bs "[]"] by simp
  then show ?thesis by (metis append_self_conv prepend_simps(3))
qed

text \<open>After the worker loop has run, exactly the whole frames that arrived have been delivered.\<close>

lemma stream_run_delivers:
  assumes "stream_run env s xs t" "receiver_ready s" "calm env" "received s = []"
    "packets_of (tsw_signals s) = []" "TryProcessBufferedDataInWorkLoop env t = Inr u"
  shows "packets_of (tsw_signals u) = fst (parse_frames (env_le env) xs)"
    and "received u = fst (snd (parse_frames (env_le env) xs))"
proof -
  have t: "receiver_ready t" using stream_run_parse [OF assms(1-5)] by simp
  have r: "received u = fst (snd (parse_frames (env_le env) (received t)))"
    using process_loop_ok [OF t assms(3) process_not_full [OF assms(6) t]] assms(6) by auto
  have "stream_run env s xs u" using assms(1,6) by (rule stream_run.work)
  from stream_run_parse [OF this assms(2-5)]
  have p: "parse_frames (env_le env) xs =
      prepend (packets_of (tsw_signals u)) (parse_frames (env_le env) (received u))"
    by (metis append.right_neutral)
  have none: "fst (parse_frames (env_le env) (received u)) = []"
    unfolding r by (rule parse_frames_idem)
  with p show "packets_of (tsw_signals u) = fst (parse_frames (env_le env) xs)" by simp
  have "fst (snd (parse_frames (env_le env) (received u))) = received u"
    unfolding r using parse_frames_append [of "env_le env" "received t" "[]"]
    by simp (metis prepend_simps(4))
  with p show "received u = fst (snd (parse_frames (env_le env) xs))" by simp
qed

text \<open>What is left over is shorter than one frame, unless the stream is stuck at a zero length.\<close>

lemma parse_frames_rest:
  assumes "\<not> snd (snd (parse_frames le bs))"
  shows "length (fst (snd (parse_frames le bs))) < 65537"
  using assms
proof (induction le bs rule: parse_frames.induct)
  case (1 le bs)
  let ?n = "unat (host_word le (take 2 bs) :: u16)"
  have lt: "?n < 65536" using unsigned_less [of "host_word le (take 2 bs) :: u16"] by simp
  show ?case
  proof (cases "length bs < 2 \<or> ?n = 0 \<or> length bs < ?n + 2")
    case True
    then show ?thesis using "1.prems" lt
      by (subst parse_frames.simps, subst (asm) parse_frames.simps) (auto simp: Let_def)
  next
    case False
    then have c: "\<not> length bs < 2" "?n \<noteq> 0" "\<not> length bs < ?n + 2" by auto
    have "parse_frames le bs = prepend [take (?n + 2) bs] (parse_frames le (drop (?n + 2) bs))"
      using c by (intro parse_frames_step) auto
    with "1.IH" [OF c(1) refl c(2,3)] "1.prems" show ?thesis by simp
  qed
qed

end
