(* ===== verification/Tcp_Sending.thy ===== *)
theory Tcp_Sending
  imports Tcp_Delivery "HOL-Library.Sublist"
begin

text \<open>
  The sending side of \<^verbatim>\<open>TcpSocketWrapper\<close>: no byte is lost, doubled or reordered between
  \<^verbatim>\<open>SendData\<close> and the kernel, and the write loop ends.
\<close>

section \<open>The write loop\<close>

text \<open>What \<^verbatim>\<open>send\<close> documents: an error, or between one byte and all that was offered.\<close>

definition kernel_ok :: "tcp_env \<Rightarrow> bool" where
  "kernel_ok env \<longleftrightarrow> (\<forall>n bs. bs \<noteq> [] \<longrightarrow>
     fst (env_send env n bs) < 0 \<or>
     1 \<le> fst (env_send env n bs) \<and> fst (env_send env n bs) \<le> int (length bs))"

text \<open>
  Callbacks that return and leave the sending side and the state alone, where any are called: on
  a network loop that is not the worker loop there are none.
\<close>

definition quiet :: "tcp_env \<Rightarrow> bool" where
  "quiet env \<longleftrightarrow> (env_in_worker env \<longrightarrow> (\<forall>sig s. \<exists>s'. env_signal env sig s = Inr s' \<and>
     tsw_wire s' = tsw_wire s \<and> tsw_sender_buffer s' = tsw_sender_buffer s \<and>
     tsw_state s' = tsw_state s \<and>
     tsw_socket_read_event s' = tsw_socket_read_event s \<and>
     tsw_socket_write_event s' = tsw_socket_write_event s))"

abbreviation unsent :: "tcp_socket \<Rightarrow> byte list" where
  "unsent s \<equiv> ring_contents (tsw_sender_buffer s)"

definition sender_ready :: "tcp_socket \<Rightarrow> bool" where
  "sender_ready s \<longleftrightarrow> ring_inv (tsw_sender_buffer s) \<and> tsw_socket_read_event s \<noteq> None \<and>
     (\<exists>e. tsw_socket_write_event s = Some e \<and> ev_base e)"

definition write_pending :: "tcp_socket \<Rightarrow> bool" where
  "write_pending s \<longleftrightarrow> (\<exists>e. tsw_socket_write_event s = Some e \<and> ev_added e)"

lemma OnErrorEvent_ok:
  assumes "sender_ready s" "quiet env"
  shows "\<exists>s'. OnErrorEvent env s = Inr s' \<and> tsw_state s' = CS_CLOSED \<and> sender_ready s' \<and>
    tsw_wire s' = tsw_wire s \<and> tsw_sender_buffer s' = tsw_sender_buffer s \<and> \<not> write_pending s'"
proof -
  from assms(1) obtain e f where ev: "tsw_socket_read_event s = Some e"
    "tsw_socket_write_event s = Some f" "ev_base f" "ring_inv (tsw_sender_buffer s)"
    by (auto simp: sender_ready_def)
  let ?s = "s\<lparr>tsw_socket_read_event := Some (tcp_event_del e),
    tsw_socket_write_event := Some (tcp_event_del f), tsw_state := CS_CLOSED\<rparr>"
  have f: "ev_base (tcp_event_del f)" "\<not> ev_added (tcp_event_del f)"
    using ev(3) by (simp_all add: tcp_event_del_def event_del_def tcp_event_rc_def)
  have "OnErrorEvent env s = (if tsw_SignalOnCloseEvent s then
      if env_in_worker env then emit env Signal_On_Close ?s else Inr (post Work_Close_Signal ?s)
      else Inr ?s)"
    using ev by (simp add: OnErrorEvent_def on_read_event_def on_write_event_def)
  moreover have "\<exists>s1. emit env Signal_On_Close ?s = Inr s1 \<and> tsw_wire s1 = tsw_wire s \<and>
      tsw_sender_buffer s1 = tsw_sender_buffer s \<and> tsw_state s1 = CS_CLOSED \<and>
      tsw_socket_read_event s1 = Some (tcp_event_del e) \<and>
      tsw_socket_write_event s1 = Some (tcp_event_del f)" if "env_in_worker env"
    using assms(2) [unfolded quiet_def, rule_format, OF that, of Signal_On_Close
      "?s\<lparr>tsw_signals := tsw_signals s @ [Signal_On_Close]\<rparr>"]
    by (auto simp: emit_def)
  ultimately show ?thesis
    using ev f by (auto simp: sender_ready_def write_pending_def post_def)
qed

lemma try_write_step:
  assumes inv: "ring_inv (tsw_sender_buffer s)" and "unat n = ring_series_read (tsw_sender_buffer s)" "n > 0" "kernel_ok env"
    "env_send env (tsw_sends s) (take (unat n) (unsent s)) = (k, en)"
  shows "k < 0 \<Longrightarrow> try_write_loop env n s =
      (if en \<noteq> EAGAIN \<and> en \<noteq> EINTR
       then Some (OnErrorEvent env (s\<lparr>tsw_sends := Suc (tsw_sends s)\<rparr>))
       else Some (on_write_event (tcp_event_add None) (s\<lparr>tsw_sends := Suc (tsw_sends s)\<rparr>)))"
    and "\<not> k < 0 \<Longrightarrow> \<exists>r n'. ring_inv r \<and> ring_contents r = drop (nat k) (unsent s) \<and>
      unat n' = ring_series_read r \<and> 1 \<le> nat k \<and> nat k \<le> length (unsent s) \<and>
      try_write_loop env n s = try_write_loop env n'
        (s\<lparr>tsw_sends := Suc (tsw_sends s), tsw_sender_buffer := r,
           tsw_wire := tsw_wire s @ take (nat k) (unsent s)\<rparr>)"
proof -
  let ?r = "tsw_sender_buffer s"
  define bs where "bs = take (unat n) (unsent s)"
  have send: "env_send env (tsw_sends s) bs = (k, en)" using assms(5) by (simp add: bs_def)
  have le: "ring_series_read ?r \<le> length (unsent s)" by (simp add: ring_series_read_def)
  have read: "mem_read (rb_data ?r) (unat (ring_CurrentSeriesReadHead ?r)) (unat n) = Inr bs"
    using ring_series_read_prefix [OF inv, of "unat n"] assms(2) by (simp add: bs_def)
  show "k < 0 \<Longrightarrow> try_write_loop env n s =
      (if en \<noteq> EAGAIN \<and> en \<noteq> EINTR
       then Some (OnErrorEvent env (s\<lparr>tsw_sends := Suc (tsw_sends s)\<rparr>))
       else Some (on_write_event (tcp_event_add None) (s\<lparr>tsw_sends := Suc (tsw_sends s)\<rparr>)))"
    using read assms(3) send
    by (subst try_write_loop.simps) simp
  assume pos: "\<not> k < 0"
  have lb: "length bs = unat n" using le assms(2) by (simp add: bs_def)
  then have "bs \<noteq> []" using assms(3) by (auto simp: word_less_nat_alt)
  with assms(4) pos have k: "1 \<le> k" "k \<le> int (unat n)"
    using lb send by (auto simp: kernel_ok_def dest!: spec [of _ "tsw_sends s"] spec [of _ bs])
  let ?k = "word_of_int k :: u32"
  have "?k = of_nat (nat k)" using k(1) by (simp add: of_nat_nat)
  then have uk: "unat ?k = nat k"
    using k le inv ring_length_le [OF inv] assms(2)
    by (metis (no_types, lifting) int_nat_eq le_trans nat_le_iff ring_length_lt32)
  have fits: "unat ?k \<le> ring_series_read ?r" using uk k assms(2) by simp
  let ?r' = "?r\<lparr>rb_read_count := rb_read_count ?r + ?k\<rparr>"
  have cons: "ring_ConsumeSeriesReadLen ?r ?k = Inr ?r'"
    using inv fits by (rule ring_Consume_read_ok)
  have inv': "ring_inv ?r'" and c': "ring_contents ?r' = drop (nat k) (unsent s)"
    using ring_read_advance [OF inv, of ?k] fits le uk by simp_all
  obtain n' where n': "ring_AvailableSeriesRead ?r' = Inr n'" "unat n' = ring_series_read ?r'"
    using ring_AvailableSeriesRead_ok [OF inv'] by blast
  have tk: "take (nat k) bs = take (nat k) (unsent s)"
    using k by (simp add: bs_def min_def nat_le_iff)
  have "try_write_loop env n s = try_write_loop env n'
      (s\<lparr>tsw_sends := Suc (tsw_sends s), tsw_sender_buffer := ?r',
         tsw_wire := tsw_wire s @ take (nat k) (unsent s)\<rparr>)"
    using read assms(3) pos cons n'(1) tk send
    by (subst try_write_loop.simps) simp
  with inv' c' n'(2) k fits le uk
  show "\<exists>r n'. ring_inv r \<and> ring_contents r = drop (nat k) (unsent s) \<and>
      unat n' = ring_series_read r \<and> 1 \<le> nat k \<and> nat k \<le> length (unsent s) \<and>
      try_write_loop env n s = try_write_loop env n'
        (s\<lparr>tsw_sends := Suc (tsw_sends s), tsw_sender_buffer := r,
           tsw_wire := tsw_wire s @ take (nat k) (unsent s)\<rparr>)"
    by (intro exI [of _ ?r'] exI [of _ n']) simp
qed

lemma series_read_none:
  assumes "ring_inv r" "unat n = ring_series_read r" "\<not> n > (0 :: u32)"
  shows "ring_contents r = []"
proof -
  have "ring_series_read r = 0" using assms(2,3) by (simp add: word_gt_0)
  then show ?thesis
    using ring_index_less [OF assms(1), of "rb_read_count r"]
    by (auto simp: ring_series_read_def min_def simp flip: length_0_conv split: if_splits)
qed

text \<open>The loop ends. All is on the wire, or the connection is closed, or the write event waits.\<close>

lemma try_write_loop_ok:
  assumes "sender_ready s" "unat n = ring_series_read (tsw_sender_buffer s)" "kernel_ok env" "quiet env"
  shows "\<exists>s'. try_write_loop env n s = Some (Inr s') \<and> sender_ready s' \<and>
    tsw_wire s' @ unsent s' = tsw_wire s @ unsent s \<and> prefix (tsw_wire s) (tsw_wire s') \<and>
    (unsent s' = [] \<or> tsw_state s' = CS_CLOSED \<or> write_pending s')"
  using assms(1,2)
proof (induction "length (unsent s)" arbitrary: s n rule: less_induct)
  case less
  let ?r = "tsw_sender_buffer s"
  have inv: "ring_inv ?r" using less.prems(1) by (simp add: sender_ready_def)
  show ?case
  proof (cases "n > 0")
    case False
    then have "unsent s = []" using series_read_none [OF inv] less.prems(2) by simp
    with False less.prems(1) show ?thesis by (subst try_write_loop.simps) simp
  next
    case pos: True
    obtain k en where k: "env_send env (tsw_sends s) (take (unat n) (unsent s)) = (k, en)"
      by (cases "env_send env (tsw_sends s) (take (unat n) (unsent s))") auto
    note step = try_write_step [OF inv less.prems(2) pos assms(3) k]
    let ?s = "s\<lparr>tsw_sends := Suc (tsw_sends s)\<rparr>"
    have ready: "sender_ready ?s" using less.prems(1) by (simp add: sender_ready_def)
    show ?thesis
    proof (cases "k < 0")
      case True
      from less.prems(1) obtain e where e: "tsw_socket_write_event s = Some e" "ev_base e"
        by (auto simp: sender_ready_def)
      let ?t = "?s\<lparr>tsw_socket_write_event := Some (tcp_event_add None e)\<rparr>"
      have "on_write_event (tcp_event_add None) ?s = Inr ?t"
        using e by (simp add: on_write_event_def)
      moreover have "sender_ready ?t" "write_pending ?t"
        using less.prems(1) e
        by (auto simp: sender_ready_def write_pending_def tcp_event_add_def event_add_def
          tcp_event_rc_def)
      ultimately show ?thesis
        using step(1) [OF True] OnErrorEvent_ok [OF ready assms(4)] by auto
    next
      case False
      from step(2) [OF False] obtain r n' where r: "ring_inv r"
        "ring_contents r = drop (nat k) (unsent s)" "unat n' = ring_series_read r" "1 \<le> nat k"
        "nat k \<le> length (unsent s)"
        "try_write_loop env n s = try_write_loop env n'
          (?s\<lparr>tsw_sender_buffer := r, tsw_wire := tsw_wire s @ take (nat k) (unsent s)\<rparr>)"
        by auto
      let ?t = "?s\<lparr>tsw_sender_buffer := r, tsw_wire := tsw_wire s @ take (nat k) (unsent s)\<rparr>"
      have "length (unsent ?t) < length (unsent s)" "sender_ready ?t"
        using r less.prems(1) by (auto simp: sender_ready_def simp del: length_ring_contents)
      from less.hyps [OF this] r(3) obtain s' where s': "try_write_loop env n' ?t = Some (Inr s')"
        "sender_ready s'" "tsw_wire s' @ unsent s' = tsw_wire ?t @ unsent ?t"
        "prefix (tsw_wire ?t) (tsw_wire s')"
        "unsent s' = [] \<or> tsw_state s' = CS_CLOSED \<or> write_pending s'" by auto
      have "tsw_wire ?t @ unsent ?t = tsw_wire s @ unsent s" using r(2) by simp
      moreover have "prefix (tsw_wire s) (tsw_wire s')"
        using s'(4) by (simp add: append_prefixD)
      ultimately show ?thesis using s' r(6) by auto
    qed
  qed
qed

lemma TryWrite_ok:
  assumes "sender_ready s" "kernel_ok env" "quiet env"
  shows "\<exists>s'. TryWriteBufferToSocket env s = Some (Inr s') \<and> sender_ready s' \<and>
    tsw_wire s' @ unsent s' = tsw_wire s @ unsent s \<and> prefix (tsw_wire s) (tsw_wire s') \<and>
    (unsent s' = [] \<or> tsw_state s' = CS_CLOSED \<or> write_pending s')"
proof -
  have "ring_inv (tsw_sender_buffer s)" using assms(1) by (simp add: sender_ready_def)
  from ring_AvailableSeriesRead_ok [OF this] obtain n where
    "ring_AvailableSeriesRead (tsw_sender_buffer s) = Inr n"
    "unat n = ring_series_read (tsw_sender_buffer s)" by blast
  with try_write_loop_ok [OF assms(1) _ assms(2,3)] show ?thesis
    by (simp add: TryWriteBufferToSocket_def)
qed

section \<open>SendData\<close>

lemma SendData_arith:
  assumes p: "length p \<le> 65535" and inv: "ring_inv r"
  shows "unat (of_nat (length p + 2) :: size_t) = length p + 2"
    and "\<not> (of_nat (length p + 2) :: size_t) > 65537"
    and "\<exists>avail. ring_AvailableWrite r = Inr avail \<and>
      ((ucast avail :: size_t) < of_nat (length p + 2) + 2 \<longleftrightarrow> ring_free r < length p + 4)"
proof -
  let ?len = "of_nat (length p + 2) :: size_t"
  show len: "unat ?len = length p + 2"
    using p by (simp add: unat_of_nat del: of_nat_add of_nat_Suc)
  show "\<not> ?len > 65537" using len p by (simp add: word_less_nat_alt)
  obtain avail where avail: "ring_AvailableWrite r = Inr avail" "unat avail = ring_free r"
    using ring_AvailableWrite_ok [OF inv] by blast
  have "unat (ucast avail :: size_t) = unat avail"
  proof -
    have "unat avail < 2 ^ 64" using unat_lt_2p32 [of avail] by simp
    then have "take_bit 64 (unat avail) = unat avail" by (rule take_bit_nat_eq_self)
    then show ?thesis by (simp add: unsigned_ucast_eq)
  qed
  moreover have "unat (?len + 2) = length p + 4"
    using len p by (subst unat_plus_fits) auto
  ultimately have "(ucast avail :: size_t) < ?len + 2 \<longleftrightarrow> ring_free r < length p + 4"
    using avail(2) by (simp add: word_less_nat_alt)
  with avail(1) show "\<exists>avail. ring_AvailableWrite r = Inr avail \<and>
      ((ucast avail :: size_t) < ?len + 2 \<longleftrightarrow> ring_free r < length p + 4)" by blast
qed

lemma SendData_header:
  assumes "is_payload p" "length h = 2"
  shows "mem_write (h @ p) 0 (host_bytes (env_le env) 2 (ucast ((of_nat (length p + 2) :: size_t) - 2) :: u16)) =
    Inr (frame_of (env_le env) p)"
proof -
  let ?len = "of_nat (length p + 2) :: size_t"
  have lp: "length p \<le> 65535" using assms(1) by (simp add: is_payload_def)
  have len: "unat ?len = length p + 2" using lp by (simp add: unat_of_nat del: of_nat_add of_nat_Suc)
  have "unat (?len - 2) = length p" using len by (subst unat_minus_fits) auto
  moreover have "take_bit 16 (length p) = length p"
    using lp by (intro take_bit_nat_eq_self) simp
  ultimately have "unat (ucast (?len - 2) :: u16) = length p"
    by (simp only: unsigned_ucast_eq) simp
  moreover have "unat (of_nat (length p) :: u16) = length p"
    using lp by (simp add: unat_of_nat)
  ultimately have "(ucast (?len - 2) :: u16) = of_nat (length p)" by (simp only: word_unat_eq_iff)
  then show ?thesis using assms(2) by (simp add: mem_write_def overlay_def frame_of_def)
qed

lemma SendData_length:
  assumes "is_payload p"
  shows "unat (ucast (of_nat (length p + 2) :: size_t) :: u32) = length (frame_of (env_le env) p)"
    and "(of_nat (length (frame_of (env_le env) p)) :: u32) = ucast (of_nat (length p + 2) :: size_t)"
proof -
  have lp: "length p \<le> 65535" using assms by (simp add: is_payload_def)
  have "take_bit 32 (length p + 2) = length p + 2" using lp by (intro take_bit_nat_eq_self) simp
  moreover have "unat (of_nat (length p + 2) :: size_t) = length p + 2"
    using lp by (simp add: unat_of_nat del: of_nat_add of_nat_Suc)
  ultimately show l: "unat (ucast (of_nat (length p + 2) :: size_t) :: u32) = length (frame_of (env_le env) p)"
    unfolding unsigned_ucast_eq by (simp add: frame_of_def)
  show "(of_nat (length (frame_of (env_le env) p)) :: u32) = ucast (of_nat (length p + 2) :: size_t)"
    unfolding l [symmetric] by simp
qed

text \<open>The buffer a caller hands to \<^verbatim>\<open>SendData\<close>: two bytes for the header, then the payload.\<close>

lemma SendData_ok:
  assumes ready: "sender_ready s" and p: "is_payload p" and hdr: "length h = 2"
    and room: "length p + 4 \<le> ring_free (tsw_sender_buffer s)"
  shows "\<exists>r. ring_inv r \<and> ring_contents r = unsent s @ frame_of (env_le env) p \<and>
    SendData env (h @ p) (of_nat (length p + 2)) s =
      map_option (\<lambda>x. rbind x (\<lambda>s'. Inr (True, frame_of (env_le env) p, s')))
        (run_try_write env (s\<lparr>tsw_sender_buffer := r\<rparr>))"
proof -
  let ?r = "tsw_sender_buffer s" and ?len = "of_nat (length p + 2) :: size_t"
  have lp: "length p \<le> 65535" using p by (simp add: is_payload_def)
  have inv: "ring_inv ?r" using ready by (simp add: sender_ready_def)
  note short = SendData_arith(2) [OF lp inv]
  obtain avail where avail: "ring_AvailableWrite ?r = Inr avail"
    "\<not> (ucast avail :: size_t) < ?len + 2"
    using SendData_arith(3) [OF lp inv] room by (meson not_less)
  note fits = avail(2)
  note d = SendData_header [OF p hdr, of env] and l32 = SendData_length(1) [OF p, of env]
  obtain r where r: "ring_WriteContent ?r (frame_of (env_le env) p) (ucast ?len) = Inr (True, r)"
    "ring_inv r" "ring_contents r = unsent s @ frame_of (env_le env) p"
    using ring_WriteContent_ok [OF inv, of "ucast ?len" "frame_of (env_le env) p"] l32 room
    by (auto simp: frame_of_def)
  have "SendData env (h @ p) ?len s =
      map_option (\<lambda>x. rbind x (\<lambda>s'. Inr (True, frame_of (env_le env) p, s')))
        (run_try_write env (s\<lparr>tsw_sender_buffer := r\<rparr>))"
    unfolding SendData_def if_not_P [OF short] avail(1) sum.case if_not_P [OF fits] d rbind_Inr r(1)
    by simp
  with r(2,3) show ?thesis by blast
qed

text \<open>
  Where there is room for the frame and two bytes more, the two ways to send are one: a buffer that
  carries its head does what the payload does, whose head is written for it.
\<close>

lemma SendDataWithHead_frame:
  assumes ready: "sender_ready s" and p: "is_payload p" and hdr: "length h = 2"
    and room: "length p + 4 \<le> ring_free (tsw_sender_buffer s)"
  shows "SendData env (h @ p) (of_nat (length p + 2)) s =
    map_option (\<lambda>x. rbind x (\<lambda>(ok, s'). Inr (ok, frame_of (env_le env) p, s')))
      (SendDataWithHead env (frame_of (env_le env) p) s)"
proof -
  let ?r = "tsw_sender_buffer s" and ?len = "of_nat (length p + 2) :: size_t"
  let ?f = "frame_of (env_le env) p"
  have lp: "length p \<le> 65535" using p by (simp add: is_payload_def)
  have inv: "ring_inv ?r" using ready by (simp add: sender_ready_def)
  note short = SendData_arith(2) [OF lp inv]
  obtain avail where avail: "ring_AvailableWrite ?r = Inr avail"
    "\<not> (ucast avail :: size_t) < ?len + 2"
    using SendData_arith(3) [OF lp inv] room by (meson not_less)
  note d = SendData_header [OF p hdr, of env] and w = SendData_length [OF p, of env]
  obtain r where "ring_WriteContent ?r ?f (ucast ?len) = Inr (True, r)"
    using ring_WriteContent_ok [OF inv, of "ucast ?len" ?f] w(1) room by (auto simp: frame_of_def)
  then show ?thesis
    unfolding SendData_def SendDataWithHead_def if_not_P [OF short] avail(1) sum.case
      if_not_P [OF avail(2)] d rbind_Inr w(2) [symmetric]
    by (cases "run_try_write env (s\<lparr>tsw_sender_buffer := r\<rparr>)")
      (auto simp: rbind_def split: sum.splits)
qed

lemma SendData_full:
  assumes "sender_ready s" "is_payload p" "ring_free (tsw_sender_buffer s) < length p + 4"
  shows "SendData env data (of_nat (length p + 2)) s = Some (Inr (False, data, s))"
proof -
  have lp: "length p \<le> 65535" using assms(2) by (simp add: is_payload_def)
  have inv: "ring_inv (tsw_sender_buffer s)" using assms(1) by (simp add: sender_ready_def)
  obtain avail where avail: "ring_AvailableWrite (tsw_sender_buffer s) = Inr avail"
    "(ucast avail :: size_t) < of_nat (length p + 2) + 2"
    using SendData_arith(3) [OF lp inv] assms(3) by blast
  show ?thesis
    unfolding SendData_def if_not_P [OF SendData_arith(2) [OF lp inv]] avail(1) sum.case
      if_P [OF avail(2)] by (rule refl)
qed

lemma SendData_too_long:
  "len > 65537 \<Longrightarrow> SendData env data len s = Some (Inr (False, data, s))"
  by (simp add: SendData_def)

lemma run_try_write_ok:
  assumes "sender_ready s" "kernel_ok env" "quiet env"
  shows "\<exists>s'. run_try_write env s = Some (Inr s') \<and> sender_ready s' \<and>
    tsw_wire s' @ unsent s' = tsw_wire s @ unsent s"
  using TryWrite_ok [OF assms] assms(1)
  by (auto simp: run_try_write_def post_def sender_ready_def)

text \<open>A connection's sending side: the payloads accepted so far, with the write loop run at any
  moments in between.\<close>

inductive send_run :: "tcp_env \<Rightarrow> tcp_socket \<Rightarrow> byte list list \<Rightarrow> tcp_socket \<Rightarrow> bool" for env s where
  start: "send_run env s [] s"
| send: "\<lbrakk> send_run env s ps t; is_payload p; length h = 2;
     SendData env (h @ p) (of_nat (length p + 2)) t = Some (Inr (ok, d, u)) \<rbrakk>
     \<Longrightarrow> send_run env s (if ok then ps @ [p] else ps) u"
| flush: "\<lbrakk> send_run env s ps t; TryWriteBufferToSocket env t = Some (Inr u) \<rbrakk>
     \<Longrightarrow> send_run env s ps u"

lemma send_run_history:
  assumes "send_run env s ps t" "sender_ready s" "kernel_ok env" "quiet env"
    "tsw_wire s = []" "unsent s = []"
  shows "sender_ready t \<and> (\<forall>p \<in> set ps. is_payload p) \<and>
    tsw_wire t @ unsent t = concat (map (frame_of (env_le env)) ps)"
  using assms(1)
proof induction
  case start
  then show ?case using assms by simp
next
  case (send ps t p h ok d u)
  note ready = conjunct1 [OF send.IH]
  show ?case
  proof (cases "ring_free (tsw_sender_buffer t) < length p + 4")
    case True
    with SendData_full [OF ready send.hyps(2) True, of env "h @ p"] send.hyps(4)
    have "\<not> ok" "u = t" by auto
    with send.IH show ?thesis by simp
  next
    case False
    then have room: "length p + 4 \<le> ring_free (tsw_sender_buffer t)" by simp
    obtain r where r: "ring_inv r" "ring_contents r = unsent t @ frame_of (env_le env) p"
      "SendData env (h @ p) (of_nat (length p + 2)) t =
        map_option (\<lambda>x. rbind x (\<lambda>s'. Inr (True, frame_of (env_le env) p, s')))
          (run_try_write env (t\<lparr>tsw_sender_buffer := r\<rparr>))"
      using SendData_ok [OF ready send.hyps(2,3) room] by blast
    have "sender_ready (t\<lparr>tsw_sender_buffer := r\<rparr>)"
      using ready r(1) by (simp add: sender_ready_def)
    from run_try_write_ok [OF this assms(3,4)] r send.hyps(4)
    have "ok" "sender_ready u" "tsw_wire u @ unsent u = tsw_wire t @ unsent t @ frame_of (env_le env) p"
      by auto
    with send.IH send.hyps(2) show ?thesis by simp
  qed
next
  case (flush ps t u)
  with TryWrite_ok [OF conjunct1 [OF flush.IH] assms(3,4)] show ?case by auto
qed

section \<open>From SendData to the packet callback\<close>

text \<open>The packets the receiver delivers are a prefix of the messages sent, and all of them once
  all is on the wire and processed.\<close>

lemma send_receive:
  assumes snd: "send_run env s ps t" "sender_ready s" "kernel_ok env" "quiet env"
      "tsw_wire s = []" "unsent s = []"
    and rcv: "stream_run env' s' xs t'" "receiver_ready s'" "calm env'" "received s' = []"
      "packets_of (tsw_signals s') = []" "TryProcessBufferedDataInWorkLoop env' t' = Inr u"
    and link: "env_le env' = env_le env" "prefix xs (tsw_wire t)"
  shows "prefix (packets_of (tsw_signals u)) (map (frame_of (env_le env)) ps)"
    and "xs = tsw_wire t \<Longrightarrow> unsent t = [] \<Longrightarrow>
      packets_of (tsw_signals u) = map (frame_of (env_le env)) ps"
proof -
  have hist: "\<forall>p \<in> set ps. is_payload p"
    "tsw_wire t @ unsent t = concat (map (frame_of (env_le env)) ps)"
    using send_run_history [OF snd] by simp_all
  have pk: "packets_of (tsw_signals u) = fst (parse_frames (env_le env) xs)"
    using stream_run_delivers(1) [OF rcv] link(1) by simp
  have all: "parse_frames (env_le env) (concat (map (frame_of (env_le env)) ps)) =
      prepend (map (frame_of (env_le env)) ps) ([], [], False)"
    using frames_parse [OF hist(1), of "env_le env" "[]"] by simp
  from link(2) obtain ys where "tsw_wire t = xs @ ys" by (auto simp: prefix_def)
  then have "concat (map (frame_of (env_le env)) ps) = xs @ ys @ unsent t"
    using hist(2) by simp
  with all parse_frames_append [of "env_le env" xs "ys @ unsent t"]
  have "map (frame_of (env_le env)) ps =
      fst (parse_frames (env_le env) xs) @ fst (parse_frames (env_le env)
        (fst (snd (parse_frames (env_le env) xs)) @ ys @ unsent t))"
    by (metis append.right_neutral fst_conv prepend_simps(3))
  with pk show "prefix (packets_of (tsw_signals u)) (map (frame_of (env_le env)) ps)"
    by (metis prefixI)
  show "packets_of (tsw_signals u) = map (frame_of (env_le env)) ps"
    if "xs = tsw_wire t" "unsent t = []"
    using that pk all hist(2) by simp
qed

end
