(* ===== verification/Tcp_States.thy ===== *)
theory Tcp_States
  imports Tcp_Sending Step_Systems
begin

text \<open>
  The life of a connection: which events are registered in which state, through connecting,
  accepting, sending, receiving, errors and closing, as the network and the worker loop run the
  operations in any order.
\<close>

section \<open>The steps of a connection\<close>

definition read_registered :: "tcp_socket \<Rightarrow> bool" where
  "read_registered s \<longleftrightarrow> (\<exists>e. tsw_socket_read_event s = Some e \<and> ev_added e)"

text \<open>libevent takes an event that does not persist off its list before it calls the callback.\<close>

definition event_fired :: "tcp_event \<Rightarrow> tcp_event" where
  "event_fired e = (if ev_events e AND EV_PERSIST = 0 then e\<lparr>ev_added := False\<rparr> else e)"

definition fire_write :: "tcp_env \<Rightarrow> int \<Rightarrow> 16 word \<Rightarrow> tcp_socket \<Rightarrow> tcp_socket result option" where
  "fire_write env so_error event s =
     (case tsw_socket_write_event s of
        None \<Rightarrow> Some (Inl Null_Deref)
      | Some f \<Rightarrow>
          (let s = s\<lparr>tsw_socket_write_event := Some (event_fired f)\<rparr> in
           case ev_callback f of
             Some (On_Connection, arg) \<Rightarrow> Some (OnConnection env so_error event arg s)
           | Some (On_Write_Event, arg) \<Rightarrow> OnWriteEvent env arg s
           | _ \<Rightarrow> Some (Inl Bad_Function_Call)))"

definition fire_read :: "tcp_env \<Rightarrow> sys_read \<Rightarrow> tcp_socket \<Rightarrow> tcp_socket result" where
  "fire_read env answer s =
     (case tsw_socket_read_event s of
        None \<Rightarrow> Inl Null_Deref
      | Some e \<Rightarrow>
          (let s = s\<lparr>tsw_socket_read_event := Some (event_fired e)\<rparr> in
           case ev_callback e of
             Some (On_Read_Event, arg) \<Rightarrow> OnReadEvent env answer arg s
           | Some (On_New_Connection, arg) \<Rightarrow> OnNewConnection env arg s
           | _ \<Rightarrow> Inl Bad_Function_Call))"

datatype conn_op =
    Op_Connect int "int \<times> int"
  | Op_Accepted int int
  | Op_Writable int
  | Op_Connect_Timeout
  | Op_Readable sys_read
  | Op_Flush
  | Op_Close
  | Op_Destroy_Helper

text \<open>
  The network loop runs a connect or an accept on an idle socket only, and fires an event only
  when it is registered; the rest may come at any time.
\<close>

definition conn_enabled :: "conn_op \<Rightarrow> tcp_socket \<Rightarrow> bool" where
  "conn_enabled op s \<longleftrightarrow>
     (case op of
        Op_Connect _ _ \<Rightarrow> tsw_state s = CS_CLOSED \<and> \<not> read_registered s \<and> \<not> write_pending s
      | Op_Accepted _ _ \<Rightarrow> tsw_state s = CS_CLOSED \<and> \<not> read_registered s \<and> \<not> write_pending s
      | Op_Writable _ \<Rightarrow> write_pending s
      | Op_Connect_Timeout \<Rightarrow> write_pending s \<and> tsw_state s = CS_CONNECTING
      | Op_Readable _ \<Rightarrow> read_registered s
      | _ \<Rightarrow> True)"

definition conn_apply :: "tcp_env \<Rightarrow> conn_op \<Rightarrow> tcp_socket \<Rightarrow> tcp_socket result option" where
  "conn_apply env op s =
     (case op of
        Op_Connect fd conn \<Rightarrow> Some (ConnectServerInNetworkLoop env fd conn s)
      | Op_Accepted nb fd \<Rightarrow> Some (BeginProcessInNetworkLoop env nb fd s)
      | Op_Writable so_error \<Rightarrow> fire_write env so_error EV_WRITE s
      | Op_Connect_Timeout \<Rightarrow> fire_write env 0 EV_TIMEOUT s
      | Op_Readable answer \<Rightarrow> Some (fire_read env answer s)
      | Op_Flush \<Rightarrow> TryWriteBufferToSocket env s
      | Op_Close \<Rightarrow> Some (Inr (CloseConnectionInNetworkLoop env s))
      | Op_Destroy_Helper \<Rightarrow> Some (Inr (OnDestroySocket s)))"

section \<open>The invariant\<close>

text \<open>
  Reading is registered only while connected; a connecting socket's write event is the one that
  completes the connect, a connected socket's the one that writes.
\<close>

definition conn_events :: "conn_state \<Rightarrow> tcp_event \<Rightarrow> tcp_event \<Rightarrow> bool" where
  "conn_events st e f \<longleftrightarrow>
     (ev_added e \<longrightarrow> st = CS_CONNECTED) \<and>
     (ev_added e \<longrightarrow> ev_base e) \<and> (ev_added f \<longrightarrow> ev_base f) \<and> (ev_base f \<longrightarrow> ev_base e) \<and>
     (ev_base e \<longrightarrow> (\<exists>a. ev_callback e = Some (On_Read_Event, a))) \<and>
     (ev_base f \<longrightarrow> (\<exists>a. ev_callback f = Some (On_Connection, a) \<or>
        ev_callback f = Some (On_Write_Event, a))) \<and>
     (st = CS_CONNECTING \<longrightarrow> ev_base e \<and> ev_base f \<and>
        (\<exists>a. ev_callback f = Some (On_Connection, a))) \<and>
     (st = CS_CONNECTED \<longrightarrow> ev_base e \<and> ev_base f \<and>
        (\<exists>a. ev_callback f = Some (On_Write_Event, a)))"

definition conn_inv :: "tcp_socket \<Rightarrow> bool" where
  "conn_inv s \<longleftrightarrow>
     (\<exists>e f. tsw_socket_read_event s = Some e \<and> tsw_socket_write_event s = Some f \<and>
        conn_events (tsw_state s) e f) \<and>
     ring_inv (tsw_sender_buffer s) \<and> ring_inv (tsw_receiver_buffer s)"

text \<open>What the two events are set to call; whether they are registered is left open.\<close>

definition wiring :: "tcp_socket \<Rightarrow> (bool \<times> (tcp_callback \<times> bool) option) option \<times>
    (bool \<times> (tcp_callback \<times> bool) option) option" where
  "wiring s = (map_option (\<lambda>e. (ev_base e, ev_callback e)) (tsw_socket_read_event s),
     map_option (\<lambda>e. (ev_base e, ev_callback e)) (tsw_socket_write_event s))"

text \<open>Callbacks return, and keep the invariant, the state and the wiring.\<close>

definition tame :: "tcp_env \<Rightarrow> bool" where
  "tame env \<longleftrightarrow> (\<forall>sig s. conn_inv s \<longrightarrow>
     (\<exists>s'. env_signal env sig s = Inr s' \<and> conn_inv s' \<and> tsw_state s' = tsw_state s \<and>
        wiring s' = wiring s))"

lemma conn_inv_new:
  "conn_inv (TcpSocketWrapper_new g1 g2)"
proof -
  have "ring_inv (RingBuffer_new g MaxBufferSize)" for g
    using ring_new_inv [of 24 g] by (simp add: MaxBufferSize_def)
  then show ?thesis
    by (simp add: conn_inv_def TcpSocketWrapper_new_def conn_events_def event_zero_def)
qed

lemma conn_inv_history:
  "conn_inv (s\<lparr>tsw_posts := ps\<rparr>) = conn_inv s"
  "conn_inv (s\<lparr>tsw_signals := sg\<rparr>) = conn_inv s"
  "conn_inv (s\<lparr>tsw_sends := n\<rparr>) = conn_inv s"
  "conn_inv (s\<lparr>tsw_wire := w\<rparr>) = conn_inv s"
  "conn_inv (s\<lparr>tsw_share_this_helper := h\<rparr>) = conn_inv s"
  "conn_inv (s\<lparr>tsw_socketfd := fd\<rparr>) = conn_inv s"
  "conn_inv (post p s) = conn_inv s"
  by (simp_all add: conn_inv_def post_def)

lemma emit_tame:
  assumes "tame env" "conn_inv s"
  shows "\<exists>s'. emit env sig s = Inr s' \<and> conn_inv s' \<and> tsw_state s' = tsw_state s \<and>
    wiring s' = wiring s"
  using assms(1) [unfolded tame_def, rule_format, of "s\<lparr>tsw_signals := tsw_signals s @ [sig]\<rparr>" sig]
    assms(2)
  by (simp add: emit_def conn_inv_history wiring_def)

lemma event_del_simps [simp]:
  "ev_base (tcp_event_del e) = ev_base e"
  "ev_callback (tcp_event_del e) = ev_callback e"
  "ev_added (tcp_event_del e) \<longleftrightarrow> ev_added e \<and> \<not> ev_base e"
  "ev_base (tcp_event_add tm e) = ev_base e"
  "ev_callback (tcp_event_add tm e) = ev_callback e"
  "ev_added (tcp_event_add tm e) \<longleftrightarrow> ev_added e \<or> ev_base e"
  "ev_base (tcp_event_set fd evs cb a e)"
  "ev_callback (tcp_event_set fd evs cb a e) = Some (cb, a)"
  "ev_added (tcp_event_set fd evs cb a e) = ev_added e"
  by (auto simp: tcp_event_del_def tcp_event_add_def tcp_event_set_def event_del_def event_add_def
    event_set_def tcp_event_rc_def)

lemma event_fired_simps [simp]:
  "ev_base (event_fired e) = ev_base e"
  "ev_callback (event_fired e) = ev_callback e"
  "ev_added (event_fired e) \<Longrightarrow> ev_added e"
  by (auto simp: event_fired_def split: if_splits)

section \<open>Each operation keeps it\<close>

lemma conn_invE:
  assumes "conn_inv s"
  obtains e f where "tsw_socket_read_event s = Some e" "tsw_socket_write_event s = Some f"
    "conn_events (tsw_state s) e f" "ring_inv (tsw_sender_buffer s)"
    "ring_inv (tsw_receiver_buffer s)"
  using assms by (auto simp: conn_inv_def)

lemma OnErrorEvent_conn:
  assumes ev: "tsw_socket_read_event s = Some e" "tsw_socket_write_event s = Some f"
      "conn_events CS_CLOSED (tcp_event_del e) (tcp_event_del f)"
      "ring_inv (tsw_sender_buffer s)" "ring_inv (tsw_receiver_buffer s)"
    and "tame env"
  shows "\<exists>s'. OnErrorEvent env s = Inr s' \<and> conn_inv s' \<and> tsw_state s' = CS_CLOSED \<and>
    wiring s' = wiring s"
proof -
  let ?s = "s\<lparr>tsw_socket_read_event := Some (tcp_event_del e),
    tsw_socket_write_event := Some (tcp_event_del f), tsw_state := CS_CLOSED\<rparr>"
  have inv: "conn_inv ?s" using ev by (simp add: conn_inv_def)
  have w: "wiring ?s = wiring s" using ev by (simp add: wiring_def)
  obtain s1 where s1: "emit env Signal_On_Close ?s = Inr s1" "conn_inv s1" "tsw_state s1 = CS_CLOSED"
    "wiring s1 = wiring s"
    using emit_tame [OF assms(6) inv, of Signal_On_Close] w by auto
  have "OnErrorEvent env s = (if tsw_SignalOnCloseEvent s then
      if env_in_worker env then Inr s1 else Inr (post Work_Close_Signal ?s) else Inr ?s)"
    using ev s1(1) by (simp add: OnErrorEvent_def on_read_event_def on_write_event_def)
  moreover have "tsw_state (post p ?s) = CS_CLOSED" "wiring (post p ?s) = wiring s" for p
    using w by (simp_all add: post_def wiring_def)
  ultimately show ?thesis using s1 inv w by (auto simp: conn_inv_history)
qed

lemma OnErrorEvent_conn_inv:
  assumes "conn_inv s" "tame env"
  shows "\<exists>s'. OnErrorEvent env s = Inr s' \<and> conn_inv s' \<and> tsw_state s' = CS_CLOSED"
proof -
  from assms(1) obtain e f where ev: "tsw_socket_read_event s = Some e" "tsw_socket_write_event s = Some f"
    "conn_events (tsw_state s) e f" "ring_inv (tsw_sender_buffer s)"
    "ring_inv (tsw_receiver_buffer s)" by (rule conn_invE)
  have "conn_events CS_CLOSED (tcp_event_del e) (tcp_event_del f)"
    using ev(3) by (auto simp: conn_events_def)
  from OnErrorEvent_conn [OF ev(1,2) this ev(4,5) assms(2)] show ?thesis by blast
qed

lemma CloseConnection_conn:
  assumes "conn_inv s"
  shows "conn_inv (CloseConnectionInNetworkLoop env s) \<and>
    tsw_state (CloseConnectionInNetworkLoop env s) = CS_CLOSED \<and>
    \<not> read_registered (CloseConnectionInNetworkLoop env s) \<and>
    \<not> write_pending (CloseConnectionInNetworkLoop env s)"
proof -
  from assms obtain e f where ev: "tsw_socket_read_event s = Some e" "tsw_socket_write_event s = Some f"
    "conn_events (tsw_state s) e f" "ring_inv (tsw_sender_buffer s)"
    "ring_inv (tsw_receiver_buffer s)" by (rule conn_invE)
  have off: "\<not> ev_added (tcp_event_del e)" "\<not> ev_added (tcp_event_del f)"
    using ev(3) by (auto simp: conn_events_def)
  have "conn_events CS_CLOSED (tcp_event_del e) (tcp_event_del f)"
    using ev(3) by (auto simp: conn_events_def)
  with ev off show ?thesis
    by (cases "env_in_worker env")
      (simp_all add: CloseConnectionInNetworkLoop_def conn_inv_def OnDestroySocket_def post_def
        read_registered_def write_pending_def Let_def)
qed

lemma idle_events:
  assumes "conn_inv s" "\<not> read_registered s" "\<not> write_pending s"
  obtains e f where "tsw_socket_read_event s = Some e" "tsw_socket_write_event s = Some f"
    "\<not> ev_added e" "\<not> ev_added f" "ring_inv (tsw_sender_buffer s)"
    "ring_inv (tsw_receiver_buffer s)"
proof -
  from assms(1) obtain e f where "tsw_socket_read_event s = Some e" "tsw_socket_write_event s = Some f"
    "ring_inv (tsw_sender_buffer s)" "ring_inv (tsw_receiver_buffer s)" by (rule conn_invE)
  moreover from this have "\<not> ev_added e" "\<not> ev_added f"
    using assms(2,3) by (simp_all add: read_registered_def write_pending_def)
  ultimately show ?thesis by (metis that)
qed

lemma BeginProcess_conn:
  assumes "conn_inv s" "tame env" "\<not> read_registered s" "\<not> write_pending s"
  shows "\<exists>s'. BeginProcessInNetworkLoop env nb fd s = Inr s' \<and> conn_inv s' \<and>
    tsw_state s' = (if nb = - 1 then CS_CLOSED else CS_CONNECTED) \<and>
    (nb \<noteq> - 1 \<longrightarrow> read_registered s')"
proof (cases "nb = - 1")
  case True
  have "conn_inv (s\<lparr>tsw_socketfd := fd\<rparr>)" using assms(1) by (simp add: conn_inv_history)
  with OnErrorEvent_conn_inv [OF _ assms(2)] True show ?thesis
    by (simp add: BeginProcessInNetworkLoop_def)
next
  case False
  obtain e f where ev: "tsw_socket_read_event s = Some e" "tsw_socket_write_event s = Some f"
    "\<not> ev_added e" "\<not> ev_added f" "ring_inv (tsw_sender_buffer s)" "ring_inv (tsw_receiver_buffer s)"
    using idle_events [OF assms(1,3,4)] .
  let ?e = "tcp_event_add None (tcp_event_set fd (EV_READ OR EV_PERSIST) On_Read_Event True e)"
  let ?f = "tcp_event_set fd EV_WRITE On_Write_Event True f"
  let ?s = "s\<lparr>tsw_socketfd := fd, tsw_state := CS_CONNECTED, tsw_share_this_helper := True,
    tsw_socket_read_event := Some ?e, tsw_socket_write_event := Some ?f\<rparr>"
  have "conn_events CS_CONNECTED ?e ?f" using ev(4) by (auto simp: conn_events_def)
  then have "conn_inv ?s" using ev(5,6) by (simp add: conn_inv_def)
  moreover have "BeginProcessInNetworkLoop env nb fd s = Inr ?s"
    using False ev(1,2)
    by (simp add: BeginProcessInNetworkLoop_def on_read_event_def on_write_event_def)
  ultimately show ?thesis using False by (simp add: read_registered_def)
qed

lemma Connect_conn:
  assumes "conn_inv s" "tame env" "\<not> read_registered s" "\<not> write_pending s"
  shows "\<exists>s'. ConnectServerInNetworkLoop env fd conn s = Inr s' \<and> conn_inv s' \<and>
    tsw_state s' = (if fd = - 1 then CS_CLOSED else CS_CONNECTING) \<and>
    (fd \<noteq> - 1 \<longrightarrow> write_pending s')"
proof (cases "fd = - 1")
  case True
  have "conn_inv (s\<lparr>tsw_socketfd := fd\<rparr>)" using assms(1) by (simp add: conn_inv_history)
  with OnErrorEvent_conn_inv [OF _ assms(2)] True show ?thesis
    by (simp add: ConnectServerInNetworkLoop_def)
next
  case False
  obtain e f where ev: "tsw_socket_read_event s = Some e" "tsw_socket_write_event s = Some f"
    "\<not> ev_added e" "\<not> ev_added f" "ring_inv (tsw_sender_buffer s)" "ring_inv (tsw_receiver_buffer s)"
    using idle_events [OF assms(1,3,4)] .
  let ?e = "tcp_event_set fd (EV_READ OR EV_PERSIST) On_Read_Event (tsw_share_this_helper s) e"
  let ?f = "tcp_event_set fd (EV_WRITE OR EV_TIMEOUT) On_Connection (tsw_share_this_helper s) f"
  let ?s = "s\<lparr>tsw_socketfd := fd, tsw_socket_write_event := Some ?f, tsw_socket_read_event := Some ?e\<rparr>"
  let ?bad = "fst conn \<noteq> 0 \<and> snd conn \<noteq> EINPROGRESS \<and> snd conn \<noteq> EINTR"
  have start: "ConnectServerInNetworkLoop env fd conn s =
      rbind (if ?bad then OnErrorEvent env ?s else Inr ?s) (\<lambda>s.
      on_write_event (tcp_event_add (Some (5, 0))) (s\<lparr>tsw_state := CS_CONNECTING\<rparr>))"
    using False ev(1,2)
    by (simp add: ConnectServerInNetworkLoop_def on_read_event_def on_write_event_def)
  have "conn_events CS_CLOSED (tcp_event_del ?e) (tcp_event_del ?f)"
    by (simp add: conn_events_def)
  from OnErrorEvent_conn [OF _ _ this _ _ assms(2), of ?s] ev(5,6) obtain s1 where
    s1: "OnErrorEvent env ?s = Inr s1" "conn_inv s1" "tsw_state s1 = CS_CLOSED" "wiring s1 = wiring ?s"
    by auto
  have "\<exists>t e' f'. (if ?bad then OnErrorEvent env ?s else Inr ?s) = Inr t \<and>
      tsw_socket_read_event t = Some e' \<and> tsw_socket_write_event t = Some f' \<and>
      \<not> ev_added e' \<and> ev_base e' \<and> ev_base f' \<and>
      ev_callback e' = ev_callback ?e \<and> ev_callback f' = ev_callback ?f \<and>
      ring_inv (tsw_sender_buffer t) \<and> ring_inv (tsw_receiver_buffer t)"
  proof (cases ?bad)
    case True
    from s1(2) obtain e' f' where e': "tsw_socket_read_event s1 = Some e'"
      "tsw_socket_write_event s1 = Some f'" "conn_events (tsw_state s1) e' f'"
      "ring_inv (tsw_sender_buffer s1)" "ring_inv (tsw_receiver_buffer s1)" by (rule conn_invE)
    then show ?thesis using True s1 by (auto simp: wiring_def conn_events_def)
  next
    case False
    show ?thesis unfolding if_not_P [OF False] using ev by simp
  qed
  then obtain t e' f' where t: "(if ?bad then OnErrorEvent env ?s else Inr ?s) = Inr t"
    "tsw_socket_read_event t = Some e'" "tsw_socket_write_event t = Some f'"
    "\<not> ev_added e'" "ev_base e'" "ev_base f'" "ev_callback e' = ev_callback ?e"
    "ev_callback f' = ev_callback ?f" "ring_inv (tsw_sender_buffer t)"
    "ring_inv (tsw_receiver_buffer t)" by blast
  let ?t = "t\<lparr>tsw_state := CS_CONNECTING,
    tsw_socket_write_event := Some (tcp_event_add (Some (5, 0)) f')\<rparr>"
  have "ConnectServerInNetworkLoop env fd conn s = Inr ?t"
    unfolding start t(1) using t(3) by (simp add: on_write_event_def)
  moreover have "conn_inv ?t"
    using t by (simp add: conn_inv_def conn_events_def)
  ultimately show ?thesis using False t(6) by (simp add: write_pending_def)
qed

lemma try_write_conn:
  assumes "conn_inv s" "unat n = ring_series_read (tsw_sender_buffer s)" "kernel_ok env" "tame env"
  shows "\<exists>s'. try_write_loop env n s = Some (Inr s') \<and> conn_inv s' \<and>
    (tsw_state s' = tsw_state s \<or> tsw_state s' = CS_CLOSED)"
  using assms(1,2)
proof (induction "length (unsent s)" arbitrary: s n rule: less_induct)
  case less
  let ?s = "s\<lparr>tsw_sends := Suc (tsw_sends s)\<rparr>"
  from less.prems(1) obtain e f where ev: "tsw_socket_read_event s = Some e"
    "tsw_socket_write_event s = Some f" "conn_events (tsw_state s) e f"
    "ring_inv (tsw_sender_buffer s)" "ring_inv (tsw_receiver_buffer s)" by (rule conn_invE)
  have inv: "conn_inv ?s" using less.prems(1) by (simp add: conn_inv_history)
  show ?case
  proof (cases "n > 0")
    case False
    with less.prems(1) show ?thesis by (subst try_write_loop.simps) simp
  next
    case pos: True
    obtain k en where k: "env_send env (tsw_sends s) (take (unat n) (unsent s)) = (k, en)"
      by (cases "env_send env (tsw_sends s) (take (unat n) (unsent s))") auto
    note step = try_write_step [OF ev(4) less.prems(2) pos assms(3) k]
    show ?thesis
    proof (cases "k < 0")
      case True
      let ?t = "?s\<lparr>tsw_socket_write_event := Some (tcp_event_add None f)\<rparr>"
      have "on_write_event (tcp_event_add None) ?s = Inr ?t"
        using ev by (simp add: on_write_event_def)
      moreover have "conn_inv ?t" using ev by (auto simp: conn_inv_def conn_events_def)
      ultimately show ?thesis
        using step(1) [OF True] OnErrorEvent_conn_inv [OF inv assms(4)] by auto
    next
      case False
      from step(2) [OF False] obtain r n' where r: "ring_inv r"
        "ring_contents r = drop (nat k) (unsent s)" "unat n' = ring_series_read r" "1 \<le> nat k"
        "nat k \<le> length (unsent s)"
        "try_write_loop env n s = try_write_loop env n'
          (?s\<lparr>tsw_sender_buffer := r, tsw_wire := tsw_wire s @ take (nat k) (unsent s)\<rparr>)"
        by auto
      let ?t = "?s\<lparr>tsw_sender_buffer := r, tsw_wire := tsw_wire s @ take (nat k) (unsent s)\<rparr>"
      have "length (unsent ?t) < length (unsent s)" "conn_inv ?t"
        using r ev by (auto simp: conn_inv_def simp del: length_ring_contents)
      from less.hyps [OF this] r(3) show ?thesis using r(6) by auto
    qed
  qed
qed

lemma TryWrite_conn:
  assumes "conn_inv s" "kernel_ok env" "tame env"
  shows "\<exists>s'. TryWriteBufferToSocket env s = Some (Inr s') \<and> conn_inv s' \<and>
    (tsw_state s' = tsw_state s \<or> tsw_state s' = CS_CLOSED)"
proof -
  have "ring_inv (tsw_sender_buffer s)" using assms(1) by (rule conn_invE)
  from ring_AvailableSeriesRead_ok [OF this] obtain n where
    "ring_AvailableSeriesRead (tsw_sender_buffer s) = Inr n"
    "unat n = ring_series_read (tsw_sender_buffer s)" by blast
  with try_write_conn [OF assms(1) _ assms(2,3)] show ?thesis
    by (simp add: TryWriteBufferToSocket_def)
qed

lemma TryRead_conn:
  assumes "conn_inv s" "tame env"
  shows "\<exists>s'. TryReadDataFromSocket env answer s = Inr s' \<and> conn_inv s' \<and>
    (tsw_state s' = tsw_state s \<or> tsw_state s' = CS_CLOSED)"
proof -
  from assms(1) obtain e f where ev: "tsw_socket_read_event s = Some e"
    "tsw_socket_write_event s = Some f" "conn_events (tsw_state s) e f"
    "ring_inv (tsw_sender_buffer s)" "ring_inv (tsw_receiver_buffer s)" by (rule conn_invE)
  obtain n where n: "ring_AvailableSeriesWrite (tsw_receiver_buffer s) = Inr n"
    "unat n = ring_series_write (tsw_receiver_buffer s)"
    using ring_AvailableSeriesWrite_ok [OF ev(5)] by blast
  note err = OnErrorEvent_conn_inv [OF assms]
  show ?thesis
  proof (cases answer)
    case (Sys_Error errno)
    then show ?thesis using n(1) err assms(1) by (auto simp: TryReadDataFromSocket_def)
  next
    case (Sys_Data bytes)
    let ?bs = "take (unat n) bytes"
    show ?thesis
    proof (cases "?bs = []")
      case True
      then show ?thesis using n(1) err Sys_Data by (auto simp: TryReadDataFromSocket_def)
    next
      case False
      have le: "length ?bs \<le> ring_series_write (tsw_receiver_buffer s)" using n(2) by simp
      then have l: "unat (of_nat (length ?bs) :: u32) = length ?bs"
        by (intro ring_length_lt32 [OF ev(5)]) (auto simp: ring_series_write_def)
      obtain d r' where d: "mem_write (rb_data (tsw_receiver_buffer s))
          (unat (ring_CurrentSeriesWriteHead (tsw_receiver_buffer s))) ?bs = Inr d"
        "ring_ConsumeSeriesWriteLen ((tsw_receiver_buffer s)\<lparr>rb_data := d\<rparr>) (of_nat (length ?bs)) = Inr r'"
        "ring_inv r'"
        using ring_series_write_ok [OF ev(5) l le] by blast
      let ?s = "post Work_Process_Buffered (s\<lparr>tsw_receiver_buffer := r'\<rparr>)"
      have "TryReadDataFromSocket env answer s = Inr ?s"
        unfolding TryReadDataFromSocket_def Sys_Data n(1)
        using False d(1,2) by (simp del: length_take)
      moreover have "conn_inv ?s" "tsw_state ?s = tsw_state s"
        using ev d(3) by (auto simp: conn_inv_history conn_inv_def post_def)
      ultimately show ?thesis by blast
    qed
  qed
qed

lemma ClientConnected_conn:
  assumes "conn_inv s" "tsw_socket_write_event s = Some f" "ev_base f" "tame env"
  shows "\<exists>s'. ClientConnected env s = Inr s' \<and> conn_inv s' \<and> tsw_state s' = CS_CONNECTED"
proof -
  from assms(1,2) obtain e where ev: "tsw_socket_read_event s = Some e"
    "tsw_socket_write_event s = Some f" "conn_events (tsw_state s) e f"
    "ring_inv (tsw_sender_buffer s)" "ring_inv (tsw_receiver_buffer s)"
    by (auto elim!: conn_invE)
  let ?f = "tcp_event_set (tsw_socketfd s) EV_WRITE On_Write_Event (tsw_share_this_helper s) f"
  let ?s = "s\<lparr>tsw_socket_read_event := Some (tcp_event_add None e),
    tsw_socket_write_event := Some ?f, tsw_state := CS_CONNECTED\<rparr>"
  have "conn_events CS_CONNECTED (tcp_event_add None e) ?f"
    using ev(3) assms(3) by (auto simp: conn_events_def)
  then have inv: "conn_inv ?s" using ev by (simp add: conn_inv_def)
  obtain s1 where s1: "emit env Signal_On_Connected ?s = Inr s1" "conn_inv s1"
    "tsw_state s1 = CS_CONNECTED"
    using emit_tame [OF assms(4) inv, of Signal_On_Connected] by auto
  have "ClientConnected env s = (if tsw_SignalOnConnected s then
      if env_in_worker env then Inr s1 else Inr (post Work_Connected_Signal ?s) else Inr ?s)"
    using ev s1(1) by (simp add: ClientConnected_def on_read_event_def on_write_event_def)
  moreover have "tsw_state (post p ?s) = CS_CONNECTED" for p by (simp add: post_def)
  ultimately show ?thesis using s1 inv by (auto simp: conn_inv_history)
qed

lemma OnConnection_conn:
  assumes "conn_inv s" "tsw_socket_write_event s = Some f" "ev_base f" "tame env"
  shows "\<exists>s'. OnConnection env so_error event arg s = Inr s' \<and> conn_inv s' \<and>
    (arg \<and> event = EV_WRITE \<and> so_error = 0 \<longrightarrow> tsw_state s' = CS_CONNECTED) \<and>
    (arg \<and> (event = EV_WRITE \<and> so_error \<noteq> 0 \<or> event = EV_TIMEOUT) \<longrightarrow> tsw_state s' = CS_CLOSED)"
proof -
  have "EV_WRITE \<noteq> EV_TIMEOUT" by (simp add: EV_WRITE_def EV_TIMEOUT_def)
  then show ?thesis
    using ClientConnected_conn [OF assms] OnErrorEvent_conn_inv [OF assms(1,4)] assms(1)
    by (auto simp: OnConnection_def)
qed

lemma fired_events:
  assumes "conn_events st e f"
  shows "conn_events st (event_fired e) f" "conn_events st e (event_fired f)"
  using assms unfolding conn_events_def event_fired_simps(1,2) by (blast dest: event_fired_simps(3))+

lemma fired_inv:
  assumes "conn_inv s" "tsw_socket_write_event s = Some f"
  shows "conn_inv (s\<lparr>tsw_socket_write_event := Some (event_fired f)\<rparr>)"
  using assms fired_events(2) unfolding conn_inv_def by fastforce

lemma read_fired_inv:
  assumes "conn_inv s" "tsw_socket_read_event s = Some e"
  shows "conn_inv (s\<lparr>tsw_socket_read_event := Some (event_fired e)\<rparr>)"
  using assms fired_events(1) unfolding conn_inv_def by fastforce

lemma fire_write_conn:
  assumes "conn_inv s" "write_pending s" "kernel_ok env" "tame env"
  shows "\<exists>s'. fire_write env so_error event s = Some (Inr s') \<and> conn_inv s'"
proof -
  from assms(1,2) obtain e f where ev: "tsw_socket_write_event s = Some f" "ev_added f"
    "conn_events (tsw_state s) e f"
    by (auto simp: write_pending_def elim!: conn_invE)
  let ?s = "s\<lparr>tsw_socket_write_event := Some (event_fired f)\<rparr>"
  have inv: "conn_inv ?s" using fired_inv [OF assms(1) ev(1)] .
  have base: "ev_base f" using ev by (simp add: conn_events_def)
  then obtain a where "ev_callback f = Some (On_Connection, a) \<or> ev_callback f = Some (On_Write_Event, a)"
    using ev(3) by (auto simp: conn_events_def)
  moreover have "\<exists>s'. OnConnection env so_error event a ?s = Inr s' \<and> conn_inv s'"
    using OnConnection_conn [OF inv, of "event_fired f" env so_error event a] base assms(4) by auto
  moreover have "\<exists>s'. OnWriteEvent env a ?s = Some (Inr s') \<and> conn_inv s'"
    using TryWrite_conn [OF inv assms(3,4)] inv by (auto simp: OnWriteEvent_def)
  ultimately show ?thesis using ev(1) by (auto simp: fire_write_def)
qed

lemma fire_read_conn:
  assumes "conn_inv s" "read_registered s" "tame env"
  shows "\<exists>s'. fire_read env answer s = Inr s' \<and> conn_inv s'"
proof -
  from assms(1,2) obtain e f where ev: "tsw_socket_read_event s = Some e" "ev_added e"
    "conn_events (tsw_state s) e f"
    by (auto simp: read_registered_def elim!: conn_invE)
  let ?s = "s\<lparr>tsw_socket_read_event := Some (event_fired e)\<rparr>"
  have inv: "conn_inv ?s" using read_fired_inv [OF assms(1) ev(1)] .
  obtain a where "ev_callback e = Some (On_Read_Event, a)"
    using ev(2,3) by (auto simp: conn_events_def)
  then show ?thesis
    using ev(1) TryRead_conn [OF inv assms(3), of answer] inv
    by (auto simp: fire_read_def OnReadEvent_def Let_def)
qed

text \<open>No enabled operation faults or hangs, and each keeps the invariant.\<close>

lemma conn_apply_ok:
  assumes "conn_inv s" "conn_enabled op s" "kernel_ok env" "tame env"
  shows "\<exists>s'. conn_apply env op s = Some (Inr s') \<and> conn_inv s'"
proof (cases op)
  case (Op_Connect fd conn)
  with assms Connect_conn [OF assms(1,4), of fd conn] show ?thesis
    by (auto simp: conn_apply_def conn_enabled_def)
next
  case (Op_Accepted nb fd)
  with assms BeginProcess_conn [OF assms(1,4), of nb fd] show ?thesis
    by (auto simp: conn_apply_def conn_enabled_def)
next
  case (Op_Writable so_error)
  with assms fire_write_conn [OF assms(1) _ assms(3,4)] show ?thesis
    by (auto simp: conn_apply_def conn_enabled_def)
next
  case Op_Connect_Timeout
  with assms fire_write_conn [OF assms(1) _ assms(3,4)] show ?thesis
    by (auto simp: conn_apply_def conn_enabled_def)
next
  case (Op_Readable answer)
  with assms fire_read_conn [OF assms(1) _ assms(4), of answer] show ?thesis
    by (auto simp: conn_apply_def conn_enabled_def)
next
  case Op_Flush
  with TryWrite_conn [OF assms(1,3,4)] show ?thesis by (auto simp: conn_apply_def)
next
  case Op_Close
  with CloseConnection_conn [OF assms(1)] show ?thesis by (simp add: conn_apply_def)
next
  case Op_Destroy_Helper
  with assms(1) show ?thesis by (simp add: conn_apply_def OnDestroySocket_def conn_inv_history)
qed

inductive conn_step :: "tcp_env \<Rightarrow> tcp_socket \<Rightarrow> tcp_socket \<Rightarrow> bool" for env where
  "\<lbrakk> conn_enabled op s; conn_apply env op s = Some (Inr t) \<rbrakk> \<Longrightarrow> conn_step env s t"

inductive_cases conn_stepE: "conn_step env s t"

text \<open>The conditions on the surroundings ride along in the invariant.\<close>

definition conn_env_ok :: "tcp_env \<Rightarrow> bool" where
  "conn_env_ok env \<longleftrightarrow> kernel_ok env \<and> tame env"

interpretation conn_runs: invariant_system "conn_step env" "\<lambda>s. conn_env_ok env \<and> conn_inv s" for env
proof unfold_locales
  fix s t
  assume "conn_env_ok env \<and> conn_inv s" "conn_step env s t"
  then show "conn_env_ok env \<and> conn_inv t"
    using conn_apply_ok by (auto simp: conn_env_ok_def elim!: conn_stepE) fastforce
qed

section \<open>Two ways past the invariant's reach\<close>

text \<open>A connect the system refuses at once is reported closed, yet the socket is left connecting
  with its write event registered.\<close>

lemma connect_refused:
  assumes "conn_inv s" "\<not> read_registered s" "\<not> write_pending s" "tame env" "\<not> env_in_worker env"
    "tsw_SignalOnCloseEvent s" "fd \<noteq> - 1" "fst conn \<noteq> 0" "snd conn \<noteq> EINPROGRESS" "snd conn \<noteq> EINTR"
  shows "\<exists>s'. ConnectServerInNetworkLoop env fd conn s = Inr s' \<and>
    tsw_state s' = CS_CONNECTING \<and> write_pending s' \<and>
    tsw_posts s' = tsw_posts s @ [Work_Close_Signal]"
proof -
  obtain e f where ev: "tsw_socket_read_event s = Some e" "tsw_socket_write_event s = Some f"
    "\<not> ev_added e" "\<not> ev_added f"
    using idle_events [OF assms(1-3)] .
  then show ?thesis
    using assms(5-10)
    by (simp add: ConnectServerInNetworkLoop_def OnErrorEvent_def on_read_event_def
      on_write_event_def post_def write_pending_def Let_def)
qed

text \<open>A kernel that takes nothing has the write event registered.\<close>

lemma TryWrite_busy:
  assumes "ring_inv (tsw_sender_buffer s)" "unsent s \<noteq> []" "env_send env (tsw_sends s) = (\<lambda>_. (- 1, EAGAIN))"
  shows "TryWriteBufferToSocket env s =
    Some (on_write_event (tcp_event_add None) (s\<lparr>tsw_sends := Suc (tsw_sends s)\<rparr>))"
proof -
  obtain n where n: "ring_AvailableSeriesRead (tsw_sender_buffer s) = Inr n"
    "unat n = ring_series_read (tsw_sender_buffer s)"
    using ring_AvailableSeriesRead_ok [OF assms(1)] by blast
  have pos: "n > 0" using series_read_none [OF assms(1) n(2)] assms(2) by auto
  have "mem_read (rb_data (tsw_sender_buffer s))
      (unat (ring_CurrentSeriesReadHead (tsw_sender_buffer s))) (unat n) = Inr (take (unat n) (unsent s))"
    using ring_series_read_prefix [OF assms(1), of "unat n"] n(2) by simp
  then show ?thesis
    using n(1) pos assms(3) by (simp add: TryWriteBufferToSocket_def try_write_loop.simps)
qed

text \<open>After a close whose helper is gone, data that is still unsent and a kernel that is busy
  register the write event again, on the freed helper.\<close>

lemma flush_after_close:
  assumes "conn_inv s" "tsw_state s = CS_CONNECTED" "env_in_worker env" "unsent s \<noteq> []"
    "\<And>n bs. env_send env n bs = (- 1, EAGAIN)"
    "tsw_socket_write_event s = Some f" "ev_callback f = Some (On_Write_Event, True)"
  shows "\<exists>t. TryWriteBufferToSocket env (CloseConnectionInNetworkLoop env s) = Some (Inr t) \<and>
    tsw_state t = CS_CLOSED \<and> \<not> tsw_share_this_helper t \<and>
    (\<exists>f'. tsw_socket_write_event t = Some f' \<and> ev_added f' \<and>
      ev_callback f' = Some (On_Write_Event, True))"
proof -
  let ?c = "CloseConnectionInNetworkLoop env s"
  have ring: "ring_inv (tsw_sender_buffer s)" using assms(1) by (rule conn_invE)
  have base: "ev_base f" using assms(1,2,6) by (auto simp: conn_events_def elim!: conn_invE)
  have c: "tsw_sender_buffer ?c = tsw_sender_buffer s" "tsw_state ?c = CS_CLOSED"
    "\<not> tsw_share_this_helper ?c" "tsw_socket_write_event ?c = Some (tcp_event_del f)"
    using assms(3,6) by (simp_all add: CloseConnectionInNetworkLoop_def OnDestroySocket_def Let_def)
  have "TryWriteBufferToSocket env ?c = Some (on_write_event (tcp_event_add None)
      (?c\<lparr>tsw_sends := Suc (tsw_sends ?c)\<rparr>))"
    using TryWrite_busy [of ?c env] ring assms(4,5) c(1) by (simp add: fun_eq_iff)
  then show ?thesis using c base assms(7) by (simp add: on_write_event_def)
qed

text \<open>A receiver ring without series room makes \<^verbatim>\<open>read\<close> return nothing, which counts as the end.\<close>

lemma read_without_room:
  assumes "conn_inv s" "tame env" "ring_free (tsw_receiver_buffer s) = 0"
  shows "\<exists>s'. TryReadDataFromSocket env (Sys_Data bytes) s = Inr s' \<and> tsw_state s' = CS_CLOSED"
proof -
  have ring: "ring_inv (tsw_receiver_buffer s)" using assms(1) by (rule conn_invE)
  obtain n where n: "ring_AvailableSeriesWrite (tsw_receiver_buffer s) = Inr n"
    "unat n = ring_series_write (tsw_receiver_buffer s)"
    using ring_AvailableSeriesWrite_ok [OF ring] by blast
  have "unat n = 0" using n(2) assms(3) by (simp add: ring_series_write_def)
  then show ?thesis
    using n(1) OnErrorEvent_conn_inv [OF assms(1,2)] by (auto simp: TryReadDataFromSocket_def)
qed

section \<open>Listening and accepting\<close>

lemma BeginListen_cases:
  assumes "tsw_socket_read_event s = Some e"
  shows "BeginListen fd nb so bd li port s =
    (if fd = - 1 \<or> nb = - 1 \<or> so = - 1 \<or> bd = - 1 \<or> li = - 1
     then Inr (False, s\<lparr>tsw_socketfd := fd\<rparr>)
     else Inr (True, s\<lparr>tsw_socketfd := fd, tsw_listen := True, tsw_listen_port := port,
       tsw_share_this_helper := True, tsw_socket_write_event := None,
       tsw_socket_read_event := Some (tcp_event_add None
         (tcp_event_set fd (EV_READ OR EV_PERSIST) On_New_Connection True e))\<rparr>))"
  using assms by (simp add: BeginListen_def on_read_event_def Let_def)

lemma AcceptConnection_ok:
  assumes "tame env" "env_in_network env" "acc \<noteq> - 1" "nb \<noteq> - 1"
  shows "\<exists>c. AcceptConnection env acc nb addr g1 g2 = Inr (Some c) \<and> conn_inv c \<and>
    tsw_state c = CS_CONNECTED \<and> read_registered c \<and> tsw_remote_addr c = addr \<and> tsw_socketfd c = acc"
proof -
  let ?c = "(TcpSocketWrapper_new g1 g2)\<lparr>tsw_remote_addr := addr\<rparr>"
  have inv: "conn_inv ?c" using conn_inv_new [of g1 g2] by (simp add: conn_inv_def)
  have off: "\<not> read_registered ?c" "\<not> write_pending ?c"
    by (simp_all add: read_registered_def write_pending_def TcpSocketWrapper_new_def event_zero_def)
  from BeginProcess_conn [OF inv assms(1) off, of nb acc] assms(4) obtain c where
    c: "BeginProcessInNetworkLoop env nb acc ?c = Inr c" "conn_inv c" "tsw_state c = CS_CONNECTED"
    "read_registered c" by auto
  have "tsw_remote_addr c = addr \<and> tsw_socketfd c = acc"
    using c(1) assms(4)
    by (auto simp: BeginProcessInNetworkLoop_def rbind_eq_Inr on_read_event_def on_write_event_def
      Let_def split: option.splits)
  with c assms(2,3) show ?thesis by (simp add: AcceptConnection_def BeginProcess_def Let_def)
qed

text \<open>The destructor drops both events and closes the descriptor it has.\<close>

lemma destroy_ok:
  "tsw_socket_read_event (TcpSocketWrapper_destroy s) = None \<and>
   tsw_socket_write_event (TcpSocketWrapper_destroy s) = None \<and>
   tsw_closed (TcpSocketWrapper_destroy s) =
     tsw_closed s @ (if tsw_socketfd s > 0 then [tsw_socketfd s] else [])"
  by (simp add: TcpSocketWrapper_destroy_def Let_def)

end
