(* ===== verification/Tcp_Callbacks.thy ===== *)
theory Tcp_Callbacks
  imports Tcp_States
begin

text \<open>
  A connection whose user's callbacks do what the tasks of this library do in theirs: they send and
  they ask for a close, from the worker loop, so through the network loop's queue. What the worker
  loop does to the socket is bounded here, whatever the callbacks, and so is what a call of
  \<^verbatim>\<open>SendData\<close> does.
\<close>

section \<open>Callbacks that send and close\<close>

text \<open>
  \<open>queued ps s t\<close>: the sending ring has at most grown, and the posts made are \<open>ps\<close>; whoever adds
  output posts a write as well.
\<close>

definition queued :: "tcp_post list \<Rightarrow> tcp_socket \<Rightarrow> tcp_socket \<Rightarrow> bool" where
  "queued ps s t \<longleftrightarrow> ring_inv (tsw_sender_buffer t) \<and> tsw_posts t = tsw_posts s @ ps \<and>
     set ps \<subseteq> {Net_Try_Write, Net_Close_Connection} \<and>
     (\<exists>d. unsent t = unsent s @ d \<and> (d \<noteq> [] \<longrightarrow> Net_Try_Write \<in> set ps))"

definition by_callback :: "tcp_socket \<Rightarrow> tcp_socket \<Rightarrow> bool" where
  "by_callback s t \<longleftrightarrow> (\<exists>ps. queued ps s t) \<and>
     (\<exists>r ps a b c d. t = s\<lparr>tsw_sender_buffer := r, tsw_posts := ps, tsw_SignalReadPacket := a,
        tsw_SignalNewConnection := b, tsw_SignalOnCloseEvent := c, tsw_SignalOnConnected := d\<rparr>)"

definition posting :: "tcp_env \<Rightarrow> bool" where
  "posting env \<longleftrightarrow> (\<forall>sig s. ring_inv (tsw_sender_buffer s) \<longrightarrow>
     (\<exists>t. env_signal env sig s = Inr t \<and> by_callback s t))"

lemma queued_refl: "ring_inv (tsw_sender_buffer s) \<Longrightarrow> queued [] s s"
  by (simp add: queued_def)

lemma by_callback_refl:
  assumes "ring_inv (tsw_sender_buffer s)"
  shows "by_callback s s"
  unfolding by_callback_def
proof (intro conjI exI)
  show "queued [] s s" using assms by (rule queued_refl)
  show "s = s\<lparr>tsw_sender_buffer := tsw_sender_buffer s, tsw_posts := tsw_posts s,
      tsw_SignalReadPacket := tsw_SignalReadPacket s,
      tsw_SignalNewConnection := tsw_SignalNewConnection s,
      tsw_SignalOnCloseEvent := tsw_SignalOnCloseEvent s, tsw_SignalOnConnected := tsw_SignalOnConnected s\<rparr>"
    by simp
qed

lemma queued_trans: "queued ps s t \<Longrightarrow> queued qs t u \<Longrightarrow> queued (ps @ qs) s u"
  by (auto simp: queued_def)

lemma posting_tame:
  assumes "posting env"
  shows "tame env"
  using assms
  by (fastforce simp: posting_def tame_def by_callback_def queued_def conn_inv_def wiring_def)

section \<open>What the worker loop does to a socket\<close>

text \<open>
  \<open>worked le s t\<close>: the events are as they were, or both off because a length was illegal; no
  byte is received meanwhile; the rest is what the callbacks did.
\<close>

definition both_off :: "tcp_socket \<Rightarrow> tcp_socket \<Rightarrow> bool" where
  "both_off s t \<longleftrightarrow>
     tsw_socket_read_event t = map_option tcp_event_del (tsw_socket_read_event s) \<and>
     tsw_socket_write_event t = map_option tcp_event_del (tsw_socket_write_event s)"

definition same_events :: "tcp_socket \<Rightarrow> tcp_socket \<Rightarrow> bool" where
  "same_events s t \<longleftrightarrow> tsw_socket_read_event t = tsw_socket_read_event s \<and>
     tsw_socket_write_event t = tsw_socket_write_event s"

definition worked :: "tcp_socket \<Rightarrow> tcp_socket \<Rightarrow> bool" where
  "worked s t \<longleftrightarrow> (\<exists>ps. queued ps s t) \<and> ring_inv (tsw_receiver_buffer t) \<and>
     tsw_wire t = tsw_wire s \<and> tsw_state t = tsw_state s \<and> tsw_share_this_helper t = tsw_share_this_helper s \<and>
     rb_capacity (tsw_receiver_buffer t) = rb_capacity (tsw_receiver_buffer s)"

lemma worked_trans: "worked s t \<Longrightarrow> worked t u \<Longrightarrow> worked s u"
  by (auto simp: worked_def intro: queued_trans)

lemma worked_refl: "ring_inv (tsw_sender_buffer s) \<Longrightarrow> ring_inv (tsw_receiver_buffer s) \<Longrightarrow> worked s s"
  by (auto simp: worked_def intro: queued_refl)

text \<open>
  \<open>listening\<close>: the callbacks may clear the packet function and do not set it again. \<open>silent\<close>: they send
  nothing and close nothing. \<open>told env ps s t\<close>: between the two states the packet function is called
  with the packets \<open>ps\<close>, or with the first of them up to where it was cleared, and silent callbacks
  leave no trace.
\<close>

definition listening :: "tcp_env \<Rightarrow> bool" where
  "listening env \<longleftrightarrow> (\<forall>sig s t. ring_inv (tsw_sender_buffer s) \<longrightarrow>
     env_signal env sig s = Inr t \<longrightarrow> tsw_SignalReadPacket t \<longrightarrow> tsw_SignalReadPacket s)"

definition silent :: "tcp_env \<Rightarrow> bool" where
  "silent env \<longleftrightarrow> (\<forall>sig s t. ring_inv (tsw_sender_buffer s) \<longrightarrow> env_signal env sig s = Inr t \<longrightarrow>
     tsw_posts t = tsw_posts s \<and> tsw_sender_buffer t = tsw_sender_buffer s)"

definition hears :: "byte list list \<Rightarrow> tcp_socket \<Rightarrow> tcp_socket \<Rightarrow> bool" where
  "hears ps s t \<longleftrightarrow> (\<exists>qs. packets_of (tsw_signals t) = packets_of (tsw_signals s) @ qs \<and> prefix qs ps \<and>
     (if tsw_SignalReadPacket t then tsw_SignalReadPacket s \<and> qs = ps
      else tsw_SignalReadPacket s \<or> qs = []))"

definition told :: "tcp_env \<Rightarrow> byte list list \<Rightarrow> tcp_socket \<Rightarrow> tcp_socket \<Rightarrow> bool" where
  "told env ps s t \<longleftrightarrow> (listening env \<longrightarrow> hears ps s t) \<and>
     (silent env \<longrightarrow> tsw_posts t = tsw_posts s \<and> tsw_sender_buffer t = tsw_sender_buffer s)"

lemma hears_refl: "hears [] s s"
  by (simp add: hears_def)

lemma hears_trans:
  assumes "hears ps s t" "hears qs t u"
  shows "hears (ps @ qs) s u"
proof -
  from assms obtain xs ys where xs: "packets_of (tsw_signals t) = packets_of (tsw_signals s) @ xs" "prefix xs ps"
      "if tsw_SignalReadPacket t then tsw_SignalReadPacket s \<and> xs = ps
       else tsw_SignalReadPacket s \<or> xs = []"
    and ys: "packets_of (tsw_signals u) = packets_of (tsw_signals t) @ ys" "prefix ys qs"
      "if tsw_SignalReadPacket u then tsw_SignalReadPacket t \<and> ys = qs
       else tsw_SignalReadPacket t \<or> ys = []"
    unfolding hears_def by blast
  have "prefix (xs @ ys) (ps @ qs)"
    using xs(2,3) ys(2,3) by (auto split: if_splits)
  with xs ys show ?thesis
    unfolding hears_def by (intro exI [of _ "xs @ ys"]) (auto split: if_splits)
qed

lemma told_refl: "told env [] s s"
  by (simp add: told_def hears_refl)

lemma told_trans: "told env ps s t \<Longrightarrow> told env qs t u \<Longrightarrow> told env (ps @ qs) s u"
  by (auto simp: told_def intro: hears_trans)

lemma emit_posting:
  assumes "posting env" "ring_inv (tsw_sender_buffer s)" "ring_inv (tsw_receiver_buffer s)"
  shows "\<exists>t. emit env sig s = Inr t \<and> worked s t \<and> same_events s t \<and>
    (tsw_SignalReadPacket s \<or> packets_of [sig] = [] \<longrightarrow> told env (packets_of [sig]) s t) \<and>
    tsw_receiver_buffer t = tsw_receiver_buffer s"
proof -
  let ?s = "s\<lparr>tsw_signals := tsw_signals s @ [sig]\<rparr>"
  obtain t where t: "env_signal env sig ?s = Inr t" "by_callback ?s t"
    using assms(1) [unfolded posting_def, rule_format, of ?s sig] assms(2) by auto
  from t(1) have clears: "listening env \<Longrightarrow> tsw_SignalReadPacket t \<longrightarrow> tsw_SignalReadPacket s"
    using listening_def [THEN iffD1, rule_format, of env ?s sig t] assms(2) by simp
  from t(1) have quiet: "silent env \<Longrightarrow> tsw_posts t = tsw_posts s \<and> tsw_sender_buffer t = tsw_sender_buffer s"
    using silent_def [THEN iffD1, rule_format, of env ?s sig t] assms(2) by simp
  have "tsw_signals t = tsw_signals s @ [sig]" using t(2) by (auto simp: by_callback_def)
  with clears have "listening env \<Longrightarrow> tsw_SignalReadPacket s \<or> packets_of [sig] = [] \<Longrightarrow> hears (packets_of [sig]) s t"
    unfolding hears_def by (intro exI [of _ "packets_of [sig]"]) auto
  with quiet have "tsw_SignalReadPacket s \<or> packets_of [sig] = [] \<longrightarrow> told env (packets_of [sig]) s t"
    by (simp add: told_def)
  with t assms(3) show ?thesis
    by (auto simp: emit_def by_callback_def worked_def same_events_def queued_def)
qed

lemma emit_packet_posting:
  assumes "posting env" "ring_inv (tsw_sender_buffer s)" "ring_inv (tsw_receiver_buffer s)"
  shows "\<exists>t. emit_packet env bs s = Inr t \<and> worked s t \<and> same_events s t \<and> told env [bs] s t \<and>
    tsw_receiver_buffer t = tsw_receiver_buffer s"
proof (cases "tsw_SignalReadPacket s")
  case True
  from emit_posting [OF assms, of "Signal_Read_Packet bs"] obtain t where
    t: "emit env (Signal_Read_Packet bs) s = Inr t" "worked s t" "same_events s t" "told env [bs] s t"
    "tsw_receiver_buffer t = tsw_receiver_buffer s" using True by auto
  then have "emit_packet env bs s = Inr t" using True by (simp add: emit_packet_def)
  with t show ?thesis by blast
next
  case False
  with worked_refl [OF assms(2,3)] show ?thesis by (simp add: emit_packet_def same_events_def told_def hears_def)
qed

text \<open>One round: it stops, or closes, or hands a packet over and goes on.\<close>

lemma round_posting:
  assumes "posting env" "conn_inv s" "length (received s) < unat (rb_capacity (tsw_receiver_buffer s))"
  shows "(\<exists>t. process_round env s = Inr (False, t) \<and> worked s t \<and> told env [] s t \<and> received t = received s \<and>
      parse_frames (env_le env) (received s) = ([], received s, snd (snd (parse_frames (env_le env) (received s)))) \<and>
      (same_events s t \<or> both_off s t \<and> snd (snd (parse_frames (env_le env) (received s))))) \<or>
    (\<exists>t p. process_round env s = Inr (True, t) \<and> worked s t \<and> same_events s t \<and> told env [p] s t \<and>
      parse_frames (env_le env) (received s) = prepend [p] (parse_frames (env_le env) (received t)) \<and>
      length (received t) < length (received s))"
proof -
  let ?c = "received s" and ?n = "header_of (env_le env) (received s)"
  from assms(2) obtain e f where ev: "tsw_socket_read_event s = Some e" "tsw_socket_write_event s = Some f"
    and inv: "ring_inv (tsw_sender_buffer s)" "ring_inv (tsw_receiver_buffer s)" by (rule conn_invE)
  note forms = process_round_forms [OF inv(2) assms(3), of env]
  consider (stop) "length ?c < 2 \<or> ?n \<noteq> 0 \<and> length ?c < ?n + 2"
    | (illegal) "2 \<le> length ?c" "?n = 0" | (whole) "?n \<noteq> 0" "?n + 2 \<le> length ?c"
    by linarith
  then show ?thesis
  proof cases
    case stop
    then have "parse_frames (env_le env) ?c = ([], ?c, False)"
      by (subst parse_frames.simps) (auto simp: Let_def simp del: length_ring_contents)
    with forms(1) [OF stop] worked_refl [OF inv] told_refl show ?thesis by (simp add: same_events_def)
  next
    case illegal
    let ?s = "s\<lparr>tsw_socket_read_event := Some (tcp_event_del e),
      tsw_socket_write_event := Some (tcp_event_del f)\<rparr>"
    have p: "parse_frames (env_le env) ?c = ([], ?c, True)"
      using illegal by (subst parse_frames.simps) (auto simp: Let_def simp del: length_ring_contents)
    obtain s1 where s1: "emit env Signal_On_Close ?s = Inr s1" "worked ?s s1" "same_events ?s s1"
      "told env [] ?s s1" "tsw_receiver_buffer s1 = tsw_receiver_buffer s"
      using emit_posting [OF assms(1), of ?s Signal_On_Close] inv by auto
    have w: "worked s ?s" using inv by (auto simp: worked_def queued_def)
    have "illegal_length env s = (if tsw_SignalOnCloseEvent s then Inr s1 else Inr ?s)"
      using ev s1(1) by (simp add: illegal_length_def on_read_event_def on_write_event_def)
    then obtain t where "illegal_length env s = Inr t" "t = s1 \<or> t = ?s" by metis
    moreover have "worked s s1" using w s1(2) by (rule worked_trans)
    moreover have "told env [] s s1" "told env [] s ?s" using s1(4) by (auto simp: told_def hears_def split: if_splits)
    ultimately have "\<exists>t. illegal_length env s = Inr t \<and> worked s t \<and> told env [] s t \<and> received t = ?c \<and>
        both_off s t"
      using w s1(3,5) ev by (auto simp: both_off_def same_events_def)
    then show ?thesis using forms(2) [OF illegal] p by auto
  next
    case whole
    let ?p = "take (?n + 2) ?c"
    obtain r result where r: "process_round env s = rbind result (\<lambda>s'. Inr (True, s'))"
      "hand_over env ?p r s result" "ring_inv r" "ring_contents r = drop (?n + 2) ?c"
      "rb_capacity r = rb_capacity (tsw_receiver_buffer s)" using forms(3) [OF whole] by blast
    let ?s = "s\<lparr>tsw_receiver_buffer := r\<rparr>"
    have w: "worked s ?s" using inv r(3,5) by (auto simp: worked_def queued_def)
    obtain t1 where t1: "emit_packet env ?p s = Inr t1" "worked s t1" "same_events s t1" "told env [?p] s t1"
      using emit_packet_posting [OF assms(1) inv] by blast
    obtain t2 where t2: "emit_packet env ?p ?s = Inr t2" "worked ?s t2" "same_events ?s t2"
      "told env [?p] ?s t2" "tsw_receiver_buffer t2 = r"
      using emit_packet_posting [OF assms(1), of ?s ?p] inv r(3) by auto
    have "worked s (t1\<lparr>tsw_receiver_buffer := r\<rparr>)"
      using t1(2) r(3,5) by (auto simp: worked_def queued_def)
    moreover have "worked s t2" using w t2(2) by (rule worked_trans)
    moreover have "told env [?p] s (t1\<lparr>tsw_receiver_buffer := r\<rparr>)" "told env [?p] s t2"
      using t1(4) t2(4) by (auto simp: told_def hears_def split: if_splits)
    ultimately obtain t where "result = Inr t" "worked s t" "same_events s t" "told env [?p] s t"
      "tsw_receiver_buffer t = r"
      using r(2) t1(1,3) t2(1,3,5) by (auto simp: hand_over_def same_events_def)
    moreover have "parse_frames (env_le env) ?c = prepend [?p] (parse_frames (env_le env) (ring_contents r))"
      unfolding r(4) using whole by (intro parse_frames_step) auto
    ultimately show ?thesis
      using r(1,4) whole by (intro disjI2 exI [of _ t] exI [of _ ?p]) (simp del: length_ring_contents)
  qed
qed

lemma worked_conn_inv:
  assumes "conn_inv s" "worked s t" "same_events s t \<or> both_off s t"
  shows "conn_inv t"
proof -
  from assms(1) obtain e f where ev: "tsw_socket_read_event s = Some e" "tsw_socket_write_event s = Some f"
    "conn_events (tsw_state s) e f" by (rule conn_invE)
  moreover have "conn_events (tsw_state s) (tcp_event_del e) (tcp_event_del f)"
    using ev(3) by (auto simp: conn_events_def)
  ultimately show ?thesis
    using assms(2,3) by (auto simp: conn_inv_def worked_def queued_def same_events_def both_off_def)
qed

text \<open>The whole loop, over a ring that is not exactly full.\<close>

lemma process_posting:
  assumes "posting env" "conn_inv s" "length (received s) < unat (rb_capacity (tsw_receiver_buffer s))"
  shows "\<exists>t. TryProcessBufferedDataInWorkLoop env s = Inr t \<and> worked s t \<and>
    told env (fst (parse_frames (env_le env) (received s))) s t \<and>
    received t = fst (snd (parse_frames (env_le env) (received s))) \<and>
    (same_events s t \<or> both_off s t \<and> snd (snd (parse_frames (env_le env) (received s))))"
  using assms(2,3)
proof (induction "length (received s)" arbitrary: s rule: less_induct)
  case less
  from round_posting [OF assms(1) less.prems] show ?case
  proof (rule disjE; elim exE conjE)
    fix t
    assume t: "process_round env s = Inr (False, t)" "worked s t" "told env [] s t" "received t = received s"
      and p: "parse_frames (env_le env) (received s) = ([], received s, snd (snd (parse_frames (env_le env) (received s))))"
      and ev: "same_events s t \<or> both_off s t \<and> snd (snd (parse_frames (env_le env) (received s)))"
    have "fst (snd (parse_frames (env_le env) (received s))) = received s"
      "fst (parse_frames (env_le env) (received s)) = []"
      using arg_cong [OF p, of "\<lambda>x. fst (snd x)"] arg_cong [OF p, of fst] by simp_all
    moreover have "TryProcessBufferedDataInWorkLoop env s = Inr t"
      using t(1) by (subst TryProcessBufferedDataInWorkLoop.simps) simp
    ultimately show ?thesis using t(2-4) ev by simp
  next
    fix t p
    assume t: "process_round env s = Inr (True, t)" "worked s t" "same_events s t" "told env [p] s t"
      and p: "parse_frames (env_le env) (received s) = prepend [p] (parse_frames (env_le env) (received t))"
      and l: "length (received t) < length (received s)"
    have inv: "conn_inv t" using worked_conn_inv [OF less.prems(1) t(2)] t(3) by blast
    have "length (received t) < unat (rb_capacity (tsw_receiver_buffer t))"
      using l less.prems(2) t(2) by (simp add: worked_def del: length_ring_contents)
    from less.hyps [OF l inv this] obtain u where u: "TryProcessBufferedDataInWorkLoop env t = Inr u"
      "worked t u" "told env (fst (parse_frames (env_le env) (received t))) t u" "received u = fst (snd (parse_frames (env_le env) (received t)))"
      "same_events t u \<or> both_off t u \<and> snd (snd (parse_frames (env_le env) (received t)))" by blast
    have "TryProcessBufferedDataInWorkLoop env s = Inr u"
      using t(1) u(1) by (subst TryProcessBufferedDataInWorkLoop.simps) simp
    moreover have "worked s u" using t(2) u(2) by (rule worked_trans)
    moreover have "told env (fst (parse_frames (env_le env) (received s))) s u"
      using told_trans [OF t(4) u(3)] unfolding p by simp
    ultimately show ?thesis
      using u(4,5) p t(3) by (auto simp: same_events_def both_off_def)
  qed
qed

section \<open>What a call of SendData does, from another thread\<close>

lemma ring_WriteContent_any:
  assumes "ring_inv r" "unat n = length bs"
  shows "\<exists>ok r' d. ring_WriteContent r bs n = Inr (ok, r') \<and> ring_inv r' \<and>
    ring_contents r' = ring_contents r @ d"
  using ring_WriteContent_ok [OF assms(1), of n bs] ring_WriteContent_full [OF assms(1), of n bs]
    assms by (cases "unat n \<le> ring_free r") fastforce+

lemma SendDataWithHead_any:
  assumes "ring_inv (tsw_sender_buffer s)" "length buff < 2 ^ 32" "\<not> env_in_network env"
  shows "\<exists>r. SendDataWithHead env buff s = Some (Inr (True, post Net_Try_Write (s\<lparr>tsw_sender_buffer := r\<rparr>))) \<and>
    queued [Net_Try_Write] s (post Net_Try_Write (s\<lparr>tsw_sender_buffer := r\<rparr>))"
proof -
  have "unat (of_nat (length buff) :: u32) = length buff" using assms(2) by (simp add: unat_of_nat)
  from ring_WriteContent_any [OF assms(1) this] obtain ok r d where
    "ring_WriteContent (tsw_sender_buffer s) buff (of_nat (length buff)) = Inr (ok, r)"
    "ring_inv r" "ring_contents r = unsent s @ d" by blast
  with assms(3) show ?thesis
    by (intro exI [of _ r]) (simp add: SendDataWithHead_def run_try_write_def queued_def post_def)
qed

text \<open>Whichever thread calls, \<^verbatim>\<open>SendData\<close> declines, or adds to the ring and starts the write.\<close>

lemma SendData_forms:
  assumes "ring_inv (tsw_sender_buffer s)" "unat len = length data" "2 \<le> length data"
  shows "SendData env data len s = Some (Inr (False, data, s)) \<or>
    (\<exists>d r x. ring_inv r \<and> ring_contents r = unsent s @ x \<and>
       SendData env data len s =
         map_option (\<lambda>r. rbind r (\<lambda>s'. Inr (True, d, s'))) (run_try_write env (s\<lparr>tsw_sender_buffer := r\<rparr>)))"
proof (cases "len > 65537")
  case True
  then show ?thesis by (simp add: SendData_def)
next
  case short: False
  then have l: "length data \<le> 65537" using assms(2) by (simp add: word_less_nat_alt)
  obtain avail where avail: "ring_AvailableWrite (tsw_sender_buffer s) = Inr avail"
    using ring_AvailableWrite_ok [OF assms(1)] by blast
  show ?thesis
  proof (cases "(ucast avail :: size_t) < len + 2")
    case True
    with short avail show ?thesis by (simp add: SendData_def)
  next
    case False
    let ?h = "host_bytes (env_le env) 2 (ucast (len - 2) :: u16)"
    obtain d where d: "mem_write data 0 ?h = Inr d" "length d = length data"
      using assms(3) by (auto simp: mem_write_def overlay_def)
    have "take_bit 32 (length data) = length data" using l by (intro take_bit_nat_eq_self) simp
    then have "unat (ucast len :: u32) = length d"
      unfolding unsigned_ucast_eq using assms(2) d(2) by simp
    from ring_WriteContent_any [OF assms(1) this] obtain ok r x where
      r: "ring_WriteContent (tsw_sender_buffer s) d (ucast len) = Inr (ok, r)"
      "ring_inv r" "ring_contents r = unsent s @ x" by blast
    have "SendData env data len s =
        map_option (\<lambda>r. rbind r (\<lambda>s'. Inr (True, d, s'))) (run_try_write env (s\<lparr>tsw_sender_buffer := r\<rparr>))"
      unfolding SendData_def if_not_P [OF short] avail sum.case if_not_P [OF False] d(1) rbind_Inr r(1)
      by simp
    with r(2,3) show ?thesis by blast
  qed
qed

lemma SendData_any:
  assumes "ring_inv (tsw_sender_buffer s)" "unat len = length data" "2 \<le> length data"
    "\<not> env_in_network env"
  shows "\<exists>ok d r ps. SendData env data len s = Some (Inr (ok, d, s\<lparr>tsw_sender_buffer := r, tsw_posts := tsw_posts s @ ps\<rparr>)) \<and>
    queued ps s (s\<lparr>tsw_sender_buffer := r, tsw_posts := tsw_posts s @ ps\<rparr>)"
  using SendData_forms [OF assms(1-3), of env]
proof (elim disjE exE conjE)
  assume "SendData env data len s = Some (Inr (False, data, s))"
  with queued_refl [OF assms(1)] show ?thesis
    by (intro exI [of _ False] exI [of _ data] exI [of _ "tsw_sender_buffer s"] exI [of _ "[]"]) simp
next
  fix d r x
  assume r: "ring_inv r" "ring_contents r = unsent s @ x"
    "SendData env data len s =
       map_option (\<lambda>r. rbind r (\<lambda>s'. Inr (True, d, s'))) (run_try_write env (s\<lparr>tsw_sender_buffer := r\<rparr>))"
  with assms(4) show ?thesis
    by (intro exI [of _ True] exI [of _ d] exI [of _ r] exI [of _ "[Net_Try_Write]"])
      (simp add: queued_def run_try_write_def post_def)
qed

end
