(* ===== verification/Tcp_Loops.thy ===== *)
theory Tcp_Loops
  imports Tcp_Callbacks
begin

text \<open>
  A socket with its two loops and its user, composed: each loop is a queue of the functors posted
  to it (Event_Loop_Fifo shows that is what the loop is) and runs one at a time; the user's thread
  calls in between, the kernel reports events to the network loop, the callbacks run on the worker
  loop. The network loop is not the worker loop.
\<close>

section \<open>The system\<close>

text \<open>
  The history of a run. \<open>sy_early\<close>: output was added before the connection was up. \<open>sy_closed\<close>: the
  close has run. \<open>sy_late\<close>: a write ran after it. \<open>sy_broken\<close>: an illegal length was met.
  \<open>sy_output\<close>: all that was put into the sending ring. \<open>sy_taken\<close>: all that was read into the receiving one.
\<close>

record tcp_system =
  sy_socket :: tcp_socket
  sy_net :: "tcp_post list"
  sy_work :: "tcp_post list"
  sy_early :: bool
  sy_closed :: bool
  sy_late :: bool
  sy_broken :: bool
  sy_output :: "byte list"
  sy_taken :: "byte list"

fun start_post :: "tcp_post \<Rightarrow> bool" where
  "start_post Net_Connect_Server = True"
| "start_post (Net_Begin_Process _) = True"
| "start_post _ = False"

fun is_net_post :: "tcp_post \<Rightarrow> bool" where
  "is_net_post Net_Try_Write = True"
| "is_net_post Net_Close_Connection = True"
| "is_net_post p = start_post p"

definition on_network :: "tcp_env \<Rightarrow> tcp_env" where
  "on_network env = env\<lparr>env_in_network := True, env_in_worker := False\<rparr>"

definition on_worker :: "tcp_env \<Rightarrow> tcp_env" where
  "on_worker env = env\<lparr>env_in_network := False, env_in_worker := True\<rparr>"

definition on_user :: "tcp_env \<Rightarrow> tcp_env" where
  "on_user env = env\<lparr>env_in_network := False, env_in_worker := False\<rparr>"

text \<open>What a step has posted goes to the back of the loop it is for.\<close>

definition settle :: "tcp_socket \<Rightarrow> tcp_system \<Rightarrow> tcp_system" where
  "settle s y = y\<lparr>sy_socket := s\<lparr>tsw_posts := []\<rparr>,
     sy_net := sy_net y @ filter is_net_post (tsw_posts s),
     sy_work := sy_work y @ filter (\<lambda>p. \<not> is_net_post p) (tsw_posts s)\<rparr>"

definition events_set :: "tcp_socket \<Rightarrow> bool" where
  "events_set s \<longleftrightarrow> (\<exists>e. tsw_socket_read_event s = Some e \<and> ev_base e)"

text \<open>The write event is the one that writes, on a live helper: the connection came up.\<close>

definition write_wired :: "tcp_socket \<Rightarrow> bool" where
  "write_wired s \<longleftrightarrow> (\<exists>f. tsw_socket_write_event s = Some f \<and> ev_base f \<and>
     ev_callback f = Some (On_Write_Event, True))"

text \<open>The system's answers to \<^verbatim>\<open>socket\<close>, \<^verbatim>\<open>connect\<close> and the non-blocking switch.\<close>

fun run_net :: "tcp_env \<Rightarrow> int \<times> (int \<times> int) \<times> int \<Rightarrow> tcp_post \<Rightarrow> tcp_socket \<Rightarrow> tcp_socket result option" where
  "run_net env (fd, conn, nb) Net_Connect_Server s = Some (ConnectServerInNetworkLoop env fd conn s)"
| "run_net env (fd, conn, nb) (Net_Begin_Process cfd) s = Some (BeginProcessInNetworkLoop env nb cfd s)"
| "run_net env _ Net_Try_Write s = TryWriteBufferToSocket env s"
| "run_net env _ Net_Close_Connection s = Some (Inr (CloseConnectionInNetworkLoop env s))"
| "run_net env _ _ s = Some (Inr s)"

text \<open>A posted signal is a copy of the user's function, so it is called whatever is set by then.\<close>

fun run_work :: "tcp_env \<Rightarrow> tcp_post \<Rightarrow> tcp_socket \<Rightarrow> tcp_socket result" where
  "run_work env Work_Process_Buffered s = TryProcessBufferedDataInWorkLoop env s"
| "run_work env Work_Close_Signal s = emit env Signal_On_Close s"
| "run_work env Work_Connected_Signal s = emit env Signal_On_Connected s"
| "run_work env Work_Destroy_Socket s = Inr (OnDestroySocket s)"
| "run_work env _ s = Inr s"

definition note_output :: "tcp_socket \<Rightarrow> tcp_system \<Rightarrow> tcp_system" where
  "note_output s y = y\<lparr>sy_early := sy_early y \<or>
       length (unsent (sy_socket y)) < length (unsent s) \<and> \<not> write_wired (sy_socket y),
     sy_output := sy_output y @ drop (length (unsent (sy_socket y))) (unsent s)\<rparr>"

definition note_input :: "tcp_socket \<Rightarrow> tcp_system \<Rightarrow> tcp_system" where
  "note_input s y = y\<lparr>sy_taken := sy_taken y @ drop (length (received (sy_socket y))) (received s)\<rparr>"

definition meets_illegal :: "tcp_env \<Rightarrow> tcp_post \<Rightarrow> tcp_socket \<Rightarrow> bool" where
  "meets_illegal env p s \<longleftrightarrow> p = Work_Process_Buffered \<and> snd (snd (parse_frames (env_le env) (received s)))"

inductive sys_step :: "tcp_env \<Rightarrow> tcp_system \<Rightarrow> tcp_system \<Rightarrow> bool" for env where
  user_send: "\<lbrakk> unat len = length data; 2 \<le> length data;
     SendData (on_user env) data len (sy_socket y) = Some (Inr (ok, d, s)) \<rbrakk>
     \<Longrightarrow> sys_step env y (settle s (note_output s y))"
| user_send_head: "\<lbrakk> length buff < 2 ^ 32;
     SendDataWithHead (on_user env) buff (sy_socket y) = Some (Inr (ok, s)) \<rbrakk>
     \<Longrightarrow> sys_step env y (settle s (note_output s y))"
| user_close: "sys_step env y (settle (CloseConnection (on_user env) (sy_socket y)) y)"
| net: "\<lbrakk> sy_net y = p # ps; run_net (on_network env) answers p (sy_socket y) = Some (Inr s) \<rbrakk>
     \<Longrightarrow> sys_step env y (settle s (y\<lparr>sy_net := ps,
           sy_closed := sy_closed y \<or> p = Net_Close_Connection,
           sy_late := sy_late y \<or> sy_closed y \<and> p = Net_Try_Write\<rparr>))"
| work: "\<lbrakk> sy_work y = p # ps; run_work (on_worker env) p (sy_socket y) = Inr s \<rbrakk>
     \<Longrightarrow> sys_step env y (settle s (note_output s (y\<lparr>sy_work := ps,
           sy_broken := sy_broken y \<or> meets_illegal env p (sy_socket y)\<rparr>)))"
| readable: "\<lbrakk> read_registered (sy_socket y); fire_read (on_network env) answer (sy_socket y) = Inr s \<rbrakk>
     \<Longrightarrow> sys_step env y (settle s (note_input s y))"
| writable: "\<lbrakk> write_pending (sy_socket y);
     fire_write (on_network env) so_error EV_WRITE (sy_socket y) = Some (Inr s) \<rbrakk>
     \<Longrightarrow> sys_step env y (settle s y)"
| connect_timeout: "\<lbrakk> write_pending (sy_socket y); tsw_state (sy_socket y) = CS_CONNECTING;
     fire_write (on_network env) 0 EV_TIMEOUT (sy_socket y) = Some (Inr s) \<rbrakk>
     \<Longrightarrow> sys_step env y (settle s y)"

text \<open>The two ways a connection starts: the user connects, or a listener has accepted.\<close>

definition system_of :: "tcp_socket \<Rightarrow> tcp_system" where
  "system_of s = settle s \<lparr> sy_socket = s, sy_net = [], sy_work = [], sy_early = False,
     sy_closed = False, sy_late = False, sy_broken = False, sy_output = [], sy_taken = [] \<rparr>"

definition sys_start :: "tcp_env \<Rightarrow> tcp_system \<Rightarrow> bool" where
  "sys_start env y \<longleftrightarrow> (\<exists>g1 g2 a b c s.
     let n = (TcpSocketWrapper_new g1 g2)\<lparr>tsw_SignalReadPacket := a, tsw_SignalOnCloseEvent := b,
       tsw_SignalOnConnected := c\<rparr> in
     y = system_of s \<and>
     ((\<exists>fd conn ip port. BeginConnect (on_user env) fd conn ip port n = Inr (True, s)) \<or>
      (\<exists>nb cfd addr. BeginProcess (on_user env) nb cfd (n\<lparr>tsw_remote_addr := addr\<rparr>) = Inr s)))"

section \<open>The invariant\<close>

definition drained :: "tcp_socket \<Rightarrow> bool" where
  "drained s \<longleftrightarrow> unsent s = [] \<or> tsw_state s = CS_CLOSED \<or> write_pending s"

definition all_off :: "tcp_socket \<Rightarrow> bool" where
  "all_off s \<longleftrightarrow> tsw_state s = CS_CLOSED \<and> \<not> read_registered s \<and> \<not> write_pending s"

text \<open>A start waits at the head of the queue or not at all, and finds the socket untouched.\<close>

definition start_ok :: "tcp_system \<Rightarrow> bool" where
  "start_ok y \<longleftrightarrow> (case sy_net y of
     [] \<Rightarrow> True
   | p # ps \<Rightarrow> (start_post p \<longrightarrow> \<not> events_set (sy_socket y) \<and> all_off (sy_socket y) \<and> \<not> sy_closed y \<and>
         (p = Net_Connect_Server \<longrightarrow> tsw_share_this_helper (sy_socket y))) \<and>
       \<not> list_ex start_post ps)"

text \<open>The helper goes after the close, and after the close nothing is registered.\<close>

definition close_ok :: "tcp_system \<Rightarrow> bool" where
  "close_ok y \<longleftrightarrow> (Work_Destroy_Socket \<in> set (sy_work y) \<longrightarrow> sy_closed y) \<and>
     (events_set (sy_socket y) \<and> \<not> tsw_share_this_helper (sy_socket y) \<longrightarrow> sy_closed y) \<and>
     (sy_closed y \<and> \<not> sy_late y \<longrightarrow> all_off (sy_socket y))"

text \<open>A whole packet in the ring has its processing queued.\<close>

definition input_ok :: "tcp_env \<Rightarrow> tcp_system \<Rightarrow> bool" where
  "input_ok env y \<longleftrightarrow> (fst (parse_frames (env_le env) (received (sy_socket y))) \<noteq> [] \<longrightarrow>
     Work_Process_Buffered \<in> set (sy_work y))"

text \<open>Output has a write queued or an event registered, unless the connection is closed.\<close>

definition output_ok :: "tcp_system \<Rightarrow> bool" where
  "output_ok y \<longleftrightarrow> (\<not> sy_early y \<longrightarrow> (write_wired (sy_socket y) \<or> unsent (sy_socket y) = []) \<and>
     (\<not> sy_broken y \<longrightarrow> drained (sy_socket y) \<or> Net_Try_Write \<in> set (sy_net y)))"

definition sys_inv :: "tcp_env \<Rightarrow> tcp_system \<Rightarrow> bool" where
  "sys_inv env y \<longleftrightarrow> conn_inv (sy_socket y) \<and> tsw_posts (sy_socket y) = [] \<and>
     start_ok y \<and> close_ok y \<and> input_ok env y \<and> output_ok y"

definition system_env :: "tcp_env \<Rightarrow> bool" where
  "system_env env \<longleftrightarrow> kernel_ok env \<and> posting env"

lemma system_env_net:
  assumes "system_env env"
  shows "kernel_ok (on_network env)" "tame (on_network env)" "quiet (on_network env)"
    "\<not> env_in_worker (on_network env)"
  using assms posting_tame [of env]
  by (simp_all add: system_env_def kernel_ok_def tame_def quiet_def on_network_def)

lemma system_env_work:
  assumes "system_env env"
  shows "posting (on_worker env)" "env_le (on_worker env) = env_le env"
  using assms by (simp_all add: system_env_def posting_def on_worker_def)

lemma all_off_events:
  "all_off s \<Longrightarrow> \<not> read_registered s" "all_off s \<Longrightarrow> \<not> write_pending s"
  by (simp_all add: all_off_def)

text \<open>Predicates that do not look at the posts.\<close>

lemma posts_irrelevant [simp]:
  "events_set (s\<lparr>tsw_posts := ps\<rparr>) = events_set s" "all_off (s\<lparr>tsw_posts := ps\<rparr>) = all_off s"
  "write_wired (s\<lparr>tsw_posts := ps\<rparr>) = write_wired s" "drained (s\<lparr>tsw_posts := ps\<rparr>) = drained s"
  "conn_inv (s\<lparr>tsw_posts := ps\<rparr>) = conn_inv s"
  by (simp_all add: events_set_def all_off_def write_wired_def drained_def read_registered_def
    write_pending_def conn_inv_def)

lemma wiring_events:
  "events_set s \<longleftrightarrow> (\<exists>c. fst (wiring s) = Some (True, c))"
  "write_wired s \<longleftrightarrow> snd (wiring s) = Some (True, Some (On_Write_Event, True))"
  by (auto simp: wiring_def events_set_def write_wired_def)

section \<open>What the network loop does to a socket\<close>

text \<open>
  \<open>net_moved s t\<close>: on the network loop no callback runs, so an operation posts work and leaves the
  helper, and what the events are for, alone; it closes at most, and takes output away at most.
\<close>

definition net_moved :: "tcp_socket \<Rightarrow> tcp_socket \<Rightarrow> bool" where
  "net_moved s t \<longleftrightarrow> conn_inv t \<and> tsw_share_this_helper t = tsw_share_this_helper s \<and>
     events_set t = events_set s \<and>
     (\<exists>ps. tsw_posts t = tsw_posts s @ ps \<and>
        set ps \<subseteq> {Work_Process_Buffered, Work_Close_Signal, Work_Connected_Signal} \<and>
        (received t = received s \<or> Work_Process_Buffered \<in> set ps)) \<and>
     (unsent s = [] \<longrightarrow> unsent t = []) \<and>
     (write_wired s \<longrightarrow> write_wired t \<and> (drained s \<longrightarrow> drained t))"

definition error_socket :: "tcp_socket \<Rightarrow> tcp_socket" where
  "error_socket s =
     s\<lparr>tsw_socket_read_event := map_option tcp_event_del (tsw_socket_read_event s),
       tsw_socket_write_event := map_option tcp_event_del (tsw_socket_write_event s),
       tsw_state := CS_CLOSED,
       tsw_posts := tsw_posts s @ (if tsw_SignalOnCloseEvent s then [Work_Close_Signal] else [])\<rparr>"

lemma OnErrorEvent_net:
  assumes "tsw_socket_read_event s \<noteq> None" "tsw_socket_write_event s \<noteq> None" "\<not> env_in_worker env"
  shows "OnErrorEvent env s = Inr (error_socket s)"
  using assms
  by (auto simp: OnErrorEvent_def on_read_event_def on_write_event_def post_def error_socket_def Let_def)

lemma error_socket_moved:
  assumes "conn_inv s"
  shows "net_moved s (error_socket s)" "drained (error_socket s)"
    "tsw_state (error_socket s) = CS_CLOSED"
proof -
  from assms obtain e f where ev: "tsw_socket_read_event s = Some e" "tsw_socket_write_event s = Some f"
    "conn_events (tsw_state s) e f" "ring_inv (tsw_sender_buffer s)"
    "ring_inv (tsw_receiver_buffer s)" by (rule conn_invE)
  moreover have "conn_events CS_CLOSED (tcp_event_del e) (tcp_event_del f)"
    using ev(3) by (auto simp: conn_events_def)
  ultimately have "conn_inv (error_socket s)" by (simp add: conn_inv_def error_socket_def)
  then show "net_moved s (error_socket s)"
    by (auto simp: net_moved_def error_socket_def wiring_events wiring_def drained_def
      option.map_comp comp_def)
  show "drained (error_socket s)" "tsw_state (error_socket s) = CS_CLOSED"
    by (simp_all add: drained_def error_socket_def)
qed

text \<open>The write loop: the frame by induction over its unfolding, the output from the sending side's
  theorem.\<close>

definition write_frame :: "tcp_socket \<Rightarrow> tcp_socket \<Rightarrow> bool" where
  "write_frame s t \<longleftrightarrow> tsw_share_this_helper t = tsw_share_this_helper s \<and>
     tsw_receiver_buffer t = tsw_receiver_buffer s \<and> wiring t = wiring s \<and>
     (\<exists>ps. tsw_posts t = tsw_posts s @ ps \<and> set ps \<subseteq> {Work_Close_Signal})"

lemma try_write_frame:
  assumes "try_write_loop env n s = Some res"
  shows "\<not> env_in_worker env \<longrightarrow> (\<forall>t. res = Inr t \<longrightarrow> write_frame s t)"
proof (induction env n s res rule: try_write_loop.raw_induct)
  case (1 loop env n s res)
  have err: "\<not> env_in_worker env \<Longrightarrow> OnErrorEvent env u = Inr t \<Longrightarrow> write_frame u t" for u t
    by (auto simp: OnErrorEvent_def rbind_eq_Inr on_read_event_def on_write_event_def
      post_def write_frame_def wiring_def Let_def split: option.splits if_splits)
  have add: "on_write_event (tcp_event_add None) u = Inr t \<Longrightarrow> write_frame u t" for u t
    by (auto simp: on_write_event_def write_frame_def wiring_def split: option.splits)
  have trans: "write_frame (s\<lparr>tsw_sends := a, tsw_sender_buffer := b, tsw_wire := c\<rparr>) t \<Longrightarrow> write_frame s t"
    "write_frame (s\<lparr>tsw_sends := a\<rparr>) t \<Longrightarrow> write_frame s t" for a b c t
    by (simp_all add: write_frame_def wiring_def)
  have same: "write_frame s s" by (simp add: write_frame_def)
  show ?case
    using "1.hyps"
    by (auto split: if_splits sum.splits prod.splits simp: same dest!: err add "1.IH" intro: trans)
qed fact

lemma TryWrite_nothing:
  assumes "ring_inv (tsw_sender_buffer s)" "unsent s = []"
  shows "TryWriteBufferToSocket env s = Some (Inr s)"
proof -
  obtain n where n: "ring_AvailableSeriesRead (tsw_sender_buffer s) = Inr n"
    "unat n = ring_series_read (tsw_sender_buffer s)"
    using ring_AvailableSeriesRead_ok [OF assms(1)] by blast
  have "ring_series_read (tsw_sender_buffer s) = 0"
    using assms(2) by (simp add: ring_series_read_def flip: length_0_conv)
  with n show ?thesis
    by (simp add: TryWriteBufferToSocket_def try_write_loop.simps unat_eq_zero)
qed

lemma TryWrite_net:
  assumes "conn_inv s" "system_env env"
  shows "\<exists>t. TryWriteBufferToSocket (on_network env) s = Some (Inr t) \<and> net_moved s t \<and>
    (write_wired s \<longrightarrow> drained t)"
proof -
  note env = system_env_net [OF assms(2)]
  obtain t where t: "TryWriteBufferToSocket (on_network env) s = Some (Inr t)" "conn_inv t"
    "tsw_state t = tsw_state s \<or> tsw_state t = CS_CLOSED"
    using TryWrite_conn [OF assms(1) env(1,2)] by blast
  have inv: "ring_inv (tsw_sender_buffer s)" using assms(1) by (rule conn_invE)
  have "write_frame s t"
    using t(1) try_write_frame env(4) by (auto simp: TryWriteBufferToSocket_def split: sum.splits)
  moreover have "unsent s = [] \<longrightarrow> unsent t = []" using TryWrite_nothing [OF inv] t(1) by auto
  moreover have "drained t" if "write_wired s"
  proof -
    have "sender_ready s"
      using that assms(1) by (auto simp: sender_ready_def write_wired_def conn_inv_def)
    from TryWrite_ok [OF this env(1,3)] t(1) show ?thesis by (auto simp: drained_def)
  qed
  ultimately show ?thesis
    using t by (auto simp: net_moved_def write_frame_def wiring_events)
qed

lemma net_moved_from:
  assumes "net_moved (s\<lparr>tsw_socket_write_event := Some (event_fired f)\<rparr>) t"
    "tsw_socket_write_event s = Some f" "write_wired s \<longrightarrow> drained t"
  shows "net_moved s t"
  using assms by (auto simp: net_moved_def events_set_def write_wired_def)

text \<open>A fired event: what it does depends on what it is for.\<close>

lemma ClientConnected_net:
  assumes "tsw_socket_read_event s = Some e" "tsw_socket_write_event s = Some f" "\<not> env_in_worker env"
  shows "ClientConnected env s = Inr (s\<lparr>tsw_socket_read_event := Some (tcp_event_add None e),
    tsw_socket_write_event := Some (tcp_event_set (tsw_socketfd s) EV_WRITE On_Write_Event
      (tsw_share_this_helper s) f),
    tsw_state := CS_CONNECTED,
    tsw_posts := tsw_posts s @ (if tsw_SignalOnConnected s then [Work_Connected_Signal] else [])\<rparr>)"
  using assms
  by (simp add: ClientConnected_def on_read_event_def on_write_event_def post_def Let_def)

lemma fire_write_net:
  assumes "conn_inv s" "write_pending s" "system_env env"
    "event = EV_WRITE \<or> event = EV_TIMEOUT \<and> tsw_state s = CS_CONNECTING"
  shows "\<exists>t. fire_write (on_network env) so_error event s = Some (Inr t) \<and> net_moved s t"
proof -
  note env = system_env_net [OF assms(3)]
  have ne: "EV_WRITE \<noteq> EV_TIMEOUT" by (simp add: EV_WRITE_def EV_TIMEOUT_def)
  from assms(1,2) obtain e f where ev: "tsw_socket_read_event s = Some e"
    "tsw_socket_write_event s = Some f" "ev_added f" "conn_events (tsw_state s) e f"
    by (auto simp: write_pending_def elim!: conn_invE)
  let ?s = "s\<lparr>tsw_socket_write_event := Some (event_fired f)\<rparr>"
  have inv: "conn_inv ?s" using fired_inv [OF assms(1) ev(2)] .
  have base: "ev_base f" "ev_base e" using ev by (simp_all add: conn_events_def)
  then obtain a where "ev_callback f = Some (On_Connection, a) \<or> ev_callback f = Some (On_Write_Event, a)"
    using ev(4) by (auto simp: conn_events_def)
  then show ?thesis
  proof (elim disjE)
    assume cb: "ev_callback f = Some (On_Connection, a)"
    then have nw: "\<not> write_wired s" using ev(2) by (simp add: write_wired_def)
    note err = OnErrorEvent_net [of ?s "on_network env"] error_socket_moved [OF inv]
    obtain t where c: "ClientConnected (on_network env) ?s = Inr t" "conn_inv t"
      using ClientConnected_conn [OF inv, of "event_fired f" "on_network env"] base env(2) by auto
    have "net_moved s t"
      using c ClientConnected_net [of ?s e "event_fired f" "on_network env"] ev(1,2) env(4) nw base
      by (auto simp: net_moved_def events_set_def)
    moreover have "net_moved s (error_socket ?s)"
      using net_moved_from [OF err(2) ev(2)] nw by blast
    moreover have "net_moved s ?s"
      using inv nw by (simp add: net_moved_def events_set_def)
    ultimately have "\<exists>t. OnConnection (on_network env) so_error event a ?s = Inr t \<and> net_moved s t"
      using c(1) err(1) ev(1) env(4) by (auto simp: OnConnection_def)
    then show ?thesis using cb ev(2) by (auto simp: fire_write_def)
  next
    assume cb: "ev_callback f = Some (On_Write_Event, a)"
    show ?thesis
    proof (cases a)
      case True
      with ev(2) cb base have w: "write_wired ?s" by (simp add: write_wired_def)
      from TryWrite_net [OF inv assms(3)] obtain t where
        t: "TryWriteBufferToSocket (on_network env) ?s = Some (Inr t)" "net_moved ?s t" "drained t"
        using w by blast
      have "net_moved s t" using net_moved_from [OF t(2) ev(2)] t(3) by blast
      then show ?thesis using t(1) cb True ev(2) by (auto simp: fire_write_def OnWriteEvent_def)
    next
      case False
      have "net_moved s ?s" using inv cb ev(2) False by (simp add: net_moved_def events_set_def write_wired_def)
      then show ?thesis using cb False ev(2) by (auto simp: fire_write_def OnWriteEvent_def)
    qed
  qed
qed

lemma fire_read_net:
  assumes "conn_inv s" "read_registered s" "system_env env"
  shows "\<exists>t. fire_read (on_network env) answer s = Inr t \<and> net_moved s t"
proof -
  note env = system_env_net [OF assms(3)]
  from assms(1,2) obtain e f where ev: "tsw_socket_read_event s = Some e" "ev_added e"
    "tsw_socket_write_event s = Some f" "conn_events (tsw_state s) e f"
    by (auto simp: read_registered_def elim!: conn_invE)
  let ?s = "s\<lparr>tsw_socket_read_event := Some (event_fired e)\<rparr>"
  have inv: "conn_inv ?s" using read_fired_inv [OF assms(1) ev(1)] .
  have ring: "ring_inv (tsw_receiver_buffer s)" using assms(1) by (rule conn_invE)
  obtain a where a: "ev_callback e = Some (On_Read_Event, a)"
    using ev(2,4) by (auto simp: conn_events_def)
  have unfire: "net_moved s t" if "net_moved ?s t" for t
    using that ev(1)
    by (auto simp: net_moved_def events_set_def write_wired_def drained_def write_pending_def)
  have "net_moved ?s ?s" using inv by (simp add: net_moved_def)
  then have fired: "net_moved s ?s" by (rule unfire)
  have err: "OnErrorEvent (on_network env) ?s = Inr (error_socket ?s)" "net_moved s (error_socket ?s)"
    using OnErrorEvent_net [of ?s] ev(3) env(4) unfire error_socket_moved(1) [OF inv] by simp_all
  have "\<exists>t. TryReadDataFromSocket (on_network env) answer ?s = Inr t \<and> net_moved s t"
  proof (cases answer)
    case (Sys_Error errno)
    with err fired ring_AvailableSeriesWrite_ok [OF ring] show ?thesis
      by (auto simp: TryReadDataFromSocket_def)
  next
    case (Sys_Data bytes)
    obtain n where n: "ring_AvailableSeriesWrite (tsw_receiver_buffer s) = Inr n"
      "unat n = ring_series_write (tsw_receiver_buffer s)"
      using ring_AvailableSeriesWrite_ok [OF ring] by blast
    let ?bs = "take (ring_series_write (tsw_receiver_buffer s)) bytes"
    show ?thesis
    proof (cases "?bs = []")
      case True
      then have "TryReadDataFromSocket (on_network env) answer ?s = OnErrorEvent (on_network env) ?s"
        unfolding TryReadDataFromSocket_def Sys_Data by (simp add: n del: take_eq_Nil)
      with err show ?thesis by simp
    next
      case False
      have le: "length ?bs \<le> ring_series_write (tsw_receiver_buffer s)" by simp
      then have l: "unat (of_nat (length ?bs) :: u32) = length ?bs"
        by (intro ring_length_lt32 [OF ring]) (auto simp: ring_series_write_def)
      obtain d r' where d: "mem_write (rb_data (tsw_receiver_buffer s))
          (unat (ring_CurrentSeriesWriteHead (tsw_receiver_buffer s))) ?bs = Inr d"
        "ring_ConsumeSeriesWriteLen ((tsw_receiver_buffer s)\<lparr>rb_data := d\<rparr>) (of_nat (length ?bs)) = Inr r'"
        "ring_inv r'"
        using ring_series_write_ok [OF ring l le] by blast
      let ?t = "post Work_Process_Buffered (?s\<lparr>tsw_receiver_buffer := r'\<rparr>)"
      have "TryReadDataFromSocket (on_network env) answer ?s = Inr ?t"
        unfolding TryReadDataFromSocket_def Sys_Data
        using False d(1,2) n by (simp del: length_take take_eq_Nil)
      moreover have "net_moved ?s ?t"
        using inv d(3) by (simp add: net_moved_def post_def conn_inv_def events_set_def
          write_wired_def drained_def write_pending_def)
      ultimately show ?thesis using unfire by blast
    qed
  qed
  with a ev(1) fired show ?thesis by (auto simp: fire_read_def OnReadEvent_def Let_def)
qed

text \<open>The operations that start a connection, on a socket whose events were never set.\<close>

definition started :: "tcp_socket \<Rightarrow> tcp_socket \<Rightarrow> bool" where
  "started s t \<longleftrightarrow> conn_inv t \<and> (events_set t \<longrightarrow> tsw_share_this_helper t) \<and>
     received t = received s \<and> unsent t = unsent s \<and>
     (\<exists>ps. tsw_posts t = tsw_posts s @ ps \<and> set ps \<subseteq> {Work_Close_Signal})"

lemma Connect_net:
  assumes "conn_inv s" "all_off s" "\<not> events_set s" "tsw_share_this_helper s" "system_env env"
  shows "\<exists>t. ConnectServerInNetworkLoop (on_network env) fd conn s = Inr t \<and> started s t"
proof -
  note env = system_env_net [OF assms(5)]
  obtain t where t: "ConnectServerInNetworkLoop (on_network env) fd conn s = Inr t" "conn_inv t"
    using Connect_conn [OF assms(1) env(2)] all_off_events [OF assms(2)] by blast
  from assms(1) obtain e f where "tsw_socket_read_event s = Some e" "tsw_socket_write_event s = Some f"
    by (rule conn_invE)
  with t assms(4) env(4) show ?thesis
    by (auto simp: started_def ConnectServerInNetworkLoop_def on_read_event_def on_write_event_def
      OnErrorEvent_net error_socket_def Let_def split: if_splits)
qed

lemma Begin_net:
  assumes "conn_inv s" "all_off s" "\<not> events_set s" "system_env env"
  shows "\<exists>t. BeginProcessInNetworkLoop (on_network env) nb fd s = Inr t \<and> started s t"
proof -
  note env = system_env_net [OF assms(4)]
  obtain t where t: "BeginProcessInNetworkLoop (on_network env) nb fd s = Inr t" "conn_inv t"
    using BeginProcess_conn [OF assms(1) env(2)] all_off_events [OF assms(2)] by blast
  from assms(1) obtain e f where "tsw_socket_read_event s = Some e" "tsw_socket_write_event s = Some f"
    by (rule conn_invE)
  with t assms(3) env(4) show ?thesis
    by (auto simp: started_def BeginProcessInNetworkLoop_def on_read_event_def on_write_event_def
      OnErrorEvent_net error_socket_def events_set_def Let_def split: if_splits)
qed

lemma Close_net:
  assumes "conn_inv s" "\<not> env_in_worker env"
  shows "conn_inv (CloseConnectionInNetworkLoop env s)" "all_off (CloseConnectionInNetworkLoop env s)"
    "tsw_posts (CloseConnectionInNetworkLoop env s) = tsw_posts s @ [Work_Destroy_Socket]"
    "received (CloseConnectionInNetworkLoop env s) = received s"
    "unsent (CloseConnectionInNetworkLoop env s) = unsent s"
    "write_wired (CloseConnectionInNetworkLoop env s) = write_wired s"
proof -
  show "conn_inv (CloseConnectionInNetworkLoop env s)" "all_off (CloseConnectionInNetworkLoop env s)"
    using CloseConnection_conn [OF assms(1), of env] by (simp_all add: all_off_def)
  show "tsw_posts (CloseConnectionInNetworkLoop env s) = tsw_posts s @ [Work_Destroy_Socket]"
    "received (CloseConnectionInNetworkLoop env s) = received s"
    "unsent (CloseConnectionInNetworkLoop env s) = unsent s"
    "write_wired (CloseConnectionInNetworkLoop env s) = write_wired s"
    using assms(2)
    by (auto simp: CloseConnectionInNetworkLoop_def post_def Let_def write_wired_def)
qed

section \<open>Every step keeps the invariant\<close>

lemma settle_simps [simp]:
  "sy_socket (settle s y) = s\<lparr>tsw_posts := []\<rparr>"
  "sy_net (settle s y) = sy_net y @ filter is_net_post (tsw_posts s)"
  "sy_work (settle s y) = sy_work y @ filter (\<lambda>p. \<not> is_net_post p) (tsw_posts s)"
  "sy_early (settle s y) = sy_early y" "sy_closed (settle s y) = sy_closed y"
  "sy_late (settle s y) = sy_late y" "sy_broken (settle s y) = sy_broken y"
  "sy_output (settle s y) = sy_output y" "sy_taken (settle s y) = sy_taken y"
  by (simp_all add: settle_def)

lemma note_output_simps [simp]:
  "sy_socket (note_output s y) = sy_socket y" "sy_net (note_output s y) = sy_net y"
  "sy_work (note_output s y) = sy_work y" "sy_closed (note_output s y) = sy_closed y"
  "sy_late (note_output s y) = sy_late y" "sy_broken (note_output s y) = sy_broken y"
  "sy_output (note_output s y) = sy_output y @ drop (length (unsent (sy_socket y))) (unsent s)"
  "sy_taken (note_output s y) = sy_taken y"
  "sy_socket (note_input s y) = sy_socket y" "sy_output (note_input s y) = sy_output y"
  "sy_taken (note_input s y) = sy_taken y @ drop (length (received (sy_socket y))) (received s)"
  "sy_early (note_output s y) \<longleftrightarrow> sy_early y \<or>
     length (unsent (sy_socket y)) < length (unsent s) \<and> \<not> write_wired (sy_socket y)"
  by (simp_all add: note_output_def note_input_def)

lemma start_ok_append:
  assumes "start_ok y" "list_all (\<lambda>p. \<not> start_post p) ps" "sy_net z = sy_net y @ ps"
    "events_set (sy_socket z) \<longrightarrow> events_set (sy_socket y)" "all_off (sy_socket y) \<longrightarrow> all_off (sy_socket z)"
    "sy_closed z = sy_closed y"
    "tsw_share_this_helper (sy_socket z) = tsw_share_this_helper (sy_socket y) \<or> sy_closed y"
  shows "start_ok z"
proof (cases "sy_net y")
  case Nil
  with assms(2,3) show ?thesis
    by (cases ps) (auto simp: start_ok_def list_ex_iff list_all_iff)
next
  case (Cons p qs)
  with assms show ?thesis by (auto simp: start_ok_def list_ex_iff list_all_iff)
qed

lemma not_start: "list_all (\<lambda>p. \<not> start_post p) (filter is_net_post ps)"
  if "set ps \<subseteq> {Net_Try_Write, Net_Close_Connection} \<or>
    set ps \<subseteq> {Work_Process_Buffered, Work_Close_Signal, Work_Connected_Signal, Work_Destroy_Socket}"
  using that by (auto simp: list_all_iff)

text \<open>The user's thread and the worker loop.\<close>

lemma worker_inv:
  assumes inv: "sys_inv env y" and q: "queued ps (sy_socket y) t" "conn_inv t"
      "tsw_state t = tsw_state (sy_socket y)"
    and h: "tsw_share_this_helper t = tsw_share_this_helper (sy_socket y) \<or> sy_closed y"
    and ev: "same_events (sy_socket y) t \<or> both_off (sy_socket y) t \<and> b"
    and w: "set w \<subseteq> set (sy_work y)"
      "fst (parse_frames (env_le env) (received t)) \<noteq> [] \<Longrightarrow> Work_Process_Buffered \<in> set w"
  shows "sys_inv env (settle t (note_output t (y\<lparr>sy_work := w, sy_broken := sy_broken y \<or> b\<rparr>)))"
    (is "sys_inv env ?z")
proof -
  let ?s = "sy_socket y"
  have posts: "tsw_posts t = ps" "set ps \<subseteq> {Net_Try_Write, Net_Close_Connection}"
    using q inv by (simp_all add: queued_def sys_inv_def)
  obtain d where d: "unsent t = unsent ?s @ d" "d \<noteq> [] \<longrightarrow> Net_Try_Write \<in> set ps"
    using q(1) by (auto simp: queued_def)
  from inv obtain e f where e: "tsw_socket_read_event ?s = Some e" "tsw_socket_write_event ?s = Some f"
    by (auto simp: sys_inv_def elim: conn_invE)
  have net: "filter is_net_post ps = ps" "filter (\<lambda>p. \<not> is_net_post p) ps = []"
    using posts(2) by (auto simp: filter_id_conv filter_empty_conv)
  have same: "events_set t = events_set ?s" "write_wired t = write_wired ?s"
    "all_off ?s \<longrightarrow> all_off t" "same_events ?s t \<longrightarrow> write_pending t = write_pending ?s"
    using ev e q(3)
    by (auto simp: same_events_def both_off_def events_set_def write_wired_def all_off_def
      read_registered_def write_pending_def)
  have "start_ok ?z"
  proof (rule start_ok_append [of y ps])
    show "start_ok y" using inv by (simp add: sys_inv_def)
    show "list_all (\<lambda>p. \<not> start_post p) ps" using not_start [of ps] posts(2) net(1) by simp
  qed (use same(1,3) h posts(1) net(1) in simp_all)
  moreover have "close_ok ?z"
  proof -
    have "close_ok y" using inv by (simp add: sys_inv_def)
    then show ?thesis
      using same(1,3) h w(1) posts(1) net(2) unfolding close_ok_def by auto
  qed
  moreover have "input_ok env ?z"
    using w(2) posts net by (auto simp: input_ok_def)
  moreover have "output_ok ?z"
  proof -
    have "drained ?s \<and> same_events ?s t \<longrightarrow> drained t \<or> Net_Try_Write \<in> set ps"
      using same(4) d q(3) by (auto simp: drained_def)
    moreover have "output_ok y" using inv by (simp add: sys_inv_def)
    moreover have "length (unsent ?s) < length (unsent t) \<or> unsent t = unsent ?s"
      using d(1) by (cases d) (simp_all del: length_ring_contents)
    ultimately show ?thesis
      using same(2) posts(1) net(1) ev unfolding output_ok_def
      by (auto simp del: length_ring_contents)
  qed
  ultimately show ?thesis using q(2) by (simp add: sys_inv_def)
qed

text \<open>The network loop, a close and a start apart.\<close>

lemma moved_inv:
  assumes inv: "sys_inv env y" and m: "net_moved (sy_socket y) t"
    and n: "n = sy_net y \<or> (\<exists>p. sy_net y = p # n \<and> \<not> start_post p \<and>
        (p = Net_Try_Write \<longrightarrow> write_wired (sy_socket y) \<longrightarrow> drained t))"
    and idle: "start_ok y \<Longrightarrow> n = sy_net y \<Longrightarrow> \<not> all_off (sy_socket y)"
    and late: "sy_closed y \<Longrightarrow> sy_late y \<or> l \<or> t = sy_socket y"
  shows "sys_inv env (settle t (y\<lparr>sy_net := n, sy_late := sy_late y \<or> l\<rparr>))" (is "sys_inv env ?z")
proof -
  let ?s = "sy_socket y"
  obtain ps where ps: "tsw_posts t = ps"
    "set ps \<subseteq> {Work_Process_Buffered, Work_Close_Signal, Work_Connected_Signal}"
    "received t = received ?s \<or> Work_Process_Buffered \<in> set ps"
    using m inv by (auto simp: net_moved_def sys_inv_def)
  have net: "filter is_net_post ps = []" "filter (\<lambda>p. \<not> is_net_post p) ps = ps"
    using ps(2) by (auto simp: filter_id_conv filter_empty_conv)
  note parts = inv [unfolded sys_inv_def] m [unfolded net_moved_def]
  have "list_ex start_post (sy_net y) \<Longrightarrow> all_off ?s \<and> start_post (hd (sy_net y))"
    using parts(1) by (cases "sy_net y") (auto simp: start_ok_def)
  then have none: "\<not> list_ex start_post n" "\<not> list_ex start_post (sy_net y)"
    using n idle parts(1) by auto
  have "start_ok ?z"
    using none ps(1) net by (cases n) (auto simp: start_ok_def)
  moreover have "close_ok ?z"
  proof -
    have "close_ok y" "tsw_share_this_helper t = tsw_share_this_helper ?s" "events_set t = events_set ?s"
      using parts by simp_all
    moreover have "Work_Destroy_Socket \<notin> set ps" using ps(2) by auto
    ultimately show ?thesis
      using late ps(1) net(2) unfolding close_ok_def by auto
  qed
  moreover have "input_ok env ?z"
  proof -
    have "input_ok env y" using parts(1) by simp
    then show ?thesis using ps(1,3) net(2) unfolding input_ok_def by auto
  qed
  moreover have "output_ok ?z"
  proof -
    have out: "output_ok y" using parts(1) by simp
    have wired: "write_wired ?s \<longrightarrow> write_wired t" "unsent ?s = [] \<longrightarrow> unsent t = []"
      "write_wired ?s \<longrightarrow> drained ?s \<longrightarrow> drained t" using parts(2) by simp_all
    have "unsent t = [] \<longrightarrow> drained t" by (simp add: drained_def)
    moreover have "Net_Try_Write \<in> set (sy_net y) \<Longrightarrow> write_wired ?s \<longrightarrow> drained t \<or> Net_Try_Write \<in> set n"
      using n by auto
    ultimately show ?thesis
      using out wired ps(1) net(1) unfolding output_ok_def by auto
  qed
  ultimately show ?thesis using parts by (simp add: sys_inv_def)
qed

lemma close_inv:
  assumes inv: "sys_inv env y" and net: "sy_net y = Net_Close_Connection # n" and w: "\<not> env_in_worker env'"
  shows "sys_inv env (settle (CloseConnectionInNetworkLoop env' (sy_socket y)) (y\<lparr>sy_net := n, sy_closed := True\<rparr>))"
    (is "sys_inv env (settle ?t _)")
proof -
  have c: "conn_inv (sy_socket y)" using inv by (simp add: sys_inv_def)
  note t = Close_net [OF c w]
  have "tsw_posts ?t = [Work_Destroy_Socket]" using t(3) inv by (simp add: sys_inv_def)
  moreover have "drained ?t" using t(2) by (simp add: all_off_def drained_def)
  ultimately show ?thesis
    using inv net t by (auto simp: sys_inv_def start_ok_def close_ok_def input_ok_def output_ok_def
      list_ex_iff split: list.splits)
qed

lemma start_inv:
  assumes inv: "sys_inv env y" and net: "sy_net y = p # n" "start_post p" and st: "started (sy_socket y) t"
  shows "sys_inv env (settle t (y\<lparr>sy_net := n\<rparr>))" (is "sys_inv env ?z")
proof -
  let ?s = "sy_socket y"
  obtain ps where ps: "tsw_posts t = ps" "set ps \<subseteq> {Work_Close_Signal}"
    using inv st by (auto simp: started_def sys_inv_def)
  have w: "filter is_net_post ps = []" "filter (\<lambda>p. \<not> is_net_post p) ps = ps"
    using ps(2) by (auto simp: filter_id_conv filter_empty_conv)
  have y: "\<not> events_set ?s" "\<not> sy_closed y" "\<not> list_ex start_post n"
    "Work_Destroy_Socket \<notin> set (sy_work y)"
    using inv net by (auto simp: sys_inv_def start_ok_def close_ok_def)
  have "\<not> write_wired ?s"
    using y(1) inv by (auto simp: sys_inv_def write_wired_def events_set_def conn_events_def elim!: conn_invE)
  then have "output_ok ?z"
    using inv st ps(1) w by (auto simp: sys_inv_def output_ok_def started_def drained_def)
  moreover have "start_ok ?z" using y(3) ps(1) w by (cases n) (auto simp: start_ok_def)
  moreover have "close_ok ?z" using y st ps w by (auto simp: close_ok_def started_def)
  moreover have "input_ok env ?z" using inv st ps(1) w by (simp add: sys_inv_def input_ok_def started_def)
  ultimately show ?thesis using st by (simp add: sys_inv_def started_def)
qed

lemma note_output_same:
  "unsent s = unsent (sy_socket y) \<Longrightarrow> note_output s y = y"
  by (simp add: note_output_def)

text \<open>A head of the network queue always runs, and keeps the invariant.\<close>

lemma net_step_ok:
  assumes "sys_inv env y" "system_env env" "sy_net y = p # ps"
  shows "\<exists>s. run_net (on_network env) answers p (sy_socket y) = Some (Inr s) \<and>
    sys_inv env (settle s (y\<lparr>sy_net := ps, sy_closed := sy_closed y \<or> p = Net_Close_Connection,
      sy_late := sy_late y \<or> sy_closed y \<and> p = Net_Try_Write\<rparr>))"
proof -
  obtain fd conn nb where a: "answers = (fd, conn, nb)" by (cases answers) auto
  let ?s = "sy_socket y"
  have inv: "conn_inv ?s" using assms(1) by (simp add: sys_inv_def)
  note net = system_env_net [OF assms(2)]
  have y: "y\<lparr>sy_net := ps, sy_closed := sy_closed y, sy_late := l\<rparr> = y\<lparr>sy_net := ps, sy_late := l\<rparr>" for l
    by (cases y) simp
  show ?thesis
  proof (cases "start_post p")
    case True
    then have st: "all_off ?s" "\<not> events_set ?s" "p = Net_Connect_Server \<longrightarrow> tsw_share_this_helper ?s"
      using assms(1,3) by (auto simp: sys_inv_def start_ok_def)
    obtain t where t: "run_net (on_network env) answers p ?s = Some (Inr t)" "started ?s t"
      using True st Connect_net [OF inv st(1,2) _ assms(2), of fd conn] Begin_net [OF inv st(1,2) assms(2), of nb]
      by (cases p) (auto simp: a)
    have "p \<noteq> Net_Close_Connection" "p \<noteq> Net_Try_Write" using True by auto
    with t start_inv [OF assms(1,3) True t(2)] show ?thesis by simp
  next
    case nostart: False
    show ?thesis
    proof (cases "p = Net_Close_Connection")
      case True
      with close_inv [OF assms(1), of ps "on_network env"] assms(3) net(4) show ?thesis by simp
    next
      case False
      have "\<exists>t. run_net (on_network env) answers p ?s = Some (Inr t) \<and> net_moved ?s t \<and>
          (p = Net_Try_Write \<longrightarrow> write_wired ?s \<longrightarrow> drained t) \<and> (p = Net_Try_Write \<or> t = ?s)"
        using nostart False TryWrite_net [OF inv assms(2)] inv
        by (cases p) (auto simp: a net_moved_def)
      then obtain t where t: "run_net (on_network env) answers p ?s = Some (Inr t)" "net_moved ?s t"
        "p = Net_Try_Write \<longrightarrow> write_wired ?s \<longrightarrow> drained t" "p = Net_Try_Write \<or> t = ?s" by blast
      have "sys_inv env (settle t (y\<lparr>sy_net := ps, sy_late := sy_late y \<or> sy_closed y \<and> p = Net_Try_Write\<rparr>))"
        using t(3,4) nostart assms(3) by (intro moved_inv [OF assms(1) t(2)]) auto
      with t(1) False show ?thesis by (simp add: y)
    qed
  qed
qed

text \<open>So does a head of the worker queue, but for a processing that meets an exactly full ring.\<close>

definition ring_full :: "tcp_socket \<Rightarrow> bool" where
  "ring_full s \<longleftrightarrow> length (received s) = unat (rb_capacity (tsw_receiver_buffer s))"

lemma emit_work:
  assumes "system_env env" "conn_inv s"
  shows "\<exists>t. emit (on_worker env) sig s = Inr t \<and> worked s t \<and> same_events s t \<and> received t = received s \<and>
    (packets_of [sig] = [] \<longrightarrow> told (on_worker env) [] s t)"
proof -
  have "ring_inv (tsw_sender_buffer s)" "ring_inv (tsw_receiver_buffer s)"
    using assms(2) by (auto elim: conn_invE)
  from emit_posting [OF system_env_work(1) [OF assms(1)] this] show ?thesis by fastforce
qed

text \<open>The packets a head of the worker queue hands over.\<close>

definition work_packets :: "tcp_env \<Rightarrow> tcp_post \<Rightarrow> tcp_socket \<Rightarrow> byte list list" where
  "work_packets env p s =
     (if p = Work_Process_Buffered then fst (parse_frames (env_le env) (received s)) else [])"

lemma run_work_ok:
  assumes "system_env env" "conn_inv s" "p = Work_Process_Buffered \<longrightarrow> \<not> ring_full s"
  shows "\<exists>t ps. run_work (on_worker env) p s = Inr t \<and> queued ps s t \<and> conn_inv t \<and> tsw_state t = tsw_state s \<and>
    (tsw_share_this_helper t = tsw_share_this_helper s \<or> p = Work_Destroy_Socket) \<and>
    (same_events s t \<or> both_off s t \<and> meets_illegal env p s) \<and>
    (if p = Work_Process_Buffered then received t = fst (snd (parse_frames (env_le env) (received s)))
     else received t = received s) \<and> tsw_wire t = tsw_wire s \<and>
    told (on_worker env) (work_packets env p s) s t"
proof -
  have inv: "ring_inv (tsw_sender_buffer s)" "ring_inv (tsw_receiver_buffer s)"
    using assms(2) by (auto elim: conn_invE)
  have idle: "queued [] s s" "same_events s s" "told (on_worker env) [] s s"
    using queued_refl [OF inv(1)] told_refl by (simp_all add: same_events_def)
  have out: "\<exists>t ps. emit (on_worker env) sig s = Inr t \<and> queued ps s t \<and> conn_inv t \<and>
      tsw_state t = tsw_state s \<and> tsw_share_this_helper t = tsw_share_this_helper s \<and>
      same_events s t \<and> received t = received s \<and> tsw_wire t = tsw_wire s \<and>
      (packets_of [sig] = [] \<longrightarrow> told (on_worker env) [] s t)" for sig
    using emit_work [OF assms(1,2), of sig] worked_conn_inv [OF assms(2)]
    unfolding worked_def by blast
  show ?thesis
  proof (cases p)
    case Work_Process_Buffered
    then have "length (received s) < unat (rb_capacity (tsw_receiver_buffer s))"
      using assms(3) ring_length_le [OF inv(2)] by (simp add: ring_full_def)
    from process_posting [OF system_env_work(1) [OF assms(1)] assms(2) this] obtain t where
      t: "TryProcessBufferedDataInWorkLoop (on_worker env) s = Inr t" "worked s t"
      "told (on_worker env) (fst (parse_frames (env_le env) (received s))) s t"
      "received t = fst (snd (parse_frames (env_le env) (received s)))"
      "same_events s t \<or> both_off s t \<and> snd (snd (parse_frames (env_le env) (received s)))"
      unfolding system_env_work(2) [OF assms(1)] by blast
    have "conn_inv t" using worked_conn_inv [OF assms(2) t(2)] t(5) by blast
    moreover obtain ps where "queued ps s t" using t(2) by (auto simp: worked_def)
    ultimately show ?thesis
      using t Work_Process_Buffered by (intro exI [of _ t] exI [of _ ps]) (auto simp: worked_def meets_illegal_def work_packets_def)
  next
    case Work_Destroy_Socket
    with idle assms(2) show ?thesis
      by (auto simp: OnDestroySocket_def conn_inv_history queued_def same_events_def work_packets_def told_def hears_def)
  next
    case Work_Close_Signal
    with out [of Signal_On_Close] show ?thesis by (auto simp: work_packets_def)
  next
    case Work_Connected_Signal
    with out [of Signal_On_Connected] show ?thesis by (auto simp: work_packets_def)
  qed (use idle assms(2) in \<open>auto simp: work_packets_def intro: exI [of _ "[]"]\<close>)
qed

lemma work_step_ok:
  assumes "sys_inv env y" "system_env env" "sy_work y = p # ps"
    "p = Work_Process_Buffered \<longrightarrow> \<not> ring_full (sy_socket y)"
  shows "\<exists>s. run_work (on_worker env) p (sy_socket y) = Inr s \<and>
    sys_inv env (settle s (note_output s (y\<lparr>sy_work := ps,
      sy_broken := sy_broken y \<or> meets_illegal env p (sy_socket y)\<rparr>)))"
proof -
  let ?s = "sy_socket y"
  have inv: "conn_inv ?s" using assms(1) by (simp add: sys_inv_def)
  from run_work_ok [OF assms(2) inv assms(4)] obtain t qs where
    t: "run_work (on_worker env) p ?s = Inr t" "queued qs ?s t" "conn_inv t" "tsw_state t = tsw_state ?s"
    "tsw_share_this_helper t = tsw_share_this_helper ?s \<or> p = Work_Destroy_Socket"
    "same_events ?s t \<or> both_off ?s t \<and> meets_illegal env p ?s"
    "if p = Work_Process_Buffered then received t = fst (snd (parse_frames (env_le env) (received ?s)))
     else received t = received ?s" by blast
  have h: "tsw_share_this_helper t = tsw_share_this_helper ?s \<or> sy_closed y"
    using t(5) assms(1,3) by (auto simp: sys_inv_def close_ok_def)
  have w: "set ps \<subseteq> set (sy_work y)" using assms(3) by auto
  have input: "Work_Process_Buffered \<in> set ps" if "fst (parse_frames (env_le env) (received t)) \<noteq> []"
    using that t(7) assms(1,3) parse_frames_idem
    by (auto simp: sys_inv_def input_ok_def split: if_splits)
  from worker_inv [OF assms(1) t(2-4) h t(6) w input] t(1) show ?thesis by blast
qed

text \<open>A registered event fires without a fault.\<close>

lemma event_inv:
  assumes "sys_inv env y" "net_moved (sy_socket y) t" "\<not> all_off (sy_socket y)"
  shows "sys_inv env (settle t y)"
proof -
  have "sy_closed y \<Longrightarrow> sy_late y"
    using assms(1,3) by (auto simp: sys_inv_def close_ok_def)
  then have "sys_inv env (settle t (y\<lparr>sy_net := sy_net y, sy_late := sy_late y \<or> False\<rparr>))"
    using assms(3) by (intro moved_inv [OF assms(1,2)]) auto
  then show ?thesis by simp
qed

lemma taken_irrelevant: "sys_inv env (settle t (note_input s y)) = sys_inv env (settle t y)"
  by (simp add: note_input_def sys_inv_def start_ok_def close_ok_def input_ok_def output_ok_def cong: list.case_cong)

lemma user_inv:
  assumes "sys_inv env y" "queued ps (sy_socket y) t"
    "\<exists>r qs. t = (sy_socket y)\<lparr>tsw_sender_buffer := r, tsw_posts := qs\<rparr>"
  shows "sys_inv env (settle t (note_output t y))"
proof -
  let ?s = "sy_socket y"
  obtain r qs where t: "t = ?s\<lparr>tsw_sender_buffer := r, tsw_posts := qs\<rparr>" using assms(3) by blast
  have "conn_inv t" using assms(1,2) t by (auto simp: sys_inv_def conn_inv_def queued_def)
  moreover have "same_events ?s t" by (simp add: t same_events_def)
  moreover have "fst (parse_frames (env_le env) (received t)) \<noteq> [] \<Longrightarrow> Work_Process_Buffered \<in> set (sy_work y)"
    using assms(1) t by (simp add: sys_inv_def input_ok_def)
  ultimately have "sys_inv env (settle t (note_output t (y\<lparr>sy_work := sy_work y, sy_broken := sy_broken y \<or> False\<rparr>)))"
    using t by (intro worker_inv [OF assms(1,2)]) auto
  then show ?thesis by simp
qed

lemma sys_inv_socket:
  assumes "sys_inv env y"
  shows "conn_inv (sy_socket y)" "ring_inv (tsw_sender_buffer (sy_socket y))"
  using assms by (auto simp: sys_inv_def elim: conn_invE)

lemma registered_on:
  "read_registered s \<Longrightarrow> \<not> all_off s" "write_pending s \<Longrightarrow> \<not> all_off s"
  by (simp_all add: all_off_def)

lemma sys_step_inv:
  assumes "system_env env" "sys_inv env y" "sys_step env y z"
  shows "sys_inv env z"
proof -
  note parts = sys_inv_socket [OF assms(2)]
  show ?thesis
    using assms(3)
  proof (cases rule: sys_step.cases)
    case (user_send len data ok d s)
    from SendData_any [OF parts(2) user_send(2,3), of "on_user env"] user_send(4) obtain r ps where
      "s = (sy_socket y)\<lparr>tsw_sender_buffer := r, tsw_posts := tsw_posts (sy_socket y) @ ps\<rparr>"
      "queued ps (sy_socket y) s"
      by (auto simp: on_user_def)
    with user_inv [OF assms(2)] user_send(1) show ?thesis by blast
  next
    case (user_send_head buff ok s)
    from SendDataWithHead_any [OF parts(2) user_send_head(2), of "on_user env"] user_send_head(3) obtain r where
      s: "s = post Net_Try_Write ((sy_socket y)\<lparr>tsw_sender_buffer := r\<rparr>)" "queued [Net_Try_Write] (sy_socket y) s"
      by (auto simp: on_user_def)
    have "\<exists>r qs. s = (sy_socket y)\<lparr>tsw_sender_buffer := r, tsw_posts := qs\<rparr>"
      using s(1) by (auto simp: post_def)
    with user_inv [OF assms(2) s(2)] user_send_head(1) show ?thesis by blast
  next
    case user_close
    let ?t = "CloseConnection (on_user env) (sy_socket y)"
    have t: "?t = (sy_socket y)\<lparr>tsw_sender_buffer := tsw_sender_buffer (sy_socket y),
        tsw_posts := tsw_posts (sy_socket y) @ [Net_Close_Connection]\<rparr>"
      by (simp add: CloseConnection_def on_user_def post_def)
    have q: "queued [Net_Close_Connection] (sy_socket y) ?t" unfolding t using parts(2) by (simp add: queued_def)
    have "sys_inv env (settle ?t (note_output ?t y))"
      using t by (intro user_inv [OF assms(2) q]) blast
    moreover have "note_output ?t y = y" unfolding t by (intro note_output_same) simp
    ultimately show ?thesis using user_close by simp
  next
    case (net p ps answers s)
    with net_step_ok [OF assms(2,1) net(2), of answers] show ?thesis by auto
  next
    case (work p ps s)
    have "p = Work_Process_Buffered \<longrightarrow> \<not> ring_full (sy_socket y)"
      using work(3) process_full by (auto simp: ring_full_def)
    from work_step_ok [OF assms(2,1) work(2) this] work show ?thesis by auto
  next
    case (readable answer s)
    with fire_read_net [OF parts(1) readable(2) assms(1), of answer] event_inv [OF assms(2)] registered_on
    show ?thesis by (auto simp: taken_irrelevant)
  next
    case (writable so_error s)
    with fire_write_net [OF parts(1) writable(2) assms(1), of EV_WRITE so_error] event_inv [OF assms(2)]
      registered_on
    show ?thesis by auto
  next
    case (connect_timeout s)
    with fire_write_net [OF parts(1) connect_timeout(2) assms(1), of EV_TIMEOUT 0] event_inv [OF assms(2)]
      registered_on
    show ?thesis by auto
  qed
qed

interpretation tcp_system_runs: invariant_system "sys_step env" "\<lambda>y. system_env env \<and> sys_inv env y" for env
  by unfold_locales (use sys_step_inv in blast)

lemma sys_start_inv:
  assumes "sys_start env y"
  shows "sys_inv env y"
proof -
  have new: "conn_inv (TcpSocketWrapper_new g1 g2)" for g1 g2 by (rule conn_inv_new)
  have empty: "ring_contents (RingBuffer_new g c) = []" for g c
    by (simp add: ring_contents_def RingBuffer_new_def circ_def)
  from assms obtain g1 g2 a b c s where y: "y = system_of s"
    "(\<exists>ip port. s = post Net_Connect_Server ((TcpSocketWrapper_new g1 g2)\<lparr>tsw_SignalReadPacket := a,
        tsw_SignalOnCloseEvent := b, tsw_SignalOnConnected := c, tsw_remote_addr := (ip, port),
        tsw_share_this_helper := True\<rparr>)) \<or>
     (\<exists>cfd addr. s = post (Net_Begin_Process cfd) ((TcpSocketWrapper_new g1 g2)\<lparr>tsw_SignalReadPacket := a,
        tsw_SignalOnCloseEvent := b, tsw_SignalOnConnected := c, tsw_remote_addr := addr\<rparr>))"
    by (auto simp: sys_start_def BeginConnect_def BeginProcess_def on_user_def Let_def) blast+
  then show ?thesis
    using new [of g1 g2] empty
    by (auto simp: sys_inv_def system_of_def start_ok_def close_ok_def input_ok_def output_ok_def
      TcpSocketWrapper_new_def events_set_def all_off_def drained_def read_registered_def
      write_pending_def event_zero_def post_def conn_inv_def)
qed

lemma reachable_inv:
  assumes "sys_start env y" "(sys_step env)\<^sup>*\<^sup>* y z" "system_env env"
  shows "sys_inv env z"
  using tcp_system_runs.run_inv [OF assms(2)] sys_start_inv [OF assms(1)] assms(3) by blast

section \<open>Output that was added before the connection was up\<close>

text \<open>
  When the connect completes, the write event becomes the one that writes and is not added: what is
  in the sending ring by then stays there until the user sends again.
\<close>

lemma early_output_stays:
  assumes "tsw_socket_read_event s = Some e" "tsw_socket_write_event s = Some f"
    "ev_callback f = Some (On_Connection, True)" "ev_events f = EV_WRITE OR EV_TIMEOUT"
    "\<not> env_in_worker env" "Net_Try_Write \<notin> set (tsw_posts s)"
  shows "\<exists>t. fire_write env 0 EV_WRITE s = Some (Inr t) \<and> tsw_state t = CS_CONNECTED \<and>
    unsent t = unsent s \<and> \<not> write_pending t \<and> Net_Try_Write \<notin> set (tsw_posts t)"
proof -
  have "(EV_WRITE OR EV_TIMEOUT) AND EV_PERSIST = 0"
    by (simp add: EV_WRITE_def EV_TIMEOUT_def EV_PERSIST_def)
  then have fired: "event_fired f = f\<lparr>ev_added := False\<rparr>" using assms(4) by (simp add: event_fired_def)
  let ?s = "s\<lparr>tsw_socket_write_event := Some (event_fired f)\<rparr>"
  have "fire_write env 0 EV_WRITE s = Some (ClientConnected env ?s)"
    using assms(2,3) by (simp add: fire_write_def OnConnection_def)
  with ClientConnected_net [of ?s e "event_fired f" env] assms(1,5,6) show ?thesis
    by (auto simp: fired write_pending_def)
qed

end
