(* ===== verification/Tcp_Pair.thy ===== *)
theory Tcp_Pair
  imports Tcp_Loops
begin

text \<open>
  Two connected sockets, each with its loops and its user, and the bytes between them. What one end
  puts into its sending ring is a stream of bytes; the other end's callback is handed that stream
  cut into frames, whatever the interleaving.
\<close>

section \<open>The output of a socket\<close>

text \<open>
  \<open>kept s t\<close>: output moves from the sending ring to the wire and nowhere else, and nothing is
  received or handed over.
\<close>

definition kept :: "tcp_socket \<Rightarrow> tcp_socket \<Rightarrow> bool" where
  "kept s t \<longleftrightarrow> tsw_signals t = tsw_signals s \<and> tsw_SignalReadPacket t = tsw_SignalReadPacket s \<and>
     tsw_receiver_buffer t = tsw_receiver_buffer s \<and> prefix (tsw_wire s) (tsw_wire t) \<and>
     tsw_wire t @ unsent t = tsw_wire s @ unsent s"

definition kept_both :: "tcp_socket \<Rightarrow> tcp_socket \<Rightarrow> bool" where
  "kept_both s t \<longleftrightarrow> tsw_signals t = tsw_signals s \<and> tsw_SignalReadPacket t = tsw_SignalReadPacket s \<and>
     tsw_receiver_buffer t = tsw_receiver_buffer s \<and> tsw_sender_buffer t = tsw_sender_buffer s \<and>
     tsw_wire t = tsw_wire s"

lemma kept_both: "kept_both s t \<Longrightarrow> kept s t"
  by (simp add: kept_def kept_both_def)

lemma kept_trans: "kept s t \<Longrightarrow> kept t u \<Longrightarrow> kept s u"
  by (auto simp: kept_def)

lemma OnErrorEvent_kept:
  assumes "OnErrorEvent env s = Inr t" "\<not> env_in_worker env"
  shows "kept_both s t"
  using assms
  by (auto simp: OnErrorEvent_def rbind_eq_Inr on_read_event_def on_write_event_def post_def
    kept_both_def Let_def split: option.splits if_splits)

lemma on_write_event_kept:
  assumes "on_write_event f s = Inr t"
  shows "kept_both s t"
  using assms by (auto simp: on_write_event_def kept_both_def split: option.splits)

lemma try_write_kept:
  assumes "try_write_loop env n s = Some (Inr t)" "ring_inv (tsw_sender_buffer s)"
    "unat n = ring_series_read (tsw_sender_buffer s)" "kernel_ok env" "\<not> env_in_worker env"
  shows "kept s t"
  using assms(1-3)
proof (induction "length (unsent s)" arbitrary: s n rule: less_induct)
  case less
  show ?case
  proof (cases "n > 0")
    case False
    with less.prems(1) have "t = s" by (subst (asm) try_write_loop.simps) simp
    then show ?thesis by (simp add: kept_def)
  next
    case True
    obtain k en where k: "env_send env (tsw_sends s) (take (unat n) (unsent s)) = (k, en)"
      by (cases "env_send env (tsw_sends s) (take (unat n) (unsent s))") auto
    note step = try_write_step [OF less.prems(2,3) True assms(4) k]
    let ?s = "s\<lparr>tsw_sends := Suc (tsw_sends s)\<rparr>"
    have s: "kept_both s ?s" by (simp add: kept_both_def)
    show ?thesis
    proof (cases "k < 0")
      case True
      have "kept_both ?s t"
        using step(1) [OF True] less.prems(1) assms(5) OnErrorEvent_kept on_write_event_kept
        by (auto split: if_splits)
      with s show ?thesis using kept_trans kept_both by blast
    next
      case False
      from step(2) [OF False] obtain r n' where r: "ring_inv r"
        "ring_contents r = drop (nat k) (unsent s)" "unat n' = ring_series_read r" "1 \<le> nat k"
        "nat k \<le> length (unsent s)"
        "try_write_loop env n s = try_write_loop env n'
          (?s\<lparr>tsw_sender_buffer := r, tsw_wire := tsw_wire s @ take (nat k) (unsent s)\<rparr>)"
        by auto
      let ?t = "?s\<lparr>tsw_sender_buffer := r, tsw_wire := tsw_wire s @ take (nat k) (unsent s)\<rparr>"
      have l: "length (unsent ?t) < length (unsent s)"
        using r(2,4,5) by (simp del: length_ring_contents)
      have "kept ?t t" using less.hyps [OF l] r(1,3,6) less.prems(1) by simp
      moreover have "kept s ?t" using r(2) by (simp add: kept_def)
      ultimately show ?thesis using kept_trans by blast
    qed
  qed
qed

lemma TryWrite_kept:
  assumes "TryWriteBufferToSocket env s = Some (Inr t)" "ring_inv (tsw_sender_buffer s)" "kernel_ok env"
    "\<not> env_in_worker env"
  shows "kept s t"
proof -
  obtain n where "ring_AvailableSeriesRead (tsw_sender_buffer s) = Inr n"
    "unat n = ring_series_read (tsw_sender_buffer s)"
    using ring_AvailableSeriesRead_ok [OF assms(2)] by blast
  with try_write_kept [OF _ assms(2) _ assms(3,4)] assms(1) show ?thesis
    by (simp add: TryWriteBufferToSocket_def)
qed

lemma fire_write_kept:
  assumes "fire_write env so_error event s = Some (Inr t)" "ring_inv (tsw_sender_buffer s)"
    "kernel_ok env" "\<not> env_in_worker env"
  shows "kept s t"
proof -
  obtain f where f: "tsw_socket_write_event s = Some f"
    using assms(1) by (auto simp: fire_write_def split: option.splits)
  let ?s = "s\<lparr>tsw_socket_write_event := Some (event_fired f)\<rparr>"
  have s: "kept s ?s" by (simp add: kept_def)
  have "kept_both ?s t" if "ClientConnected env ?s = Inr t"
    using that assms(4)
    by (auto simp: ClientConnected_def rbind_eq_Inr on_read_event_def on_write_event_def
      post_def kept_both_def Let_def split: if_splits option.splits)
  then have conn: "kept ?s t" if "OnConnection env so_error event a ?s = Inr t" for a
    using that OnErrorEvent_kept [OF _ assms(4)]
    by (intro kept_both) (auto simp: OnConnection_def kept_both_def split: if_splits)
  have "kept ?s t" if "OnWriteEvent env a ?s = Some (Inr t)" for a
    using that TryWrite_kept [of env ?s t] assms(2-4)
    by (auto simp: OnWriteEvent_def kept_def split: if_splits)
  with conn assms(1) f have "kept ?s t"
    by (auto simp: fire_write_def Let_def split: option.splits prod.splits tcp_callback.splits)
  with s show ?thesis using kept_trans by blast
qed

lemma start_kept:
  assumes "\<not> env_in_worker env"
  shows "ConnectServerInNetworkLoop env fd conn s = Inr t \<Longrightarrow> kept_both s t"
    and "BeginProcessInNetworkLoop env nb cfd s = Inr t \<Longrightarrow> kept_both s t"
proof -
  note err = OnErrorEvent_kept [OF _ assms]
  show "ConnectServerInNetworkLoop env fd conn s = Inr t \<Longrightarrow> kept_both s t"
    by (auto simp: ConnectServerInNetworkLoop_def rbind_eq_Inr on_read_event_def on_write_event_def
      kept_both_def Let_def split: option.splits if_splits dest!: err)
  show "BeginProcessInNetworkLoop env nb cfd s = Inr t \<Longrightarrow> kept_both s t"
    by (auto simp: BeginProcessInNetworkLoop_def rbind_eq_Inr on_read_event_def on_write_event_def
      kept_both_def Let_def split: option.splits if_splits dest!: err)
qed

lemma run_net_kept:
  assumes "run_net env answers p s = Some (Inr t)" "ring_inv (tsw_sender_buffer s)" "kernel_ok env"
    "\<not> env_in_worker env"
  shows "kept s t"
proof -
  have "kept_both s s" "kept_both s (CloseConnectionInNetworkLoop env s)"
    using assms(4) by (simp_all add: kept_both_def CloseConnectionInNetworkLoop_def post_def Let_def)
  with assms TryWrite_kept start_kept [OF assms(4)] kept_both show ?thesis
    by (cases answers; cases p) auto
qed

section \<open>The input of a socket\<close>

text \<open>\<open>took s t\<close>: the receiving ring has at most grown, and no packet is handed over.\<close>

definition took :: "tcp_socket \<Rightarrow> tcp_socket \<Rightarrow> bool" where
  "took s t \<longleftrightarrow> tsw_signals t = tsw_signals s \<and> tsw_SignalReadPacket t = tsw_SignalReadPacket s \<and>
     tsw_sender_buffer t = tsw_sender_buffer s \<and> tsw_wire t = tsw_wire s \<and>
     (\<exists>d. received t = received s @ d)"

lemma kept_both_took: "kept_both s t \<Longrightarrow> took s t"
  by (simp add: kept_both_def took_def)

lemma TryRead_took:
  assumes "TryReadDataFromSocket env answer s = Inr t" "ring_inv (tsw_receiver_buffer s)" "\<not> env_in_worker env"
  shows "took s t"
proof -
  obtain n where n: "ring_AvailableSeriesWrite (tsw_receiver_buffer s) = Inr n"
    "unat n = ring_series_write (tsw_receiver_buffer s)"
    using ring_AvailableSeriesWrite_ok [OF assms(2)] by blast
  have err: "took s t" if "OnErrorEvent env s = Inr t \<or> t = s"
    using that OnErrorEvent_kept [OF _ assms(3)] kept_both_took by (auto simp: took_def)
  show ?thesis
  proof (cases answer)
    case (Sys_Error errno)
    with assms(1) n err show ?thesis by (simp add: TryReadDataFromSocket_def split: if_splits)
  next
    case (Sys_Data bytes)
    let ?bs = "take (ring_series_write (tsw_receiver_buffer s)) bytes"
    show ?thesis
    proof (cases "?bs = []")
      case True
      with assms(1) err show ?thesis
        unfolding TryReadDataFromSocket_def Sys_Data by (simp add: n del: take_eq_Nil)
    next
      case False
      have le: "length ?bs \<le> ring_series_write (tsw_receiver_buffer s)" by simp
      then have l: "unat (of_nat (length ?bs) :: u32) = length ?bs"
        by (intro ring_length_lt32 [OF assms(2)]) (auto simp: ring_series_write_def)
      obtain d r' where d: "mem_write (rb_data (tsw_receiver_buffer s))
          (unat (ring_CurrentSeriesWriteHead (tsw_receiver_buffer s))) ?bs = Inr d"
        "ring_ConsumeSeriesWriteLen ((tsw_receiver_buffer s)\<lparr>rb_data := d\<rparr>) (of_nat (length ?bs)) = Inr r'"
        "ring_contents r' = received s @ ?bs"
        using ring_series_write_ok [OF assms(2) l le] by blast
      have "TryReadDataFromSocket env answer s =
          Inr (post Work_Process_Buffered (s\<lparr>tsw_receiver_buffer := r'\<rparr>))"
        unfolding TryReadDataFromSocket_def Sys_Data
        using False d(1,2) n by (simp del: length_take take_eq_Nil)
      with assms(1) d(3) show ?thesis by (auto simp: took_def post_def)
    qed
  qed
qed

lemma fire_read_took:
  assumes "fire_read env answer s = Inr t" "conn_inv s" "read_registered s" "\<not> env_in_worker env"
  shows "took s t"
proof -
  from assms(2,3) obtain e f where ev: "tsw_socket_read_event s = Some e" "ev_added e"
    "conn_events (tsw_state s) e f"
    by (auto simp: read_registered_def elim!: conn_invE)
  then obtain a where a: "ev_callback e = Some (On_Read_Event, a)" by (auto simp: conn_events_def)
  let ?s = "s\<lparr>tsw_socket_read_event := Some (event_fired e)\<rparr>"
  have "ring_inv (tsw_receiver_buffer ?s)" using assms(2) by (auto elim: conn_invE)
  from TryRead_took [OF _ this assms(4)] a ev(1) assms(1) have "took ?s t"
    by (auto simp: fire_read_def OnReadEvent_def took_def Let_def split: if_splits)
  then show ?thesis by (simp add: took_def)
qed

section \<open>One step of a system\<close>

text \<open>
  \<open>hands_over env d ps s t\<close>: \<open>d\<close> has arrived and the packets \<open>ps\<close> were cut off and handed over, if the
  packet function was set; so the frames that lay in the ring, or begin in it, are those cut off and
  those that are still to come.
\<close>

definition hands_over :: "tcp_env \<Rightarrow> byte list \<Rightarrow> byte list list \<Rightarrow> tcp_socket \<Rightarrow> tcp_socket \<Rightarrow> bool" where
  "hands_over env d ps s t \<longleftrightarrow> (listening env \<longrightarrow> hears ps s t) \<and>
     (\<forall>ys. parse_frames (env_le env) (received s @ d @ ys) =
        prepend ps (parse_frames (env_le env) (received t @ ys)))"

definition flows :: "tcp_env \<Rightarrow> tcp_system \<Rightarrow> tcp_system \<Rightarrow> bool" where
  "flows env y z \<longleftrightarrow> prefix (tsw_wire (sy_socket y)) (tsw_wire (sy_socket z)) \<and> (\<exists>out d ps.
     sy_output z = sy_output y @ out \<and> sy_taken z = sy_taken y @ d \<and>
     tsw_wire (sy_socket z) @ unsent (sy_socket z) = tsw_wire (sy_socket y) @ unsent (sy_socket y) @ out \<and>
     hands_over env d ps (sy_socket y) (sy_socket z))"

lemma flows_kept:
  assumes "kept (sy_socket y) t" "sy_output x = sy_output y" "sy_taken x = sy_taken y"
  shows "flows env y (settle t x)"
  unfolding flows_def
  using assms by (intro conjI exI [of _ "[]"]) (simp_all add: kept_def hands_over_def hears_def)

lemma flows_took:
  assumes "took (sy_socket y) t"
  shows "flows env y (settle t (note_input t y))"
proof -
  obtain d where "received t = received (sy_socket y) @ d" using assms by (auto simp: took_def)
  with assms show ?thesis
    unfolding flows_def
    by (intro conjI exI [of _ "[]"] exI [of _ d])
      (simp_all add: took_def hands_over_def hears_def note_input_def del: length_ring_contents)
qed

lemma flows_queued:
  assumes "queued qs (sy_socket y) t" "tsw_wire t = tsw_wire (sy_socket y)"
    "hands_over env [] ps (sy_socket y) t" "sy_socket x = sy_socket y" "sy_output x = sy_output y"
    "sy_taken x = sy_taken y"
  shows "flows env y (settle t (note_output t x))"
proof -
  obtain d where "unsent t = unsent (sy_socket y) @ d" using assms(1) by (auto simp: queued_def)
  with assms(2-6) show ?thesis
    unfolding flows_def
    by (intro conjI exI [of _ "[]"] exI [of _ d] exI [of _ ps])
      (simp_all add: hands_over_def hears_def del: length_ring_contents)
qed

lemma work_hands_over:
  assumes "told (on_worker env) (work_packets env p s) s t"
    "if p = Work_Process_Buffered then received t = fst (snd (parse_frames (env_le env) (received s)))
     else received t = received s"
  shows "hands_over env [] (work_packets env p s) s t"
  using assms parse_frames_append [of "env_le env" "received s"]
  by (auto simp: hands_over_def told_def listening_def on_worker_def work_packets_def split: if_splits)

lemma sys_step_flows:
  assumes "system_env env" "sys_inv env y" "sys_step env y z"
  shows "flows env y z"
proof -
  note parts = sys_inv_socket [OF assms(2)]
  note env = system_env_net [OF assms(1)]
  have k: "kernel_ok (on_network env)" "\<not> env_in_worker (on_network env)" using env by simp_all
  show ?thesis
    using assms(3)
  proof (cases rule: sys_step.cases)
    case (user_send len data ok d s)
    from SendData_any [OF parts(2) user_send(2,3), of "on_user env"] user_send(4) obtain r ps where
      s: "s = (sy_socket y)\<lparr>tsw_sender_buffer := r, tsw_posts := tsw_posts (sy_socket y) @ ps\<rparr>"
      "queued ps (sy_socket y) s"
      by (auto simp: on_user_def)
    have "tsw_wire s = tsw_wire (sy_socket y)" "hands_over env [] [] (sy_socket y) s"
      by (simp_all add: s(1) hands_over_def hears_def)
    from flows_queued [OF s(2) this] user_send(1) show ?thesis by simp
  next
    case (user_send_head buff ok s)
    from SendDataWithHead_any [OF parts(2) user_send_head(2), of "on_user env"] user_send_head(3) obtain r where
      s: "s = post Net_Try_Write ((sy_socket y)\<lparr>tsw_sender_buffer := r\<rparr>)" "queued [Net_Try_Write] (sy_socket y) s"
      by (auto simp: on_user_def)
    have "tsw_wire s = tsw_wire (sy_socket y)" "hands_over env [] [] (sy_socket y) s"
      by (simp_all add: s(1) post_def hands_over_def hears_def)
    from flows_queued [OF s(2) this] user_send_head(1) show ?thesis by simp
  next
    case user_close
    have "kept_both (sy_socket y) (CloseConnection (on_user env) (sy_socket y))"
      by (simp add: kept_both_def CloseConnection_def on_user_def post_def)
    with user_close show ?thesis by (auto intro: flows_kept kept_both)
  next
    case (net p ps answers s)
    with run_net_kept [OF net(3) parts(2) k] show ?thesis by (auto intro: flows_kept)
  next
    case (work p ps s)
    have "p = Work_Process_Buffered \<longrightarrow> \<not> ring_full (sy_socket y)"
      using work(3) process_full by (auto simp: ring_full_def)
    from run_work_ok [OF assms(1) parts(1) this] work(3) obtain qs where q: "queued qs (sy_socket y) s"
      "tsw_wire s = tsw_wire (sy_socket y)" "told (on_worker env) (work_packets env p (sy_socket y)) (sy_socket y) s"
      "if p = Work_Process_Buffered then received s = fst (snd (parse_frames (env_le env) (received (sy_socket y))))
       else received s = received (sy_socket y)" by auto
    from flows_queued [OF q(1,2) work_hands_over [OF q(3,4)]] work(1) show ?thesis by simp
  next
    case (readable answer s)
    with fire_read_took [OF readable(3) parts(1) readable(2) k(2)] show ?thesis by (auto intro: flows_took)
  next
    case (writable so_error s)
    with fire_write_kept [OF writable(3) parts(2) k] show ?thesis by (auto intro: flows_kept)
  next
    case (connect_timeout s)
    with fire_write_kept [OF connect_timeout(4) parts(2) k] show ?thesis by (auto intro: flows_kept)
  qed
qed

section \<open>A system and its streams\<close>

text \<open>
  Between the two ends of a run: no output is lost or reordered, and the packets cut off are the
  frames of what was taken, up to those that still lie in the ring. They were handed over, up to
  where the packet function was cleared.
\<close>

definition relays :: "bool \<Rightarrow> byte list \<Rightarrow> byte list \<Rightarrow> byte list \<Rightarrow> byte list list \<Rightarrow> bool \<Rightarrow> byte list \<Rightarrow> byte list \<Rightarrow> bool" where
  "relays le wire rest arrived packets reading out taken \<longleftrightarrow> wire @ rest = out \<and>
     (\<exists>cut. (\<forall>ys. parse_frames le (taken @ ys) = prepend cut (parse_frames le (arrived @ ys))) \<and>
        prefix packets cut \<and> (reading \<longrightarrow> packets = cut))"

definition carries :: "bool \<Rightarrow> tcp_socket \<Rightarrow> byte list \<Rightarrow> byte list \<Rightarrow> bool" where
  "carries le s out taken \<longleftrightarrow> relays le (tsw_wire s) (unsent s) (received s)
     (packets_of (tsw_signals s)) (tsw_SignalReadPacket s) out taken"

lemma relays_step:
  assumes "relays le wire rest arrived (packets_of (tsw_signals s)) (tsw_SignalReadPacket s) out taken"
    "wire' @ rest' = wire @ rest @ new" "hears ps s t"
    "\<And>ys. parse_frames le (arrived @ d @ ys) = prepend ps (parse_frames le (arrived' @ ys))"
  shows "relays le wire' rest' arrived' (packets_of (tsw_signals t)) (tsw_SignalReadPacket t) (out @ new) (taken @ d)"
proof -
  from assms(1) obtain cut where cut: "parse_frames le (taken @ ys) = prepend cut (parse_frames le (arrived @ ys))"
    "prefix (packets_of (tsw_signals s)) cut"
    "tsw_SignalReadPacket s \<longrightarrow> packets_of (tsw_signals s) = cut" for ys
    unfolding relays_def by blast
  from cut(2,3) assms(3) have told: "prefix (packets_of (tsw_signals t)) (cut @ ps)"
    "tsw_SignalReadPacket t \<longrightarrow> packets_of (tsw_signals t) = cut @ ps"
    by (auto simp: hears_def split: if_splits)
  have "parse_frames le ((taken @ d) @ ys) = prepend (cut @ ps) (parse_frames le (arrived' @ ys))" for ys
    using cut(1) [of "d @ ys"] assms(4) by simp
  with told have "\<exists>cut. (\<forall>ys. parse_frames le ((taken @ d) @ ys) = prepend cut (parse_frames le (arrived' @ ys))) \<and>
        prefix (packets_of (tsw_signals t)) cut \<and>
        (tsw_SignalReadPacket t \<longrightarrow> packets_of (tsw_signals t) = cut)" by blast
  moreover have "wire' @ rest' = out @ new"
    unfolding assms(2) using assms(1) by (simp add: relays_def flip: append_assoc)
  ultimately show ?thesis by (simp add: relays_def)
qed

lemma carries_step:
  assumes "carries le s out taken" "tsw_wire t @ unsent t = tsw_wire s @ unsent s @ new" "hears ps s t"
    "\<And>ys. parse_frames le (received s @ d @ ys) = prepend ps (parse_frames le (received t @ ys))"
  shows "carries le t (out @ new) (taken @ d)"
  using assms unfolding carries_def by (rule relays_step)

definition stream_inv :: "tcp_env \<Rightarrow> tcp_system \<Rightarrow> bool" where
  "stream_inv env y \<longleftrightarrow> sys_inv env y \<and> carries (env_le env) (sy_socket y) (sy_output y) (sy_taken y)"

lemma stream_inv_step:
  assumes "system_env env" "listening env" "stream_inv env y" "sys_step env y z"
  shows "stream_inv env z" "prefix (tsw_wire (sy_socket y)) (tsw_wire (sy_socket z))"
    "prefix (sy_taken y) (sy_taken z)"
proof -
  have y: "sys_inv env y" using assms(3) by (simp add: stream_inv_def)
  note f = sys_step_flows [OF assms(1) y assms(4)]
  from f show "prefix (tsw_wire (sy_socket y)) (tsw_wire (sy_socket z))"
    "prefix (sy_taken y) (sy_taken z)" by (auto simp: flows_def)
  from f obtain out d ps where z: "sy_output z = sy_output y @ out" "sy_taken z = sy_taken y @ d"
    "tsw_wire (sy_socket z) @ unsent (sy_socket z) = tsw_wire (sy_socket y) @ unsent (sy_socket y) @ out"
    "hands_over env d ps (sy_socket y) (sy_socket z)" unfolding flows_def by blast
  have "carries (env_le env) (sy_socket z) (sy_output z) (sy_taken z)"
    unfolding z(1,2) using assms(2,3) z(4)
    by (intro carries_step [OF _ z(3)]) (auto simp: stream_inv_def hands_over_def)
  with sys_step_inv [OF assms(1) y assms(4)] show "stream_inv env z" by (simp add: stream_inv_def)
qed

lemma stream_inv_start:
  assumes "sys_start env y"
  shows "stream_inv env y" "sy_taken y = []"
proof -
  from assms obtain g1 g2 a b c s where y: "y = system_of s"
    "(\<exists>ip port. s = post Net_Connect_Server ((TcpSocketWrapper_new g1 g2)\<lparr>tsw_SignalReadPacket := a,
        tsw_SignalOnCloseEvent := b, tsw_SignalOnConnected := c, tsw_remote_addr := (ip, port),
        tsw_share_this_helper := True\<rparr>)) \<or>
     (\<exists>cfd addr. s = post (Net_Begin_Process cfd) ((TcpSocketWrapper_new g1 g2)\<lparr>tsw_SignalReadPacket := a,
        tsw_SignalOnCloseEvent := b, tsw_SignalOnConnected := c, tsw_remote_addr := addr\<rparr>))"
    by (auto simp: sys_start_def BeginConnect_def BeginProcess_def on_user_def Let_def) blast+
  have empty: "ring_contents (RingBuffer_new g c) = []" for g c
    by (simp add: ring_contents_def RingBuffer_new_def circ_def)
  show "stream_inv env y"
    using sys_start_inv [OF assms] y empty
    by (auto simp: stream_inv_def carries_def relays_def system_of_def TcpSocketWrapper_new_def post_def intro!: exI [of _ "[]"])
  show "sy_taken y = []" by (simp add: y(1) system_of_def)
qed

text \<open>A call of \<^verbatim>\<open>SendData\<close> that is accepted puts one frame into the stream.\<close>

lemma user_send_output:
  assumes "sender_ready (sy_socket y)" "is_payload p" "length (h :: byte list) = 2"
    "length p + 4 \<le> ring_free (tsw_sender_buffer (sy_socket y))"
  shows "\<exists>z. sys_step env y z \<and> sy_output z = sy_output y @ frame_of (env_le env) p \<and> sy_taken z = sy_taken y"
proof -
  let ?s = "sy_socket y" and ?len = "of_nat (length p + 2) :: size_t"
  have u: "env_le (on_user env) = env_le env" "\<not> env_in_network (on_user env)" by (simp_all add: on_user_def)
  from SendData_ok [OF assms, of "on_user env"] obtain r d where
    r: "SendData (on_user env) (h @ p) ?len ?s = Some (Inr (True, d, post Net_Try_Write (?s\<lparr>tsw_sender_buffer := r\<rparr>)))"
    "ring_contents r = unsent ?s @ frame_of (env_le env) p"
    by (auto simp: u run_try_write_def)
  let ?t = "post Net_Try_Write (?s\<lparr>tsw_sender_buffer := r\<rparr>)"
  have len: "unat ?len = length (h @ p)"
    using assms(2,3) by (simp add: is_payload_def unat_of_nat del: of_nat_add of_nat_Suc)
  have "sys_step env y (settle ?t (note_output ?t y))"
    using sys_step.user_send [OF len _ r(1)] assms(3) by simp
  then show ?thesis
    using r(2) by (intro exI [of _ "settle ?t (note_output ?t y)"]) (simp add: post_def del: length_ring_contents)
qed

section \<open>Two systems and what is between them\<close>

text \<open>
  A step of the pair is a step of one end. The network delivers to an end what the other has put on
  the wire, in order, and not before it was put there.
\<close>

record tcp_pair =
  pa_left :: tcp_system
  pa_right :: tcp_system

inductive pair_step :: "tcp_env \<Rightarrow> tcp_env \<Rightarrow> tcp_pair \<Rightarrow> tcp_pair \<Rightarrow> bool" for envl envr where
  left: "\<lbrakk> sys_step envl (pa_left p) y; prefix (sy_taken y) (tsw_wire (sy_socket (pa_right p))) \<rbrakk>
     \<Longrightarrow> pair_step envl envr p (p\<lparr>pa_left := y\<rparr>)"
| right: "\<lbrakk> sys_step envr (pa_right p) y; prefix (sy_taken y) (tsw_wire (sy_socket (pa_left p))) \<rbrakk>
     \<Longrightarrow> pair_step envl envr p (p\<lparr>pa_right := y\<rparr>)"

inductive_cases pair_stepE: "pair_step envl envr p q"

definition pair_start :: "tcp_env \<Rightarrow> tcp_env \<Rightarrow> tcp_pair \<Rightarrow> bool" where
  "pair_start envl envr p \<longleftrightarrow> sys_start envl (pa_left p) \<and> sys_start envr (pa_right p)"

definition pair_env :: "tcp_env \<Rightarrow> tcp_env \<Rightarrow> bool" where
  "pair_env envl envr \<longleftrightarrow> system_env envl \<and> system_env envr \<and> listening envl \<and> listening envr \<and>
     env_le envr = env_le envl"

definition linked :: "tcp_system \<Rightarrow> tcp_system \<Rightarrow> bool" where
  "linked y z \<longleftrightarrow> prefix (sy_taken z) (tsw_wire (sy_socket y))"

definition pair_inv :: "tcp_env \<Rightarrow> tcp_env \<Rightarrow> tcp_pair \<Rightarrow> bool" where
  "pair_inv envl envr p \<longleftrightarrow> stream_inv envl (pa_left p) \<and> stream_inv envr (pa_right p) \<and>
     linked (pa_left p) (pa_right p) \<and> linked (pa_right p) (pa_left p)"

lemma pair_step_inv:
  assumes "pair_env envl envr" "pair_inv envl envr p" "pair_step envl envr p q"
  shows "pair_inv envl envr q"
  using assms(3)
proof (rule pair_stepE)
  fix y assume y: "q = p\<lparr>pa_left := y\<rparr>" "sys_step envl (pa_left p) y"
    "prefix (sy_taken y) (tsw_wire (sy_socket (pa_right p)))"
  from stream_inv_step [OF _ _ _ y(2)] assms(1,2) y(1,3) show ?thesis
    by (auto simp: pair_inv_def pair_env_def linked_def intro: prefix_order.trans)
next
  fix y assume y: "q = p\<lparr>pa_right := y\<rparr>" "sys_step envr (pa_right p) y"
    "prefix (sy_taken y) (tsw_wire (sy_socket (pa_left p)))"
  from stream_inv_step [OF _ _ _ y(2)] assms(1,2) y(1,3) show ?thesis
    by (auto simp: pair_inv_def pair_env_def linked_def intro: prefix_order.trans)
qed

interpretation pairs: invariant_system "pair_step envl envr" "\<lambda>p. pair_env envl envr \<and> pair_inv envl envr p"
  for envl envr
  by unfold_locales (use pair_step_inv in blast)

lemma pair_start_inv:
  assumes "pair_start envl envr p"
  shows "pair_inv envl envr p"
proof -
  from assms have s: "sys_start envl (pa_left p)" "sys_start envr (pa_right p)"
    by (simp_all add: pair_start_def)
  show ?thesis
    using stream_inv_start [OF s(1)] stream_inv_start [OF s(2)] by (simp add: pair_inv_def linked_def)
qed

text \<open>What one end has been handed of the other's output.\<close>

lemma carries_output: "carries le s out taken \<Longrightarrow> tsw_wire s @ unsent s = out"
  by (simp add: carries_def relays_def)

lemma relayed_delivers:
  assumes "relays le wire rest arrived packets reading out taken"
    "relays le wire' rest' arrived' packets' reading' out' taken'" "prefix taken' wire"
  shows "prefix packets' (fst (parse_frames le out))"
    and "\<lbrakk> taken' = out; fst (parse_frames le arrived') = []; reading' \<rbrakk> \<Longrightarrow> packets' = fst (parse_frames le out)"
proof -
  obtain tail where "wire = taken' @ tail" using assms(3) by (auto simp: prefix_def)
  then have out: "out = taken' @ tail @ rest" using assms(1) by (simp add: relays_def)
  from assms(2) obtain cut where cut: "parse_frames le (taken' @ ys) = prepend cut (parse_frames le (arrived' @ ys))"
    "prefix packets' cut" "reading' \<longrightarrow> packets' = cut" for ys
    unfolding relays_def by blast
  show "prefix packets' (fst (parse_frames le out))"
    unfolding out cut(1) using cut(2) by simp
  assume "taken' = out" "fst (parse_frames le arrived') = []" "reading'"
  then show "packets' = fst (parse_frames le out)"
    using cut(1) [of "[]"] cut(3) by simp
qed

lemma carried_delivers:
  assumes "carries le s out taken" "carries le t out' taken'" "prefix taken' (tsw_wire s)"
  shows "prefix (packets_of (tsw_signals t)) (fst (parse_frames le out))"
    and "\<lbrakk> taken' = out; fst (parse_frames le (received t)) = []; tsw_SignalReadPacket t \<rbrakk>
      \<Longrightarrow> packets_of (tsw_signals t) = fst (parse_frames le out)"
  using relayed_delivers [OF assms(1) [unfolded carries_def] assms(2) [unfolded carries_def] assms(3)] by blast+

lemma linked_delivers:
  assumes "stream_inv env y" "stream_inv env' z" "linked y z" "env_le env' = env_le env"
  shows "prefix (packets_of (tsw_signals (sy_socket z))) (fst (parse_frames (env_le env) (sy_output y)))"
    and "\<lbrakk> sy_taken z = sy_output y; Work_Process_Buffered \<notin> set (sy_work z); tsw_SignalReadPacket (sy_socket z) \<rbrakk>
      \<Longrightarrow> packets_of (tsw_signals (sy_socket z)) = fst (parse_frames (env_le env) (sy_output y))"
proof -
  have c: "carries (env_le env) (sy_socket y) (sy_output y) (sy_taken y)"
    "carries (env_le env) (sy_socket z) (sy_output z) (sy_taken z)" "prefix (sy_taken z) (tsw_wire (sy_socket y))"
    using assms by (simp_all add: stream_inv_def linked_def)
  show "prefix (packets_of (tsw_signals (sy_socket z))) (fst (parse_frames (env_le env) (sy_output y)))"
    by (rule carried_delivers(1) [OF c])
  assume "sy_taken z = sy_output y" "Work_Process_Buffered \<notin> set (sy_work z)" "tsw_SignalReadPacket (sy_socket z)"
  then show "packets_of (tsw_signals (sy_socket z)) = fst (parse_frames (env_le env) (sy_output y))"
    using assms(2,4) by (intro carried_delivers(2) [OF c]) (auto simp: stream_inv_def sys_inv_def input_ok_def)
qed

lemma stream_output:
  "stream_inv env y \<Longrightarrow> tsw_wire (sy_socket y) @ unsent (sy_socket y) = sy_output y"
  by (simp add: stream_inv_def carries_def relays_def)

end
