(* ===== verification/Tcp_One_Loop.thy ===== *)
theory Tcp_One_Loop
  imports Tcp_Pair
begin

text \<open>
  A socket whose network loop is its worker loop, as in the programs under test: there is one queue,
  and on its thread \<^verbatim>\<open>RunInLoop\<close> calls at once. So a callback that sends writes to the descriptor, one
  that closes has closed when it returns, and a failed write calls the close function from within.
\<close>

section \<open>Callbacks on the only loop\<close>

definition on_loop :: "tcp_env \<Rightarrow> tcp_env" where
  "on_loop env = env\<lparr>env_in_network := True, env_in_worker := True\<rparr>"

text \<open>Output is never lost or reordered: what is on the wire stays, what waits comes after it.\<close>

definition output_grows :: "tcp_socket \<Rightarrow> tcp_socket \<Rightarrow> bool" where
  "output_grows s t \<longleftrightarrow> prefix (tsw_wire s) (tsw_wire t) \<and>
     prefix (tsw_wire s @ unsent s) (tsw_wire t @ unsent t)"

text \<open>What a callback, and what it calls, may do to the socket.\<close>

definition handled :: "tcp_socket \<Rightarrow> tcp_socket \<Rightarrow> bool" where
  "handled s t \<longleftrightarrow> conn_inv t \<and> wiring t = wiring s \<and> tsw_receiver_buffer t = tsw_receiver_buffer s \<and>
     (tsw_state t = tsw_state s \<or> tsw_state t = CS_CLOSED) \<and> hears [] s t \<and> tsw_posts t = tsw_posts s \<and>
     output_grows s t \<and> (tsw_share_this_helper t \<longrightarrow> tsw_share_this_helper s)"

definition attending :: "tcp_env \<Rightarrow> bool" where
  "attending env \<longleftrightarrow> (\<forall>sig s. conn_inv s \<longrightarrow> (\<exists>t. env_signal env sig s = Inr t \<and> handled s t))"

text \<open>What a send needs of them: the close function, which a failed write calls from within.\<close>

definition closing :: "tcp_env \<Rightarrow> bool" where
  "closing env \<longleftrightarrow> (\<forall>s. conn_inv s \<longrightarrow> (\<exists>t. env_signal env Signal_On_Close s = Inr t \<and> handled s t))"

definition loop_env :: "tcp_env \<Rightarrow> bool" where
  "loop_env env \<longleftrightarrow> kernel_ok env \<and> attending env"

lemma output_grows_refl [simp]: "output_grows s s"
  by (simp add: output_grows_def)

lemma output_grows_trans: "output_grows s t \<Longrightarrow> output_grows t u \<Longrightarrow> output_grows s u"
  by (auto simp: output_grows_def intro: prefix_order.trans)

lemma hears_none: "hears [] s t \<longleftrightarrow> packets_of (tsw_signals t) = packets_of (tsw_signals s) \<and>
    (tsw_SignalReadPacket t \<longrightarrow> tsw_SignalReadPacket s)"
  by (auto simp: hears_def)

lemma handled_refl: "conn_inv s \<Longrightarrow> handled s s"
  by (simp add: handled_def hears_none)

lemma handled_inv: "handled s t \<Longrightarrow> conn_inv t"
  by (simp add: handled_def)

lemma handled_trans: "handled s t \<Longrightarrow> handled t u \<Longrightarrow> handled s u"
  by (auto simp: handled_def hears_none intro: output_grows_trans)

lemma attending_on_loop [simp]: "attending (on_loop env) = attending env"
  by (simp add: attending_def on_loop_def)

lemma attending_closing: "attending env \<Longrightarrow> closing env"
  by (simp add: attending_def closing_def)

lemma kernel_on_loop [simp]: "kernel_ok (on_loop env) = kernel_ok env"
  by (simp add: kernel_ok_def on_loop_def)

lemma on_loop_simps [simp]:
  "env_in_network (on_loop env)" "env_in_worker (on_loop env)" "env_le (on_loop env) = env_le env"
  by (simp_all add: on_loop_def)

text \<open>Operations that touch the events, the descriptor, the state and the histories only.\<close>

lemma handled_frame:
  assumes "conn_inv t" "wiring t = wiring s" "tsw_receiver_buffer t = tsw_receiver_buffer s"
    "tsw_state t = tsw_state s \<or> tsw_state t = CS_CLOSED" "tsw_signals t = tsw_signals s"
    "tsw_SignalReadPacket t \<longrightarrow> tsw_SignalReadPacket s" "tsw_posts t = tsw_posts s"
    "tsw_wire t = tsw_wire s" "tsw_sender_buffer t = tsw_sender_buffer s"
    "tsw_share_this_helper t \<longrightarrow> tsw_share_this_helper s"
  shows "handled s t"
  using assms by (simp add: handled_def hears_none output_grows_def)

lemma emit_handled:
  assumes "attending env" "conn_inv s"
  shows "\<exists>t. emit env sig s = Inr t \<and> handled (s\<lparr>tsw_signals := tsw_signals s @ [sig]\<rparr>) t"
  using assms(1) [unfolded attending_def, rule_format, of "s\<lparr>tsw_signals := tsw_signals s @ [sig]\<rparr>" sig] assms(2)
  by (simp add: emit_def conn_inv_history)

lemma emit_close_handled:
  assumes "closing env" "conn_inv s"
  shows "\<exists>t. emit env Signal_On_Close s = Inr t \<and> handled (s\<lparr>tsw_signals := tsw_signals s @ [Signal_On_Close]\<rparr>) t"
  using assms(1) [unfolded closing_def, rule_format, of "s\<lparr>tsw_signals := tsw_signals s @ [Signal_On_Close]\<rparr>"] assms(2)
  by (simp add: emit_def conn_inv_history)

lemma handled_signal:
  assumes "handled (s\<lparr>tsw_signals := tsw_signals s @ [sig]\<rparr>) t" "packets_of [sig] = []"
  shows "handled s t"
  using assms by (simp add: handled_def hears_none output_grows_def wiring_def)

section \<open>The operations\<close>

lemma OnErrorEvent_handled:
  assumes "conn_inv s" "closing env" "env_in_worker env"
  shows "\<exists>t. OnErrorEvent env s = Inr t \<and> handled s t \<and> tsw_state t = CS_CLOSED"
proof -
  from assms(1) obtain e f where ev: "tsw_socket_read_event s = Some e" "tsw_socket_write_event s = Some f"
    "conn_events (tsw_state s) e f" "ring_inv (tsw_sender_buffer s)" "ring_inv (tsw_receiver_buffer s)"
    by (rule conn_invE)
  let ?s = "s\<lparr>tsw_socket_read_event := Some (tcp_event_del e),
    tsw_socket_write_event := Some (tcp_event_del f), tsw_state := CS_CLOSED\<rparr>"
  have "conn_events CS_CLOSED (tcp_event_del e) (tcp_event_del f)"
    using ev(3) by (auto simp: conn_events_def)
  then have "conn_inv ?s" using ev by (simp add: conn_inv_def)
  then have h: "handled s ?s" using ev(1,2) by (intro handled_frame) (simp_all add: wiring_def)
  from emit_close_handled [OF assms(2) handled_inv [OF h]] obtain t where
    t: "emit env Signal_On_Close ?s = Inr t" "handled ?s t" using handled_signal by fastforce
  have "OnErrorEvent env s = Inr (if tsw_SignalOnCloseEvent s then t else ?s)"
    using ev t(1) assms(3) by (simp add: OnErrorEvent_def on_read_event_def on_write_event_def)
  moreover have "tsw_state t = CS_CLOSED" using t(2) by (auto simp: handled_def)
  ultimately show ?thesis using h handled_trans [OF h t(2)] by auto
qed

lemma Close_handled:
  assumes "conn_inv s" "env_in_worker env"
  shows "handled s (CloseConnectionInNetworkLoop env s)" "tsw_state (CloseConnectionInNetworkLoop env s) = CS_CLOSED"
    "\<not> read_registered (CloseConnectionInNetworkLoop env s)" "\<not> write_pending (CloseConnectionInNetworkLoop env s)"
    "\<not> tsw_share_this_helper (CloseConnectionInNetworkLoop env s)"
proof -
  note c = CloseConnection_conn [OF assms(1), of env]
  then show "tsw_state (CloseConnectionInNetworkLoop env s) = CS_CLOSED"
    "\<not> read_registered (CloseConnectionInNetworkLoop env s)" "\<not> write_pending (CloseConnectionInNetworkLoop env s)"
    by simp_all
  show "\<not> tsw_share_this_helper (CloseConnectionInNetworkLoop env s)"
    using assms(2) by (simp add: CloseConnectionInNetworkLoop_def OnDestroySocket_def Let_def)
  have "wiring (CloseConnectionInNetworkLoop env s) = wiring s"
    using assms by (auto simp: CloseConnectionInNetworkLoop_def OnDestroySocket_def wiring_def Let_def elim!: conn_invE)
  with c show "handled s (CloseConnectionInNetworkLoop env s)"
    using assms(2)
    by (intro handled_frame) (simp_all add: CloseConnectionInNetworkLoop_def OnDestroySocket_def Let_def)
qed

lemma add_write_handled:
  assumes "conn_inv s"
  shows "\<exists>t. on_write_event (tcp_event_add None) s = Inr t \<and> handled s t"
proof -
  from assms obtain e f where ev: "tsw_socket_read_event s = Some e" "tsw_socket_write_event s = Some f"
    "conn_events (tsw_state s) e f" "ring_inv (tsw_sender_buffer s)" "ring_inv (tsw_receiver_buffer s)"
    by (rule conn_invE)
  let ?t = "s\<lparr>tsw_socket_write_event := Some (tcp_event_add None f)\<rparr>"
  have "conn_events (tsw_state s) e (tcp_event_add None f)" using ev(3) by (auto simp: conn_events_def)
  then have "conn_inv ?t" using ev by (simp add: conn_inv_def)
  then have "handled s ?t" using ev(2) by (intro handled_frame) (simp_all add: wiring_def)
  then show ?thesis using ev(2) by (simp add: on_write_event_def)
qed

lemma try_write_handled:
  assumes "conn_inv s" "unat n = ring_series_read (tsw_sender_buffer s)"
    "kernel_ok env" "closing env" "env_in_worker env"
  shows "\<exists>t. try_write_loop env n s = Some (Inr t) \<and> handled s t"
  using assms(1,2)
proof (induction "length (unsent s)" arbitrary: s n rule: less_induct)
  case less
  have inv: "ring_inv (tsw_sender_buffer s)" using less.prems(1) by (rule conn_invE)
  show ?case
  proof (cases "n > 0")
    case False
    then show ?thesis using handled_refl [OF less.prems(1)] by (subst try_write_loop.simps) simp
  next
    case pos: True
    obtain k en where k: "env_send env (tsw_sends s) (take (unat n) (unsent s)) = (k, en)"
      by (cases "env_send env (tsw_sends s) (take (unat n) (unsent s))") auto
    note step = try_write_step [OF inv less.prems(2) pos assms(3) k]
    let ?s = "s\<lparr>tsw_sends := Suc (tsw_sends s)\<rparr>"
    have s: "handled s ?s" using less.prems(1) by (intro handled_frame) (simp_all add: conn_inv_history wiring_def)
    show ?thesis
    proof (cases "k < 0")
      case True
      with step(1) OnErrorEvent_handled [OF handled_inv [OF s] assms(4,5)] add_write_handled [OF handled_inv [OF s]]
      show ?thesis using handled_trans [OF s] by fastforce
    next
      case False
      from step(2) [OF False] obtain r n' where r: "ring_inv r"
        "ring_contents r = drop (nat k) (unsent s)" "unat n' = ring_series_read r" "1 \<le> nat k"
        "nat k \<le> length (unsent s)"
        "try_write_loop env n s = try_write_loop env n'
          (?s\<lparr>tsw_sender_buffer := r, tsw_wire := tsw_wire s @ take (nat k) (unsent s)\<rparr>)"
        by auto
      let ?t = "?s\<lparr>tsw_sender_buffer := r, tsw_wire := tsw_wire s @ take (nat k) (unsent s)\<rparr>"
      have l: "length (unsent ?t) < length (unsent s)" using r(2,4,5) by (simp del: length_ring_contents)
      have t: "conn_inv ?t" using less.prems(1) r(1) by (simp add: conn_inv_def)
      have "output_grows s ?t" by (simp add: output_grows_def r(2))
      then have h: "handled s ?t" using t by (simp add: handled_def hears_none wiring_def)
      from less.hyps [OF l t] r(3,6) obtain u where "try_write_loop env n s = Some (Inr u)" "handled ?t u" by auto
      with handled_trans [OF h] show ?thesis by blast
    qed
  qed
qed

lemma TryWrite_handled:
  assumes "conn_inv s" "kernel_ok env" "closing env" "env_in_worker env"
  shows "\<exists>t. TryWriteBufferToSocket env s = Some (Inr t) \<and> handled s t"
proof -
  have "ring_inv (tsw_sender_buffer s)" using assms(1) by (rule conn_invE)
  from ring_AvailableSeriesRead_ok [OF this] obtain n where
    "ring_AvailableSeriesRead (tsw_sender_buffer s) = Inr n"
    "unat n = ring_series_read (tsw_sender_buffer s)" by blast
  with try_write_handled [OF assms(1) _ assms(2-4)] show ?thesis
    by (simp add: TryWriteBufferToSocket_def)
qed

section \<open>Sending from the loop\<close>

lemma ring_grown_handled:
  assumes "conn_inv s" "ring_inv r" "ring_contents r = unsent s @ d"
  shows "handled s (s\<lparr>tsw_sender_buffer := r\<rparr>)"
proof -
  have "conn_inv (s\<lparr>tsw_sender_buffer := r\<rparr>)" using assms(1,2) by (simp add: conn_inv_def)
  then show ?thesis using assms(3) by (simp add: handled_def hears_none wiring_def output_grows_def)
qed

lemma SendDataWithHead_inline:
  assumes "conn_inv s" "length buff < 2 ^ 32" "kernel_ok env" "closing env" "env_in_network env" "env_in_worker env"
  shows "\<exists>t. SendDataWithHead env buff s = Some (Inr (True, t)) \<and> handled s t"
proof -
  have inv: "ring_inv (tsw_sender_buffer s)" using assms(1) by (rule conn_invE)
  have "unat (of_nat (length buff) :: u32) = length buff" using assms(2) by (simp add: unat_of_nat)
  from ring_WriteContent_any [OF inv this] obtain ok r d where
    r: "ring_WriteContent (tsw_sender_buffer s) buff (of_nat (length buff)) = Inr (ok, r)"
    "ring_inv r" "ring_contents r = unsent s @ d" by blast
  have h: "handled s (s\<lparr>tsw_sender_buffer := r\<rparr>)" using ring_grown_handled [OF assms(1) r(2,3)] .
  from TryWrite_handled [OF handled_inv [OF h]] assms(3,4,6) obtain t where
    "TryWriteBufferToSocket env (s\<lparr>tsw_sender_buffer := r\<rparr>) = Some (Inr t)"
    "handled (s\<lparr>tsw_sender_buffer := r\<rparr>) t" by auto
  with r(1) assms(5) handled_trans [OF h] show ?thesis by (auto simp: SendDataWithHead_def run_try_write_def)
qed

lemma SendData_inline:
  assumes "conn_inv s" "unat len = length data" "2 \<le> length data" "kernel_ok env" "closing env" "env_in_network env"
    "env_in_worker env"
  shows "\<exists>ok d t. SendData env data len s = Some (Inr (ok, d, t)) \<and> handled s t"
proof -
  have inv: "ring_inv (tsw_sender_buffer s)" using assms(1) by (rule conn_invE)
  from SendData_forms [OF inv assms(2,3), of env] show ?thesis
  proof (elim disjE exE conjE)
    assume "SendData env data len s = Some (Inr (False, data, s))"
    with handled_refl [OF assms(1)] show ?thesis by blast
  next
    fix d r x
    assume r: "ring_inv r" "ring_contents r = unsent s @ x"
      "SendData env data len s =
         map_option (\<lambda>r. rbind r (\<lambda>s'. Inr (True, d, s'))) (run_try_write env (s\<lparr>tsw_sender_buffer := r\<rparr>))"
    have h: "handled s (s\<lparr>tsw_sender_buffer := r\<rparr>)" using ring_grown_handled [OF assms(1) r(1,2)] .
    from TryWrite_handled [OF handled_inv [OF h]] assms(4,5,7) obtain t where
      "TryWriteBufferToSocket env (s\<lparr>tsw_sender_buffer := r\<rparr>) = Some (Inr t)"
      "handled (s\<lparr>tsw_sender_buffer := r\<rparr>) t" by auto
    with r(3) assms(6) handled_trans [OF h] show ?thesis by (auto simp: run_try_write_def)
  qed
qed

section \<open>Cutting the ring into packets\<close>

text \<open>
  \<open>stepped env d ps s t\<close>: \<open>d\<close> was taken into the receiving ring, and the packets \<open>ps\<close> were cut off and
  handed over, up to where the packet function was cleared; a whole packet in the ring has its
  processing posted, if bytes were taken.
\<close>

definition stepped :: "tcp_env \<Rightarrow> byte list \<Rightarrow> byte list list \<Rightarrow> tcp_socket \<Rightarrow> tcp_socket \<Rightarrow> bool" where
  "stepped env d ps s t \<longleftrightarrow> conn_inv t \<and> output_grows s t \<and> hears ps s t \<and>
     (\<forall>ys. parse_frames (env_le env) (received s @ d @ ys) = prepend ps (parse_frames (env_le env) (received t @ ys))) \<and>
     tsw_posts t = tsw_posts s @ (if d = [] then [] else [Work_Process_Buffered])"

lemma handled_stepped: "handled s t \<Longrightarrow> stepped env [] [] s t"
  by (simp add: handled_def stepped_def prepend_def split: prod.split)

lemma emit_packet_handled:
  assumes "attending env" "conn_inv s"
  shows "\<exists>t. emit_packet env bs s = Inr t \<and> conn_inv t \<and> output_grows s t \<and> hears [bs] s t \<and>
    tsw_receiver_buffer t = tsw_receiver_buffer s \<and> (tsw_share_this_helper t \<longrightarrow> tsw_share_this_helper s) \<and>
    tsw_posts t = tsw_posts s"
proof (cases "tsw_SignalReadPacket s")
  case True
  from emit_handled [OF assms, of "Signal_Read_Packet bs"] obtain t where
    t: "emit env (Signal_Read_Packet bs) s = Inr t" "handled (s\<lparr>tsw_signals := tsw_signals s @ [Signal_Read_Packet bs]\<rparr>) t"
    by blast
  then have "hears [bs] s t" using True by (auto simp: handled_def hears_def)
  with t True show ?thesis
    by (intro exI [of _ t]) (auto simp: emit_packet_def handled_def output_grows_def)
next
  case False
  with assms(2) show ?thesis by (simp add: emit_packet_def hears_def)
qed

lemma ring_irrelevant [simp]:
  "hears ps (s\<lparr>tsw_receiver_buffer := r\<rparr>) t = hears ps s t"
  "hears ps s (t\<lparr>tsw_receiver_buffer := r\<rparr>) = hears ps s t"
  "output_grows (s\<lparr>tsw_receiver_buffer := r\<rparr>) t = output_grows s t"
  "output_grows s (t\<lparr>tsw_receiver_buffer := r\<rparr>) = output_grows s t"
  by (simp_all add: hears_def output_grows_def)

lemma stepped_trans:
  assumes "stepped env [] ps s t" "stepped env [] qs t u"
  shows "stepped env [] (ps @ qs) s u"
  using assms by (auto simp: stepped_def intro: output_grows_trans hears_trans)

text \<open>One round, and the whole loop over a ring that is not exactly full.\<close>

lemma round_attending:
  assumes "attending env" "conn_inv s" "length (received s) < unat (rb_capacity (tsw_receiver_buffer s))"
  shows "(\<exists>t. process_round env s = Inr (False, t) \<and> stepped env [] [] s t \<and> received t = received s \<and>
      fst (parse_frames (env_le env) (received s)) = [] \<and>
      fst (snd (parse_frames (env_le env) (received s))) = received s) \<or>
    (\<exists>t p. process_round env s = Inr (True, t) \<and> stepped env [] [p] s t \<and>
      parse_frames (env_le env) (received s) = prepend [p] (parse_frames (env_le env) (received t)) \<and>
      length (received t) < length (received s) \<and>
      rb_capacity (tsw_receiver_buffer t) = rb_capacity (tsw_receiver_buffer s))"
proof -
  let ?c = "received s" and ?n = "header_of (env_le env) (received s)"
  from assms(2) obtain e f where ev: "tsw_socket_read_event s = Some e" "tsw_socket_write_event s = Some f"
    "conn_events (tsw_state s) e f"
    and inv: "ring_inv (tsw_sender_buffer s)" "ring_inv (tsw_receiver_buffer s)" by (rule conn_invE)
  note forms = process_round_forms [OF inv(2) assms(3), of env]
  consider (stop) "length ?c < 2 \<or> ?n \<noteq> 0 \<and> length ?c < ?n + 2"
    | (illegal) "2 \<le> length ?c" "?n = 0" | (whole) "?n \<noteq> 0" "?n + 2 \<le> length ?c"
    by linarith
  then show ?thesis
  proof cases
    case stop
    then have "parse_frames (env_le env) ?c = ([], ?c, False)"
      by (subst parse_frames.simps) (auto simp: Let_def simp del: length_ring_contents)
    with forms(1) [OF stop] handled_stepped [OF handled_refl [OF assms(2)]] show ?thesis by simp
  next
    case illegal
    let ?s = "s\<lparr>tsw_socket_read_event := Some (tcp_event_del e),
      tsw_socket_write_event := Some (tcp_event_del f)\<rparr>"
    have p: "parse_frames (env_le env) ?c = ([], ?c, True)"
      using illegal by (subst parse_frames.simps) (auto simp: Let_def simp del: length_ring_contents)
    have "conn_events (tsw_state s) (tcp_event_del e) (tcp_event_del f)"
      using ev(3) by (auto simp: conn_events_def)
    then have "conn_inv ?s" using inv by (simp add: conn_inv_def)
    then have h: "handled s ?s" using ev(1,2) by (intro handled_frame) (simp_all add: wiring_def)
    from emit_handled [OF assms(1) handled_inv [OF h], of Signal_On_Close] obtain u where
      u: "emit env Signal_On_Close ?s = Inr u" "handled ?s u" using handled_signal by fastforce
    have "illegal_length env s = Inr (if tsw_SignalOnCloseEvent s then u else ?s)"
      using ev u(1) by (simp add: illegal_length_def on_read_event_def on_write_event_def)
    then obtain t where "illegal_length env s = Inr t" "handled s t"
      using h handled_trans [OF h u(2)] by auto
    then have "illegal_length env s = Inr t" "stepped env [] [] s t" "received t = ?c"
      using handled_stepped by (auto simp: handled_def)
    with forms(2) [OF illegal] p show ?thesis by auto
  next
    case whole
    let ?p = "take (?n + 2) ?c"
    obtain r result where r: "process_round env s = rbind result (\<lambda>s'. Inr (True, s'))"
      "hand_over env ?p r s result" "ring_inv r" "ring_contents r = drop (?n + 2) ?c"
      "rb_capacity r = rb_capacity (tsw_receiver_buffer s)" using forms(3) [OF whole] by blast
    let ?s = "s\<lparr>tsw_receiver_buffer := r\<rparr>"
    have "conn_inv ?s" using assms(2) r(3) by (simp add: conn_inv_def)
    from emit_packet_handled [OF assms(1) this, of ?p] obtain t2 where
      t2: "emit_packet env ?p ?s = Inr t2" "conn_inv t2" "output_grows ?s t2" "hears [?p] ?s t2"
      "tsw_receiver_buffer t2 = r" "tsw_share_this_helper t2 \<longrightarrow> tsw_share_this_helper s"
      "tsw_posts t2 = tsw_posts s" by auto
    from emit_packet_handled [OF assms(1,2), of ?p] obtain t1 where
      t1: "emit_packet env ?p s = Inr t1" "conn_inv t1" "output_grows s t1" "hears [?p] s t1"
      "tsw_share_this_helper t1 \<longrightarrow> tsw_share_this_helper s" "tsw_posts t1 = tsw_posts s" by auto
    have parse: "parse_frames (env_le env) (?c @ ys) = prepend [?p] (parse_frames (env_le env) (ring_contents r @ ys))" for ys
    proof -
      have "2 \<le> length ?c" using whole(2) by simp
      then have "header_of (env_le env) (?c @ ys) = ?n" by (simp del: length_ring_contents)
      with whole have "parse_frames (env_le env) (?c @ ys) =
          prepend [take (?n + 2) (?c @ ys)] (parse_frames (env_le env) (drop (?n + 2) (?c @ ys)))"
        by (intro parse_frames_step) (auto simp del: length_ring_contents)
      with whole(2) show ?thesis by (simp add: r(4) del: length_ring_contents)
    qed
    have "output_grows s t2" "hears [?p] s t2" using t2(3,4) by simp_all
    then have s2: "stepped env [] [?p] s t2" using t2 parse by (simp add: stepped_def)
    have s1: "stepped env [] [?p] s (t1\<lparr>tsw_receiver_buffer := r\<rparr>)"
      using t1(2-6) parse r(3) by (simp add: stepped_def conn_inv_def)
    from r(2) t1(1) t2(1) have "result = Inr (t1\<lparr>tsw_receiver_buffer := r\<rparr>) \<or> result = Inr t2"
      by (auto simp: hand_over_def)
    then obtain t where "result = Inr t" "stepped env [] [?p] s t" "tsw_receiver_buffer t = r"
      using s1 s2 t2(5) by auto
    then show ?thesis
      using r(1,4,5) whole parse [of "[]"]
      by (intro disjI2 exI [of _ t] exI [of _ ?p]) (simp del: length_ring_contents)
  qed
qed

lemma process_attending:
  assumes "attending env" "conn_inv s" "length (received s) < unat (rb_capacity (tsw_receiver_buffer s))"
  shows "\<exists>t. TryProcessBufferedDataInWorkLoop env s = Inr t \<and>
    stepped env [] (fst (parse_frames (env_le env) (received s))) s t \<and>
    received t = fst (snd (parse_frames (env_le env) (received s)))"
  using assms(2,3)
proof (induction "length (received s)" arbitrary: s rule: less_induct)
  case less
  from round_attending [OF assms(1) less.prems] show ?case
  proof (elim disjE exE conjE)
    fix t
    assume "process_round env s = Inr (False, t)" "stepped env [] [] s t" "received t = received s"
      "fst (parse_frames (env_le env) (received s)) = []"
      "fst (snd (parse_frames (env_le env) (received s))) = received s"
    then show ?thesis by (subst TryProcessBufferedDataInWorkLoop.simps) simp
  next
    fix t p
    assume t: "process_round env s = Inr (True, t)" "stepped env [] [p] s t"
      and p: "parse_frames (env_le env) (received s) = prepend [p] (parse_frames (env_le env) (received t))"
      and l: "length (received t) < length (received s)"
      and cap: "rb_capacity (tsw_receiver_buffer t) = rb_capacity (tsw_receiver_buffer s)"
    have "conn_inv t" using t(2) by (simp add: stepped_def)
    moreover have "length (received t) < unat (rb_capacity (tsw_receiver_buffer t))"
      using l less.prems(2) by (simp add: cap del: length_ring_contents)
    ultimately obtain u where u: "TryProcessBufferedDataInWorkLoop env t = Inr u"
      "stepped env [] (fst (parse_frames (env_le env) (received t))) t u"
      "received u = fst (snd (parse_frames (env_le env) (received t)))" using less.hyps [OF l] by blast
    have "TryProcessBufferedDataInWorkLoop env s = Inr u"
      using t(1) u(1) by (subst TryProcessBufferedDataInWorkLoop.simps) simp
    with stepped_trans [OF t(2) u(2)] u(3) show ?thesis by (simp add: p)
  qed
qed

section \<open>Events\<close>

lemma stepped_frame:
  assumes "conn_inv t" "tsw_receiver_buffer t = tsw_receiver_buffer s" "tsw_signals t = tsw_signals s"
    "tsw_SignalReadPacket t = tsw_SignalReadPacket s" "tsw_posts t = tsw_posts s" "tsw_wire t = tsw_wire s"
    "tsw_sender_buffer t = tsw_sender_buffer s"
  shows "stepped env [] [] s t"
  using assms by (simp add: stepped_def hears_none output_grows_def prepend_def)

lemma frame_stepped:
  assumes "stepped env [] [] s t" "stepped env d ps t u"
  shows "stepped env d ps s u"
proof -
  have "hears ([] @ ps) s u" using assms unfolding stepped_def by (blast intro: hears_trans)
  moreover have "parse_frames (env_le env) (received s @ d @ ys) = parse_frames (env_le env) (received t @ d @ ys)" for ys
  proof -
    have "parse_frames (env_le env) (received s @ [] @ d @ ys) = prepend [] (parse_frames (env_le env) (received t @ d @ ys))"
      using assms(1) unfolding stepped_def by blast
    then show ?thesis by (simp add: prepend_def)
  qed
  ultimately show ?thesis
    using assms by (auto simp: stepped_def intro: output_grows_trans)
qed

lemma TryRead_stepped:
  assumes "conn_inv s" "attending env" "env_in_worker env"
  shows "\<exists>t d. TryReadDataFromSocket env answer s = Inr t \<and> stepped env d [] s t \<and> received t = received s @ d"
proof -
  have inv: "ring_inv (tsw_receiver_buffer s)" using assms(1) by (rule conn_invE)
  obtain n where n: "ring_AvailableSeriesWrite (tsw_receiver_buffer s) = Inr n"
    "unat n = ring_series_write (tsw_receiver_buffer s)"
    using ring_AvailableSeriesWrite_ok [OF inv] by blast
  have idle: "\<exists>t d. r = Inr t \<and> stepped env d [] s t \<and> received t = received s @ d"
    if "r = OnErrorEvent env s \<or> r = Inr s" for r
  proof -
    from that OnErrorEvent_handled [OF assms(1) attending_closing [OF assms(2)] assms(3)] handled_refl [OF assms(1)] obtain t where
      "r = Inr t" "handled s t" by auto
    then have "r = Inr t" "stepped env [] [] s t" "received t = received s @ []"
      using handled_stepped by (auto simp: handled_def)
    then show ?thesis by blast
  qed
  show ?thesis
  proof (cases answer)
    case (Sys_Error errno)
    then show ?thesis using n(1) by (intro idle) (simp add: TryReadDataFromSocket_def)
  next
    case (Sys_Data bytes)
    let ?bs = "take (ring_series_write (tsw_receiver_buffer s)) bytes"
    show ?thesis
    proof (cases "?bs = []")
      case True
      then show ?thesis
        unfolding Sys_Data by (intro idle) (simp add: TryReadDataFromSocket_def n del: take_eq_Nil)
    next
      case False
      have le: "length ?bs \<le> ring_series_write (tsw_receiver_buffer s)" by simp
      then have l: "unat (of_nat (length ?bs) :: u32) = length ?bs"
        by (intro ring_length_lt32 [OF inv]) (auto simp: ring_series_write_def)
      obtain m r where m: "mem_write (rb_data (tsw_receiver_buffer s))
          (unat (ring_CurrentSeriesWriteHead (tsw_receiver_buffer s))) ?bs = Inr m"
        "ring_ConsumeSeriesWriteLen ((tsw_receiver_buffer s)\<lparr>rb_data := m\<rparr>) (of_nat (length ?bs)) = Inr r"
        "ring_inv r" "ring_contents r = received s @ ?bs"
        using ring_series_write_ok [OF inv l le] by blast
      let ?t = "post Work_Process_Buffered (s\<lparr>tsw_receiver_buffer := r\<rparr>)"
      have "TryReadDataFromSocket env answer s = Inr ?t"
        unfolding TryReadDataFromSocket_def Sys_Data
        using False m(1,2) n by (simp del: length_take take_eq_Nil)
      moreover have "conn_inv ?t" using assms(1) m(3) by (simp add: conn_inv_def post_def)
      then have "stepped env ?bs [] s ?t"
        using False m(4)
        by (simp add: stepped_def hears_none output_grows_def post_def prepend_def
          del: take_eq_Nil length_ring_contents)
      moreover have "received ?t = received s @ ?bs" using m(4) by (simp add: post_def)
      ultimately show ?thesis by blast
    qed
  qed
qed

lemma fire_read_stepped:
  assumes "conn_inv s" "read_registered s" "attending env" "env_in_worker env"
  shows "\<exists>t d. fire_read env answer s = Inr t \<and> stepped env d [] s t \<and> received t = received s @ d"
proof -
  from assms(1,2) obtain e f where ev: "tsw_socket_read_event s = Some e" "ev_added e"
    "conn_events (tsw_state s) e f"
    by (auto simp: read_registered_def elim!: conn_invE)
  let ?s = "s\<lparr>tsw_socket_read_event := Some (event_fired e)\<rparr>"
  have inv: "conn_inv ?s" using read_fired_inv [OF assms(1) ev(1)] .
  then have s: "stepped env [] [] s ?s" by (intro stepped_frame) simp_all
  obtain a where a: "ev_callback e = Some (On_Read_Event, a)"
    using ev(2,3) by (auto simp: conn_events_def)
  have st: "tsw_state s = CS_CONNECTED" using ev(2,3) by (simp add: conn_events_def)
  from TryRead_stepped [OF inv assms(3,4), of answer] obtain t d where
    t: "TryReadDataFromSocket env answer ?s = Inr t" "stepped env d [] ?s t" "received t = received s @ d" by auto
  show ?thesis
  proof (cases a)
    case True
    then have "fire_read env answer s = Inr t"
      using ev(1) a t(1) st by (simp add: fire_read_def OnReadEvent_def Let_def)
    with frame_stepped [OF s t(2)] t(3) show ?thesis by blast
  next
    case False
    then have "fire_read env answer s = Inr ?s"
      using ev(1) a by (simp add: fire_read_def OnReadEvent_def Let_def)
    with s show ?thesis by (intro exI [of _ ?s] exI [of _ "[]"]) simp
  qed
qed

lemma ClientConnected_stepped:
  assumes "conn_inv s" "tsw_socket_write_event s = Some f" "ev_base f" "attending env" "env_in_worker env"
  shows "\<exists>t. ClientConnected env s = Inr t \<and> stepped env [] [] s t"
proof -
  from assms(1,2) obtain e where ev: "tsw_socket_read_event s = Some e"
    "tsw_socket_write_event s = Some f" "conn_events (tsw_state s) e f"
    "ring_inv (tsw_sender_buffer s)" "ring_inv (tsw_receiver_buffer s)"
    by (auto elim!: conn_invE)
  let ?f = "tcp_event_set (tsw_socketfd s) EV_WRITE On_Write_Event (tsw_share_this_helper s) f"
  let ?s = "s\<lparr>tsw_socket_read_event := Some (tcp_event_add None e),
    tsw_socket_write_event := Some ?f, tsw_state := CS_CONNECTED\<rparr>"
  have "conn_events CS_CONNECTED (tcp_event_add None e) ?f"
    using ev(3) assms(3) by (auto simp: conn_events_def)
  then have inv: "conn_inv ?s" using ev by (simp add: conn_inv_def)
  then have s: "stepped env [] [] s ?s" by (intro stepped_frame) simp_all
  from emit_handled [OF assms(4) inv, of Signal_On_Connected] obtain t where
    t: "emit env Signal_On_Connected ?s = Inr t" "handled ?s t" using handled_signal by fastforce
  have "ClientConnected env s = Inr (if tsw_SignalOnConnected s then t else ?s)"
    using ev t(1) assms(5) by (simp add: ClientConnected_def on_read_event_def on_write_event_def)
  with s frame_stepped [OF s handled_stepped [OF t(2)]] show ?thesis by auto
qed

lemma fire_write_stepped:
  assumes "conn_inv s" "write_pending s" "loop_env env" "env_in_worker env"
  shows "\<exists>t. fire_write env so_error event s = Some (Inr t) \<and> stepped env [] [] s t"
proof -
  have env: "kernel_ok env" "attending env" using assms(3) by (simp_all add: loop_env_def)
  from assms(1,2) obtain e f where ev: "tsw_socket_write_event s = Some f" "ev_added f"
    "conn_events (tsw_state s) e f"
    by (auto simp: write_pending_def elim!: conn_invE)
  let ?s = "s\<lparr>tsw_socket_write_event := Some (event_fired f)\<rparr>"
  have inv: "conn_inv ?s" using fired_inv [OF assms(1) ev(1)] .
  then have s: "stepped env [] [] s ?s" by (intro stepped_frame) simp_all
  have base: "ev_base f" using ev by (simp add: conn_events_def)
  then obtain a where a: "ev_callback f = Some (On_Connection, a) \<or> ev_callback f = Some (On_Write_Event, a)"
    using ev(3) by (auto simp: conn_events_def)
  have idle: "stepped env [] [] ?s ?s" using inv by (intro stepped_frame) simp_all
  obtain u where u: "OnErrorEvent env ?s = Inr u" "stepped env [] [] ?s u"
    using OnErrorEvent_handled [OF inv attending_closing [OF env(2)] assms(4)] handled_stepped by blast
  obtain v where v: "ClientConnected env ?s = Inr v" "stepped env [] [] ?s v"
    using ClientConnected_stepped [OF inv _ _ env(2) assms(4)] base by auto
  obtain w where w: "TryWriteBufferToSocket env ?s = Some (Inr w)" "stepped env [] [] ?s w"
    using TryWrite_handled [OF inv env(1) attending_closing [OF env(2)] assms(4)] handled_stepped by blast
  have "\<exists>t. OnConnection env so_error event a ?s = Inr t \<and> stepped env [] [] ?s t"
    using u v idle by (auto simp: OnConnection_def)
  moreover have "\<exists>t. OnWriteEvent env a ?s = Some (Inr t) \<and> stepped env [] [] ?s t"
    using w idle by (auto simp: OnWriteEvent_def)
  ultimately show ?thesis using a ev(1) frame_stepped [OF s] by (fastforce simp: fire_write_def)
qed

end
