(* ===== verification/Tcp_Solo.thy ===== *)
theory Tcp_Solo
  imports Tcp_One_Loop
begin

text \<open>
  The composition of a socket with its only loop, other threads and the kernel: no step fails but a
  processing that meets an exactly full ring, no packet waits without its processing queued, and
  what such sockets send each other arrives as it was framed.
\<close>

section \<open>Starting\<close>

lemma Connect_stepped:
  assumes "conn_inv s" "all_off s" "attending env" "env_in_worker env"
  shows "\<exists>t. ConnectServerInNetworkLoop env fd conn s = Inr t \<and> stepped env [] [] s t"
proof -
  obtain e f where ev: "tsw_socket_read_event s = Some e" "tsw_socket_write_event s = Some f"
    "\<not> ev_added e" "\<not> ev_added f" "ring_inv (tsw_sender_buffer s)" "ring_inv (tsw_receiver_buffer s)"
    using idle_events [OF assms(1)] all_off_events [OF assms(2)] by metis
  let ?s0 = "s\<lparr>tsw_socketfd := fd\<rparr>"
  have s0: "conn_inv ?s0" using assms(1) by (simp add: conn_inv_history)
  show ?thesis
  proof (cases "fd = - 1")
    case True
    have "stepped env [] [] s ?s0" using s0 by (intro stepped_frame) simp_all
    with True OnErrorEvent_handled [OF s0 attending_closing [OF assms(3)] assms(4)] frame_stepped handled_stepped show ?thesis
      by (fastforce simp: ConnectServerInNetworkLoop_def)
  next
    case False
    let ?e = "tcp_event_set fd (EV_READ OR EV_PERSIST) On_Read_Event (tsw_share_this_helper s) e"
    let ?f = "tcp_event_set fd (EV_WRITE OR EV_TIMEOUT) On_Connection (tsw_share_this_helper s) f"
    let ?s = "s\<lparr>tsw_socketfd := fd, tsw_socket_write_event := Some ?f, tsw_socket_read_event := Some ?e\<rparr>"
    let ?bad = "fst conn \<noteq> 0 \<and> snd conn \<noteq> EINPROGRESS \<and> snd conn \<noteq> EINTR"
    have start: "ConnectServerInNetworkLoop env fd conn s =
        rbind (if ?bad then OnErrorEvent env ?s else Inr ?s) (\<lambda>s.
        on_write_event (tcp_event_add (Some (5, 0))) (s\<lparr>tsw_state := CS_CONNECTING\<rparr>))"
      using False ev(1,2)
      by (simp add: ConnectServerInNetworkLoop_def on_read_event_def on_write_event_def)
    have "tsw_state s = CS_CLOSED" using assms(2) by (simp add: all_off_def)
    then have inv: "conn_inv ?s" using ev by (simp add: conn_inv_def conn_events_def)
    then have s: "stepped env [] [] s ?s" by (intro stepped_frame) simp_all
    obtain t where t: "(if ?bad then OnErrorEvent env ?s else Inr ?s) = Inr t" "handled ?s t"
      "tsw_state t = CS_CLOSED"
    proof (cases ?bad)
      case True
      with OnErrorEvent_handled [OF inv attending_closing [OF assms(3)] assms(4)] that show thesis by auto
    next
      case False
      show thesis
        by (rule that [OF if_not_P [OF False] handled_refl [OF inv]]) (simp add: \<open>tsw_state s = CS_CLOSED\<close>)
    qed
    from handled_inv [OF t(2)] obtain e' f' where e': "tsw_socket_read_event t = Some e'"
      "tsw_socket_write_event t = Some f'" "conn_events CS_CLOSED e' f'"
      "ring_inv (tsw_sender_buffer t)" "ring_inv (tsw_receiver_buffer t)"
      unfolding t(3) [symmetric] by (rule conn_invE)
    have w: "ev_base e'" "ev_base f'" "ev_callback e' = ev_callback ?e" "ev_callback f' = ev_callback ?f"
      using t(2) e'(1,2) by (simp_all add: handled_def wiring_def)
    let ?t = "t\<lparr>tsw_state := CS_CONNECTING,
      tsw_socket_write_event := Some (tcp_event_add (Some (5, 0)) f')\<rparr>"
    have "\<not> ev_added e'" using e'(3) by (auto simp: conn_events_def)
    then have "conn_inv ?t" using e' w by (simp add: conn_inv_def conn_events_def)
    then have "stepped env [] [] t ?t" by (intro stepped_frame) simp_all
    then have "stepped env [] [] s ?t"
      using frame_stepped [OF frame_stepped [OF s handled_stepped [OF t(2)]]] by blast
    moreover have "ConnectServerInNetworkLoop env fd conn s = Inr ?t"
      unfolding start t(1) using e'(2) by (simp add: on_write_event_def)
    ultimately show ?thesis by blast
  qed
qed

lemma Begin_stepped:
  assumes "conn_inv s" "all_off s" "attending env" "env_in_worker env"
  shows "\<exists>t. BeginProcessInNetworkLoop env nb fd s = Inr t \<and> stepped env [] [] s t"
proof -
  obtain e f where ev: "tsw_socket_read_event s = Some e" "tsw_socket_write_event s = Some f"
    "\<not> ev_added e" "\<not> ev_added f" "ring_inv (tsw_sender_buffer s)" "ring_inv (tsw_receiver_buffer s)"
    using idle_events [OF assms(1)] all_off_events [OF assms(2)] by metis
  let ?s0 = "s\<lparr>tsw_socketfd := fd\<rparr>"
  have s0: "conn_inv ?s0" using assms(1) by (simp add: conn_inv_history)
  show ?thesis
  proof (cases "nb = - 1")
    case True
    have "stepped env [] [] s ?s0" using s0 by (intro stepped_frame) simp_all
    with True OnErrorEvent_handled [OF s0 attending_closing [OF assms(3)] assms(4)] frame_stepped handled_stepped show ?thesis
      by (fastforce simp: BeginProcessInNetworkLoop_def)
  next
    case False
    let ?e = "tcp_event_add None (tcp_event_set fd (EV_READ OR EV_PERSIST) On_Read_Event True e)"
    let ?f = "tcp_event_set fd EV_WRITE On_Write_Event True f"
    let ?s = "s\<lparr>tsw_socketfd := fd, tsw_state := CS_CONNECTED, tsw_share_this_helper := True,
      tsw_socket_read_event := Some ?e, tsw_socket_write_event := Some ?f\<rparr>"
    have "conn_events CS_CONNECTED ?e ?f" using ev(4) by (auto simp: conn_events_def)
    then have "conn_inv ?s" using ev(5,6) by (simp add: conn_inv_def)
    then have "stepped env [] [] s ?s" by (intro stepped_frame) simp_all
    moreover have "BeginProcessInNetworkLoop env nb fd s = Inr ?s"
      using False ev(1,2)
      by (simp add: BeginProcessInNetworkLoop_def on_read_event_def on_write_event_def)
    ultimately show ?thesis by blast
  qed
qed

section \<open>The system\<close>

text \<open>The functors queued on the loop; all that was put into the sending ring, and taken into the receiving one.\<close>

record solo_system =
  so_socket :: tcp_socket
  so_queue :: "tcp_post list"
  so_output :: "byte list"
  so_taken :: "byte list"

definition so_settle :: "tcp_socket \<Rightarrow> solo_system \<Rightarrow> solo_system" where
  "so_settle s y = y\<lparr>so_socket := s\<lparr>tsw_posts := []\<rparr>, so_queue := so_queue y @ tsw_posts s,
     so_output := so_output y @
       drop (length (tsw_wire (so_socket y) @ unsent (so_socket y))) (tsw_wire s @ unsent s)\<rparr>"

definition so_input :: "tcp_socket \<Rightarrow> solo_system \<Rightarrow> solo_system" where
  "so_input s y = y\<lparr>so_taken := so_taken y @ drop (length (received (so_socket y))) (received s)\<rparr>"

text \<open>A functor at the head of the queue, whichever loop it was meant for.\<close>

definition run_task :: "tcp_env \<Rightarrow> tcp_post \<Rightarrow> tcp_socket \<Rightarrow> tcp_socket result option" where
  "run_task env p s = (if is_net_post p then run_net env (0, (0, 0), 0) p s else Some (run_work env p s))"

text \<open>
  Who sends or closes is another thread, or the loop's own outside of the socket's callbacks, such as
  a timer.
\<close>

inductive so_step :: "tcp_env \<Rightarrow> solo_system \<Rightarrow> solo_system \<Rightarrow> bool" for env where
  send: "\<lbrakk> e = on_user env \<or> e = on_loop env; unat len = length data; 2 \<le> length data;
     SendData e data len (so_socket y) = Some (Inr (ok, d, s)) \<rbrakk>
     \<Longrightarrow> so_step env y (so_settle s y)"
| send_head: "\<lbrakk> e = on_user env \<or> e = on_loop env; length buff < 2 ^ 32;
     SendDataWithHead e buff (so_socket y) = Some (Inr (ok, s)) \<rbrakk>
     \<Longrightarrow> so_step env y (so_settle s y)"
| close: "e = on_user env \<or> e = on_loop env \<Longrightarrow> so_step env y (so_settle (CloseConnection e (so_socket y)) y)"
| task: "\<lbrakk> so_queue y = p # ps; run_task (on_loop env) p (so_socket y) = Some (Inr s) \<rbrakk>
     \<Longrightarrow> so_step env y (so_settle s (y\<lparr>so_queue := ps\<rparr>))"
| readable: "\<lbrakk> read_registered (so_socket y); fire_read (on_loop env) answer (so_socket y) = Inr s \<rbrakk>
     \<Longrightarrow> so_step env y (so_settle s (so_input s y))"
| writable: "\<lbrakk> write_pending (so_socket y);
     fire_write (on_loop env) so_error EV_WRITE (so_socket y) = Some (Inr s) \<rbrakk>
     \<Longrightarrow> so_step env y (so_settle s y)"
| connect_timeout: "\<lbrakk> write_pending (so_socket y); tsw_state (so_socket y) = CS_CONNECTING;
     fire_write (on_loop env) 0 EV_TIMEOUT (so_socket y) = Some (Inr s) \<rbrakk>
     \<Longrightarrow> so_step env y (so_settle s y)"

text \<open>
  Both ways to start are called on the loop's thread, so they have run when the call returns. The user
  sets the functions before it connects, and after it has accepted.
\<close>

definition set_functions :: "bool \<Rightarrow> bool \<Rightarrow> bool \<Rightarrow> tcp_socket \<Rightarrow> tcp_socket" where
  "set_functions a b c s = s\<lparr>tsw_SignalReadPacket := a, tsw_SignalOnCloseEvent := b, tsw_SignalOnConnected := c\<rparr>"

definition so_start :: "tcp_env \<Rightarrow> solo_system \<Rightarrow> bool" where
  "so_start env y \<longleftrightarrow> (\<exists>g1 g2 a b c s.
     let n = TcpSocketWrapper_new g1 g2 in
     y = so_settle s \<lparr> so_socket = n, so_queue = [], so_output = [], so_taken = [] \<rparr> \<and>
     ((\<exists>fd conn ip port. BeginConnect (on_loop env) fd conn ip port (set_functions a b c n) = Inr (True, s)) \<or>
      (\<exists>acc nb addr t. AcceptConnection (on_loop env) acc nb addr g1 g2 = Inr (Some t) \<and> s = set_functions a b c t)))"

definition solo_inv :: "tcp_env \<Rightarrow> solo_system \<Rightarrow> bool" where
  "solo_inv env y \<longleftrightarrow> conn_inv (so_socket y) \<and> tsw_posts (so_socket y) = [] \<and>
     set (so_queue y) \<subseteq> {Work_Process_Buffered, Net_Try_Write, Net_Close_Connection} \<and>
     (fst (parse_frames (env_le env) (received (so_socket y))) \<noteq> [] \<longrightarrow>
       Work_Process_Buffered \<in> set (so_queue y)) \<and>
     carries (env_le env) (so_socket y) (so_output y) (so_taken y)"

lemma posts_hears [simp]: "hears ps (s\<lparr>tsw_posts := qs\<rparr>) t = hears ps s t"
  by (simp add: hears_def)

lemma posts_carries [simp]: "carries le (s\<lparr>tsw_posts := ps\<rparr>) out taken = carries le s out taken"
  by (simp add: carries_def relays_def)

text \<open>What a step has to do, for the invariant.\<close>

lemma solo_settle:
  assumes "solo_inv env y" "stepped env d ps s0 t" "s0 = (so_socket y)\<lparr>tsw_posts := qs\<rparr>"
    "so_socket x = so_socket y" "so_output x = so_output y" "so_taken x = so_taken y @ d"
    "set (so_queue x @ qs) \<subseteq> {Work_Process_Buffered, Net_Try_Write, Net_Close_Connection}"
    "fst (parse_frames (env_le env) (received t)) \<noteq> [] \<Longrightarrow> d = [] \<Longrightarrow> Work_Process_Buffered \<in> set (so_queue x)"
  shows "solo_inv env (so_settle t x)"
    "prefix (tsw_wire (so_socket y)) (tsw_wire (so_socket (so_settle t x)))"
proof -
  let ?s = "so_socket y"
  have g: "prefix (tsw_wire ?s @ unsent ?s) (tsw_wire t @ unsent t)" "prefix (tsw_wire ?s) (tsw_wire t)"
    using assms(2,3) by (simp_all add: stepped_def output_grows_def)
  then show "prefix (tsw_wire ?s) (tsw_wire (so_socket (so_settle t x)))" by (simp add: so_settle_def)
  have split: "prefix xs ys \<Longrightarrow> ys = xs @ drop (length xs) ys" for xs ys :: "byte list"
    by (auto simp: prefix_def)
  from split [OF g(1)] have out: "tsw_wire t @ unsent t =
      tsw_wire ?s @ unsent ?s @ drop (length (tsw_wire ?s @ unsent ?s)) (tsw_wire t @ unsent t)"
    by (simp only: append_assoc)
  have "carries (env_le env) ?s (so_output y) (so_taken y)" using assms(1) by (simp add: solo_inv_def)
  moreover have "hears ps ?s t"
    "parse_frames (env_le env) (received ?s @ d @ ys) = prepend ps (parse_frames (env_le env) (received t @ ys))" for ys
    using assms(2,3) by (simp_all add: stepped_def)
  ultimately have "carries (env_le env) t (so_output y @
      drop (length (tsw_wire ?s @ unsent ?s)) (tsw_wire t @ unsent t)) (so_taken y @ d)"
    using carries_step [OF _ out] by blast
  then have "carries (env_le env) t (so_output (so_settle t x)) (so_taken (so_settle t x))"
    unfolding so_settle_def using assms(4-6) by simp
  moreover have "tsw_posts t = qs @ (if d = [] then [] else [Work_Process_Buffered])" "conn_inv t"
    using assms(2,3) by (simp_all add: stepped_def)
  ultimately show "solo_inv env (so_settle t x)"
    using assms(7,8) by (auto simp: solo_inv_def so_settle_def)
qed

section \<open>Every step keeps the invariant\<close>

lemma stepped_on_loop [simp]: "stepped (on_loop env) = stepped env"
  by (simp add: stepped_def fun_eq_iff)

lemma loop_env_on_loop:
  assumes "loop_env env"
  shows "loop_env (on_loop env)" "attending (on_loop env)" "kernel_ok (on_loop env)" "closing (on_loop env)"
  using assms by (simp_all add: loop_env_def attending_closing)

text \<open>Another thread's call only posts.\<close>

lemma queued_stepped:
  assumes "conn_inv s" "queued ps s t" "t = s\<lparr>tsw_sender_buffer := r, tsw_posts := qs\<rparr>"
  shows "stepped env [] [] (s\<lparr>tsw_posts := qs\<rparr>) t"
proof -
  obtain d where d: "unsent t = unsent s @ d" "ring_inv r" using assms(2,3) by (auto simp: queued_def)
  from assms(1,3) d(2) have "conn_inv t" by (simp add: conn_inv_def)
  with d(1) assms(3) show ?thesis by (simp add: stepped_def hears_none output_grows_def prepend_def)
qed

text \<open>A head of the queue runs, but for a processing that meets an exactly full ring.\<close>

lemma run_task_stepped:
  assumes "conn_inv s" "loop_env env" "p \<in> {Work_Process_Buffered, Net_Try_Write, Net_Close_Connection}"
    "p = Work_Process_Buffered \<longrightarrow> \<not> ring_full s"
  shows "\<exists>t ps. run_task (on_loop env) p s = Some (Inr t) \<and> stepped env [] ps s t \<and>
    (if p = Work_Process_Buffered then fst (parse_frames (env_le env) (received t)) = []
     else received t = received s)"
proof -
  note env = loop_env_on_loop [OF assms(2)]
  have same: "\<exists>t ps. r = Some (Inr t) \<and> stepped env [] ps s t \<and> received t = received s"
    if "\<exists>t. r = Some (Inr t) \<and> handled s t" for r
    using that handled_stepped by (fastforce simp: handled_def)
  from assms(3) consider "p = Net_Try_Write" | "p = Net_Close_Connection" | "p = Work_Process_Buffered" by auto
  then show ?thesis
  proof cases
    case 1
    have "\<exists>t. run_task (on_loop env) p s = Some (Inr t) \<and> handled s t"
      using TryWrite_handled [OF assms(1) env(3,4)] by (simp add: 1 run_task_def)
    from same [OF this] 1 show ?thesis by simp
  next
    case 2
    have "\<exists>t. run_task (on_loop env) p s = Some (Inr t) \<and> handled s t"
      using Close_handled(1) [OF assms(1), of "on_loop env"] by (simp add: 2 run_task_def)
    from same [OF this] 2 show ?thesis by simp
  next
    case 3
    have "ring_inv (tsw_receiver_buffer s)" using assms(1) by (rule conn_invE)
    then have "length (received s) < unat (rb_capacity (tsw_receiver_buffer s))"
      using assms(4) 3 ring_length_le by (fastforce simp: ring_full_def)
    from process_attending [OF env(2) assms(1) this] obtain t where
      "TryProcessBufferedDataInWorkLoop (on_loop env) s = Inr t"
      "stepped env [] (fst (parse_frames (env_le env) (received s))) s t"
      "received t = fst (snd (parse_frames (env_le env) (received s)))" by auto
    with 3 show ?thesis by (auto simp: run_task_def parse_frames_idem)
  qed
qed

lemma solo_parts:
  assumes "solo_inv env y"
  shows "conn_inv (so_socket y)" "ring_inv (tsw_sender_buffer (so_socket y))" "tsw_posts (so_socket y) = []"
    "(so_socket y)\<lparr>tsw_posts := []\<rparr> = so_socket y"
proof -
  show "conn_inv (so_socket y)" "tsw_posts (so_socket y) = []" using assms by (simp_all add: solo_inv_def)
  then show "ring_inv (tsw_sender_buffer (so_socket y))" "(so_socket y)\<lparr>tsw_posts := []\<rparr> = so_socket y"
    by (auto elim: conn_invE)
qed

text \<open>A step that leaves the queue to the posts it makes.\<close>

lemma solo_plain:
  assumes "solo_inv env y" "stepped env [] [] ((so_socket y)\<lparr>tsw_posts := qs\<rparr>) t" "received t = received (so_socket y)"
    "set qs \<subseteq> {Work_Process_Buffered, Net_Try_Write, Net_Close_Connection}"
  shows "solo_inv env (so_settle t y)"
    "prefix (tsw_wire (so_socket y)) (tsw_wire (so_socket (so_settle t y)))"
proof -
  have q: "set (so_queue y @ qs) \<subseteq> {Work_Process_Buffered, Net_Try_Write, Net_Close_Connection}"
    "fst (parse_frames (env_le env) (received t)) \<noteq> [] \<Longrightarrow> Work_Process_Buffered \<in> set (so_queue y)"
    using assms(1,3,4) by (auto simp: solo_inv_def)
  have taken: "so_taken y = so_taken y @ []" by simp
  show "solo_inv env (so_settle t y)" "prefix (tsw_wire (so_socket y)) (tsw_wire (so_socket (so_settle t y)))"
    by (rule solo_settle [OF assms(1,2) refl refl refl taken q]; assumption)+
qed

lemma inline_plain:
  assumes "solo_inv env y" "handled (so_socket y) t"
  shows "solo_inv env (so_settle t y)"
    "prefix (tsw_wire (so_socket y)) (tsw_wire (so_socket (so_settle t y)))"
proof -
  have "stepped env [] [] ((so_socket y)\<lparr>tsw_posts := []\<rparr>) t"
    using handled_stepped [OF assms(2)] solo_parts(4) [OF assms(1)] by simp
  moreover have "received t = received (so_socket y)" using assms(2) by (simp add: handled_def)
  ultimately show "solo_inv env (so_settle t y)"
    "prefix (tsw_wire (so_socket y)) (tsw_wire (so_socket (so_settle t y)))"
    using solo_plain [OF assms(1), of "[]"] by simp_all
qed

lemma posted_plain:
  assumes "solo_inv env y" "queued ps (so_socket y) t"
    "t = (so_socket y)\<lparr>tsw_sender_buffer := r, tsw_posts := qs\<rparr>"
  shows "solo_inv env (so_settle t y)"
    "prefix (tsw_wire (so_socket y)) (tsw_wire (so_socket (so_settle t y)))"
proof -
  note parts = solo_parts [OF assms(1)]
  have st: "stepped env [] [] ((so_socket y)\<lparr>tsw_posts := qs\<rparr>) t"
    using queued_stepped [OF parts(1) assms(2,3)] .
  have "qs = ps" using assms(2,3) parts(3) by (simp add: queued_def)
  then have "set qs \<subseteq> {Work_Process_Buffered, Net_Try_Write, Net_Close_Connection}"
    using assms(2) by (auto simp: queued_def)
  from solo_plain [OF assms(1) st _ this] assms(3) show "solo_inv env (so_settle t y)"
    "prefix (tsw_wire (so_socket y)) (tsw_wire (so_socket (so_settle t y)))" by simp_all
qed

lemma event_plain:
  assumes "solo_inv env y" "stepped env d [] (so_socket y) t"
    "so_socket x = so_socket y" "so_output x = so_output y" "so_taken x = so_taken y @ d" "so_queue x = so_queue y"
  shows "solo_inv env (so_settle t x)"
    "prefix (tsw_wire (so_socket y)) (tsw_wire (so_socket (so_settle t x)))"
proof -
  have "parse_frames (env_le env) (received (so_socket y) @ d @ []) =
      prepend [] (parse_frames (env_le env) (received t @ []))"
    using assms(2) unfolding stepped_def by blast
  then have q: "set (so_queue x @ []) \<subseteq> {Work_Process_Buffered, Net_Try_Write, Net_Close_Connection}"
    "fst (parse_frames (env_le env) (received t)) \<noteq> [] \<Longrightarrow> d = [] \<Longrightarrow> Work_Process_Buffered \<in> set (so_queue x)"
    using assms(1,6) by (auto simp: solo_inv_def prepend_def)
  have s: "so_socket y = (so_socket y)\<lparr>tsw_posts := []\<rparr>" using solo_parts(4) [OF assms(1)] by simp
  show "solo_inv env (so_settle t x)" "prefix (tsw_wire (so_socket y)) (tsw_wire (so_socket (so_settle t x)))"
    by (rule solo_settle [OF assms(1,2) s assms(3,4,5) q]; assumption)+
qed

lemma solo_send_keeps:
  assumes env: "loop_env env" and inv: "solo_inv env y" and e: "e = on_user env \<or> e = on_loop env"
    and len: "unat len = length data" "2 \<le> length data"
    and sent: "SendData e data len (so_socket y) = Some (Inr (ok, d, s))"
  shows "solo_inv env (so_settle s y) \<and> prefix (tsw_wire (so_socket y)) (tsw_wire (so_socket (so_settle s y)))"
  using e
proof
  note parts = solo_parts [OF inv] and env = loop_env_on_loop [OF env]
  assume e: "e = on_user env"
  from SendData_any [OF parts(2) len, of "on_user env"] sent obtain r ps where
    "s = (so_socket y)\<lparr>tsw_sender_buffer := r, tsw_posts := tsw_posts (so_socket y) @ ps\<rparr>"
    "queued ps (so_socket y) s" by (auto simp: e on_user_def)
  from posted_plain [OF inv this(2,1)] show ?thesis by simp
next
  note parts = solo_parts [OF inv] and env = loop_env_on_loop [OF env]
  assume e: "e = on_loop env"
  from SendData_inline [OF parts(1) len env(3,4)] sent have "handled (so_socket y) s"
    by (auto simp: e)
  from inline_plain [OF inv this] show ?thesis by simp
qed

lemma solo_head_keeps:
  assumes env: "loop_env env" and inv: "solo_inv env y" and e: "e = on_user env \<or> e = on_loop env"
    and len: "length buff < 2 ^ 32"
    and sent: "SendDataWithHead e buff (so_socket y) = Some (Inr (ok, s))"
  shows "solo_inv env (so_settle s y) \<and> prefix (tsw_wire (so_socket y)) (tsw_wire (so_socket (so_settle s y)))"
  using e
proof
  note parts = solo_parts [OF inv] and env = loop_env_on_loop [OF env]
  assume e: "e = on_user env"
  from SendDataWithHead_any [OF parts(2) len, of "on_user env"] sent obtain r where
    s: "s = post Net_Try_Write ((so_socket y)\<lparr>tsw_sender_buffer := r\<rparr>)" "queued [Net_Try_Write] (so_socket y) s"
    by (auto simp: e on_user_def)
  then have "s = (so_socket y)\<lparr>tsw_sender_buffer := r, tsw_posts := tsw_posts (so_socket y) @ [Net_Try_Write]\<rparr>"
    by (simp add: post_def)
  from posted_plain [OF inv s(2) this] show ?thesis by simp
next
  note parts = solo_parts [OF inv] and env = loop_env_on_loop [OF env]
  assume e: "e = on_loop env"
  from SendDataWithHead_inline [OF parts(1) len env(3,4)] sent have "handled (so_socket y) s"
    by (auto simp: e)
  from inline_plain [OF inv this] show ?thesis by simp
qed

lemma solo_close_keeps:
  assumes inv: "solo_inv env y" and e: "e = on_user env \<or> e = on_loop env"
  defines "t \<equiv> CloseConnection e (so_socket y)"
  shows "solo_inv env (so_settle t y) \<and> prefix (tsw_wire (so_socket y)) (tsw_wire (so_socket (so_settle t y)))"
  using e
proof
  note parts = solo_parts [OF inv]
  assume e: "e = on_user env"
  have t: "t = (so_socket y)\<lparr>tsw_sender_buffer := tsw_sender_buffer (so_socket y),
      tsw_posts := tsw_posts (so_socket y) @ [Net_Close_Connection]\<rparr>"
    by (simp add: t_def e CloseConnection_def on_user_def post_def)
  have "queued [Net_Close_Connection] (so_socket y) t" unfolding t using parts(2) by (simp add: queued_def)
  from posted_plain [OF inv this t] show ?thesis by simp
next
  assume e: "e = on_loop env"
  have "handled (so_socket y) t"
    using Close_handled(1) [OF solo_parts(1) [OF inv], of "on_loop env"] by (simp add: t_def e CloseConnection_def)
  from inline_plain [OF inv this] show ?thesis by simp
qed

lemma solo_step_keeps:
  assumes "loop_env env" "solo_inv env y" "so_step env y z"
  shows "solo_inv env z \<and> prefix (tsw_wire (so_socket y)) (tsw_wire (so_socket z))"
proof -
  note parts = solo_parts [OF assms(2)] and env = loop_env_on_loop [OF assms(1)]
  show ?thesis
    using assms(3)
  proof cases
    case (send e len data ok d s)
    from solo_send_keeps [OF assms(1,2) send(2-5)] send(1) show ?thesis by simp
  next
    case (send_head e buff ok s)
    from solo_head_keeps [OF assms(1,2) send_head(2-4)] send_head(1) show ?thesis by simp
  next
    case (close e)
    from solo_close_keeps [OF assms(2) close(2)] close(1) show ?thesis by simp
  next
    case (task p ps s)
    have p: "p \<in> {Work_Process_Buffered, Net_Try_Write, Net_Close_Connection}"
      using assms(2) task(2) by (simp add: solo_inv_def)
    have "p = Work_Process_Buffered \<longrightarrow> \<not> ring_full (so_socket y)"
      using task(3) process_full by (auto simp: run_task_def ring_full_def)
    from run_task_stepped [OF parts(1) assms(1) p this] task(3) obtain qs where
      st: "stepped env [] qs (so_socket y) s" "if p = Work_Process_Buffered then fst (parse_frames (env_le env) (received s)) = []
        else received s = received (so_socket y)" by auto
    have q: "set (so_queue (y\<lparr>so_queue := ps\<rparr>) @ []) \<subseteq> {Work_Process_Buffered, Net_Try_Write, Net_Close_Connection}"
      "fst (parse_frames (env_le env) (received s)) \<noteq> [] \<Longrightarrow> [] = [] \<Longrightarrow>
        Work_Process_Buffered \<in> set (so_queue (y\<lparr>so_queue := ps\<rparr>))"
      using assms(2) task(2) st(2) by (auto simp: solo_inv_def split: if_splits)
    have s: "so_socket y = (so_socket y)\<lparr>tsw_posts := []\<rparr>" using parts(4) by simp
    have "so_socket (y\<lparr>so_queue := ps\<rparr>) = so_socket y" "so_output (y\<lparr>so_queue := ps\<rparr>) = so_output y"
      "so_taken (y\<lparr>so_queue := ps\<rparr>) = so_taken y @ []" by simp_all
    from solo_settle [OF assms(2) st(1) s this q] show ?thesis unfolding task(1) by blast
  next
    case (readable answer s)
    from fire_read_stepped [OF parts(1) readable(2) env(2), of answer] readable(3) obtain d where
      d: "stepped env d [] (so_socket y) s" "received s = received (so_socket y) @ d" by auto
    from event_plain [OF assms(2) d(1), of "so_input s y"] readable(1) show ?thesis
      by (simp add: so_input_def d(2) del: length_ring_contents)
  next
    case (writable so_error s)
    from fire_write_stepped [OF parts(1) writable(2) env(1) on_loop_simps(2), of so_error EV_WRITE] writable(3)
    have st: "stepped env [] [] (so_socket y) s" by auto
    from event_plain [OF assms(2) st, of y] writable(1) show ?thesis by simp
  next
    case (connect_timeout s)
    from fire_write_stepped [OF parts(1) connect_timeout(2) env(1) on_loop_simps(2), of 0 EV_TIMEOUT] connect_timeout(4)
    have st: "stepped env [] [] (so_socket y) s" by auto
    from event_plain [OF assms(2) st, of y] connect_timeout(1) show ?thesis by simp
  qed
qed

interpretation solo_systems: invariant_system "so_step env" "\<lambda>y. loop_env env \<and> solo_inv env y" for env
  by unfold_locales (use solo_step_keeps in blast)

lemma set_functions_inv:
  assumes "solo_inv env (so_settle t y)" "so_taken y = []"
  shows "solo_inv env (so_settle (set_functions a b c t) y)"
proof -
  from assms have c: "carries (env_le env) t (so_output (so_settle t y)) []" by (simp add: solo_inv_def so_settle_def)
  then obtain cut where cut: "\<forall>ys. parse_frames (env_le env) ys = prepend cut (parse_frames (env_le env) (received t @ ys))"
    "prefix (packets_of (tsw_signals t)) cut" by (auto simp: carries_def relays_def)
  have "parse_frames (env_le env) [] = ([], [], False)" by (subst parse_frames.simps) simp
  moreover have "fst (parse_frames (env_le env) []) = cut @ fst (parse_frames (env_le env) (received t @ []))"
    by (subst cut(1) [rule_format, of "[]"]) (simp add: prepend_def split: prod.split)
  ultimately have "cut = []" by simp
  with cut(2) have heard: "packets_of (tsw_signals t) = cut" by simp
  have same: "tsw_wire (set_functions a b c t) = tsw_wire t" "tsw_sender_buffer (set_functions a b c t) = tsw_sender_buffer t"
    "tsw_receiver_buffer (set_functions a b c t) = tsw_receiver_buffer t" "tsw_signals (set_functions a b c t) = tsw_signals t"
    by (simp_all add: set_functions_def)
  have "tsw_wire t @ unsent t = so_output (so_settle t y)" using c by (rule carries_output)
  then have "carries (env_le env) (set_functions a b c t) (so_output (so_settle t y)) []"
    unfolding carries_def relays_def same append_Nil using cut heard by blast
  moreover have "conn_inv (set_functions a b c t) = conn_inv t" by (simp add: set_functions_def conn_inv_def)
  ultimately show ?thesis using assms by (simp add: solo_inv_def so_settle_def set_functions_def)
qed

lemma so_start_inv:
  assumes "so_start env y" "loop_env env"
  shows "solo_inv env y" "so_taken y = []"
proof -
  note env = loop_env_on_loop [OF assms(2)]
  have empty: "ring_contents (RingBuffer_new g c) = []" for g c
    by (simp add: ring_contents_def RingBuffer_new_def circ_def)
  from assms(1) obtain g1 g2 a b c s where
    y: "y = so_settle s \<lparr> so_socket = TcpSocketWrapper_new g1 g2, so_queue = [], so_output = [], so_taken = [] \<rparr>"
    and s: "(\<exists>fd conn ip port. BeginConnect (on_loop env) fd conn ip port (set_functions a b c (TcpSocketWrapper_new g1 g2)) = Inr (True, s)) \<or>
      (\<exists>acc nb addr t. AcceptConnection (on_loop env) acc nb addr g1 g2 = Inr (Some t) \<and> s = set_functions a b c t)"
    unfolding so_start_def Let_def by blast
  let ?n = "TcpSocketWrapper_new g1 g2"
  let ?start = "\<lambda>n. \<lparr> so_socket = n, so_queue = [], so_output = [], so_taken = [] \<rparr> :: solo_system"
  have fresh: "conn_inv ((set_functions a b c ?n)\<lparr>tsw_remote_addr := addr, tsw_share_this_helper := h\<rparr>)"
    "all_off ((set_functions a b c ?n)\<lparr>tsw_remote_addr := addr, tsw_share_this_helper := h\<rparr>)" for addr a b c h
    using conn_inv_new [of g1 g2]
    by (simp_all add: conn_inv_def all_off_def read_registered_def write_pending_def TcpSocketWrapper_new_def event_zero_def
      set_functions_def)
  have same: "set_functions False False False ?n = ?n" "?n\<lparr>tsw_share_this_helper := False\<rparr> = ?n"
    by (simp_all add: set_functions_def TcpSocketWrapper_new_def)
  have new: "solo_inv env (?start (set_functions a b c ?n))" for a b c
    using conn_inv_new [of g1 g2] empty
    by (auto simp: solo_inv_def carries_def relays_def conn_inv_def TcpSocketWrapper_new_def set_functions_def intro!: exI [of _ "[]"])
  have frame: "stepped env [] [] (set_functions a b c ?n) ((set_functions a b c ?n)\<lparr>tsw_remote_addr := addr, tsw_share_this_helper := h\<rparr>)"
    for addr a b c h
    by (rule stepped_frame, rule fresh(1)) (simp_all add: set_functions_def)
  have settled: "so_settle t (?start (set_functions a b c ?n)) = so_settle t (?start ?n)" for t a b c
    by (simp add: so_settle_def set_functions_def)
  have "solo_inv env (so_settle s (?start ?n))"
    using s
  proof (elim disjE exE conjE)
    fix fd conn ip port
    assume b: "BeginConnect (on_loop env) fd conn ip port (set_functions a b c ?n) = Inr (True, s)"
    let ?m = "(set_functions a b c ?n)\<lparr>tsw_remote_addr := (ip, port), tsw_share_this_helper := True\<rparr>"
    from Connect_stepped [OF fresh [of True "(ip, port)" a b c] env(2) on_loop_simps(2), of fd conn] b
    have "stepped env [] [] ?m s" by (auto simp: BeginConnect_def Let_def rbind_eq_Inr)
    from event_plain [OF new [of a b c], of "[]" s "?start (set_functions a b c ?n)"] frame_stepped [OF frame this]
    show ?thesis by (simp add: settled)
  next
    fix acc nb addr t
    assume t: "AcceptConnection (on_loop env) acc nb addr g1 g2 = Inr (Some t)" "s = set_functions a b c t"
    let ?m = "?n\<lparr>tsw_remote_addr := addr, tsw_share_this_helper := False\<rparr>"
    have m: "?m = ?n\<lparr>tsw_remote_addr := addr\<rparr>" by (simp add: TcpSocketWrapper_new_def)
    have ok: "conn_inv ?m" "all_off ?m" "stepped env [] [] ?n ?m"
      using fresh [of False addr False False False, unfolded same] frame [of False False False, unfolded same] by blast+
    from Begin_stepped [OF ok(1,2) env(2) on_loop_simps(2), of nb acc] t(1)
    have "stepped env [] [] ?m t"
      by (auto simp: AcceptConnection_def BeginProcess_def Let_def m rbind_eq_Inr split: if_splits)
    from event_plain [OF new [of False False False, unfolded same], of "[]" t "?start ?n"] frame_stepped [OF ok(3) this]
    have "solo_inv env (so_settle t (?start ?n))" by simp
    from set_functions_inv [OF this] t(2) show ?thesis by simp
  qed
  then show "solo_inv env y" by (simp add: y)
  show "so_taken y = []" by (simp add: y so_settle_def)
qed

end
