(* ===== verification/Tcp_Joined.thy ===== *)
theory Tcp_Joined
  imports Tcp_Solo
begin

text \<open>
  Two ends of a connection, each a system of its own kind: what they have to guarantee for what one
  sends to arrive at the other as it was framed, and that both compositions of a socket, with two
  loops and with one, guarantee it.
\<close>

section \<open>An end of a connection\<close>

text \<open>
  What can be seen of an end: its bytes on the wire and those still to go there, the bytes that have
  arrived and are not handed over, the packets handed over and whether the packet function is set,
  and the two streams: all that was put out, all that was taken in.
\<close>

record end_view =
  ve_wire :: "byte list"
  ve_rest :: "byte list"
  ve_arrived :: "byte list"
  ve_packets :: "byte list list"
  ve_reading :: bool
  ve_output :: "byte list"
  ve_taken :: "byte list"

definition ve_relays :: "bool \<Rightarrow> end_view \<Rightarrow> bool" where
  "ve_relays le v \<longleftrightarrow> relays le (ve_wire v) (ve_rest v) (ve_arrived v) (ve_packets v) (ve_reading v)
     (ve_output v) (ve_taken v)"

locale stream_end = invariant_system step inv
  for step :: "'s \<Rightarrow> 's \<Rightarrow> bool" and inv :: "'s \<Rightarrow> bool" +
  fixes view :: "'s \<Rightarrow> end_view"
    and le :: bool
  assumes view_relays: "inv s \<Longrightarrow> ve_relays le (view s)"
    and wire_grows: "\<lbrakk> inv s; step s t \<rbrakk> \<Longrightarrow> prefix (ve_wire (view s)) (ve_wire (view t))"

text \<open>The network delivers to an end what the other has put on the wire, in order.\<close>

inductive join_step :: "('a \<Rightarrow> 'a \<Rightarrow> bool) \<Rightarrow> ('b \<Rightarrow> 'b \<Rightarrow> bool) \<Rightarrow> ('a \<Rightarrow> end_view) \<Rightarrow> ('b \<Rightarrow> end_view) \<Rightarrow>
    'a \<times> 'b \<Rightarrow> 'a \<times> 'b \<Rightarrow> bool" for stepl stepr viewl viewr where
  left: "\<lbrakk> stepl a a'; prefix (ve_taken (viewl a')) (ve_wire (viewr b)) \<rbrakk>
     \<Longrightarrow> join_step stepl stepr viewl viewr (a, b) (a', b)"
| right: "\<lbrakk> stepr b b'; prefix (ve_taken (viewr b')) (ve_wire (viewl a)) \<rbrakk>
     \<Longrightarrow> join_step stepl stepr viewl viewr (a, b) (a, b')"

inductive_cases join_stepE: "join_step stepl stepr viewl viewr p q"

locale joined_ends = L: stream_end stepl invl viewl le + R: stream_end stepr invr viewr le
  for stepl :: "'a \<Rightarrow> 'a \<Rightarrow> bool" and invl viewl and stepr :: "'b \<Rightarrow> 'b \<Rightarrow> bool" and invr viewr and le

sublocale joined_ends \<subseteq> both: invariant_system "join_step stepl stepr viewl viewr"
    "\<lambda>p. invl (fst p) \<and> invr (snd p) \<and> prefix (ve_taken (viewl (fst p))) (ve_wire (viewr (snd p))) \<and>
      prefix (ve_taken (viewr (snd p))) (ve_wire (viewl (fst p)))"
proof
  fix p q
  assume inv: "invl (fst p) \<and> invr (snd p) \<and> prefix (ve_taken (viewl (fst p))) (ve_wire (viewr (snd p))) \<and>
      prefix (ve_taken (viewr (snd p))) (ve_wire (viewl (fst p)))"
    and step: "join_step stepl stepr viewl viewr p q"
  from step show "invl (fst q) \<and> invr (snd q) \<and> prefix (ve_taken (viewl (fst q))) (ve_wire (viewr (snd q))) \<and>
      prefix (ve_taken (viewr (snd q))) (ve_wire (viewl (fst q)))"
  proof (rule join_stepE)
    fix a a' b
    assume a: "p = (a, b)" "q = (a', b)" "stepl a a'" "prefix (ve_taken (viewl a')) (ve_wire (viewr b))"
    with inv L.step_inv L.wire_grows [of a a'] show ?thesis by (auto intro: prefix_order.trans)
  next
    fix b b' a
    assume a: "p = (a, b)" "q = (a, b')" "stepr b b'" "prefix (ve_taken (viewr b')) (ve_wire (viewl a))"
    with inv R.step_inv R.wire_grows [of b b'] show ?thesis by (auto intro: prefix_order.trans)
  qed
qed

context joined_ends
begin

lemma delivers:
  assumes "(join_step stepl stepr viewl viewr)\<^sup>*\<^sup>* p q" "invl (fst p)" "invr (snd p)"
    "ve_taken (viewl (fst p)) = []" "ve_taken (viewr (snd p)) = []"
  shows "prefix (ve_packets (viewr (snd q))) (fst (parse_frames le (ve_output (viewl (fst q)))))"
    "prefix (ve_packets (viewl (fst q))) (fst (parse_frames le (ve_output (viewr (snd q)))))"
proof -
  have q: "invl (fst q)" "invr (snd q)" "prefix (ve_taken (viewl (fst q))) (ve_wire (viewr (snd q)))"
    "prefix (ve_taken (viewr (snd q))) (ve_wire (viewl (fst q)))"
    using both.run_inv [OF assms(1)] assms(2-5) by simp_all
  note c = L.view_relays [OF q(1), unfolded ve_relays_def] R.view_relays [OF q(2), unfolded ve_relays_def]
  show "prefix (ve_packets (viewr (snd q))) (fst (parse_frames le (ve_output (viewl (fst q)))))"
    "prefix (ve_packets (viewl (fst q))) (fst (parse_frames le (ve_output (viewr (snd q)))))"
    using relayed_delivers(1) [OF c(1,2)] relayed_delivers(1) [OF c(2,1)] q(3,4) by blast+
qed

end

section \<open>The two compositions as ends\<close>

definition socket_view :: "tcp_socket \<Rightarrow> byte list \<Rightarrow> byte list \<Rightarrow> end_view" where
  "socket_view s out taken = \<lparr> ve_wire = tsw_wire s, ve_rest = unsent s, ve_arrived = received s,
     ve_packets = packets_of (tsw_signals s), ve_reading = tsw_SignalReadPacket s,
     ve_output = out, ve_taken = taken \<rparr>"

definition sys_view :: "tcp_system \<Rightarrow> end_view" where
  "sys_view y = socket_view (sy_socket y) (sy_output y) (sy_taken y)"

definition solo_view :: "solo_system \<Rightarrow> end_view" where
  "solo_view y = socket_view (so_socket y) (so_output y) (so_taken y)"

lemma socket_view_relays: "ve_relays le (socket_view s out taken) = carries le s out taken"
  by (simp add: ve_relays_def socket_view_def carries_def)

interpretation two_loops: stream_end "sys_step env"
    "\<lambda>y. system_env env \<and> listening env \<and> stream_inv env y" sys_view "env_le env" for env
proof
  fix y z
  assume y: "system_env env \<and> listening env \<and> stream_inv env y"
  then show "ve_relays (env_le env) (sys_view y)"
    by (simp add: sys_view_def socket_view_relays stream_inv_def)
  assume "sys_step env y z"
  with y stream_inv_step [of env y z]
  show "system_env env \<and> listening env \<and> stream_inv env z" "prefix (ve_wire (sys_view y)) (ve_wire (sys_view z))"
    by (simp_all add: sys_view_def socket_view_def)
qed

interpretation one_loop: stream_end "so_step env"
    "\<lambda>y. loop_env env \<and> solo_inv env y" solo_view "env_le env" for env
proof
  fix y z
  assume y: "loop_env env \<and> solo_inv env y"
  then show "ve_relays (env_le env) (solo_view y)"
    by (simp add: solo_view_def socket_view_relays solo_inv_def)
  assume "so_step env y z"
  with y solo_step_keeps [of env y z]
  show "prefix (ve_wire (solo_view y)) (ve_wire (solo_view z))"
    by (simp add: solo_view_def socket_view_def)
qed

text \<open>Ends of the same byte order: the left one's environment decides it.\<close>

definition same_order :: "tcp_env \<Rightarrow> tcp_env \<Rightarrow> tcp_env" where
  "same_order envl envr = envr\<lparr>env_le := env_le envl\<rparr>"

lemma same_order_le [simp]: "env_le (same_order envl envr) = env_le envl"
  by (simp add: same_order_def)

lemma same_order_id: "env_le envr = env_le envl \<Longrightarrow> same_order envl envr = envr"
  by (cases envr) (simp add: same_order_def)

interpretation one_and_one: joined_ends "so_step envl" "\<lambda>y. loop_env envl \<and> solo_inv envl y" solo_view
    "so_step (same_order envl envr)" "\<lambda>y. loop_env (same_order envl envr) \<and> solo_inv (same_order envl envr) y"
    solo_view "env_le envl" for envl envr
  using one_loop.stream_end_axioms [of envl] one_loop.stream_end_axioms [of "same_order envl envr"]
  by (simp add: joined_ends_def)

interpretation one_and_two: joined_ends "so_step envl" "\<lambda>y. loop_env envl \<and> solo_inv envl y" solo_view
    "sys_step (same_order envl envr)"
    "\<lambda>y. system_env (same_order envl envr) \<and> listening (same_order envl envr) \<and> stream_inv (same_order envl envr) y"
    sys_view "env_le envl" for envl envr
  using one_loop.stream_end_axioms [of envl] two_loops.stream_end_axioms [of "same_order envl envr"]
  by (simp add: joined_ends_def)

end
