(* ===== verification/Tcp_Client.thy ===== *)
theory Tcp_Client
  imports Tcp_States
begin

text \<open>
  \<^verbatim>\<open>TcpClientTask\<close> of tcp_client_task.hpp and tcp_client_task.cpp: one connection to a server,
  opened again by a timer when it is lost. The virtual members are recorded in \<open>tc_effects\<close> in
  the order they are called; those that answer are parameters (\<open>hooks\<close>). A socket the task lets go
  of stays with its loops: it is moved to \<open>tc_released\<close>. Times are milliseconds.
\<close>

section \<open>State\<close>

datatype task_effect =
    Recv_Verify_Msg "byte list"
  | Msg_Parse "byte list"
  | Send_Verify_Msg
  | Add_To_Manager
  | Remove_From_Manager
  | Send_Hello_Msg
  | Connect_Open
  | Connect_Error

datatype task_timer = Connect_To_Server | Stop_Process | Check_Verified

record task_hooks =
  hk_OnRecvVerifyMsg :: "byte list \<Rightarrow> bool"
  hk_OnSendHelloMsg :: "int \<Rightarrow> bool"

record tcp_client =
  tc_tcp_socket :: "tcp_socket option"
  tc_reconnect_timer :: "task_timer timer_watcher option"
  tc_server_ip :: string
  tc_server_port :: u16
  tc_verified :: bool
  tc_check_hello :: bool
  tc_last_hello_time :: int
  tc_last_schedule_time :: int
  tc_max_reconnect_times :: int
  tc_connect_round :: int
  tc_conn_id :: u64
  tc_effects :: "task_effect list"
  tc_released :: "tcp_socket list"

text \<open>What the system answers to a task: storage contents, \<^verbatim>\<open>socket\<close> and \<^verbatim>\<open>connect\<close>, the socket's
  surroundings, and the results of \<^verbatim>\<open>event_del\<close> and \<^verbatim>\<open>event_add\<close> on its timers.\<close>

record task_env =
  te_garbage1 :: "nat \<Rightarrow> byte"
  te_garbage2 :: "nat \<Rightarrow> byte"
  te_fd :: int
  te_conn :: "int \<times> int"
  te_tcp :: tcp_env
  te_del_rc :: int
  te_add_rc :: int

definition TcpClientTask_new :: "string \<Rightarrow> u16 \<Rightarrow> tcp_client" where
  "TcpClientTask_new ip port =
     \<lparr> tc_tcp_socket = None, tc_reconnect_timer = None, tc_server_ip = ip, tc_server_port = port,
       tc_verified = False, tc_check_hello = True, tc_last_hello_time = 0,
       tc_last_schedule_time = 0, tc_max_reconnect_times = - 1, tc_connect_round = 0,
       tc_conn_id = 0, tc_effects = [], tc_released = [] \<rparr>"

definition client_effect :: "task_effect \<Rightarrow> tcp_client \<Rightarrow> tcp_client" where
  "client_effect e c = c\<lparr>tc_effects := tc_effects c @ [e]\<rparr>"

text \<open>Dropping the pointer to the socket.\<close>

definition client_release :: "tcp_client \<Rightarrow> tcp_client" where
  "client_release c =
     (case tc_tcp_socket c of
        None \<Rightarrow> c
      | Some s \<Rightarrow> c\<lparr>tc_tcp_socket := None, tc_released := tc_released c @ [s]\<rparr>)"

section \<open>Connecting and stopping\<close>

definition ConnectToServer :: "task_env \<Rightarrow> tcp_client \<Rightarrow> (bool \<times> tcp_client) result" where
  "ConnectToServer env c =
     (let s = (TcpSocketWrapper_new (te_garbage1 env) (te_garbage2 env))
            \<lparr>tsw_SignalOnConnected := True, tsw_SignalReadPacket := True,
             tsw_SignalOnCloseEvent := True\<rparr> in
      rbind (BeginConnect (te_tcp env) (te_fd env) (te_conn env) (tc_server_ip c) (tc_server_port c) s)
        (\<lambda>(ok, s). Inr (ok, (client_release c)\<lparr>tc_tcp_socket := Some s\<rparr>)))"

definition Client_BeginProcess :: "task_env \<Rightarrow> tcp_client \<Rightarrow> tcp_client result" where
  "Client_BeginProcess env c =
     rbind (TimerEventWatcher_Init (TimerEventWatcher_new (Some Connect_To_Server) 3000)) (\<lambda>(_, w).
     rbind (ConnectToServer env (c\<lparr>tc_reconnect_timer := Some w\<rparr>)) (\<lambda>(_, c). Inr c))"

definition Client_StopProcess :: "task_env \<Rightarrow> tcp_client \<Rightarrow> tcp_client" where
  "Client_StopProcess env c =
     (let c = client_effect Remove_From_Manager c;
          c = (case tc_tcp_socket c of
                 None \<Rightarrow> c
               | Some s \<Rightarrow>
                   client_release (c\<lparr>tc_tcp_socket := Some (CloseConnection (te_tcp env)
                     (s\<lparr>tsw_SignalOnConnected := False, tsw_SignalReadPacket := False,
                        tsw_SignalOnCloseEvent := False\<rparr>))\<rparr>)) in
      c\<lparr>tc_reconnect_timer := None\<rparr>)"

definition Client_destroy :: "tcp_client \<Rightarrow> tcp_client" where
  "Client_destroy c = client_release (c\<lparr>tc_reconnect_timer := None\<rparr>)"

definition SetMaxReconnectTimes :: "int \<Rightarrow> tcp_client \<Rightarrow> tcp_client" where
  "SetMaxReconnectTimes count c = c\<lparr>tc_max_reconnect_times := count\<rparr>"

definition SetCheckHello :: "bool \<Rightarrow> tcp_client \<Rightarrow> tcp_client" where
  "SetCheckHello enable c = c\<lparr>tc_check_hello := enable\<rparr>"

definition Client_get_conn_id :: "tcp_client \<Rightarrow> u64" where
  "Client_get_conn_id c = tc_conn_id c"

definition Client_set_conn_id :: "u64 \<Rightarrow> tcp_client \<Rightarrow> tcp_client" where
  "Client_set_conn_id i c = c\<lparr>tc_conn_id := i\<rparr>"

definition Client_GetState :: "tcp_client \<Rightarrow> conn_state" where
  "Client_GetState c = (case tc_tcp_socket c of None \<Rightarrow> CS_CLOSED | Some s \<Rightarrow> GetState s)"

text \<open>\<open>show_addr\<close> is \<^verbatim>\<open>rtc::SocketAddress::ToString\<close>.\<close>

definition Client_GetRemoteAddress :: "(string \<times> u16 \<Rightarrow> string) \<Rightarrow> tcp_client \<Rightarrow> string" where
  "Client_GetRemoteAddress show_addr c =
     (case tc_tcp_socket c of None \<Rightarrow> '''' | Some s \<Rightarrow> show_addr (GetRemoteAddress s))"

definition Client_SendData ::
  "task_env \<Rightarrow> byte list \<Rightarrow> size_t \<Rightarrow> tcp_client \<Rightarrow> (bool \<times> byte list \<times> tcp_client) result option" where
  "Client_SendData env data len c =
     (case tc_tcp_socket c of
        None \<Rightarrow> Some (Inr (False, data, c))
      | Some s \<Rightarrow>
          if GetState s = CS_CONNECTED then
            map_option (\<lambda>r. rbind r (\<lambda>(ok, d, s). Inr (ok, d, c\<lparr>tc_tcp_socket := Some s\<rparr>)))
              (SendData (te_tcp env) data len s)
          else Some (Inr (False, data, c)))"

definition Client_SendDataWithHead ::
  "task_env \<Rightarrow> byte list \<Rightarrow> tcp_client \<Rightarrow> (bool \<times> tcp_client) result option" where
  "Client_SendDataWithHead env buff c =
     (case tc_tcp_socket c of
        None \<Rightarrow> Some (Inr (False, c))
      | Some s \<Rightarrow>
          if GetState s = CS_CONNECTED then
            map_option (\<lambda>r. rbind r (\<lambda>(ok, s). Inr (ok, c\<lparr>tc_tcp_socket := Some s\<rparr>)))
              (SendDataWithHead (te_tcp env) buff s)
          else Some (Inr (False, c)))"

section \<open>Events\<close>

definition TryReconnectServerInner :: "task_env \<Rightarrow> tcp_client \<Rightarrow> tcp_client result" where
  "TryReconnectServerInner env c =
     (let c = (if tc_max_reconnect_times c > 0
               then c\<lparr>tc_connect_round := tc_connect_round c + 1\<rparr> else c) in
      if tc_max_reconnect_times c > 0 \<and> tc_connect_round c \<ge> tc_max_reconnect_times c
      then Inr (Client_StopProcess env (client_effect Connect_Error c))
      else
        let c = (case tc_tcp_socket c of
                   None \<Rightarrow> c
                 | Some s \<Rightarrow>
                     client_release (c\<lparr>tc_tcp_socket := Some (CloseConnection (te_tcp env) s)\<rparr>)) in
        rbind (case tc_reconnect_timer c of
                 None \<Rightarrow> Inr c
               | Some w \<Rightarrow>
                   rbind (TimerEventWatcher_AsyncWait (te_del_rc env) (te_add_rc env) w) (\<lambda>(_, w).
                   Inr (c\<lparr>tc_reconnect_timer := Some w\<rparr>))) (\<lambda>c.
        Inr (c\<lparr>tc_last_hello_time := 0, tc_verified := False\<rparr>)))"

definition Client_OnInternalPacket ::
  "task_env \<Rightarrow> task_hooks \<Rightarrow> byte list \<Rightarrow> tcp_client \<Rightarrow> tcp_client" where
  "Client_OnInternalPacket env hk bytes c =
     (if \<not> tc_verified c then
        let c = client_effect (Recv_Verify_Msg bytes) c in
        if hk_OnRecvVerifyMsg hk bytes
        then client_effect Add_To_Manager (c\<lparr>tc_verified := True\<rparr>)
        else Client_StopProcess env c
      else client_effect (Msg_Parse bytes) c)"

text \<open>\<open>now\<close> is what \<^verbatim>\<open>rtc::TimeMillis\<close> returns.\<close>

definition Client_OnConnectEvent :: "int \<Rightarrow> tcp_client \<Rightarrow> tcp_client" where
  "Client_OnConnectEvent now c =
     (let c = client_effect Send_Verify_Msg (client_effect Connect_Open c) in
      c\<lparr>tc_last_hello_time := now, tc_connect_round := 0\<rparr>)"

definition Client_OnCloseEvent :: "task_env \<Rightarrow> tcp_client \<Rightarrow> tcp_client result" where
  "Client_OnCloseEvent env c = TryReconnectServerInner env c"

definition Client_OnRecvHelloMsg :: "int \<Rightarrow> tcp_client \<Rightarrow> tcp_client" where
  "Client_OnRecvHelloMsg now c = c\<lparr>tc_last_hello_time := now\<rparr>"

definition Client_ScheduleEvent ::
  "task_env \<Rightarrow> task_hooks \<Rightarrow> int \<Rightarrow> tcp_client \<Rightarrow> tcp_client result" where
  "Client_ScheduleEvent env hk current_time c =
     (let c =
        (if tc_last_schedule_time c = 0 then
           let c = client_effect Send_Hello_Msg c in
           if hk_OnSendHelloMsg hk current_time then c\<lparr>tc_last_schedule_time := current_time\<rparr> else c
         else if current_time - tc_last_schedule_time c \<ge> 10000 then
           (client_effect Send_Hello_Msg c)\<lparr>tc_last_schedule_time := current_time\<rparr>
         else c) in
      if tc_check_hello c \<and> tc_last_hello_time c > 0 \<and>
         current_time - tc_last_hello_time c > 30000
      then TryReconnectServerInner env c
      else Inr c)"

text \<open>The reconnect timer fires: its handler is \<^verbatim>\<open>ConnectToServer\<close>.\<close>

definition Client_timer_fired :: "task_env \<Rightarrow> tcp_client \<Rightarrow> tcp_client result" where
  "Client_timer_fired env c =
     (case tc_reconnect_timer c of
        None \<Rightarrow> Inl Null_Deref
      | Some w \<Rightarrow>
          Timer_HandlerFn
            (\<lambda>h c. case h of
               Connect_To_Server \<Rightarrow> rbind (ConnectToServer env c) (\<lambda>(_, c). Inr c)
             | _ \<Rightarrow> Inl Bad_Function_Call)
            w (c\<lparr>tc_reconnect_timer :=
                 Some (w\<lparr>w_event := map_option (\<lambda>e. e\<lparr>ev_added := False\<rparr>) (w_event w)\<rparr>)\<rparr>))"

section \<open>Reconnecting\<close>

definition timer_ok :: "task_timer \<Rightarrow> task_timer timer_watcher \<Rightarrow> bool" where
  "timer_ok h w \<longleftrightarrow> watcher_inv w \<and> w_event w \<noteq> None \<and> w_handler w = Some h"

lemma timer_new_ok:
  "\<exists>w. TimerEventWatcher_Init (TimerEventWatcher_new (Some h) ms) = Inr (True, w) \<and> timer_ok h w \<and>
    tw_timeout_ms w = ms"
  by (simp add: TimerEventWatcher_Init_def EventWatcher_Init_def Timer_DoInit_def with_event_def
    TimerEventWatcher_new_def EventWatcher_new_def watcher.defs timer_watcher.defs timer_ok_def
    watcher_inv_def)

lemma timer_wait_ok:
  assumes "timer_ok h w"
  shows "\<exists>w'. TimerEventWatcher_AsyncWait del_rc add_rc w = Inr (add_rc = 0, w') \<and> timer_ok h w' \<and>
    tw_timeout_ms w' = tw_timeout_ms w \<and> w_attached w' = (add_rc = 0)"
proof -
  from assms obtain e where e: "w_event w = Some e" "watcher_inv w" "w_handler w = Some h"
    by (auto simp: timer_ok_def)
  let ?w = "w\<lparr>w_attached := (add_rc = 0), w_event := Some (event_add add_rc
    (watch_timeval (tw_timeout_ms w)) (if w_attached w then event_del del_rc e else e))\<rparr>"
  have "TimerEventWatcher_AsyncWait del_rc add_rc w = Inr (add_rc = 0, ?w)"
    using Watch_cases [OF e(2,1)] by (simp add: TimerEventWatcher_AsyncWait_def)
  moreover have "timer_ok h ?w" using e by (simp add: timer_ok_def watcher_inv_def event_add_def)
  ultimately show ?thesis by (intro exI [of _ ?w]) simp
qed

definition client_ok :: "tcp_client \<Rightarrow> bool" where
  "client_ok c \<longleftrightarrow> (\<exists>w. tc_reconnect_timer c = Some w \<and> w_handler w = Some Connect_To_Server \<and>
     w_event w \<noteq> None \<and> watcher_inv w)"

lemma ConnectToServer_posted:
  assumes "\<not> env_in_network (te_tcp env)"
  shows "\<exists>s. ConnectToServer env c = Inr (True, (client_release c)\<lparr>tc_tcp_socket := Some s\<rparr>) \<and>
    tsw_posts s = [Net_Connect_Server] \<and> tsw_remote_addr s = (tc_server_ip c, tc_server_port c)"
  using assms
  apply (simp add: ConnectToServer_def BeginConnect_def Let_def)
  apply (rule exI, rule conjI, rule refl)
  apply (simp add: post_def TcpSocketWrapper_new_def)
  done

lemma client_release_simps [simp]:
  "tc_tcp_socket (client_release c) = None"
  "tc_reconnect_timer (client_release c) = tc_reconnect_timer c"
  "tc_connect_round (client_release c) = tc_connect_round c"
  "tc_max_reconnect_times (client_release c) = tc_max_reconnect_times c"
  "tc_effects (client_release c) = tc_effects c"
  "tc_last_schedule_time (client_release c) = tc_last_schedule_time c"
  "length (tc_released (client_release c)) =
    length (tc_released c) + (if tc_tcp_socket c = None then 0 else 1)"
  by (simp_all add: client_release_def split: option.split)

lemma StopProcess_simps [simp]:
  "tc_tcp_socket (Client_StopProcess env c) = None"
  "tc_reconnect_timer (Client_StopProcess env c) = None"
  "tc_effects (Client_StopProcess env c) = tc_effects c @ [Remove_From_Manager]"
  "tc_last_schedule_time (Client_StopProcess env c) = tc_last_schedule_time c"
  by (simp_all add: Client_StopProcess_def client_effect_def Let_def split: option.split)

lemma reconnect_waits:
  assumes "client_ok c" "\<not> (tc_max_reconnect_times c > 0 \<and> tc_connect_round c + 1 \<ge> tc_max_reconnect_times c)"
  shows "\<exists>c'. TryReconnectServerInner env c = Inr c' \<and> client_ok c' \<and> tc_tcp_socket c' = None \<and>
    tc_connect_round c' = (if tc_max_reconnect_times c > 0 then tc_connect_round c + 1
                           else tc_connect_round c) \<and>
    tc_max_reconnect_times c' = tc_max_reconnect_times c \<and> tc_effects c' = tc_effects c \<and>
    length (tc_released c') = length (tc_released c) + (if tc_tcp_socket c = None then 0 else 1) \<and>
    \<not> tc_verified c' \<and> tc_last_hello_time c' = 0 \<and>
    (te_add_rc env = 0 \<longrightarrow> (\<exists>w. tc_reconnect_timer c' = Some w \<and> w_attached w))"
proof -
  let ?c1 = "if tc_max_reconnect_times c > 0
             then c\<lparr>tc_connect_round := tc_connect_round c + 1\<rparr> else c"
  let ?c2 = "case tc_tcp_socket ?c1 of None \<Rightarrow> ?c1
    | Some s \<Rightarrow> client_release (?c1\<lparr>tc_tcp_socket := Some (CloseConnection (te_tcp env) s)\<rparr>)"
  from assms(1) obtain w where w: "tc_reconnect_timer c = Some w" "timer_ok Connect_To_Server w"
    by (auto simp: client_ok_def timer_ok_def)
  obtain w' where w': "TimerEventWatcher_AsyncWait (te_del_rc env) (te_add_rc env) w = Inr (te_add_rc env = 0, w')"
    "timer_ok Connect_To_Server w'" "w_attached w' = (te_add_rc env = 0)"
    using timer_wait_ok [OF w(2)] by blast
  have t2: "tc_reconnect_timer ?c2 = Some w" using w(1) by (simp split: option.split)
  have "TryReconnectServerInner env c =
      Inr (?c2\<lparr>tc_reconnect_timer := Some w', tc_last_hello_time := 0, tc_verified := False\<rparr>)"
    using assms(2) t2 w'(1)
    by (cases "tc_max_reconnect_times c > 0"; cases "tc_tcp_socket c")
      (simp_all add: TryReconnectServerInner_def Let_def)
  moreover have "client_ok (?c2\<lparr>tc_reconnect_timer := Some w', tc_last_hello_time := 0, tc_verified := False\<rparr>)"
    using w'(2) by (simp add: client_ok_def timer_ok_def)
  ultimately show ?thesis
    using w'(3) by (simp split: option.split)
qed

lemma reconnect_gives_up:
  assumes "tc_max_reconnect_times c > 0" "tc_connect_round c + 1 \<ge> tc_max_reconnect_times c"
  shows "\<exists>c'. TryReconnectServerInner env c = Inr c' \<and> tc_tcp_socket c' = None \<and>
    tc_reconnect_timer c' = None \<and> tc_effects c' = tc_effects c @ [Connect_Error, Remove_From_Manager]"
  using assms by (simp add: TryReconnectServerInner_def client_effect_def Let_def)

lemma timer_fired_ok:
  assumes "client_ok c" "\<not> env_in_network (te_tcp env)"
  shows "\<exists>c' s. Client_timer_fired env c = Inr c' \<and> client_ok c' \<and> tc_tcp_socket c' = Some s \<and>
    tsw_posts s = [Net_Connect_Server] \<and>
    tc_connect_round c' = tc_connect_round c \<and> tc_effects c' = tc_effects c \<and>
    tc_max_reconnect_times c' = tc_max_reconnect_times c \<and>
    length (tc_released c') = length (tc_released c) + (if tc_tcp_socket c = None then 0 else 1)"
proof -
  from assms(1) obtain w where w: "tc_reconnect_timer c = Some w"
    "w_handler w = Some Connect_To_Server" "w_event w \<noteq> None" by (auto simp: client_ok_def)
  let ?c = "c\<lparr>tc_reconnect_timer :=
    Some (w\<lparr>w_event := map_option (\<lambda>e. e\<lparr>ev_added := False\<rparr>) (w_event w)\<rparr>)\<rparr>"
  obtain s where s: "ConnectToServer env ?c = Inr (True, (client_release ?c)\<lparr>tc_tcp_socket := Some s\<rparr>)"
    "tsw_posts s = [Net_Connect_Server]"
    using ConnectToServer_posted [OF assms(2)] by blast
  have "Client_timer_fired env c = Inr ((client_release ?c)\<lparr>tc_tcp_socket := Some s\<rparr>)"
    using w s(1) by (simp add: Client_timer_fired_def Timer_HandlerFn_def call_handler_def)
  moreover have "client_ok ((client_release ?c)\<lparr>tc_tcp_socket := Some s\<rparr>)"
    using w(2,3) by (simp add: client_ok_def watcher_inv_def)
  ultimately show ?thesis using s(2) by simp
qed

text \<open>The connection is lost and the timer connects again, \<open>n\<close> times over.\<close>

fun lose_and_retry :: "task_env \<Rightarrow> nat \<Rightarrow> tcp_client \<Rightarrow> tcp_client result" where
  "lose_and_retry env 0 c = Inr c"
| "lose_and_retry env (Suc n) c =
     rbind (Client_OnCloseEvent env c) (\<lambda>c.
     rbind (Client_timer_fired env c) (\<lambda>c. lose_and_retry env n c))"

lemma lose_and_retry_ok:
  assumes "client_ok c" "\<not> env_in_network (te_tcp env)" "tc_tcp_socket c \<noteq> None"
    "tc_max_reconnect_times c > 0 \<longrightarrow> tc_connect_round c + int n < tc_max_reconnect_times c"
  shows "\<exists>c'. lose_and_retry env n c = Inr c' \<and> client_ok c' \<and> tc_tcp_socket c' \<noteq> None \<and>
    tc_effects c' = tc_effects c \<and> tc_max_reconnect_times c' = tc_max_reconnect_times c \<and>
    length (tc_released c') = length (tc_released c) + n \<and>
    (tc_max_reconnect_times c > 0 \<longrightarrow> tc_connect_round c' = tc_connect_round c + int n)"
  using assms
proof (induction n arbitrary: c)
  case 0
  then show ?case by simp
next
  case (Suc n)
  have "\<not> (tc_max_reconnect_times c > 0 \<and> tc_connect_round c + 1 \<ge> tc_max_reconnect_times c)"
    using Suc.prems(4) by auto
  from reconnect_waits [OF Suc.prems(1) this, of env] obtain c1 where
    c1: "TryReconnectServerInner env c = Inr c1" "client_ok c1" "tc_tcp_socket c1 = None"
    "tc_connect_round c1 = (if tc_max_reconnect_times c > 0 then tc_connect_round c + 1
                           else tc_connect_round c)"
    "tc_max_reconnect_times c1 = tc_max_reconnect_times c" "tc_effects c1 = tc_effects c"
    "length (tc_released c1) = length (tc_released c) + (if tc_tcp_socket c = None then 0 else 1)"
    by blast
  from timer_fired_ok [OF c1(2) Suc.prems(2)] obtain c2 where
    c2: "Client_timer_fired env c1 = Inr c2" "client_ok c2" "tc_tcp_socket c2 \<noteq> None"
    "tc_connect_round c2 = tc_connect_round c1" "tc_effects c2 = tc_effects c1"
    "tc_max_reconnect_times c2 = tc_max_reconnect_times c1"
    "length (tc_released c2) = length (tc_released c1) + (if tc_tcp_socket c1 = None then 0 else 1)"
    by blast
  have "tc_max_reconnect_times c2 > 0 \<longrightarrow> tc_connect_round c2 + int n < tc_max_reconnect_times c2"
    using Suc.prems(4) c1(4,5) c2(4,6) by auto
  from Suc.IH [OF c2(2) Suc.prems(2) c2(3) this] c1 c2 Suc.prems(3) show ?case
    by (auto simp: Client_OnCloseEvent_def)
qed

lemma Client_BeginProcess_ok:
  assumes "\<not> env_in_network (te_tcp env)"
  shows "\<exists>c'. Client_BeginProcess env c = Inr c' \<and> client_ok c' \<and> tc_tcp_socket c' \<noteq> None \<and>
    tc_effects c' = tc_effects c \<and> tc_connect_round c' = tc_connect_round c \<and>
    tc_max_reconnect_times c' = tc_max_reconnect_times c \<and>
    length (tc_released c') = length (tc_released c) + (if tc_tcp_socket c = None then 0 else 1)"
proof -
  obtain w where w: "TimerEventWatcher_Init (TimerEventWatcher_new (Some Connect_To_Server) 3000) =
      Inr (True, w)" "timer_ok Connect_To_Server w"
    using timer_new_ok [of Connect_To_Server 3000] by blast
  let ?c = "c\<lparr>tc_reconnect_timer := Some w\<rparr>"
  obtain s where s: "ConnectToServer env ?c = Inr (True, (client_release ?c)\<lparr>tc_tcp_socket := Some s\<rparr>)"
    using ConnectToServer_posted [OF assms] by blast
  have "Client_BeginProcess env c = Inr ((client_release ?c)\<lparr>tc_tcp_socket := Some s\<rparr>)"
    using w(1) s by (simp add: Client_BeginProcess_def)
  moreover have "client_ok ((client_release ?c)\<lparr>tc_tcp_socket := Some s\<rparr>)"
    using w(2) by (simp add: client_ok_def timer_ok_def)
  ultimately show ?thesis by simp
qed

section \<open>Hello messages\<close>

text \<open>\<^verbatim>\<open>ScheduleEvent\<close> called at the times of a list: those at which a hello was sent, and the end.\<close>

fun schedule_run ::
  "task_env \<Rightarrow> task_hooks \<Rightarrow> int list \<Rightarrow> tcp_client \<Rightarrow> (int list \<times> tcp_client) result" where
  "schedule_run env hk [] c = Inr ([], c)"
| "schedule_run env hk (t # ts) c =
     rbind (Client_ScheduleEvent env hk t c) (\<lambda>c'.
     rbind (schedule_run env hk ts c') (\<lambda>(hs, d).
     Inr (if count_list (tc_effects c') Send_Hello_Msg > count_list (tc_effects c) Send_Hello_Msg
          then t # hs else hs, d)))"

definition hello_due :: "int \<Rightarrow> tcp_client \<Rightarrow> bool" where
  "hello_due t c \<longleftrightarrow> tc_last_schedule_time c = 0 \<or> t - tc_last_schedule_time c \<ge> 10000"

lemma TryReconnect_keeps:
  assumes "TryReconnectServerInner env c = Inr c'"
  shows "tc_last_schedule_time c' = tc_last_schedule_time c \<and>
    count_list (tc_effects c') Send_Hello_Msg = count_list (tc_effects c) Send_Hello_Msg"
  using assms
  by (auto simp: TryReconnectServerInner_def rbind_eq_Inr client_effect_def Let_def
    split: if_splits option.splits)

lemma schedule_step:
  assumes "Client_ScheduleEvent env hk t c = Inr c'" "\<And>t. hk_OnSendHelloMsg hk t"
  shows "count_list (tc_effects c') Send_Hello_Msg =
      count_list (tc_effects c) Send_Hello_Msg + (if hello_due t c then 1 else 0)"
    and "tc_last_schedule_time c' = (if hello_due t c then t else tc_last_schedule_time c)"
  using assms
  by (auto simp: Client_ScheduleEvent_def hello_due_def client_effect_def Let_def
    split: if_splits dest!: TryReconnect_keeps)

text \<open>Two hellos are never less than ten seconds apart.\<close>

lemma schedule_run_spaced:
  assumes "schedule_run env hk ts c = Inr (hs, d)" "\<And>t. hk_OnSendHelloMsg hk t" "\<forall>t \<in> set ts. t > 0"
    "sorted ts"
  shows "sorted_wrt (\<lambda>a b. a + 10000 \<le> b) hs \<and> set hs \<subseteq> set ts \<and>
    (tc_last_schedule_time c \<noteq> 0 \<longrightarrow> (\<forall>h \<in> set hs. tc_last_schedule_time c + 10000 \<le> h))"
  using assms(1,3,4)
proof (induction ts arbitrary: c hs)
  case Nil
  then show ?case by simp
next
  case (Cons t ts)
  from Cons.prems(1) obtain c' hs' where c': "Client_ScheduleEvent env hk t c = Inr c'"
    "schedule_run env hk ts c' = Inr (hs', d)"
    "hs = (if count_list (tc_effects c') Send_Hello_Msg > count_list (tc_effects c) Send_Hello_Msg
          then t # hs' else hs')"
    by (auto simp: rbind_eq_Inr)
  note st = schedule_step [OF c'(1) assms(2)]
  from Cons.IH [OF c'(2)] Cons.prems(2,3) have IH: "sorted_wrt (\<lambda>a b. a + 10000 \<le> b) hs'"
    "set hs' \<subseteq> set ts"
    "tc_last_schedule_time c' \<noteq> 0 \<longrightarrow> (\<forall>h \<in> set hs'. tc_last_schedule_time c' + 10000 \<le> h)"
    by auto
  show ?case
  proof (cases "hello_due t c")
    case True
    with c'(3) st IH Cons.prems(2) show ?thesis by (force simp: hello_due_def)
  next
    case False
    with c'(3) st IH show ?thesis by auto
  qed
qed

section \<open>Verification comes first\<close>

text \<open>A packet is parsed only after one has been accepted; a refused one stops the task.\<close>

lemma packet_cases:
  "tc_verified c \<Longrightarrow> Client_OnInternalPacket env hk bs c = client_effect (Msg_Parse bs) c"
  "\<not> tc_verified c \<Longrightarrow> hk_OnRecvVerifyMsg hk bs \<Longrightarrow>
     tc_effects (Client_OnInternalPacket env hk bs c) =
       tc_effects c @ [Recv_Verify_Msg bs, Add_To_Manager] \<and>
     tc_verified (Client_OnInternalPacket env hk bs c)"
  "\<not> tc_verified c \<Longrightarrow> \<not> hk_OnRecvVerifyMsg hk bs \<Longrightarrow>
     tc_effects (Client_OnInternalPacket env hk bs c) =
       tc_effects c @ [Recv_Verify_Msg bs, Remove_From_Manager] \<and>
     tc_tcp_socket (Client_OnInternalPacket env hk bs c) = None"
  by (simp_all add: Client_OnInternalPacket_def client_effect_def Let_def)

end
