(* ===== verification/Tcp_Client_Runs.thy ===== *)
theory Tcp_Client_Runs
  imports Tcp_Client
begin

text \<open>
  A \<^verbatim>\<open>TcpClientTask\<close> over its whole life: the worker loop brings it the signals of its sockets,
  its timer and its owner's calls in any order. A socket the task has let go of keeps its
  functions (and a close signal that is already queued is a copy), so packets and close signals may
  still come after a reconnect or a stop.
\<close>

section \<open>Events in any order\<close>

datatype client_event =
    Ev_Connected int
  | Ev_Packet "byte list"
  | Ev_Closed
  | Ev_Timer
  | Ev_Schedule int
  | Ev_Recv_Hello int
  | Ev_Stop
  | Ev_Check_Hello bool

definition client_apply ::
  "task_env \<Rightarrow> task_hooks \<Rightarrow> client_event \<Rightarrow> tcp_client \<Rightarrow> tcp_client result" where
  "client_apply env hk ev c =
     (case ev of
        Ev_Connected now \<Rightarrow> Inr (Client_OnConnectEvent now c)
      | Ev_Packet bytes \<Rightarrow> Inr (Client_OnInternalPacket env hk bytes c)
      | Ev_Closed \<Rightarrow> Client_OnCloseEvent env c
      | Ev_Timer \<Rightarrow> Client_timer_fired env c
      | Ev_Schedule now \<Rightarrow> Client_ScheduleEvent env hk now c
      | Ev_Recv_Hello now \<Rightarrow> Inr (Client_OnRecvHelloMsg now c)
      | Ev_Stop \<Rightarrow> Inr (Client_StopProcess env c)
      | Ev_Check_Hello b \<Rightarrow> Inr (SetCheckHello b c))"

text \<open>The timer fires only while the loop has it; anything else may come at any time.\<close>

definition client_enabled :: "client_event \<Rightarrow> tcp_client \<Rightarrow> bool" where
  "client_enabled ev c \<longleftrightarrow> (ev = Ev_Timer \<longrightarrow> (\<exists>w e. tc_reconnect_timer c = Some w \<and>
     w_event w = Some e \<and> ev_added e))"

inductive client_step :: "task_env \<Rightarrow> task_hooks \<Rightarrow> tcp_client \<Rightarrow> tcp_client \<Rightarrow> bool" for env hk where
  "\<lbrakk> client_enabled ev c; client_apply env hk ev c = Inr d \<rbrakk> \<Longrightarrow> client_step env hk c d"

inductive_cases client_stepE: "client_step env hk c d"

section \<open>Well-formed tasks\<close>

text \<open>
  A task has a reconnect timer set up for \<^verbatim>\<open>ConnectToServer\<close>, or has stopped; while it has one, it
  has used fewer attempts than it is allowed; its current socket is one \<^verbatim>\<open>ConnectToServer\<close> made.
\<close>

definition client_wf :: "tcp_client \<Rightarrow> bool" where
  "client_wf c \<longleftrightarrow>
     (\<forall>w. tc_reconnect_timer c = Some w \<longrightarrow> timer_ok Connect_To_Server w \<and>
        (tc_max_reconnect_times c > 0 \<longrightarrow> tc_connect_round c < tc_max_reconnect_times c)) \<and>
     tc_connect_round c \<ge> 0 \<and>
     (\<forall>s. tc_tcp_socket c = Some s \<longrightarrow> tsw_SignalOnConnected s \<and> tsw_SignalReadPacket s \<and>
        tsw_SignalOnCloseEvent s \<and> tsw_remote_addr s = (tc_server_ip c, tc_server_port c))"

lemma client_wf_same:
  assumes "client_wf c" "tc_reconnect_timer d = tc_reconnect_timer c"
    "tc_max_reconnect_times d = tc_max_reconnect_times c" "tc_connect_round d = tc_connect_round c"
    "tc_tcp_socket d = tc_tcp_socket c" "tc_server_ip d = tc_server_ip c"
    "tc_server_port d = tc_server_port c"
  shows "client_wf d"
  using assms by (simp add: client_wf_def)

lemma release_keeps [simp]:
  "tc_verified (client_release c) = tc_verified c"
  "tc_server_ip (client_release c) = tc_server_ip c"
  "tc_server_port (client_release c) = tc_server_port c"
  by (simp_all add: client_release_def split: option.split)

lemma StopProcess_keeps [simp]:
  "tc_connect_round (Client_StopProcess env c) = tc_connect_round c"
  "tc_verified (Client_StopProcess env c) = tc_verified c"
  by (simp_all add: Client_StopProcess_def client_effect_def Let_def split: option.split)

lemma client_effect_simps [simp]:
  "tc_reconnect_timer (client_effect e c) = tc_reconnect_timer c"
  "tc_max_reconnect_times (client_effect e c) = tc_max_reconnect_times c"
  "tc_connect_round (client_effect e c) = tc_connect_round c"
  "tc_tcp_socket (client_effect e c) = tc_tcp_socket c"
  "tc_server_ip (client_effect e c) = tc_server_ip c"
  "tc_server_port (client_effect e c) = tc_server_port c"
  "tc_verified (client_effect e c) = tc_verified c"
  "tc_effects (client_effect e c) = tc_effects c @ [e]"
  by (simp_all add: client_effect_def)

lemma StopProcess_wf:
  "tc_connect_round c \<ge> 0 \<Longrightarrow> client_wf (Client_StopProcess env c)"
  by (simp add: client_wf_def)

section \<open>What a reconnect does\<close>

text \<open>The timer is set again where there is one.\<close>

lemma rearm_ok:
  assumes "\<forall>w. tc_reconnect_timer c = Some w \<longrightarrow> timer_ok Connect_To_Server w"
  shows "\<exists>t. (case tc_reconnect_timer c of
          None \<Rightarrow> Inr c
        | Some w \<Rightarrow>
            rbind (TimerEventWatcher_AsyncWait (te_del_rc env) (te_add_rc env) w) (\<lambda>(_, w).
            Inr (c\<lparr>tc_reconnect_timer := Some w\<rparr>))) = Inr (c\<lparr>tc_reconnect_timer := t\<rparr>) \<and>
      (\<forall>w. t = Some w \<longrightarrow> timer_ok Connect_To_Server w)"
proof (cases "tc_reconnect_timer c")
  case None
  then have "c\<lparr>tc_reconnect_timer := None\<rparr> = c" by (metis tcp_client.surjective tcp_client.update_convs(2))
  then show ?thesis using None by (intro exI [of _ None]) simp
next
  case (Some w)
  then have "timer_ok Connect_To_Server w" using assms by simp
  from timer_wait_ok [OF this, of "te_del_rc env" "te_add_rc env"] obtain w' where
    "TimerEventWatcher_AsyncWait (te_del_rc env) (te_add_rc env) w = Inr (te_add_rc env = 0, w')"
    "timer_ok Connect_To_Server w'" by blast
  then show ?thesis using Some by (intro exI [of _ "Some w'"]) simp
qed

text \<open>A reconnect gives up, or leaves the task without a socket, its timer set, and unverified.\<close>

lemma TryReconnect_ok:
  assumes "client_wf c"
  shows "\<exists>d. TryReconnectServerInner env c = Inr d \<and> client_wf d \<and>
    (tc_effects d = tc_effects c @ [Connect_Error, Remove_From_Manager] \<and> tc_verified d = tc_verified c \<or>
     tc_effects d = tc_effects c \<and> \<not> tc_verified d)"
proof -
  let ?m = "tc_max_reconnect_times c"
  let ?c1 = "if ?m > 0 then c\<lparr>tc_connect_round := tc_connect_round c + 1\<rparr> else c"
  have round: "tc_connect_round c \<ge> 0" using assms by (simp add: client_wf_def)
  show ?thesis
  proof (cases "?m > 0 \<and> tc_connect_round c + 1 \<ge> ?m")
    case True
    then have "TryReconnectServerInner env c = Inr (Client_StopProcess env (client_effect Connect_Error ?c1))"
      by (simp add: TryReconnectServerInner_def)
    moreover have "client_wf (Client_StopProcess env (client_effect Connect_Error ?c1))"
      using round by (intro StopProcess_wf) simp
    ultimately show ?thesis using True by simp
  next
    case False
    define c2 where "c2 = (case tc_tcp_socket ?c1 of None \<Rightarrow> ?c1
      | Some s \<Rightarrow> client_release (?c1\<lparr>tc_tcp_socket := Some (CloseConnection (te_tcp env) s)\<rparr>))"
    have c2: "tc_tcp_socket c2 = None" "tc_reconnect_timer c2 = tc_reconnect_timer c"
      "tc_max_reconnect_times c2 = ?m" "tc_effects c2 = tc_effects c"
      "tc_connect_round c2 = (if ?m > 0 then tc_connect_round c + 1 else tc_connect_round c)"
      by (simp_all add: c2_def split: option.split)
    have "\<forall>w. tc_reconnect_timer c2 = Some w \<longrightarrow> timer_ok Connect_To_Server w"
      using assms c2(2) by (simp add: client_wf_def)
    from rearm_ok [OF this, of env] obtain t where t: "(case tc_reconnect_timer c2 of
          None \<Rightarrow> Inr c2
        | Some w \<Rightarrow>
            rbind (TimerEventWatcher_AsyncWait (te_del_rc env) (te_add_rc env) w) (\<lambda>(_, w).
            Inr (c2\<lparr>tc_reconnect_timer := Some w\<rparr>))) = Inr (c2\<lparr>tc_reconnect_timer := t\<rparr>)"
      "\<forall>w. t = Some w \<longrightarrow> timer_ok Connect_To_Server w" by blast
    let ?d = "c2\<lparr>tc_reconnect_timer := t, tc_last_hello_time := 0, tc_verified := False\<rparr>"
    have "TryReconnectServerInner env c = Inr ?d"
      using False t(1) unfolding TryReconnectServerInner_def Let_def c2_def [symmetric]
      by (simp add: c2_def [symmetric])
    moreover have "client_wf ?d"
      using t(2) c2 round False by (auto simp: client_wf_def)
    ultimately show ?thesis using c2(4) by (intro exI [of _ ?d]) simp
  qed
qed

lemma ConnectToServer_made:
  assumes "\<not> env_in_network (te_tcp env)"
  shows "\<exists>s. ConnectToServer env c = Inr (True, (client_release c)\<lparr>tc_tcp_socket := Some s\<rparr>) \<and>
    tsw_SignalOnConnected s \<and> tsw_SignalReadPacket s \<and> tsw_SignalOnCloseEvent s \<and>
    tsw_remote_addr s = (tc_server_ip c, tc_server_port c)"
  using assms by (auto simp: ConnectToServer_def BeginConnect_def post_def Let_def)

lemma timer_fired_wf:
  assumes "client_wf c" "tc_reconnect_timer c = Some w" "\<not> env_in_network (te_tcp env)"
  shows "\<exists>d. Client_timer_fired env c = Inr d \<and> client_wf d \<and> tc_effects d = tc_effects c \<and>
    tc_verified d = tc_verified c"
proof -
  have w: "timer_ok Connect_To_Server w" using assms(1,2) by (simp add: client_wf_def)
  let ?w = "w\<lparr>w_event := map_option (\<lambda>e. e\<lparr>ev_added := False\<rparr>) (w_event w)\<rparr>"
  let ?c = "c\<lparr>tc_reconnect_timer := Some ?w\<rparr>"
  obtain s where s: "ConnectToServer env ?c = Inr (True, (client_release ?c)\<lparr>tc_tcp_socket := Some s\<rparr>)"
    "tsw_SignalOnConnected s" "tsw_SignalReadPacket s" "tsw_SignalOnCloseEvent s"
    "tsw_remote_addr s = (tc_server_ip c, tc_server_port c)"
    using ConnectToServer_made [OF assms(3), of ?c] by auto
  have "Client_timer_fired env c = Inr ((client_release ?c)\<lparr>tc_tcp_socket := Some s\<rparr>)"
    using w assms(2) s(1) by (simp add: Client_timer_fired_def Timer_HandlerFn_def call_handler_def timer_ok_def)
  moreover have "client_wf ((client_release ?c)\<lparr>tc_tcp_socket := Some s\<rparr>)"
    using assms(1,2) s(2-5) w by (auto simp: client_wf_def timer_ok_def watcher_inv_def)
  ultimately show ?thesis by simp
qed

section \<open>What a task promises: a session\<close>

text \<open>
  A task, seen from the methods its subclass supplies: verified or not, and the calls made. A packet
  is for verification until one is accepted, and for parsing from then on until the connection is
  lost; every way out of the manager is one of three.
\<close>

record session =
  se_verified :: bool
  se_calls :: "task_effect list"

definition add_calls :: "task_effect list \<Rightarrow> session \<Rightarrow> session" where
  "add_calls es s = s\<lparr>se_calls := se_calls s @ es\<rparr>"

inductive session_step :: "task_hooks \<Rightarrow> session \<Rightarrow> session \<Rightarrow> bool" for hk where
  accept: "\<lbrakk> \<not> se_verified s; hk_OnRecvVerifyMsg hk bs \<rbrakk> \<Longrightarrow>
    session_step hk s ((add_calls [Recv_Verify_Msg bs, Add_To_Manager] s)\<lparr>se_verified := True\<rparr>)"
| refuse: "\<lbrakk> \<not> se_verified s; \<not> hk_OnRecvVerifyMsg hk bs \<rbrakk> \<Longrightarrow>
    session_step hk s (add_calls [Recv_Verify_Msg bs, Remove_From_Manager] s)"
| parse: "se_verified s \<Longrightarrow> session_step hk s (add_calls [Msg_Parse bs] s)"
| connected: "session_step hk s (add_calls [Connect_Open, Send_Verify_Msg] s)"
| hello: "session_step hk s (add_calls [Send_Hello_Msg] s)"
| lost: "session_step hk s (s\<lparr>se_verified := False\<rparr>)"
| give_up: "session_step hk s (add_calls [Connect_Error, Remove_From_Manager] s)"
| stop: "session_step hk s (add_calls [Remove_From_Manager] s)"

definition client_session :: "tcp_client \<Rightarrow> session" where
  "client_session c = \<lparr> se_verified = tc_verified c, se_calls = tc_effects c \<rparr>"

lemma TryReconnect_session:
  assumes "client_wf c"
  shows "\<exists>d. TryReconnectServerInner env c = Inr d \<and> client_wf d \<and>
    session_step hk (client_session c) (client_session d)"
proof -
  from TryReconnect_ok [OF assms, of env] obtain d where
    d: "TryReconnectServerInner env c = Inr d" "client_wf d"
    "tc_effects d = tc_effects c @ [Connect_Error, Remove_From_Manager] \<and> tc_verified d = tc_verified c \<or>
     tc_effects d = tc_effects c \<and> \<not> tc_verified d" by blast
  have "session_step hk (client_session c) (client_session d)"
    using d(3) session_step.give_up [of hk "client_session c"] session_step.lost [of hk "client_session c"]
    by (auto simp: client_session_def add_calls_def)
  with d show ?thesis by blast
qed

lemma packet_session:
  "session_step hk (client_session c) (client_session (Client_OnInternalPacket env hk bs c))"
  using session_step.accept [of "client_session c" hk bs] session_step.refuse [of "client_session c" hk bs]
    session_step.parse [of "client_session c" hk bs]
  by (auto simp: Client_OnInternalPacket_def client_session_def add_calls_def Let_def)

lemma packet_wf:
  assumes "client_wf c"
  shows "client_wf (Client_OnInternalPacket env hk bs c)"
proof -
  have "client_wf (Client_StopProcess env (client_effect (Recv_Verify_Msg bs) c))"
    using assms by (intro StopProcess_wf) (simp add: client_wf_def)
  moreover have "client_wf (client_effect (Msg_Parse bs) c)"
    "client_wf (client_effect Add_To_Manager ((client_effect (Recv_Verify_Msg bs) c)\<lparr>tc_verified := True\<rparr>))"
    using assms by (auto intro: client_wf_same)
  ultimately show ?thesis by (simp add: Client_OnInternalPacket_def Let_def)
qed

lemma schedule_session:
  assumes "client_wf c"
  shows "\<exists>d. Client_ScheduleEvent env hk now c = Inr d \<and> client_wf d \<and>
    (session_step hk)\<^sup>*\<^sup>* (client_session c) (client_session d)"
proof -
  obtain e where e: "client_wf e" "(session_step hk)\<^sup>*\<^sup>* (client_session c) (client_session e)"
    "Client_ScheduleEvent env hk now c =
      (if tc_check_hello e \<and> tc_last_hello_time e > 0 \<and> now - tc_last_hello_time e > 30000
       then TryReconnectServerInner env e else Inr e)"
  proof
    let ?e = "if tc_last_schedule_time c = 0 then
        let c = client_effect Send_Hello_Msg c in
        if hk_OnSendHelloMsg hk now then c\<lparr>tc_last_schedule_time := now\<rparr> else c
      else if now - tc_last_schedule_time c \<ge> 10000 then
        (client_effect Send_Hello_Msg c)\<lparr>tc_last_schedule_time := now\<rparr>
      else c"
    show "client_wf ?e" using assms by (auto simp: Let_def intro: client_wf_same)
    have "client_session ?e = client_session c \<or> session_step hk (client_session c) (client_session ?e)"
      using session_step.hello [of hk "client_session c"]
      by (auto simp: client_session_def add_calls_def Let_def)
    then show "(session_step hk)\<^sup>*\<^sup>* (client_session c) (client_session ?e)" by auto
    show "Client_ScheduleEvent env hk now c =
      (if tc_check_hello ?e \<and> tc_last_hello_time ?e > 0 \<and> now - tc_last_hello_time ?e > 30000
       then TryReconnectServerInner env ?e else Inr ?e)"
      by (simp only: Client_ScheduleEvent_def Let_def)
  qed
  with TryReconnect_session [OF e(1), of env hk] show ?thesis
    by (auto intro: rtranclp.rtrancl_into_rtrancl)
qed

lemma connected_session:
  "session_step hk (client_session c) (client_session (Client_OnConnectEvent now c))"
  using session_step.connected [of hk "client_session c"]
  by (simp add: Client_OnConnectEvent_def client_session_def add_calls_def Let_def)

lemma stop_session:
  "session_step hk (client_session c) (client_session (Client_StopProcess env c))"
  using session_step.stop [of hk "client_session c"] by (simp add: client_session_def add_calls_def)

text \<open>No event faults; each keeps the task well-formed, and is a step of the session or several.\<close>

lemma client_apply_ok:
  assumes "client_wf c" "client_enabled ev c" "\<not> env_in_network (te_tcp env)"
  shows "\<exists>d. client_apply env hk ev c = Inr d \<and> client_wf d \<and>
    (session_step hk)\<^sup>*\<^sup>* (client_session c) (client_session d)"
proof (cases ev)
  case (Ev_Connected now)
  have "client_wf (Client_OnConnectEvent now c)"
    using assms(1) by (auto simp: Client_OnConnectEvent_def client_wf_def Let_def)
  with connected_session [of hk c now] Ev_Connected show ?thesis by (auto simp: client_apply_def)
next
  case (Ev_Packet bytes)
  with packet_wf [OF assms(1)] packet_session [of hk c env bytes] show ?thesis
    by (auto simp: client_apply_def)
next
  case Ev_Closed
  with TryReconnect_session [OF assms(1), of env hk] show ?thesis
    by (auto simp: client_apply_def Client_OnCloseEvent_def)
next
  case Ev_Timer
  then obtain w where "tc_reconnect_timer c = Some w" using assms(2) by (auto simp: client_enabled_def)
  from timer_fired_wf [OF assms(1) this assms(3)] Ev_Timer show ?thesis
    by (auto simp: client_apply_def client_session_def)
next
  case (Ev_Schedule now)
  with schedule_session [OF assms(1)] show ?thesis by (simp add: client_apply_def)
next
  case (Ev_Recv_Hello now)
  have "client_wf (Client_OnRecvHelloMsg now c)"
    using assms(1) by (rule client_wf_same) (simp_all add: Client_OnRecvHelloMsg_def)
  with Ev_Recv_Hello show ?thesis
    by (simp add: client_apply_def client_session_def Client_OnRecvHelloMsg_def)
next
  case Ev_Stop
  have "client_wf (Client_StopProcess env c)"
    using assms(1) by (intro StopProcess_wf) (simp add: client_wf_def)
  with stop_session [of hk c env] Ev_Stop show ?thesis by (auto simp: client_apply_def)
next
  case (Ev_Check_Hello b)
  have "client_wf (SetCheckHello b c)"
    using assms(1) by (rule client_wf_same) (simp_all add: SetCheckHello_def)
  with Ev_Check_Hello show ?thesis
    by (simp add: client_apply_def client_session_def SetCheckHello_def)
qed

interpretation client_runs: simulation_system "client_step env hk"
  "\<lambda>c. client_wf c \<and> \<not> env_in_network (te_tcp env)" "(session_step hk)\<^sup>*\<^sup>*" client_session "\<lambda>_. True"
  for env hk
proof unfold_locales
  fix c d
  assume c: "client_wf c \<and> \<not> env_in_network (te_tcp env)" and st: "client_step env hk c d"
  from st obtain ev where ev: "client_enabled ev c" "client_apply env hk ev c = Inr d"
    by (rule client_stepE)
  from client_apply_ok [OF _ ev(1), of env hk] c ev(2)
  have d: "client_wf d" "(session_step hk)\<^sup>*\<^sup>* (client_session c) (client_session d)" by auto
  show "client_wf d \<and> \<not> env_in_network (te_tcp env)" using c d(1) by blast
  show "client_session c = client_session d \<or>
      (session_step hk)\<^sup>*\<^sup>* (client_session c) (client_session d)" using d(2) by blast
qed

lemma client_run_session:
  assumes "(client_step env hk)\<^sup>*\<^sup>* c d" "client_wf c" "\<not> env_in_network (te_tcp env)"
  shows "(session_step hk)\<^sup>*\<^sup>* (client_session c) (client_session d)"
  using client_runs.run_simulates [OF assms(1)] assms(2,3) by simp

section \<open>The calls of a session\<close>

text \<open>Read backwards: a parse comes after an entry into the manager, and an entry comes right after
  a verification message that was accepted.\<close>

fun calls_ok :: "task_hooks \<Rightarrow> task_effect list \<Rightarrow> bool" where
  "calls_ok hk [] = True"
| "calls_ok hk (Msg_Parse _ # es) \<longleftrightarrow> Add_To_Manager \<in> set es \<and> calls_ok hk es"
| "calls_ok hk (Add_To_Manager # es) \<longleftrightarrow>
     (case es of Recv_Verify_Msg bs # _ \<Rightarrow> hk_OnRecvVerifyMsg hk bs | _ \<Rightarrow> False) \<and> calls_ok hk es"
| "calls_ok hk (_ # es) = calls_ok hk es"

lemma session_step_calls:
  assumes "session_step hk s t" "calls_ok hk (rev (se_calls s))"
    "se_verified s \<longrightarrow> Add_To_Manager \<in> set (se_calls s)"
  shows "calls_ok hk (rev (se_calls t)) \<and> (se_verified t \<longrightarrow> Add_To_Manager \<in> set (se_calls t))"
  using assms by cases (auto simp: add_calls_def)

interpretation sessions: invariant_system "session_step hk"
  "\<lambda>s. calls_ok hk (rev (se_calls s)) \<and> (se_verified s \<longrightarrow> Add_To_Manager \<in> set (se_calls s))" for hk
  by unfold_locales (use session_step_calls in blast)

lemma new_client_wf:
  assumes "\<not> env_in_network (te_tcp env)" "Client_BeginProcess env (TcpClientTask_new ip port) = Inr c"
  shows "client_wf c" "client_session c = \<lparr> se_verified = False, se_calls = [] \<rparr>"
proof -
  obtain w where w: "TimerEventWatcher_Init (TimerEventWatcher_new (Some Connect_To_Server) 3000) =
      Inr (True, w)" "timer_ok Connect_To_Server w"
    using timer_new_ok [of Connect_To_Server 3000] by blast
  let ?c = "(TcpClientTask_new ip port)\<lparr>tc_reconnect_timer := Some w\<rparr>"
  obtain s where s: "ConnectToServer env ?c = Inr (True, (client_release ?c)\<lparr>tc_tcp_socket := Some s\<rparr>)"
    "tsw_SignalOnConnected s" "tsw_SignalReadPacket s" "tsw_SignalOnCloseEvent s"
    "tsw_remote_addr s = (ip, port)"
    using ConnectToServer_made [OF assms(1), of ?c] by (auto simp: TcpClientTask_new_def)
  have c: "c = (client_release ?c)\<lparr>tc_tcp_socket := Some s\<rparr>"
    using assms(2) w(1) s(1) by (simp add: Client_BeginProcess_def)
  show "client_wf c" using w(2) s(2-5) by (simp add: c client_wf_def TcpClientTask_new_def client_release_def)
  show "client_session c = \<lparr> se_verified = False, se_calls = [] \<rparr>"
    by (simp add: c client_session_def TcpClientTask_new_def)
qed

section \<open>A close signal that comes late\<close>

text \<open>
  Nothing remembers that a task has stopped: a close signal that was queued before counts as one
  more failed attempt, and is reported again.
\<close>

lemma closed_again:
  assumes "tc_max_reconnect_times c > 0" "tc_connect_round c + 1 \<ge> tc_max_reconnect_times c"
  shows "\<exists>d e. Client_OnCloseEvent env c = Inr d \<and> Client_OnCloseEvent env d = Inr e \<and>
    tc_effects e = tc_effects c @ [Connect_Error, Remove_From_Manager, Connect_Error, Remove_From_Manager]"
proof -
  let ?d = "Client_StopProcess env (client_effect Connect_Error (c\<lparr>tc_connect_round := tc_connect_round c + 1\<rparr>))"
  have d: "Client_OnCloseEvent env c = Inr ?d"
    using assms by (simp add: Client_OnCloseEvent_def TryReconnectServerInner_def)
  have m: "tc_max_reconnect_times ?d = tc_max_reconnect_times c"
    by (simp add: Client_StopProcess_def client_effect_def Let_def split: option.split)
  have r: "tc_connect_round ?d = tc_connect_round c + 1" "tc_effects ?d = tc_effects c @ [Connect_Error, Remove_From_Manager]"
    by simp_all
  let ?d' = "?d\<lparr>tc_connect_round := tc_connect_round ?d + 1\<rparr>"
  have "Client_OnCloseEvent env ?d = Inr (Client_StopProcess env (client_effect Connect_Error ?d'))"
    unfolding Client_OnCloseEvent_def TryReconnectServerInner_def using assms m r
    by (simp del: StopProcess_keeps StopProcess_simps)
  moreover have "tc_effects (Client_StopProcess env (client_effect Connect_Error ?d')) = tc_effects c @
      [Connect_Error, Remove_From_Manager, Connect_Error, Remove_From_Manager]" using r(2) by simp
  ultimately show ?thesis using d by blast
qed

end
