(* ===== verification/Tcp_Server.thy ===== *)
theory Tcp_Server
  imports Tcp_Client
begin

text \<open>
  \<^verbatim>\<open>TcpServerTask\<close> of tcp_server_task.hpp and tcp_server_task.cpp: the server's side of one
  accepted connection, with a timer that checks the client has been verified and one that closes.
\<close>

section \<open>State and operations\<close>

record tcp_server =
  ts_conn_socket :: "tcp_socket option"
  ts_verified_client :: bool
  ts_close_timer :: "task_timer timer_watcher option"
  ts_verify_timer :: "task_timer timer_watcher option"
  ts_last_hello_time :: int
  ts_conn_id :: u64
  ts_effects :: "task_effect list"
  ts_released :: "tcp_socket list"

definition TcpServerTask_new :: tcp_server where
  "TcpServerTask_new =
     \<lparr> ts_conn_socket = None, ts_verified_client = False, ts_close_timer = None,
       ts_verify_timer = None, ts_last_hello_time = 0, ts_conn_id = 0, ts_effects = [],
       ts_released = [] \<rparr>"

definition Server_get_conn_id :: "tcp_server \<Rightarrow> u64" where
  "Server_get_conn_id t = ts_conn_id t"

definition Server_set_conn_id :: "u64 \<Rightarrow> tcp_server \<Rightarrow> tcp_server" where
  "Server_set_conn_id i t = t\<lparr>ts_conn_id := i\<rparr>"

definition server_effect :: "task_effect \<Rightarrow> tcp_server \<Rightarrow> tcp_server" where
  "server_effect e t = t\<lparr>ts_effects := ts_effects t @ [e]\<rparr>"

text \<open>\<^verbatim>\<open>CloseConnection\<close> on the socket, which the task then lets go of.\<close>

definition server_close_socket :: "task_env \<Rightarrow> bool \<Rightarrow> tcp_server \<Rightarrow> tcp_server" where
  "server_close_socket env clear t =
     (case ts_conn_socket t of
        None \<Rightarrow> t
      | Some s \<Rightarrow>
          let s = (if clear then s\<lparr>tsw_SignalReadPacket := False, tsw_SignalOnCloseEvent := False\<rparr>
                   else s) in
          t\<lparr>ts_conn_socket := None, ts_released := ts_released t @ [CloseConnection (te_tcp env) s]\<rparr>)"

definition Server_destroy :: "task_env \<Rightarrow> tcp_server \<Rightarrow> tcp_server" where
  "Server_destroy env t = server_close_socket env False t"

definition Server_BeginProcess ::
  "task_env \<Rightarrow> int \<Rightarrow> tcp_socket option \<Rightarrow> tcp_server \<Rightarrow> (bool \<times> tcp_server) result" where
  "Server_BeginProcess env now sock t =
     (case sock of
        None \<Rightarrow> Inr (False, t)
      | Some s \<Rightarrow>
          let t = t\<lparr>ts_conn_socket :=
                Some (s\<lparr>tsw_SignalReadPacket := True, tsw_SignalOnCloseEvent := True\<rparr>)\<rparr> in
          rbind (TimerEventWatcher_Init (TimerEventWatcher_new (Some Stop_Process) 5)) (\<lambda>(_, cw).
          rbind (TimerEventWatcher_Init (TimerEventWatcher_new (Some Check_Verified) 3000)) (\<lambda>(_, vw).
          rbind (TimerEventWatcher_AsyncWait (te_del_rc env) (te_add_rc env) vw) (\<lambda>(_, vw).
          Inr (True, t\<lparr>ts_close_timer := Some cw, ts_verify_timer := Some vw,
            ts_last_hello_time := now\<rparr>)))))"

definition Server_StopProcess :: "task_env \<Rightarrow> tcp_server \<Rightarrow> tcp_server" where
  "Server_StopProcess env t =
     (server_close_socket env True (server_effect Remove_From_Manager t))
       \<lparr>ts_close_timer := None, ts_verify_timer := None\<rparr>"

definition Server_StopProcessV2 :: "task_env \<Rightarrow> bool \<Rightarrow> tcp_server \<Rightarrow> tcp_server" where
  "Server_StopProcessV2 env notify_manager t =
     (let t = (if notify_manager then server_effect Remove_From_Manager t else t) in
      (server_close_socket env True t)\<lparr>ts_close_timer := None, ts_verify_timer := None\<rparr>)"

definition Server_SendData ::
  "task_env \<Rightarrow> byte list \<Rightarrow> size_t \<Rightarrow> tcp_server \<Rightarrow> (bool \<times> byte list \<times> tcp_server) result option" where
  "Server_SendData env data len t =
     (case ts_conn_socket t of
        None \<Rightarrow> Some (Inr (False, data, t))
      | Some s \<Rightarrow>
          if GetState s = CS_CONNECTED then
            map_option (\<lambda>r. rbind r (\<lambda>(ok, d, s). Inr (ok, d, t\<lparr>ts_conn_socket := Some s\<rparr>)))
              (SendData (te_tcp env) data len s)
          else Some (Inr (False, data, t)))"

text \<open>\<^verbatim>\<open>close_timer_->AsyncWait()\<close>.\<close>

definition server_arm_close :: "task_env \<Rightarrow> tcp_server \<Rightarrow> tcp_server result" where
  "server_arm_close env t =
     (case ts_close_timer t of
        None \<Rightarrow> Inl Null_Deref
      | Some w \<Rightarrow>
          rbind (TimerEventWatcher_AsyncWait (te_del_rc env) (te_add_rc env) w) (\<lambda>(_, w).
          Inr (t\<lparr>ts_close_timer := Some w\<rparr>)))"

definition Server_ScheduleEvent :: "task_env \<Rightarrow> int \<Rightarrow> tcp_server \<Rightarrow> tcp_server result" where
  "Server_ScheduleEvent env current_time t =
     (if ts_last_hello_time t = 0 then Inr t
      else
        let offset_time = current_time - ts_last_hello_time t in
        if ts_verified_client t \<and> offset_time > 30000 then server_arm_close env t
        else Inr t)"

definition Server_GetRemoteAddress :: "(string \<times> u16 \<Rightarrow> string) \<Rightarrow> tcp_server \<Rightarrow> string" where
  "Server_GetRemoteAddress show_addr t =
     (case ts_conn_socket t of None \<Rightarrow> '''' | Some s \<Rightarrow> show_addr (GetRemoteAddress s))"

definition Server_OnRecvHelloMsg :: "int \<Rightarrow> tcp_server \<Rightarrow> tcp_server" where
  "Server_OnRecvHelloMsg now t = t\<lparr>ts_last_hello_time := now\<rparr>"

definition Server_OnInternalPacket :: "task_hooks \<Rightarrow> byte list \<Rightarrow> tcp_server \<Rightarrow> tcp_server" where
  "Server_OnInternalPacket hk bytes t =
     (if \<not> ts_verified_client t then
        let t = server_effect (Recv_Verify_Msg bytes) t in
        if hk_OnRecvVerifyMsg hk bytes
        then server_effect Add_To_Manager (t\<lparr>ts_verified_client := True\<rparr>)
        else t
      else server_effect (Msg_Parse bytes) t)"

definition Server_OnCloseEvent :: "task_env \<Rightarrow> tcp_server \<Rightarrow> tcp_server" where
  "Server_OnCloseEvent env t = Server_StopProcess env t"

definition Server_OnCheckVerified :: "task_env \<Rightarrow> tcp_server \<Rightarrow> tcp_server result" where
  "Server_OnCheckVerified env t =
     (if \<not> ts_verified_client t then server_arm_close env t else Inr t)"

section \<open>Verification comes first\<close>

lemma server_packet_verified:
  "ts_verified_client t \<Longrightarrow>
     ts_effects (fold (Server_OnInternalPacket hk) ps t) = ts_effects t @ map Msg_Parse ps \<and>
     ts_verified_client (fold (Server_OnInternalPacket hk) ps t)"
  by (induction ps arbitrary: t) (simp_all add: Server_OnInternalPacket_def server_effect_def)

lemma server_packet_first:
  assumes "\<not> ts_verified_client t"
  shows "Server_OnInternalPacket hk p t =
    (if hk_OnRecvVerifyMsg hk p
     then t\<lparr>ts_effects := ts_effects t @ [Recv_Verify_Msg p, Add_To_Manager], ts_verified_client := True\<rparr>
     else t\<lparr>ts_effects := ts_effects t @ [Recv_Verify_Msg p]\<rparr>)"
  using assms by (simp add: Server_OnInternalPacket_def server_effect_def Let_def)

text \<open>The packets up to the first accepted one are only verified, those after it only parsed.\<close>

definition packet_effects :: "task_hooks \<Rightarrow> byte list list \<Rightarrow> task_effect list" where
  "packet_effects hk ps =
     (let refused = takeWhile (\<lambda>p. \<not> hk_OnRecvVerifyMsg hk p) ps in
      map Recv_Verify_Msg refused @
      (case dropWhile (\<lambda>p. \<not> hk_OnRecvVerifyMsg hk p) ps of
         [] \<Rightarrow> []
       | p # qs \<Rightarrow> Recv_Verify_Msg p # Add_To_Manager # map Msg_Parse qs))"

lemma server_packets:
  assumes "\<not> ts_verified_client t"
  shows "ts_effects (fold (Server_OnInternalPacket hk) ps t) = ts_effects t @ packet_effects hk ps"
  using assms
proof (induction ps arbitrary: t)
  case Nil
  then show ?case by (simp add: packet_effects_def)
next
  case (Cons p ps)
  let ?u = "t\<lparr>ts_effects := ts_effects t @ [Recv_Verify_Msg p, Add_To_Manager],
    ts_verified_client := True\<rparr>"
  let ?v = "t\<lparr>ts_effects := ts_effects t @ [Recv_Verify_Msg p]\<rparr>"
  note first = server_packet_first [OF Cons.prems, of hk p]
  show ?case
  proof (cases "hk_OnRecvVerifyMsg hk p")
    case True
    with server_packet_verified [of ?u hk ps] show ?thesis
      by (simp add: first packet_effects_def)
  next
    case False
    with Cons.IH [of ?v] Cons.prems show ?thesis
      by (simp add: first packet_effects_def Let_def)
  qed
qed

section \<open>Timers\<close>

definition server_ok :: "tcp_server \<Rightarrow> bool" where
  "server_ok t \<longleftrightarrow> ts_conn_socket t \<noteq> None \<longrightarrow>
     (\<exists>cw vw. ts_close_timer t = Some cw \<and> ts_verify_timer t = Some vw \<and>
        timer_ok Stop_Process cw \<and> timer_ok Check_Verified vw)"

definition close_armed :: "tcp_server \<Rightarrow> bool" where
  "close_armed t \<longleftrightarrow> (\<exists>w. ts_close_timer t = Some w \<and> w_attached w)"

lemma Server_BeginProcess_ok:
  "\<exists>t' vw. Server_BeginProcess env now (Some s) t = Inr (True, t') \<and> server_ok t' \<and>
    ts_conn_socket t' = Some (s\<lparr>tsw_SignalReadPacket := True, tsw_SignalOnCloseEvent := True\<rparr>) \<and>
    ts_verify_timer t' = Some vw \<and> w_attached vw = (te_add_rc env = 0) \<and>
    tw_timeout_ms vw = 3000 \<and> ts_last_hello_time t' = now \<and>
    ts_verified_client t' = ts_verified_client t \<and> ts_effects t' = ts_effects t"
proof -
  obtain cw where cw: "TimerEventWatcher_Init (TimerEventWatcher_new (Some Stop_Process) 5) = Inr (True, cw)"
    "timer_ok Stop_Process cw" using timer_new_ok by blast
  obtain vw where vw: "TimerEventWatcher_Init (TimerEventWatcher_new (Some Check_Verified) 3000) = Inr (True, vw)"
    "timer_ok Check_Verified vw" "tw_timeout_ms vw = 3000" using timer_new_ok by blast
  obtain vw' where vw': "TimerEventWatcher_AsyncWait (te_del_rc env) (te_add_rc env) vw =
      Inr (te_add_rc env = 0, vw')" "timer_ok Check_Verified vw'" "tw_timeout_ms vw' = tw_timeout_ms vw"
    "w_attached vw' = (te_add_rc env = 0)" using timer_wait_ok [OF vw(2)] by blast
  show ?thesis
    using cw vw vw' by (simp add: Server_BeginProcess_def server_ok_def Let_def)
qed

lemma server_arm_close_ok:
  assumes "server_ok t" "ts_conn_socket t \<noteq> None"
  shows "\<exists>t'. server_arm_close env t = Inr t' \<and> server_ok t' \<and> ts_conn_socket t' = ts_conn_socket t \<and>
    ts_effects t' = ts_effects t \<and> close_armed t' = (te_add_rc env = 0)"
proof -
  from assms obtain cw vw where w: "ts_close_timer t = Some cw" "ts_verify_timer t = Some vw"
    "timer_ok Stop_Process cw" "timer_ok Check_Verified vw" by (auto simp: server_ok_def)
  obtain cw' where cw': "TimerEventWatcher_AsyncWait (te_del_rc env) (te_add_rc env) cw =
      Inr (te_add_rc env = 0, cw')" "timer_ok Stop_Process cw'" "w_attached cw' = (te_add_rc env = 0)"
    using timer_wait_ok [OF w(3)] by blast
  then show ?thesis using w by (simp add: server_arm_close_def server_ok_def close_armed_def)
qed

lemma Server_StopProcess_ok:
  "server_ok (Server_StopProcess env t) \<and> ts_conn_socket (Server_StopProcess env t) = None \<and>
    ts_effects (Server_StopProcess env t) = ts_effects t @ [Remove_From_Manager] \<and>
    ts_last_hello_time (Server_StopProcess env t) = ts_last_hello_time t \<and>
    ts_verified_client (Server_StopProcess env t) = ts_verified_client t \<and>
    ts_close_timer (Server_StopProcess env t) = None"
  by (simp add: Server_StopProcess_def server_close_socket_def server_effect_def server_ok_def Let_def
    split: option.split)

lemma Server_StopProcessV2_eq:
  "Server_StopProcessV2 env True t = Server_StopProcess env t"
  "ts_effects (Server_StopProcessV2 env False t) = ts_effects t"
  by (simp_all add: Server_StopProcessV2_def Server_StopProcess_def server_close_socket_def Let_def
    split: option.split)

text \<open>A silent client is closed after thirty seconds, not before; an unverified one when checked.\<close>

lemma Server_ScheduleEvent_ok:
  assumes "server_ok t" "ts_conn_socket t \<noteq> None"
  shows "\<exists>t'. Server_ScheduleEvent env now t = Inr t' \<and> server_ok t' \<and>
    (if ts_last_hello_time t \<noteq> 0 \<and> ts_verified_client t \<and> now - ts_last_hello_time t > 30000
     then close_armed t' = (te_add_rc env = 0) else t' = t)"
  using server_arm_close_ok [OF assms, of env] assms(1)
  by (auto simp: Server_ScheduleEvent_def Let_def)

lemma Server_ScheduleEvent_stopped:
  assumes "ts_close_timer t = None" "ts_verified_client t" "ts_last_hello_time t \<noteq> 0"
    "now - ts_last_hello_time t > 30000"
  shows "Server_ScheduleEvent env now t = Inl Null_Deref"
  using assms by (simp add: Server_ScheduleEvent_def server_arm_close_def Let_def)

end
