(* ===== verification/Tcp_Server_Runs.thy ===== *)
theory Tcp_Server_Runs
  imports Tcp_Server
begin

text \<open>
  A \<^verbatim>\<open>TcpServerTask\<close> over its whole life: packets, close signals, its two timers, the schedule and
  its owner's calls in any order. A stopped task has no socket and no timers, and one event can
  still make it fault.
\<close>

section \<open>Events in any order\<close>

datatype server_event =
    Sv_Packet "byte list"
  | Sv_Closed
  | Sv_Check_Timer
  | Sv_Close_Timer
  | Sv_Schedule int
  | Sv_Recv_Hello int
  | Sv_Stop
  | Sv_Stop_V2 bool

text \<open>The check fires the verify timer's handler, the close timer's is \<^verbatim>\<open>StopProcess\<close>.\<close>

definition timer_call :: "task_env \<Rightarrow> task_timer \<Rightarrow> tcp_server \<Rightarrow> tcp_server result" where
  "timer_call env h t =
     (case h of
        Check_Verified \<Rightarrow> Server_OnCheckVerified env t
      | Stop_Process \<Rightarrow> Inr (Server_StopProcess env t)
      | _ \<Rightarrow> Inl Bad_Function_Call)"

definition timer_unset :: "task_timer timer_watcher \<Rightarrow> task_timer timer_watcher" where
  "timer_unset w = w\<lparr>w_event := map_option (\<lambda>e. e\<lparr>ev_added := False\<rparr>) (w_event w)\<rparr>"

definition server_apply ::
  "task_env \<Rightarrow> task_hooks \<Rightarrow> server_event \<Rightarrow> tcp_server \<Rightarrow> tcp_server result" where
  "server_apply env hk ev t =
     (case ev of
        Sv_Packet bytes \<Rightarrow> Inr (Server_OnInternalPacket hk bytes t)
      | Sv_Closed \<Rightarrow> Inr (Server_OnCloseEvent env t)
      | Sv_Check_Timer \<Rightarrow>
          (case ts_verify_timer t of
             None \<Rightarrow> Inl Null_Deref
           | Some w \<Rightarrow> Timer_HandlerFn (timer_call env) w (t\<lparr>ts_verify_timer := Some (timer_unset w)\<rparr>))
      | Sv_Close_Timer \<Rightarrow>
          (case ts_close_timer t of
             None \<Rightarrow> Inl Null_Deref
           | Some w \<Rightarrow> Timer_HandlerFn (timer_call env) w (t\<lparr>ts_close_timer := Some (timer_unset w)\<rparr>))
      | Sv_Schedule now \<Rightarrow> Server_ScheduleEvent env now t
      | Sv_Recv_Hello now \<Rightarrow> Inr (Server_OnRecvHelloMsg now t)
      | Sv_Stop \<Rightarrow> Inr (Server_StopProcess env t)
      | Sv_Stop_V2 notify \<Rightarrow> Inr (Server_StopProcessV2 env notify t))"

definition timer_pending :: "task_timer timer_watcher option \<Rightarrow> bool" where
  "timer_pending tw \<longleftrightarrow> (\<exists>w e. tw = Some w \<and> w_event w = Some e \<and> ev_added e)"

definition server_enabled :: "server_event \<Rightarrow> tcp_server \<Rightarrow> bool" where
  "server_enabled ev t \<longleftrightarrow>
     (ev = Sv_Check_Timer \<longrightarrow> timer_pending (ts_verify_timer t)) \<and>
     (ev = Sv_Close_Timer \<longrightarrow> timer_pending (ts_close_timer t))"

inductive server_step :: "task_env \<Rightarrow> task_hooks \<Rightarrow> tcp_server \<Rightarrow> tcp_server \<Rightarrow> bool" for env hk where
  "\<lbrakk> server_enabled ev t; server_apply env hk ev t = Inr u \<rbrakk> \<Longrightarrow> server_step env hk t u"

inductive_cases server_stepE: "server_step env hk t u"

section \<open>Running or stopped\<close>

definition server_running :: "tcp_server \<Rightarrow> bool" where
  "server_running t \<longleftrightarrow> (\<exists>s cw vw. ts_conn_socket t = Some s \<and> tsw_SignalReadPacket s \<and>
     tsw_SignalOnCloseEvent s \<and> ts_close_timer t = Some cw \<and> ts_verify_timer t = Some vw \<and>
     timer_ok Stop_Process cw \<and> timer_ok Check_Verified vw)"

definition server_stopped :: "tcp_server \<Rightarrow> bool" where
  "server_stopped t \<longleftrightarrow> ts_conn_socket t = None \<and> ts_close_timer t = None \<and> ts_verify_timer t = None"

definition server_wf :: "tcp_server \<Rightarrow> bool" where
  "server_wf t \<longleftrightarrow> server_running t \<or> server_stopped t"

text \<open>The client is verified and has been silent for more than thirty seconds.\<close>

definition overdue :: "int \<Rightarrow> tcp_server \<Rightarrow> bool" where
  "overdue now t \<longleftrightarrow> ts_last_hello_time t \<noteq> 0 \<and> ts_verified_client t \<and>
     now - ts_last_hello_time t > 30000"

lemma server_wf_same:
  assumes "server_wf t" "ts_conn_socket u = ts_conn_socket t" "ts_close_timer u = ts_close_timer t"
    "ts_verify_timer u = ts_verify_timer t"
  shows "server_wf u"
  using assms by (simp add: server_wf_def server_running_def server_stopped_def)

lemma stop_stopped:
  "server_stopped (Server_StopProcess env t)" "server_stopped (Server_StopProcessV2 env b t)"
  by (simp_all add: server_stopped_def Server_StopProcess_def Server_StopProcessV2_def
    server_close_socket_def Let_def split: option.split)

lemma timer_unset_ok: "timer_ok h w \<Longrightarrow> timer_ok h (timer_unset w)"
  by (auto simp: timer_ok_def timer_unset_def watcher_inv_def)

lemma arm_close_running:
  assumes "server_running t"
  shows "\<exists>u. server_arm_close env t = Inr u \<and> server_running u"
proof -
  from assms obtain s cw vw where t: "ts_conn_socket t = Some s" "tsw_SignalReadPacket s"
    "tsw_SignalOnCloseEvent s" "ts_close_timer t = Some cw" "ts_verify_timer t = Some vw"
    "timer_ok Stop_Process cw" "timer_ok Check_Verified vw" by (auto simp: server_running_def)
  obtain cw' where "TimerEventWatcher_AsyncWait (te_del_rc env) (te_add_rc env) cw =
      Inr (te_add_rc env = 0, cw')" "timer_ok Stop_Process cw'"
    using timer_wait_ok [OF t(6)] by blast
  with t show ?thesis by (simp add: server_arm_close_def server_running_def)
qed

lemma packet_same:
  "ts_conn_socket (Server_OnInternalPacket hk bs t) = ts_conn_socket t"
  "ts_close_timer (Server_OnInternalPacket hk bs t) = ts_close_timer t"
  "ts_verify_timer (Server_OnInternalPacket hk bs t) = ts_verify_timer t"
  by (simp_all add: Server_OnInternalPacket_def server_effect_def Let_def)

lemma check_timer_ok:
  assumes "server_wf t" "timer_pending (ts_verify_timer t)"
  shows "\<exists>u. server_apply env hk Sv_Check_Timer t = Inr u \<and> server_wf u"
proof -
  from assms have run: "server_running t"
    by (auto simp: server_wf_def server_stopped_def timer_pending_def)
  then obtain vw where vw: "ts_verify_timer t = Some vw" "timer_ok Check_Verified vw"
    by (auto simp: server_running_def)
  let ?t = "t\<lparr>ts_verify_timer := Some (timer_unset vw)\<rparr>"
  have "server_running ?t" using run timer_unset_ok [OF vw(2)] by (auto simp: server_running_def)
  with arm_close_running [of ?t env] vw show ?thesis
    by (auto simp: server_apply_def Timer_HandlerFn_def call_handler_def timer_ok_def timer_call_def
      Server_OnCheckVerified_def server_wf_def)
qed

lemma close_timer_ok:
  assumes "server_wf t" "timer_pending (ts_close_timer t)"
  shows "\<exists>u. server_apply env hk Sv_Close_Timer t = Inr u \<and> server_wf u"
proof -
  from assms obtain cw where "ts_close_timer t = Some cw" "w_handler cw = Some Stop_Process"
    by (auto simp: server_wf_def server_stopped_def server_running_def timer_pending_def timer_ok_def)
  with stop_stopped(1) show ?thesis
    by (auto simp: server_apply_def Timer_HandlerFn_def call_handler_def timer_call_def server_wf_def)
qed

text \<open>Every enabled event is handled, but for a schedule that finds a stopped task overdue.\<close>

lemma server_apply_ok:
  assumes "server_wf t" "server_enabled ev t"
  shows "if \<exists>now. ev = Sv_Schedule now \<and> server_stopped t \<and> overdue now t
    then server_apply env hk ev t = Inl Null_Deref
    else \<exists>u. server_apply env hk ev t = Inr u \<and> server_wf u"
proof (cases ev)
  case (Sv_Packet bytes)
  have "server_wf (Server_OnInternalPacket hk bytes t)"
    using assms(1) by (rule server_wf_same) (simp_all add: packet_same)
  with Sv_Packet show ?thesis by (simp add: server_apply_def)
next
  case Sv_Closed
  with stop_stopped(1) show ?thesis
    by (simp add: server_apply_def Server_OnCloseEvent_def server_wf_def)
next
  case Sv_Check_Timer
  with check_timer_ok [OF assms(1)] assms(2) show ?thesis by (simp add: server_enabled_def)
next
  case Sv_Close_Timer
  with close_timer_ok [OF assms(1)] assms(2) show ?thesis by (simp add: server_enabled_def)
next
  case (Sv_Schedule now)
  show ?thesis
  proof (cases "server_stopped t")
    case True
    with assms(1) Sv_Schedule show ?thesis
      by (auto simp: server_apply_def Server_ScheduleEvent_def server_arm_close_def server_stopped_def
        overdue_def Let_def)
  next
    case False
    with assms(1) have "server_running t" by (simp add: server_wf_def)
    with arm_close_running [OF this, of env] False assms(1) Sv_Schedule show ?thesis
      by (auto simp: server_apply_def Server_ScheduleEvent_def server_wf_def Let_def)
  qed
next
  case (Sv_Recv_Hello now)
  have "server_wf (Server_OnRecvHelloMsg now t)"
    using assms(1) by (rule server_wf_same) (simp_all add: Server_OnRecvHelloMsg_def)
  with Sv_Recv_Hello show ?thesis by (simp add: server_apply_def)
next
  case Sv_Stop
  with stop_stopped(1) show ?thesis by (simp add: server_apply_def server_wf_def)
next
  case (Sv_Stop_V2 b)
  with stop_stopped(2) show ?thesis by (simp add: server_apply_def server_wf_def)
qed

lemma server_step_wf:
  assumes "server_wf t" "server_step env hk t u"
  shows "server_wf u"
proof -
  from assms(2) obtain ev where "server_enabled ev t" "server_apply env hk ev t = Inr u"
    by (rule server_stepE)
  with server_apply_ok [OF assms(1), of ev env hk] show ?thesis by (auto split: if_splits)
qed

interpretation server_runs: invariant_system "server_step env hk" server_wf for env hk
  by unfold_locales (rule server_step_wf)

lemma begin_running:
  assumes "Server_BeginProcess env now sock t = Inr (True, u)"
  shows "server_running u"
proof -
  from assms obtain s where s: "sock = Some s" by (auto simp: Server_BeginProcess_def split: option.splits)
  from Server_BeginProcess_ok [of env now s t] obtain vw where "server_ok u"
    "ts_conn_socket u = Some (s\<lparr>tsw_SignalReadPacket := True, tsw_SignalOnCloseEvent := True\<rparr>)"
    "ts_verify_timer u = Some vw"
    using assms s by auto
  then show ?thesis by (auto simp: server_ok_def server_running_def)
qed

text \<open>A stopped task stays stopped; a close signal that comes late takes it out of the manager again.\<close>

lemma stopped_stays:
  assumes "server_stopped t" "server_step env hk t u"
  shows "server_stopped u"
proof -
  from assms(2) obtain ev where ev: "server_enabled ev t" "server_apply env hk ev t = Inr u"
    by (rule server_stepE)
  show ?thesis
    using ev assms(1) stop_stopped
    by (cases ev) (auto simp: server_apply_def server_enabled_def timer_pending_def server_stopped_def
      Server_OnCloseEvent_def packet_same Server_OnRecvHelloMsg_def Server_ScheduleEvent_def
      server_arm_close_def Let_def split: if_splits)
qed

interpretation server_stops: invariant_system "server_step env hk" server_stopped for env hk
  by unfold_locales (rule stopped_stays)

lemma stopped_again:
  "ts_effects (Server_OnCloseEvent env (Server_StopProcess env t)) =
     ts_effects t @ [Remove_From_Manager, Remove_From_Manager]"
  using Server_StopProcess_ok [of env t] Server_StopProcess_ok [of env "Server_StopProcess env t"]
  by (simp add: Server_OnCloseEvent_def)

section \<open>The calls of a task\<close>

text \<open>What a task has called on its packets, its removals from the manager left out: first packets
  that are refused, then the one accepted and the entry into the manager, then packets parsed.\<close>

definition packet_calls :: "tcp_server \<Rightarrow> task_effect list" where
  "packet_calls t = filter (\<lambda>e. e \<noteq> Remove_From_Manager) (ts_effects t)"

definition serving :: "task_hooks \<Rightarrow> tcp_server \<Rightarrow> bool" where
  "serving hk t \<longleftrightarrow> (\<exists>vs. (\<forall>v \<in> set vs. \<not> hk_OnRecvVerifyMsg hk v) \<and>
     (if ts_verified_client t
      then \<exists>p qs. hk_OnRecvVerifyMsg hk p \<and>
        packet_calls t = map Recv_Verify_Msg vs @ Recv_Verify_Msg p # Add_To_Manager # map Msg_Parse qs
      else packet_calls t = map Recv_Verify_Msg vs))"

lemma serving_same:
  assumes "serving hk t" "ts_verified_client u = ts_verified_client t" "packet_calls u = packet_calls t"
  shows "serving hk u"
  using assms unfolding serving_def by presburger

lemma stop_calls:
  "packet_calls (Server_StopProcess env t) = packet_calls t"
  "packet_calls (Server_StopProcessV2 env b t) = packet_calls t"
  "ts_verified_client (Server_StopProcess env t) = ts_verified_client t"
  "ts_verified_client (Server_StopProcessV2 env b t) = ts_verified_client t"
  by (simp_all add: packet_calls_def Server_StopProcess_def Server_StopProcessV2_def
    server_close_socket_def server_effect_def Let_def split: option.split)

lemma arm_close_calls:
  assumes "server_arm_close env t = Inr u"
  shows "packet_calls u = packet_calls t" "ts_verified_client u = ts_verified_client t"
  using assms by (auto simp: packet_calls_def server_arm_close_def rbind_def split: option.splits sum.splits)

lemma serving_verified:
  assumes "ts_verified_client t" "\<forall>v \<in> set vs. \<not> hk_OnRecvVerifyMsg hk v" "hk_OnRecvVerifyMsg hk p"
    "packet_calls t = map Recv_Verify_Msg vs @ Recv_Verify_Msg p # Add_To_Manager # map Msg_Parse qs"
  shows "serving hk t"
  unfolding serving_def using assms by (intro exI [of _ vs]) auto

lemma serving_unverified:
  assumes "\<not> ts_verified_client t" "\<forall>v \<in> set vs. \<not> hk_OnRecvVerifyMsg hk v"
    "packet_calls t = map Recv_Verify_Msg vs"
  shows "serving hk t"
  unfolding serving_def using assms by (intro exI [of _ vs]) simp

lemma packet_serving:
  assumes "serving hk t"
  shows "serving hk (Server_OnInternalPacket hk bs t)"
proof -
  from assms obtain vs where vs: "\<forall>v \<in> set vs. \<not> hk_OnRecvVerifyMsg hk v"
    "if ts_verified_client t
      then \<exists>p qs. hk_OnRecvVerifyMsg hk p \<and>
        packet_calls t = map Recv_Verify_Msg vs @ Recv_Verify_Msg p # Add_To_Manager # map Msg_Parse qs
      else packet_calls t = map Recv_Verify_Msg vs" unfolding serving_def by blast
  consider (parse) p qs where "ts_verified_client t" "hk_OnRecvVerifyMsg hk p"
      "packet_calls t = map Recv_Verify_Msg vs @ Recv_Verify_Msg p # Add_To_Manager # map Msg_Parse qs"
    | (accept) "\<not> ts_verified_client t" "hk_OnRecvVerifyMsg hk bs" "packet_calls t = map Recv_Verify_Msg vs"
    | (refuse) "\<not> ts_verified_client t" "\<not> hk_OnRecvVerifyMsg hk bs" "packet_calls t = map Recv_Verify_Msg vs"
    using vs(2) by (auto split: if_splits)
  then show ?thesis
  proof cases
    case parse
    let ?u = "Server_OnInternalPacket hk bs t"
    from parse have "ts_verified_client ?u" "packet_calls ?u =
        map Recv_Verify_Msg vs @ Recv_Verify_Msg p # Add_To_Manager # map Msg_Parse (qs @ [bs])"
      by (simp_all add: Server_OnInternalPacket_def server_effect_def packet_calls_def)
    with serving_verified [OF _ vs(1) parse(2)] show ?thesis by blast
  next
    case accept
    let ?u = "Server_OnInternalPacket hk bs t"
    from accept have "ts_verified_client ?u" "packet_calls ?u =
        map Recv_Verify_Msg vs @ Recv_Verify_Msg bs # Add_To_Manager # map Msg_Parse []"
      by (simp_all add: Server_OnInternalPacket_def server_effect_def packet_calls_def Let_def)
    with serving_verified [OF _ vs(1) accept(2)] show ?thesis by blast
  next
    case refuse
    let ?u = "Server_OnInternalPacket hk bs t"
    from refuse have "\<not> ts_verified_client ?u" "packet_calls ?u = map Recv_Verify_Msg (vs @ [bs])"
      by (simp_all add: Server_OnInternalPacket_def server_effect_def packet_calls_def Let_def)
    with serving_unverified [of ?u "vs @ [bs]"] vs(1) refuse(2) show ?thesis by simp
  qed
qed

lemma apply_serving:
  assumes "serving hk t" "server_apply env hk ev t = Inr u"
  shows "serving hk u"
proof (cases "\<exists>bytes. ev = Sv_Packet bytes")
  case True
  with packet_serving [OF assms(1)] assms(2) show ?thesis by (auto simp: server_apply_def)
next
  case False
  have arm: "packet_calls v = packet_calls x" "ts_verified_client v = ts_verified_client x"
    if "server_arm_close env x = Inr v" for x v using arm_close_calls [OF that] by simp_all
  have timer: "packet_calls u = packet_calls t \<and> ts_verified_client u = ts_verified_client t"
    if "Timer_HandlerFn (timer_call env) w x = Inr u" "packet_calls x = packet_calls t"
      "ts_verified_client x = ts_verified_client t" for w x
    using that arm stop_calls
    by (auto simp: Timer_HandlerFn_def call_handler_def timer_call_def Server_OnCheckVerified_def
      split: option.splits task_timer.splits if_splits)
  have "packet_calls u = packet_calls t \<and> ts_verified_client u = ts_verified_client t"
    using assms(2) False stop_calls arm
    by (cases ev) (auto simp: server_apply_def Server_OnCloseEvent_def Server_ScheduleEvent_def
      Server_OnRecvHelloMsg_def packet_calls_def Let_def split: option.splits if_splits
      dest!: timer)
  with serving_same [OF assms(1)] show ?thesis by blast
qed

interpretation served: invariant_system "server_step env hk" "serving hk" for env hk
  by unfold_locales (blast elim: server_stepE intro: apply_serving)

lemma begin_serving:
  assumes "Server_BeginProcess env now sock TcpServerTask_new = Inr (True, u)"
  shows "serving hk u"
proof -
  from assms obtain s where s: "sock = Some s" by (auto simp: Server_BeginProcess_def split: option.splits)
  with Server_BeginProcess_ok [of env now s TcpServerTask_new] assms
  have "ts_effects u = []" "\<not> ts_verified_client u" by (auto simp: TcpServerTask_new_def)
  then show ?thesis by (simp add: serving_def packet_calls_def)
qed

end
