(* ===== verification/Tcp_Tasks.thy ===== *)
theory Tcp_Tasks
  imports Tcp_Pair Tcp_Client_Runs Tcp_Server_Runs
begin

text \<open>
  The two tasks as the users of their sockets: the functions a task binds into its socket, with
  whatever public members its subclass calls in the virtual ones, are callbacks as the composition
  of a socket with its loops assumes them. So what is proved of two connected systems holds for a
  client task and a server task. What a task needs of its socket is a contract, which holds with
  the loops apart and, in another theory, with one loop.
\<close>

section \<open>What a callback may do\<close>

text \<open>\<open>obeys s t\<close>: as \<open>by_callback\<close>, and the packet function is not set again.\<close>

definition obeys :: "tcp_socket \<Rightarrow> tcp_socket \<Rightarrow> bool" where
  "obeys s t \<longleftrightarrow> by_callback s t \<and> (tsw_SignalReadPacket t \<longrightarrow> tsw_SignalReadPacket s)"

lemma by_callback_ring: "by_callback s t \<Longrightarrow> ring_inv (tsw_sender_buffer t)"
  by (auto simp: by_callback_def queued_def)

lemma by_callback_trans:
  assumes "by_callback s t" "by_callback t u"
  shows "by_callback s u"
proof -
  from assms obtain ps qs where "queued ps s t" "queued qs t u" by (auto simp: by_callback_def)
  then have "queued (ps @ qs) s u" by (rule queued_trans)
  moreover from assms obtain r qs a b c d where
    "u = s\<lparr>tsw_sender_buffer := r, tsw_posts := qs, tsw_SignalReadPacket := a,
      tsw_SignalNewConnection := b, tsw_SignalOnCloseEvent := c, tsw_SignalOnConnected := d\<rparr>"
    by (auto simp: by_callback_def)
  ultimately show ?thesis unfolding by_callback_def by blast
qed

lemma obeys_ring: "obeys s t \<Longrightarrow> ring_inv (tsw_sender_buffer t)"
  by (auto simp: obeys_def intro: by_callback_ring)

lemma obeys_refl: "ring_inv (tsw_sender_buffer s) \<Longrightarrow> obeys s s"
  by (simp add: obeys_def by_callback_refl)

lemma obeys_trans: "obeys s t \<Longrightarrow> obeys t u \<Longrightarrow> obeys s u"
  by (auto simp: obeys_def intro: by_callback_trans)

lemma obeysI:
  assumes "t = s\<lparr>tsw_sender_buffer := r, tsw_posts := qs, tsw_SignalReadPacket := a,
      tsw_SignalNewConnection := b, tsw_SignalOnCloseEvent := c, tsw_SignalOnConnected := d\<rparr>"
    "queued ps s t" "a \<longrightarrow> tsw_SignalReadPacket s"
  shows "obeys s t"
proof -
  have "by_callback s t" using assms(1,2) unfolding by_callback_def by blast
  moreover have "tsw_SignalReadPacket t = a" by (simp add: assms(1))
  ultimately show ?thesis using assms(3) by (simp add: obeys_def)
qed

lemma obeys_sent:
  assumes "queued ps s (s\<lparr>tsw_sender_buffer := r, tsw_posts := qs\<rparr>)"
  shows "obeys s (s\<lparr>tsw_sender_buffer := r, tsw_posts := qs\<rparr>)"
  by (rule obeysI [where r = r and qs = qs and a = "tsw_SignalReadPacket s" and b = "tsw_SignalNewConnection s"
      and c = "tsw_SignalOnCloseEvent s" and d = "tsw_SignalOnConnected s", OF _ assms]) simp_all

text \<open>Dropping a socket: its functions are cleared or left, and the close goes to the network loop.\<close>

lemma obeys_close:
  assumes "ring_inv (tsw_sender_buffer s)" "\<not> env_in_network env" "a \<longrightarrow> tsw_SignalReadPacket s"
  shows "obeys s (CloseConnection env (s\<lparr>tsw_SignalReadPacket := a, tsw_SignalOnCloseEvent := b\<rparr>))"
    "obeys s (CloseConnection env (s\<lparr>tsw_SignalOnConnected := c, tsw_SignalReadPacket := a,
       tsw_SignalOnCloseEvent := b\<rparr>))"
    "obeys s (CloseConnection env s)"
proof -
  let ?t = "\<lambda>a b c. s\<lparr>tsw_sender_buffer := tsw_sender_buffer s,
      tsw_posts := tsw_posts s @ [Net_Close_Connection], tsw_SignalReadPacket := a,
      tsw_SignalNewConnection := tsw_SignalNewConnection s, tsw_SignalOnCloseEvent := b,
      tsw_SignalOnConnected := c\<rparr>"
  have o: "obeys s (?t a' b' c')" if "a' \<longrightarrow> tsw_SignalReadPacket s" for a' b' c'
    by (rule obeysI [where ps = "[Net_Close_Connection]", OF refl _ that]) (use assms(1) in \<open>simp add: queued_def\<close>)
  have t: "CloseConnection env (s\<lparr>tsw_SignalReadPacket := a, tsw_SignalOnCloseEvent := b\<rparr>) =
      ?t a b (tsw_SignalOnConnected s)"
    "CloseConnection env (s\<lparr>tsw_SignalOnConnected := c, tsw_SignalReadPacket := a,
       tsw_SignalOnCloseEvent := b\<rparr>) = ?t a b c"
    "CloseConnection env s = ?t (tsw_SignalReadPacket s) (tsw_SignalOnCloseEvent s) (tsw_SignalOnConnected s)"
    using assms(2) by (simp_all add: CloseConnection_def post_def)
  show "obeys s (CloseConnection env (s\<lparr>tsw_SignalReadPacket := a, tsw_SignalOnCloseEvent := b\<rparr>))"
    unfolding t(1) by (rule o) (rule assms(3))
  show "obeys s (CloseConnection env (s\<lparr>tsw_SignalOnConnected := c, tsw_SignalReadPacket := a,
       tsw_SignalOnCloseEvent := b\<rparr>))"
    unfolding t(2) by (rule o) (rule assms(3))
  show "obeys s (CloseConnection env s)"
    unfolding t(3) by (rule o) simp
qed

section \<open>The handlers\<close>

text \<open>What the subclass may call in a virtual member; data as \<^verbatim>\<open>SendData\<close> expects it.\<close>

datatype server_call =
    Sc_Send "byte list"
  | Sc_Stop
  | Sc_Stop_V2 bool
  | Sc_Recv_Hello int

datatype client_call =
    Cc_Send "byte list"
  | Cc_Send_Head "byte list"
  | Cc_Stop
  | Cc_Recv_Hello int

fun call_fits :: "server_call \<Rightarrow> bool" where
  "call_fits (Sc_Send data) \<longleftrightarrow> 2 \<le> length data \<and> length data < 2 ^ 64"
| "call_fits _ \<longleftrightarrow> True"

fun client_call_fits :: "client_call \<Rightarrow> bool" where
  "client_call_fits (Cc_Send data) \<longleftrightarrow> 2 \<le> length data \<and> length data < 2 ^ 64"
| "client_call_fits (Cc_Send_Head buff) \<longleftrightarrow> length buff < 2 ^ 32"
| "client_call_fits _ \<longleftrightarrow> True"

text \<open>A send that does not return is a failure, of which there is none.\<close>

definition settled :: "'s result option \<Rightarrow> 's result" where
  "settled x = (case x of None \<Rightarrow> Inl Bad_Function_Call | Some y \<Rightarrow> y)"

text \<open>
  On the loop's own thread a failed write calls the close function before the send returns. What
  \<^verbatim>\<open>OnCloseEvent\<close> did to the socket then is in the socket; here is what it did to the task.
\<close>

definition closed_within :: "tcp_socket option \<Rightarrow> tcp_socket option \<Rightarrow> bool" where
  "closed_within x y = (case (x, y) of
       (Some s, Some t) \<Rightarrow> Signal_On_Close \<in> set (drop (length (tsw_signals s)) (tsw_signals t))
     | _ \<Rightarrow> False)"

definition server_noticed :: "task_env \<Rightarrow> tcp_server \<Rightarrow> tcp_server \<Rightarrow> tcp_server" where
  "server_noticed env t u =
     (if closed_within (ts_conn_socket t) (ts_conn_socket u)
      then (Server_OnCloseEvent env u)\<lparr>ts_released := ts_released u @ [the (ts_conn_socket u)]\<rparr> else u)"

definition client_noticed :: "task_env \<Rightarrow> tcp_client \<Rightarrow> tcp_client \<Rightarrow> tcp_client result" where
  "client_noticed env c d =
     (if closed_within (tc_tcp_socket c) (tc_tcp_socket d)
      then rbind (Client_OnCloseEvent env d) (\<lambda>e. Inr (e\<lparr>tc_released := tc_released d @ [the (tc_tcp_socket d)]\<rparr>))
      else Inr d)"

fun server_do :: "task_env \<Rightarrow> server_call \<Rightarrow> tcp_server \<Rightarrow> tcp_server result" where
  "server_do env (Sc_Send data) t =
     settled (map_option (\<lambda>x. rbind x (\<lambda>(ok, d, u). Inr (server_noticed env t u)))
       (Server_SendData env data (of_nat (length data)) t))"
| "server_do env Sc_Stop t = Inr (Server_StopProcess env t)"
| "server_do env (Sc_Stop_V2 notify) t = Inr (Server_StopProcessV2 env notify t)"
| "server_do env (Sc_Recv_Hello now) t = Inr (Server_OnRecvHelloMsg now t)"

fun client_do :: "task_env \<Rightarrow> client_call \<Rightarrow> tcp_client \<Rightarrow> tcp_client result" where
  "client_do env (Cc_Send data) c =
     settled (map_option (\<lambda>x. rbind x (\<lambda>(ok, d, e). client_noticed env c e))
       (Client_SendData env data (of_nat (length data)) c))"
| "client_do env (Cc_Send_Head buff) c =
     settled (map_option (\<lambda>x. rbind x (\<lambda>(ok, e). client_noticed env c e)) (Client_SendDataWithHead env buff c))"
| "client_do env Cc_Stop c = Inr (Client_StopProcess env c)"
| "client_do env (Cc_Recv_Hello now) c = Inr (Client_OnRecvHelloMsg now c)"

fun do_all :: "('c \<Rightarrow> 's \<Rightarrow> 's result) \<Rightarrow> 'c list \<Rightarrow> 's \<Rightarrow> 's result" where
  "do_all f [] t = Inr t"
| "do_all f (c # cs) t = rbind (f c t) (do_all f cs)"

text \<open>The calls the subclass makes in the virtual members, \<open>react\<close>, follow the handler's own.\<close>

definition server_callback ::
  "task_env \<Rightarrow> task_hooks \<Rightarrow> (tcp_signal \<Rightarrow> server_call list) \<Rightarrow> tcp_signal \<Rightarrow> tcp_server \<Rightarrow> tcp_server result" where
  "server_callback env hk react sig t =
     do_all (server_do env) (react sig)
       (case sig of
          Signal_Read_Packet bytes \<Rightarrow> Server_OnInternalPacket hk bytes t
        | Signal_On_Close \<Rightarrow> Server_OnCloseEvent env t
        | _ \<Rightarrow> t)"

definition client_callback ::
  "task_env \<Rightarrow> task_hooks \<Rightarrow> int \<Rightarrow> (tcp_signal \<Rightarrow> client_call list) \<Rightarrow> tcp_signal \<Rightarrow> tcp_client \<Rightarrow>
     tcp_client result" where
  "client_callback env hk now react sig c =
     rbind (case sig of
          Signal_Read_Packet bytes \<Rightarrow> Inr (Client_OnInternalPacket env hk bytes c)
        | Signal_On_Close \<Rightarrow> Client_OnCloseEvent env c
        | Signal_On_Connected \<Rightarrow> Inr (Client_OnConnectEvent now c)
        | _ \<Rightarrow> Inr c) (do_all (client_do env) (react sig))"

text \<open>
  The functions in the socket. The task's own state at the time is \<open>st\<close> of the signals so far, any
  function of them; it still has the socket, or has let go of it and a signal posted before is
  late. A client that has connected again has another socket by then, which this one is not.
\<close>

definition server_at :: "tcp_socket \<Rightarrow> tcp_server \<Rightarrow> tcp_server" where
  "server_at s t = (if ts_conn_socket t = None then t\<lparr>ts_released := [s]\<rparr>
     else t\<lparr>ts_conn_socket := Some s, ts_released := []\<rparr>)"

definition client_at :: "tcp_socket \<Rightarrow> tcp_client \<Rightarrow> tcp_client" where
  "client_at s c = (if tc_tcp_socket c = None then c\<lparr>tc_released := [s]\<rparr>
     else c\<lparr>tc_tcp_socket := Some s, tc_released := []\<rparr>)"

text \<open>The socket after a callback: the task still has it, or has let go of it.\<close>

definition server_socket :: "tcp_server \<Rightarrow> tcp_socket" where
  "server_socket t = (case ts_conn_socket t of Some s \<Rightarrow> s | None \<Rightarrow> last (ts_released t))"

definition client_socket :: "tcp_client \<Rightarrow> tcp_socket" where
  "client_socket c = (case tc_tcp_socket c of Some s \<Rightarrow> s | None \<Rightarrow> last (tc_released c))"

definition server_signal ::
  "task_env \<Rightarrow> task_hooks \<Rightarrow> (tcp_signal \<Rightarrow> server_call list) \<Rightarrow> (tcp_signal list \<Rightarrow> tcp_server) \<Rightarrow>
     tcp_signal \<Rightarrow> tcp_socket \<Rightarrow> tcp_socket result" where
  "server_signal env hk react st sig s =
     rbind (server_callback env hk react sig (server_at s (st (tsw_signals s)))) (\<lambda>t.
     Inr (server_socket t))"

definition client_signal ::
  "task_env \<Rightarrow> task_hooks \<Rightarrow> int \<Rightarrow> (tcp_signal \<Rightarrow> client_call list) \<Rightarrow> (tcp_signal list \<Rightarrow> tcp_client) \<Rightarrow>
     tcp_signal \<Rightarrow> tcp_socket \<Rightarrow> tcp_socket result" where
  "client_signal env hk now react st sig s =
     rbind (client_callback env hk now react sig (client_at s (st (tsw_signals s)))) (\<lambda>c.
     Inr (client_socket c))"

section \<open>The contract\<close>

text \<open>
  \<open>Some\<close> socket related to the one at the start is with the task, or was let go of last. \<open>rearms\<close>: the
  client's timer is as its constructor of the connection made it.
\<close>

definition server_keeps :: "(tcp_socket \<Rightarrow> tcp_socket \<Rightarrow> bool) \<Rightarrow> tcp_socket \<Rightarrow> tcp_server \<Rightarrow> bool" where
  "server_keeps R s t \<longleftrightarrow> (\<exists>s'. R s s' \<and> (ts_conn_socket t = Some s' \<and> ts_released t = [] \<or>
     ts_conn_socket t = None \<and> ts_released t = [s']))"

definition rearms :: "tcp_client \<Rightarrow> bool" where
  "rearms c \<longleftrightarrow> (\<forall>w. tc_reconnect_timer c = Some w \<longrightarrow> timer_ok Connect_To_Server w)"

definition client_keeps :: "(tcp_socket \<Rightarrow> tcp_socket \<Rightarrow> bool) \<Rightarrow> tcp_socket \<Rightarrow> tcp_client \<Rightarrow> bool" where
  "client_keeps R s c \<longleftrightarrow> rearms c \<and> (\<exists>s'. R s s' \<and> (tc_tcp_socket c = Some s' \<and> tc_released c = [] \<or>
     tc_tcp_socket c = None \<and> tc_released c = [s']))"

lemma server_keeps_same:
  assumes "server_keeps R s t" "ts_conn_socket u = ts_conn_socket t" "ts_released u = ts_released t"
  shows "server_keeps R s u"
  using assms by (simp add: server_keeps_def)

lemma client_keeps_same:
  assumes "client_keeps R s c" "tc_tcp_socket d = tc_tcp_socket c" "tc_released d = tc_released c"
    "tc_reconnect_timer d = tc_reconnect_timer c"
  shows "client_keeps R s d"
  using assms by (simp add: client_keeps_def rearms_def)

lemma client_effect_keeps: "client_keeps R s c \<Longrightarrow> client_keeps R s (client_effect e c)"
  by (erule client_keeps_same) (simp_all add: client_effect_def)

lemma client_release_keeps:
  assumes "client_keeps R s c"
  shows "client_keeps R s (client_release c)"
  using assms by (auto simp: client_keeps_def client_release_def rearms_def)

lemma do_all_keeps:
  assumes "P t" "list_all Q cs" "\<And>c t. P t \<Longrightarrow> Q c \<Longrightarrow> \<exists>u. f c t = Inr u \<and> P u"
  shows "\<exists>u. do_all f cs t = Inr u \<and> P u"
  using assms(1,2)
proof (induction cs arbitrary: t)
  case Nil
  then show ?case by simp
next
  case (Cons c cs)
  with assms(3) [of t c] obtain u where u: "f c t = Inr u" "P u" by auto
  with Cons.IH [OF u(2)] Cons.prems show ?case by simp
qed

text \<open>What a task relies on when it closes its socket: the call stays within \<open>R\<close>.\<close>

locale closing_contract =
  fixes env :: task_env
    and ok :: "tcp_socket \<Rightarrow> bool"
    and R :: "tcp_socket \<Rightarrow> tcp_socket \<Rightarrow> bool"
  assumes R_refl: "ok s \<Longrightarrow> R s s"
    and R_ok: "R s t \<Longrightarrow> ok t"
    and R_trans: "\<lbrakk> R s t; R t u \<rbrakk> \<Longrightarrow> R s u"
    and R_close: "ok s \<Longrightarrow> R s (CloseConnection (te_tcp env) s)"
    and R_stop: "ok s \<Longrightarrow> R s (CloseConnection (te_tcp env)
      (s\<lparr>tsw_SignalOnConnected := c, tsw_SignalReadPacket := False, tsw_SignalOnCloseEvent := False\<rparr>))"
begin

lemma R_stop_server:
  "ok s \<Longrightarrow> R s (CloseConnection (te_tcp env) (s\<lparr>tsw_SignalReadPacket := False, tsw_SignalOnCloseEvent := False\<rparr>))"
  using R_stop [of s "tsw_SignalOnConnected s"] by simp

lemma server_keepsE:
  assumes "server_keeps R s t"
  obtains s' where "R s s'" "ok s'" "ts_conn_socket t = Some s'" "ts_released t = []"
  | s' where "R s s'" "ts_conn_socket t = None" "ts_released t = [s']"
  using assms by (auto simp: server_keeps_def dest: R_ok)

lemma server_close_keeps:
  assumes "server_keeps R s t"
  shows "server_keeps R s (server_close_socket env True t)"
  using assms
proof (cases rule: server_keepsE)
  case (1 s')
  with R_trans [OF 1(1) R_stop_server [OF 1(2)]] show ?thesis
    by (auto simp: server_keeps_def server_close_socket_def Let_def)
next
  case (2 s')
  with assms show ?thesis by (simp add: server_close_socket_def server_keeps_def)
qed

lemma server_stop_keeps:
  assumes "server_keeps R s t"
  shows "server_keeps R s (Server_StopProcess env t)" "server_keeps R s (Server_StopProcessV2 env b t)"
proof -
  have e: "server_keeps R s (server_effect e t)" for e
    using assms by (rule server_keeps_same) (simp_all add: server_effect_def)
  note c = server_close_keeps [OF e] server_close_keeps [OF assms]
  show "server_keeps R s (Server_StopProcess env t)"
    unfolding Server_StopProcess_def using c(1) by (rule server_keeps_same) simp_all
  show "server_keeps R s (Server_StopProcessV2 env b t)"
    using server_keeps_same [OF c(1)] server_keeps_same [OF c(2)]
    by (simp add: Server_StopProcessV2_def Let_def)
qed

lemma client_keepsE:
  assumes "client_keeps R s c"
  obtains s' where "R s s'" "ok s'" "tc_tcp_socket c = Some s'" "tc_released c = []" "rearms c"
  | s' where "R s s'" "tc_tcp_socket c = None" "tc_released c = [s']" "rearms c"
  using assms by (auto simp: client_keeps_def dest: R_ok)

lemma client_drop_keeps:
  assumes "client_keeps R s c" "tc_tcp_socket c = Some s'" "R s' s''"
  shows "client_keeps R s (client_release (c\<lparr>tc_tcp_socket := Some s''\<rparr>))"
proof -
  have "client_keeps R s (c\<lparr>tc_tcp_socket := Some s''\<rparr>)"
    using assms by (auto simp: client_keeps_def rearms_def intro: R_trans)
  then show ?thesis by (rule client_release_keeps)
qed

lemma client_stop_keeps:
  assumes "client_keeps R s c"
  shows "client_keeps R s (Client_StopProcess env c)"
proof -
  let ?c = "client_effect Remove_From_Manager c"
  have c: "client_keeps R s ?c" using assms(1) by (rule client_effect_keeps)
  let ?d = "case tc_tcp_socket ?c of
                 None \<Rightarrow> ?c
               | Some s \<Rightarrow>
                   client_release (?c\<lparr>tc_tcp_socket := Some (CloseConnection (te_tcp env)
                     (s\<lparr>tsw_SignalOnConnected := False, tsw_SignalReadPacket := False,
                        tsw_SignalOnCloseEvent := False\<rparr>))\<rparr>)"
  have "client_keeps R s ?d"
    using c
  proof (cases rule: client_keepsE)
    case (1 s')
    from client_drop_keeps [OF c 1(3) R_stop [OF 1(2)]] 1(3) show ?thesis by simp
  next
    case (2 s')
    with c show ?thesis by simp
  qed
  then have "client_keeps R s (?d\<lparr>tc_reconnect_timer := None\<rparr>)" by (simp add: client_keeps_def rearms_def)
  then show ?thesis unfolding Client_StopProcess_def Let_def .
qed

lemma client_reconnect_keeps:
  assumes "client_keeps R s c"
  shows "\<exists>d. TryReconnectServerInner env c = Inr d \<and> client_keeps R s d \<and> tc_tcp_socket d = None"
proof -
  let ?m = "tc_max_reconnect_times c"
  let ?c1 = "if ?m > 0 then c\<lparr>tc_connect_round := tc_connect_round c + 1\<rparr> else c"
  have c1: "client_keeps R s ?c1" using assms(1) by (rule client_keeps_same) simp_all
  show ?thesis
  proof (cases "?m > 0 \<and> tc_connect_round c + 1 \<ge> ?m")
    case True
    then have "TryReconnectServerInner env c = Inr (Client_StopProcess env (client_effect Connect_Error ?c1))"
      by (simp add: TryReconnectServerInner_def)
    with client_stop_keeps [OF client_effect_keeps [OF c1]] show ?thesis by simp
  next
    case False
    define c2 where "c2 = (case tc_tcp_socket ?c1 of None \<Rightarrow> ?c1
      | Some s \<Rightarrow> client_release (?c1\<lparr>tc_tcp_socket := Some (CloseConnection (te_tcp env) s)\<rparr>))"
    have keeps: "client_keeps R s c2"
      using c1
    proof (cases rule: client_keepsE)
      case (1 s')
      from client_drop_keeps [OF c1 1(3) R_close [OF 1(2)]] 1(3) show ?thesis unfolding c2_def by simp
    next
      case (2 s')
      with c1 show ?thesis unfolding c2_def by simp
    qed
    have none: "tc_tcp_socket c2 = None" by (simp add: c2_def split: option.split)
    from keeps have "\<forall>w. tc_reconnect_timer c2 = Some w \<longrightarrow> timer_ok Connect_To_Server w"
      by (simp add: client_keeps_def rearms_def)
    from rearm_ok [OF this, of env] obtain t where t: "(case tc_reconnect_timer c2 of
          None \<Rightarrow> Inr c2
        | Some w \<Rightarrow>
            rbind (TimerEventWatcher_AsyncWait (te_del_rc env) (te_add_rc env) w) (\<lambda>(_, w).
            Inr (c2\<lparr>tc_reconnect_timer := Some w\<rparr>))) = Inr (c2\<lparr>tc_reconnect_timer := t\<rparr>)"
      "\<forall>w. t = Some w \<longrightarrow> timer_ok Connect_To_Server w" by blast
    let ?d = "c2\<lparr>tc_reconnect_timer := t, tc_last_hello_time := 0, tc_verified := False\<rparr>"
    have "TryReconnectServerInner env c = Inr ?d"
      using False t(1) unfolding TryReconnectServerInner_def Let_def c2_def [symmetric]
      by (simp add: c2_def [symmetric])
    moreover have "client_keeps R s ?d" using keeps t(2) by (simp add: client_keeps_def rearms_def)
    ultimately show ?thesis using none by simp
  qed
qed

text \<open>A task that has let go of its socket does not come back to it, so its close function returns.\<close>

lemma server_done_keeps:
  assumes "server_keeps R s t \<and> ts_conn_socket t = None"
  shows "\<exists>u. server_do env c t = Inr u \<and> server_keeps R s u \<and> ts_conn_socket u = None"
proof (cases c)
  case (Sc_Recv_Hello now)
  have "server_keeps R s (Server_OnRecvHelloMsg now t)"
    using assms by (elim conjE server_keeps_same) (simp_all add: Server_OnRecvHelloMsg_def)
  with Sc_Recv_Hello assms show ?thesis by (simp add: Server_OnRecvHelloMsg_def)
next
  case (Sc_Send data)
  with assms show ?thesis by (simp add: Server_SendData_def settled_def server_noticed_def closed_within_def)
qed (use assms server_stop_keeps [of s t] in \<open>auto simp: Server_StopProcess_def Server_StopProcessV2_def
  server_close_socket_def server_effect_def Let_def\<close>)

lemma server_close_signal:
  assumes "ok s"
  shows "\<exists>s'. server_signal env hk react st Signal_On_Close s = Inr s' \<and> R s s'"
proof -
  let ?t = "server_at s (st (tsw_signals s))"
  let ?P = "\<lambda>t. server_keeps R s t \<and> ts_conn_socket t = None"
  have "server_keeps R s ?t" using R_refl [OF assms] by (simp add: server_keeps_def server_at_def)
  from server_stop_keeps(1) [OF this] have "?P (Server_OnCloseEvent env ?t)"
    by (simp add: Server_OnCloseEvent_def Server_StopProcess_def server_close_socket_def Let_def split: option.split)
  from do_all_keeps [where P = ?P and Q = "\<lambda>_. True" and f = "server_do env", OF this, of "react Signal_On_Close"]
  obtain v where v: "do_all (server_do env) (react Signal_On_Close) (Server_OnCloseEvent env ?t) = Inr v" "?P v"
    using server_done_keeps by (auto simp: list_all_iff)
  then have "R s (server_socket v)" by (auto simp: server_keeps_def server_socket_def)
  with v(1) show ?thesis by (simp add: server_signal_def server_callback_def)
qed

lemma client_done_keeps:
  assumes "client_keeps R s c \<and> tc_tcp_socket c = None"
  shows "\<exists>d. client_do env x c = Inr d \<and> client_keeps R s d \<and> tc_tcp_socket d = None"
proof (cases x)
  case (Cc_Recv_Hello now)
  have "client_keeps R s (Client_OnRecvHelloMsg now c)"
    using assms by (elim conjE client_keeps_same) (simp_all add: Client_OnRecvHelloMsg_def)
  with Cc_Recv_Hello assms show ?thesis by (simp add: Client_OnRecvHelloMsg_def)
next
  case Cc_Stop
  with assms client_stop_keeps [of s c] show ?thesis by (simp add: Client_StopProcess_def client_effect_def Let_def)
next
  case (Cc_Send data)
  with assms show ?thesis by (simp add: Client_SendData_def settled_def client_noticed_def closed_within_def)
next
  case (Cc_Send_Head data)
  with assms show ?thesis by (simp add: Client_SendDataWithHead_def settled_def client_noticed_def closed_within_def)
qed

lemma client_close_signal:
  assumes "ok s" "\<And>sigs. rearms (st sigs)"
  shows "\<exists>s'. client_signal env hk now react st Signal_On_Close s = Inr s' \<and> R s s'"
proof -
  let ?c = "client_at s (st (tsw_signals s))"
  let ?P = "\<lambda>c. client_keeps R s c \<and> tc_tcp_socket c = None"
  have "client_keeps R s ?c"
    using R_refl [OF assms(1)] assms(2) [of "tsw_signals s"] by (simp add: client_keeps_def client_at_def rearms_def)
  from client_reconnect_keeps [OF this] obtain d where d: "TryReconnectServerInner env ?c = Inr d" "?P d" by blast
  from do_all_keeps [where P = ?P and Q = "\<lambda>_. True" and f = "client_do env", OF d(2), of "react Signal_On_Close"]
  obtain v where v: "do_all (client_do env) (react Signal_On_Close) d = Inr v" "?P v"
    using client_done_keeps by (auto simp: list_all_iff)
  then have "R s (client_socket v)" by (auto simp: client_keeps_def client_socket_def)
  with d(1) v(1) show ?thesis by (simp add: client_signal_def client_callback_def Client_OnCloseEvent_def)
qed

end

text \<open>And when it sends: the call returns too.\<close>

locale socket_contract = closing_contract +
  assumes R_send: "\<lbrakk> ok s; 2 \<le> length data; length data < 2 ^ 64 \<rbrakk> \<Longrightarrow>
      \<exists>b d t. SendData (te_tcp env) data (of_nat (length data)) s = Some (Inr (b, d, t)) \<and> R s t"
    and R_send_head: "\<lbrakk> ok s; length buff < 2 ^ 32 \<rbrakk> \<Longrightarrow>
      \<exists>b t. SendDataWithHead (te_tcp env) buff s = Some (Inr (b, t)) \<and> R s t"
begin

lemma server_noticed_keeps:
  assumes "server_keeps R s u"
  shows "server_keeps R s (server_noticed env t u)"
proof (cases "closed_within (ts_conn_socket t) (ts_conn_socket u)")
  case True
  then obtain s' where "ts_conn_socket u = Some s'"
    by (auto simp: closed_within_def split: option.splits)
  moreover have "ts_conn_socket (Server_OnCloseEvent env u) = None"
    by (simp add: Server_OnCloseEvent_def Server_StopProcess_def server_close_socket_def Let_def split: option.split)
  ultimately show ?thesis using assms True by (auto simp: server_keeps_def server_noticed_def)
qed (use assms in \<open>simp add: server_noticed_def\<close>)

lemma server_send_keeps:
  assumes "server_keeps R s t" "2 \<le> length data" "length data < 2 ^ 64"
  shows "\<exists>u. server_do env (Sc_Send data) t = Inr u \<and> server_keeps R s u"
  using assms(1)
proof (cases rule: server_keepsE)
  case (1 s')
  from R_send [OF 1(2) assms(2,3)] obtain b d r where
    r: "SendData (te_tcp env) data (of_nat (length data)) s' = Some (Inr (b, d, r))" "R s' r" by blast
  have "server_keeps R s (t\<lparr>ts_conn_socket := Some r\<rparr>)"
    using R_trans [OF 1(1) r(2)] 1(4) by (auto simp: server_keeps_def)
  with server_noticed_keeps [OF this] server_noticed_keeps [OF assms(1)] 1(3) r(1) show ?thesis
    by (cases "GetState s' = CS_CONNECTED") (simp_all add: Server_SendData_def settled_def)
next
  case (2 s')
  with server_noticed_keeps [OF assms(1)] show ?thesis by (simp add: Server_SendData_def settled_def)
qed

lemma server_do_keeps:
  assumes "server_keeps R s t" "call_fits c"
  shows "\<exists>u. server_do env c t = Inr u \<and> server_keeps R s u"
proof (cases c)
  case (Sc_Recv_Hello now)
  have "server_keeps R s (Server_OnRecvHelloMsg now t)"
    using assms(1) by (rule server_keeps_same) (simp_all add: Server_OnRecvHelloMsg_def)
  with Sc_Recv_Hello show ?thesis by simp
next
  case (Sc_Send data)
  with server_send_keeps [OF assms(1)] assms(2) show ?thesis by simp
qed (use server_stop_keeps [OF assms(1)] in simp_all)

lemma server_signal_keeps:
  assumes "ok s" "list_all call_fits (react sig)"
  shows "\<exists>s'. server_signal env hk react st sig s = Inr s' \<and> R s s'"
proof -
  let ?t = "server_at s (st (tsw_signals s))"
  let ?u = "case sig of
          Signal_Read_Packet bytes \<Rightarrow> Server_OnInternalPacket hk bytes ?t
        | Signal_On_Close \<Rightarrow> Server_OnCloseEvent env ?t
        | _ \<Rightarrow> ?t"
  have t: "server_keeps R s ?t" using R_refl [OF assms(1)] by (simp add: server_keeps_def server_at_def)
  have "server_keeps R s (Server_OnInternalPacket hk bytes ?t)" for bytes
    using t by (rule server_keeps_same) (simp_all add: Server_OnInternalPacket_def server_effect_def Let_def)
  with t server_stop_keeps(1) [OF t] have "server_keeps R s ?u"
    by (simp add: Server_OnCloseEvent_def split: tcp_signal.split)
  from do_all_keeps [where P = "server_keeps R s" and f = "server_do env", OF this assms(2)] server_do_keeps
  obtain v where v: "do_all (server_do env) (react sig) ?u = Inr v" "server_keeps R s v" by blast
  then have "R s (server_socket v)" by (auto simp: server_keeps_def server_socket_def)
  with v(1) show ?thesis by (simp add: server_signal_def server_callback_def)
qed

lemma client_noticed_keeps:
  assumes "client_keeps R s d"
  shows "\<exists>e. client_noticed env c d = Inr e \<and> client_keeps R s e"
proof (cases "closed_within (tc_tcp_socket c) (tc_tcp_socket d)")
  case True
  then obtain s' where s': "tc_tcp_socket d = Some s'"
    by (auto simp: closed_within_def split: option.splits)
  from client_reconnect_keeps [OF assms] obtain e where
    e: "TryReconnectServerInner env d = Inr e" "client_keeps R s e" "tc_tcp_socket e = None" by blast
  have "client_keeps R s (e\<lparr>tc_released := tc_released d @ [s']\<rparr>)"
    using assms s' e(2,3) by (auto simp: client_keeps_def rearms_def)
  with True s' e(1) show ?thesis by (simp add: client_noticed_def Client_OnCloseEvent_def)
qed (use assms in \<open>simp add: client_noticed_def\<close>)

lemma client_sent_keeps:
  assumes "client_keeps R s c" "tc_tcp_socket c = Some s'" "R s' t"
  shows "client_keeps R s (c\<lparr>tc_tcp_socket := Some t\<rparr>)"
  using assms by (auto simp: client_keeps_def rearms_def intro: R_trans)

lemma client_send_keeps:
  assumes "client_keeps R s c"
  shows "2 \<le> length data \<Longrightarrow> length data < 2 ^ 64 \<Longrightarrow>
      \<exists>d. client_do env (Cc_Send data) c = Inr d \<and> client_keeps R s d"
    "length buff < 2 ^ 32 \<Longrightarrow> \<exists>d. client_do env (Cc_Send_Head buff) c = Inr d \<and> client_keeps R s d"
proof -
  show "\<exists>d. client_do env (Cc_Send data) c = Inr d \<and> client_keeps R s d"
    if len: "2 \<le> length data" "length data < 2 ^ 64"
    using assms
  proof (cases rule: client_keepsE)
    case (1 s')
    from R_send [OF 1(2) len] obtain b d r where
      r: "SendData (te_tcp env) data (of_nat (length data)) s' = Some (Inr (b, d, r))" "R s' r" by blast
    from client_noticed_keeps [OF client_sent_keeps [OF assms 1(3) r(2)], of c] client_noticed_keeps [OF assms, of c]
    show ?thesis
      using 1(3) r(1) by (cases "GetState s' = CS_CONNECTED") (auto simp: Client_SendData_def settled_def)
  next
    case (2 s')
    with client_noticed_keeps [OF assms, of c] show ?thesis by (simp add: Client_SendData_def settled_def)
  qed
  show "\<exists>d. client_do env (Cc_Send_Head buff) c = Inr d \<and> client_keeps R s d"
    if len: "length buff < 2 ^ 32"
    using assms
  proof (cases rule: client_keepsE)
    case (1 s')
    from R_send_head [OF 1(2) len] obtain b r where
      r: "SendDataWithHead (te_tcp env) buff s' = Some (Inr (b, r))" "R s' r" by blast
    from client_noticed_keeps [OF client_sent_keeps [OF assms 1(3) r(2)], of c] client_noticed_keeps [OF assms, of c]
    show ?thesis
      using 1(3) r(1) by (cases "GetState s' = CS_CONNECTED") (auto simp: Client_SendDataWithHead_def settled_def)
  next
    case (2 s')
    with client_noticed_keeps [OF assms, of c] show ?thesis by (simp add: Client_SendDataWithHead_def settled_def)
  qed
qed

lemma client_do_keeps:
  assumes "client_keeps R s c" "client_call_fits x"
  shows "\<exists>d. client_do env x c = Inr d \<and> client_keeps R s d"
proof (cases x)
  case (Cc_Recv_Hello now)
  have "client_keeps R s (Client_OnRecvHelloMsg now c)"
    using assms(1) by (rule client_keeps_same) (simp_all add: Client_OnRecvHelloMsg_def)
  with Cc_Recv_Hello show ?thesis by simp
next
  case Cc_Stop
  with client_stop_keeps [OF assms(1)] show ?thesis by simp
qed (use client_send_keeps [OF assms(1)] assms(2) in simp_all)

lemma client_signal_keeps:
  assumes "ok s" "list_all client_call_fits (react sig)" "\<And>sigs. rearms (st sigs)"
  shows "\<exists>s'. client_signal env hk now react st sig s = Inr s' \<and> R s s'"
proof -
  let ?c = "client_at s (st (tsw_signals s))"
  have c: "client_keeps R s ?c"
    using R_refl [OF assms(1)] assms(3) [of "tsw_signals s"] by (simp add: client_keeps_def client_at_def rearms_def)
  have verified: "client_keeps R s (client_effect e (d\<lparr>tc_verified := True\<rparr>))" if "client_keeps R s d" for e d
    by (rule client_effect_keeps [OF client_keeps_same [OF that]]) simp_all
  have packet: "client_keeps R s (Client_OnInternalPacket env hk bytes ?c)" for bytes
    using client_effect_keeps [OF c] verified client_stop_keeps by (simp add: Client_OnInternalPacket_def Let_def)
  have connected: "client_keeps R s (Client_OnConnectEvent now ?c)"
    unfolding Client_OnConnectEvent_def Let_def
    by (rule client_keeps_same [OF client_effect_keeps [OF client_effect_keeps [OF c]]]) simp_all
  from client_reconnect_keeps [OF c] c packet connected
  obtain d where d: "(case sig of
          Signal_Read_Packet bytes \<Rightarrow> Inr (Client_OnInternalPacket env hk bytes ?c)
        | Signal_On_Close \<Rightarrow> Client_OnCloseEvent env ?c
        | Signal_On_Connected \<Rightarrow> Inr (Client_OnConnectEvent now ?c)
        | _ \<Rightarrow> Inr ?c) = Inr d" "client_keeps R s d"
    by (cases sig) (auto simp: Client_OnCloseEvent_def)
  from do_all_keeps [where P = "client_keeps R s" and f = "client_do env", OF d(2) assms(2)] client_do_keeps
  obtain v where v: "do_all (client_do env) (react sig) d = Inr v" "client_keeps R s v" by blast
  then have "R s (client_socket v)" by (auto simp: client_keeps_def client_socket_def)
  with d(1) v(1) show ?thesis by (simp add: client_signal_def client_callback_def)
qed

end

text \<open>With the loops apart, a call from the worker loop only posts.\<close>

lemma posted_contract:
  assumes "\<not> env_in_network (te_tcp env)"
  shows "socket_contract env (\<lambda>s. ring_inv (tsw_sender_buffer s)) obeys"
proof
  fix s t u :: tcp_socket and c :: bool and data buff :: "byte list"
  show "ring_inv (tsw_sender_buffer s) \<Longrightarrow> obeys s s" by (rule obeys_refl)
  show "obeys s t \<Longrightarrow> ring_inv (tsw_sender_buffer t)" by (rule obeys_ring)
  show "obeys s t \<Longrightarrow> obeys t u \<Longrightarrow> obeys s u" by (rule obeys_trans)
  assume s: "ring_inv (tsw_sender_buffer s)"
  note close = obeys_close [OF s assms, of False]
  show "obeys s (CloseConnection (te_tcp env) s)" "obeys s (CloseConnection (te_tcp env)
      (s\<lparr>tsw_SignalOnConnected := c, tsw_SignalReadPacket := False, tsw_SignalOnCloseEvent := False\<rparr>))"
    using close by simp_all
  show "\<exists>b t. SendDataWithHead (te_tcp env) buff s = Some (Inr (b, t)) \<and> obeys s t" if "length buff < 2 ^ 32"
  proof -
    from SendDataWithHead_any [OF s that assms] obtain r where
      r: "SendDataWithHead (te_tcp env) buff s =
        Some (Inr (True, post Net_Try_Write (s\<lparr>tsw_sender_buffer := r\<rparr>)))"
      "queued [Net_Try_Write] s (post Net_Try_Write (s\<lparr>tsw_sender_buffer := r\<rparr>))" by blast
    have p: "post Net_Try_Write (s\<lparr>tsw_sender_buffer := r\<rparr>) =
        s\<lparr>tsw_sender_buffer := r, tsw_posts := tsw_posts s @ [Net_Try_Write]\<rparr>" by (simp add: post_def)
    show ?thesis using r(1) obeys_sent [OF r(2) [unfolded p]] by (auto simp: p)
  qed
  show "\<exists>b d t. SendData (te_tcp env) data (of_nat (length data)) s = Some (Inr (b, d, t)) \<and> obeys s t"
    if "2 \<le> length data" "length data < 2 ^ 64"
  proof -
    have "unat (of_nat (length data) :: size_t) = length data" using that(2) by (simp add: unat_of_nat)
    from SendData_any [OF s this that(1) assms] show ?thesis using obeys_sent by blast
  qed
qed

text \<open>The task's environment on its worker loop.\<close>

definition worker_task :: "task_env \<Rightarrow> task_env" where
  "worker_task env = env\<lparr>te_tcp := on_worker (te_tcp env)\<rparr>"

interpretation posted: socket_contract "worker_task env" "\<lambda>s. ring_inv (tsw_sender_buffer s)" obeys for env
  by (rule posted_contract) (simp add: worker_task_def on_worker_def)

section \<open>The tasks' sockets as systems\<close>

definition client_env ::
  "task_env \<Rightarrow> task_hooks \<Rightarrow> int \<Rightarrow> (tcp_signal \<Rightarrow> client_call list) \<Rightarrow> (tcp_signal list \<Rightarrow> tcp_client) \<Rightarrow> tcp_env" where
  "client_env env hk now react st =
     (te_tcp env)\<lparr>env_signal := client_signal (worker_task env) hk now react st\<rparr>"

definition server_env ::
  "task_env \<Rightarrow> task_hooks \<Rightarrow> (tcp_signal \<Rightarrow> server_call list) \<Rightarrow> (tcp_signal list \<Rightarrow> tcp_server) \<Rightarrow> tcp_env" where
  "server_env env hk react st = (te_tcp env)\<lparr>env_signal := server_signal (worker_task env) hk react st\<rparr>"

lemma obeys_env:
  assumes "\<And>sig s. ring_inv (tsw_sender_buffer s) \<Longrightarrow> \<exists>t. env_signal env sig s = Inr t \<and> obeys s t"
  shows "posting env" "listening env"
proof -
  show "posting env" using assms by (fastforce simp: posting_def obeys_def)
  show "listening env"
    unfolding listening_def
  proof (intro allI impI)
    fix sig s t
    assume s: "ring_inv (tsw_sender_buffer s)" "env_signal env sig s = Inr t" "tsw_SignalReadPacket t"
    from assms [OF s(1), of sig] s(2) have "obeys s t" by auto
    with s(3) show "tsw_SignalReadPacket s" by (simp add: obeys_def)
  qed
qed

lemma server_env_ok:
  assumes "\<And>sig. list_all call_fits (react sig)"
  shows "posting (server_env env hk react st)" "listening (server_env env hk react st)"
  by (rule obeys_env; simp add: server_env_def posted.server_signal_keeps assms)+

lemma client_env_ok:
  assumes "\<And>sig. list_all client_call_fits (react sig)" "\<And>sigs. rearms (st sigs)"
  shows "posting (client_env env hk now react st)" "listening (client_env env hk now react st)"
  by (rule obeys_env; simp add: client_env_def posted.client_signal_keeps assms)+

text \<open>A client's socket and a server's socket make a pair.\<close>

lemma tasks_pair_env:
  assumes "kernel_ok (te_tcp ce)" "kernel_ok (te_tcp se)" "env_le (te_tcp se) = env_le (te_tcp ce)"
    "\<And>sig. list_all client_call_fits (creact sig)" "\<And>sig. list_all call_fits (sreact sig)"
    "\<And>sigs. rearms (cst sigs)"
  shows "pair_env (client_env ce chk now creact cst) (server_env se shk sreact sst)"
proof -
  have k: "kernel_ok (client_env ce chk now creact cst)" "kernel_ok (server_env se shk sreact sst)"
    "env_le (client_env ce chk now creact cst) = env_le (te_tcp ce)"
    "env_le (server_env se shk sreact sst) = env_le (te_tcp se)"
    using assms(1,2) by (simp_all add: client_env_def server_env_def kernel_ok_def)
  from client_env_ok [of creact cst, OF assms(4,6)] server_env_ok [of sreact, OF assms(5)] k assms(3)
  show ?thesis by (simp add: pair_env_def system_env_def)
qed

section \<open>What the tasks parse\<close>

text \<open>The packets given to \<^verbatim>\<open>MsgParse\<close>, and what of a row of packets a task parses that is new.\<close>

fun parsed :: "task_effect list \<Rightarrow> byte list list" where
  "parsed [] = []"
| "parsed (Msg_Parse bytes # es) = bytes # parsed es"
| "parsed (_ # es) = parsed es"

definition after_verified :: "task_hooks \<Rightarrow> byte list list \<Rightarrow> byte list list" where
  "after_verified hk ps = tl (dropWhile (\<lambda>p. \<not> hk_OnRecvVerifyMsg hk p) ps)"

lemma parsed_append [simp]: "parsed (es @ fs) = parsed es @ parsed fs"
  by (induction es rule: parsed.induct) simp_all

lemma after_verified_simps [simp]:
  "after_verified hk [] = []"
  "after_verified hk (p # ps) = (if hk_OnRecvVerifyMsg hk p then ps else after_verified hk ps)"
  by (simp_all add: after_verified_def)

lemma after_verified_prefix:
  "prefix ps qs \<Longrightarrow> prefix (after_verified hk ps) (after_verified hk qs)"
proof (induction ps arbitrary: qs)
  case (Cons p ps)
  then show ?case by (cases qs) auto
qed simp

lemma server_parses:
  "parsed (ts_effects (fold (Server_OnInternalPacket hk) ps t)) =
    parsed (ts_effects t) @ (if ts_verified_client t then ps else after_verified hk ps)"
  by (induction ps arbitrary: t) (simp_all add: Server_OnInternalPacket_def server_effect_def)

lemma client_parses:
  "parsed (tc_effects (fold (Client_OnInternalPacket env hk) ps c)) =
    parsed (tc_effects c) @ (if tc_verified c then ps else after_verified hk ps)"
proof (induction ps arbitrary: c)
  case (Cons p ps)
  have "tc_verified (Client_StopProcess env d) = tc_verified d" for d
    by (simp add: Client_StopProcess_def client_release_def client_effect_def Let_def split: option.split)
  with Cons.IH show ?case by (simp add: Client_OnInternalPacket_def client_effect_def Let_def)
qed simp

end
