(* ===== verification/Tcp_Loop_Tasks.thy ===== *)
theory Tcp_Loop_Tasks
  imports Tcp_Joined Tcp_Tasks
begin

text \<open>
  The tasks on one loop. A task's send may write at once, and a failed write calls the task's close
  function before the send returns: a handler within a handler. The close function lets go of the
  socket first, so what it calls of the subclass reaches the socket no more, and that is as deep as
  it gets.
\<close>

text \<open>The task on its loop, with \<open>signal\<close> the functions its socket calls from within a handler.\<close>

definition loop_task :: "(tcp_signal \<Rightarrow> tcp_socket \<Rightarrow> tcp_socket result) \<Rightarrow> task_env \<Rightarrow> task_env" where
  "loop_task signal env = env\<lparr>te_tcp := on_loop ((te_tcp env)\<lparr>env_signal := signal\<rparr>)\<rparr>"

text \<open>\<open>n\<close> handlers deep, and deeper ones are not bound.\<close>

primrec server_level ::
  "nat \<Rightarrow> task_env \<Rightarrow> task_hooks \<Rightarrow> (tcp_signal \<Rightarrow> server_call list) \<Rightarrow> (tcp_signal list \<Rightarrow> tcp_server) \<Rightarrow>
     tcp_signal \<Rightarrow> tcp_socket \<Rightarrow> tcp_socket result" where
  "server_level 0 env hk react st = (\<lambda>_ _. Inl Bad_Function_Call)"
| "server_level (Suc n) env hk react st = server_signal (loop_task (server_level n env hk react st) env) hk react st"

primrec client_level ::
  "nat \<Rightarrow> task_env \<Rightarrow> task_hooks \<Rightarrow> int \<Rightarrow> (tcp_signal \<Rightarrow> client_call list) \<Rightarrow> (tcp_signal list \<Rightarrow> tcp_client) \<Rightarrow>
     tcp_signal \<Rightarrow> tcp_socket \<Rightarrow> tcp_socket result" where
  "client_level 0 env hk now react st = (\<lambda>_ _. Inl Bad_Function_Call)"
| "client_level (Suc n) env hk now react st =
     client_signal (loop_task (client_level n env hk now react st) env) hk now react st"

text \<open>A handler and the close function within it.\<close>

definition server_loop ::
  "task_env \<Rightarrow> task_hooks \<Rightarrow> (tcp_signal \<Rightarrow> server_call list) \<Rightarrow> (tcp_signal list \<Rightarrow> tcp_server) \<Rightarrow> tcp_env" where
  "server_loop env hk react st = (te_tcp env)\<lparr>env_signal := server_level 2 env hk react st\<rparr>"

definition client_loop ::
  "task_env \<Rightarrow> task_hooks \<Rightarrow> int \<Rightarrow> (tcp_signal \<Rightarrow> client_call list) \<Rightarrow> (tcp_signal list \<Rightarrow> tcp_client) \<Rightarrow> tcp_env" where
  "client_loop env hk now react st = (te_tcp env)\<lparr>env_signal := client_level 2 env hk now react st\<rparr>"

section \<open>The contract on the loop\<close>

lemma Close_functions_handled:
  assumes "conn_inv s"
  shows "handled s (CloseConnection (on_loop env)
    (s\<lparr>tsw_SignalOnConnected := c, tsw_SignalReadPacket := a \<and> tsw_SignalReadPacket s, tsw_SignalOnCloseEvent := b\<rparr>))"
proof -
  let ?s = "s\<lparr>tsw_SignalOnConnected := c, tsw_SignalReadPacket := a \<and> tsw_SignalReadPacket s, tsw_SignalOnCloseEvent := b\<rparr>"
  have s: "conn_inv ?s" using assms by (simp add: conn_inv_def)
  then have "handled s ?s" by (intro handled_frame) (simp_all add: wiring_def)
  moreover have "handled ?s (CloseConnection (on_loop env) ?s)"
    using Close_handled(1) [OF s, of "on_loop env"] by (simp add: CloseConnection_def)
  ultimately show ?thesis by (rule handled_trans)
qed

lemma inline_closing: "closing_contract (loop_task signal env) conn_inv handled"
proof
  fix s t u :: tcp_socket and c :: bool
  show "conn_inv s \<Longrightarrow> handled s s" by (rule handled_refl)
  show "handled s t \<Longrightarrow> conn_inv t" by (rule handled_inv)
  show "handled s t \<Longrightarrow> handled t u \<Longrightarrow> handled s u" by (rule handled_trans)
  assume s: "conn_inv s"
  show "handled s (CloseConnection (te_tcp (loop_task signal env)) s)"
    using Close_handled(1) [OF s, of "te_tcp (loop_task signal env)"] by (simp add: loop_task_def CloseConnection_def)
  show "handled s (CloseConnection (te_tcp (loop_task signal env))
      (s\<lparr>tsw_SignalOnConnected := c, tsw_SignalReadPacket := False, tsw_SignalOnCloseEvent := False\<rparr>))"
    using Close_functions_handled [OF s, where env = "(te_tcp env)\<lparr>env_signal := signal\<rparr>" and c = c and a = False and b = False]
    by (simp add: loop_task_def)
qed

interpretation inline_close: closing_contract "loop_task signal env" conn_inv handled for signal env
  by (rule inline_closing)

text \<open>One level of handlers is enough to close, and two are enough for all.\<close>

lemma levels_close:
  shows "conn_inv s \<Longrightarrow> \<exists>t. server_level (Suc n) env hk sreact sst Signal_On_Close s = Inr t \<and> handled s t"
    "conn_inv s \<Longrightarrow> (\<And>sigs. rearms (cst sigs)) \<Longrightarrow>
       \<exists>t. client_level (Suc n) env hk now creact cst Signal_On_Close s = Inr t \<and> handled s t"
  using inline_close.server_close_signal inline_close.client_close_signal by simp_all

lemma inline_contract:
  assumes "kernel_ok (te_tcp env)" "\<And>s. conn_inv s \<Longrightarrow> \<exists>t. signal Signal_On_Close s = Inr t \<and> handled s t"
  shows "socket_contract (loop_task signal env) conn_inv handled"
proof -
  let ?e = "te_tcp (loop_task signal env)"
  have e: "kernel_ok ?e" "closing ?e" "env_in_network ?e" "env_in_worker ?e"
    using assms by (simp_all add: loop_task_def closing_def kernel_ok_def on_loop_def)
  show ?thesis
  proof (intro socket_contract.intro inline_closing socket_contract_axioms.intro)
    fix s :: tcp_socket and data buff :: "byte list"
    assume s: "conn_inv s"
    show "\<exists>b t. SendDataWithHead ?e buff s = Some (Inr (b, t)) \<and> handled s t" if "length buff < 2 ^ 32"
      using SendDataWithHead_inline [OF s that e] by blast
    show "\<exists>b d t. SendData ?e data (of_nat (length data)) s = Some (Inr (b, d, t)) \<and> handled s t"
      if "2 \<le> length data" "length data < 2 ^ 64"
    proof -
      have "unat (of_nat (length data) :: size_t) = length data" using that(2) by (simp add: unat_of_nat)
      from SendData_inline [OF s this that(1) e] show ?thesis .
    qed
  qed
qed

lemma levels_attend:
  assumes "kernel_ok (te_tcp env)"
  shows "(\<And>sig. list_all call_fits (sreact sig)) \<Longrightarrow>
      conn_inv s \<Longrightarrow> \<exists>t. server_level (Suc (Suc n)) env hk sreact sst sig s = Inr t \<and> handled s t"
    "(\<And>sig. list_all client_call_fits (creact sig)) \<Longrightarrow> (\<And>sigs. rearms (cst sigs)) \<Longrightarrow>
      conn_inv s \<Longrightarrow> \<exists>t. client_level (Suc (Suc n)) env hk now creact cst sig s = Inr t \<and> handled s t"
proof -
  show "\<exists>t. server_level (Suc (Suc n)) env hk sreact sst sig s = Inr t \<and> handled s t"
    if "\<And>sig. list_all call_fits (sreact sig)" "conn_inv s"
    using socket_contract.server_signal_keeps [OF inline_contract
      [where signal = "server_level (Suc n) env hk sreact sst", OF assms levels_close(1)] that(2)] that(1) by simp
  show "\<exists>t. client_level (Suc (Suc n)) env hk now creact cst sig s = Inr t \<and> handled s t"
    if "\<And>sig. list_all client_call_fits (creact sig)" "\<And>sigs. rearms (cst sigs)" "conn_inv s"
    using socket_contract.client_signal_keeps [OF inline_contract
      [where signal = "client_level (Suc n) env hk now creact cst", OF assms levels_close(2)] that(3)] that(1,2)
    by simp
qed

lemma tasks_loop_env:
  assumes "kernel_ok (te_tcp env)"
  shows "(\<And>sig. list_all call_fits (sreact sig)) \<Longrightarrow> loop_env (server_loop env hk sreact sst)"
    "(\<And>sig. list_all client_call_fits (creact sig)) \<Longrightarrow> (\<And>sigs. rearms (cst sigs)) \<Longrightarrow>
      loop_env (client_loop env hk now creact cst)"
proof -
  have two: "(2 :: nat) = Suc (Suc 0)" by simp
  show "loop_env (server_loop env hk sreact sst)" if "\<And>sig. list_all call_fits (sreact sig)"
    using levels_attend(1) [OF assms that, where n = 0] assms
    unfolding loop_env_def attending_def server_loop_def two by (simp add: kernel_ok_def)
  show "loop_env (client_loop env hk now creact cst)"
    if "\<And>sig. list_all client_call_fits (creact sig)" "\<And>sigs. rearms (cst sigs)"
    using levels_attend(2) [OF assms that, where n = 0] assms
    unfolding loop_env_def attending_def client_loop_def two by (simp add: kernel_ok_def)
qed

end
