(* ===== verification/Tcp_Progress.thy ===== *)
theory Tcp_Progress
  imports Tcp_Pair
begin

text \<open>
  Once the users and the callbacks send no more and the kernel takes and delivers, two connected
  systems come to rest, and what had been put into the ring of a connection that is still up has
  then been handed over at its other end.
\<close>

section \<open>How the events are set\<close>

text \<open>
  The read event finds its helper; the write event does not persist, so it leaves libevent's list
  when it fires.
\<close>

definition wired_up :: "tcp_socket \<Rightarrow> bool" where
  "wired_up s \<longleftrightarrow>
     (\<forall>e. tsw_socket_read_event s = Some e \<longrightarrow> ev_base e \<longrightarrow> ev_callback e = Some (On_Read_Event, True)) \<and>
     (\<forall>f. tsw_socket_write_event s = Some f \<longrightarrow> ev_base f \<longrightarrow> ev_events f AND EV_PERSIST = 0)"

lemma event_events [simp]:
  "ev_events (tcp_event_del e) = ev_events e" "ev_events (tcp_event_add tm e) = ev_events e"
  "ev_events (tcp_event_set fd evs cb a e) = evs" "ev_events (event_fired e) = ev_events e"
  by (simp_all add: tcp_event_del_def event_del_def tcp_event_add_def event_add_def tcp_event_set_def
    event_set_def event_fired_def)

lemma write_once [simp]:
  "EV_WRITE AND EV_PERSIST = 0" "(EV_WRITE OR EV_TIMEOUT) AND EV_PERSIST = 0"
  by (simp_all add: EV_WRITE_def EV_TIMEOUT_def EV_PERSIST_def)

lemma wired_up_same:
  assumes "wired_up s" "same_events s t \<or> both_off s t"
  shows "wired_up t"
  using assms
  by (cases "tsw_socket_read_event s"; cases "tsw_socket_write_event s")
    (auto simp: wired_up_def same_events_def both_off_def)

lemma wired_up_history [simp]:
  "wired_up (s\<lparr>tsw_posts := ps\<rparr>) = wired_up s" "wired_up (s\<lparr>tsw_sends := n\<rparr>) = wired_up s"
  "wired_up (s\<lparr>tsw_wire := w\<rparr>) = wired_up s" "wired_up (s\<lparr>tsw_sender_buffer := r\<rparr>) = wired_up s"
  "wired_up (s\<lparr>tsw_state := st\<rparr>) = wired_up s" "wired_up (s\<lparr>tsw_socketfd := fd\<rparr>) = wired_up s"
  "wired_up (s\<lparr>tsw_share_this_helper := h\<rparr>) = wired_up s"
  "wired_up (s\<lparr>tsw_receiver_buffer := r\<rparr>) = wired_up s" "wired_up (post p s) = wired_up s"
  by (simp_all add: wired_up_def post_def)

lemma on_event_wired:
  "on_write_event (tcp_event_add tm) s = Inr t \<Longrightarrow> wired_up s \<Longrightarrow> wired_up t"
  "on_write_event tcp_event_del s = Inr t \<Longrightarrow> wired_up s \<Longrightarrow> wired_up t"
  "on_write_event (tcp_event_set fd evs cb a) s = Inr t \<Longrightarrow> evs AND EV_PERSIST = 0 \<Longrightarrow> wired_up s \<Longrightarrow> wired_up t"
  "on_read_event (tcp_event_add tm) s = Inr t \<Longrightarrow> wired_up s \<Longrightarrow> wired_up t"
  "on_read_event tcp_event_del s = Inr t \<Longrightarrow> wired_up s \<Longrightarrow> wired_up t"
  "on_read_event (tcp_event_set fd evs On_Read_Event True) s = Inr t \<Longrightarrow> wired_up s \<Longrightarrow> wired_up t"
  by (auto simp: on_write_event_def on_read_event_def wired_up_def split: option.splits)

lemma OnErrorEvent_wired:
  assumes "OnErrorEvent env s = Inr t" "\<not> env_in_worker env" "wired_up s"
  shows "wired_up t"
  using assms by (auto simp: OnErrorEvent_def rbind_eq_Inr Let_def dest!: on_event_wired split: if_splits)

lemma try_write_wired:
  assumes "try_write_loop env n s = Some res"
  shows "\<not> env_in_worker env \<longrightarrow> (\<forall>t. res = Inr t \<longrightarrow> wired_up s \<longrightarrow> wired_up t)"
proof (induction env n s res rule: try_write_loop.raw_induct)
  case (1 loop env n s res)
  show ?case
    using "1.hyps"
    by (auto split: if_splits sum.splits prod.splits dest: OnErrorEvent_wired on_event_wired dest!: "1.IH")
qed fact

lemma TryWrite_wired:
  assumes "TryWriteBufferToSocket env s = Some (Inr t)" "\<not> env_in_worker env" "wired_up s"
  shows "wired_up t"
  using assms try_write_wired by (auto simp: TryWriteBufferToSocket_def split: sum.splits)

lemma fired_wired:
  "wired_up s \<Longrightarrow> tsw_socket_write_event s = Some f \<Longrightarrow>
     wired_up (s\<lparr>tsw_socket_write_event := Some (event_fired f)\<rparr>)"
  "wired_up s \<Longrightarrow> tsw_socket_read_event s = Some e \<Longrightarrow>
     wired_up (s\<lparr>tsw_socket_read_event := Some (event_fired e)\<rparr>)"
  by (auto simp: wired_up_def)

lemma ClientConnected_wired:
  assumes "ClientConnected env s = Inr t" "\<not> env_in_worker env" "wired_up s"
  shows "wired_up t"
  using assms by (auto simp: ClientConnected_def rbind_eq_Inr Let_def dest!: on_event_wired split: if_splits)

lemma fire_write_wired:
  assumes "fire_write env so_error event s = Some (Inr t)" "\<not> env_in_worker env" "wired_up s"
  shows "wired_up t"
  using assms OnErrorEvent_wired ClientConnected_wired TryWrite_wired fired_wired(1) [OF assms(3)]
  by (auto simp: fire_write_def OnConnection_def OnWriteEvent_def Let_def
    split: option.splits prod.splits tcp_callback.splits if_splits)

lemma TryRead_wired:
  assumes "TryReadDataFromSocket env answer s = Inr t" "\<not> env_in_worker env" "wired_up s"
  shows "wired_up t"
  using assms OnErrorEvent_wired [OF _ assms(2,3)]
  by (cases answer) (auto simp: TryReadDataFromSocket_def rbind_eq_Inr Let_def split: if_splits)

lemma fire_read_wired:
  assumes "fire_read env answer s = Inr t" "\<not> env_in_worker env" "wired_up s" "conn_inv s" "read_registered s"
  shows "wired_up t"
proof -
  from assms(4,5) obtain e f where ev: "tsw_socket_read_event s = Some e" "ev_added e"
    "conn_events (tsw_state s) e f"
    by (auto simp: read_registered_def elim!: conn_invE)
  then obtain a where "ev_callback e = Some (On_Read_Event, a)" by (auto simp: conn_events_def)
  with assms(1) ev(1) show ?thesis
    using TryRead_wired [OF _ assms(2) fired_wired(2) [OF assms(3) ev(1)]] fired_wired(2) [OF assms(3) ev(1)]
    by (auto simp: fire_read_def OnReadEvent_def Let_def split: if_splits)
qed

lemma start_wired:
  assumes "\<not> env_in_worker env" "wired_up s"
  shows "ConnectServerInNetworkLoop env fd conn s = Inr t \<Longrightarrow> tsw_share_this_helper s \<Longrightarrow> wired_up t"
    and "BeginProcessInNetworkLoop env nb cfd s = Inr t \<Longrightarrow> wired_up t"
proof -
  assume t: "ConnectServerInNetworkLoop env fd conn s = Inr t" "tsw_share_this_helper s"
  have keeps: "tsw_share_this_helper u = tsw_share_this_helper v" if "on_write_event g v = Inr u" for g u v
    using that by (auto simp: on_write_event_def split: option.splits)
  show "wired_up t"
    using t assms keeps
    by (auto simp: ConnectServerInNetworkLoop_def rbind_eq_Inr Let_def split: if_splits
      dest!: OnErrorEvent_wired on_event_wired)
next
  assume "BeginProcessInNetworkLoop env nb cfd s = Inr t"
  then show "wired_up t"
    using assms
    by (auto simp: BeginProcessInNetworkLoop_def rbind_eq_Inr Let_def split: if_splits
      dest!: OnErrorEvent_wired on_event_wired)
qed

lemma run_net_wired:
  assumes "run_net env answers p s = Some (Inr t)" "\<not> env_in_worker env" "wired_up s"
    "p = Net_Connect_Server \<longrightarrow> tsw_share_this_helper s"
  shows "wired_up t"
proof -
  have "wired_up (CloseConnectionInNetworkLoop env s)"
    using assms(2,3)
    by (cases "tsw_socket_read_event s"; cases "tsw_socket_write_event s")
      (auto simp: CloseConnectionInNetworkLoop_def wired_up_def post_def Let_def)
  with assms start_wired [OF assms(2,3)] TryWrite_wired show ?thesis
    by (cases answers; cases p) auto
qed

lemma sys_step_wired:
  assumes "system_env env" "sys_inv env y" "sys_step env y z" "wired_up (sy_socket y)"
  shows "wired_up (sy_socket z)"
proof -
  note parts = sys_inv_socket [OF assms(2)]
  have k: "\<not> env_in_worker (on_network env)" using system_env_net [OF assms(1)] by simp
  show ?thesis
    using assms(3)
  proof (cases rule: sys_step.cases)
    case (user_send len data ok d s)
    from SendData_any [OF parts(2) user_send(2,3), of "on_user env"] user_send(4)
    have "same_events (sy_socket y) s" by (auto simp: on_user_def same_events_def)
    with wired_up_same [OF assms(4)] user_send(1) show ?thesis by simp
  next
    case (user_send_head buff ok s)
    from SendDataWithHead_any [OF parts(2) user_send_head(2), of "on_user env"] user_send_head(3)
    have "same_events (sy_socket y) s" by (auto simp: on_user_def same_events_def post_def)
    with wired_up_same [OF assms(4)] user_send_head(1) show ?thesis by simp
  next
    case user_close
    with assms(4) show ?thesis by (simp add: CloseConnection_def on_user_def)
  next
    case (net p ps answers s)
    have "p = Net_Connect_Server \<longrightarrow> tsw_share_this_helper (sy_socket y)"
      using assms(2) net(2) by (auto simp: sys_inv_def start_ok_def)
    with run_net_wired [OF net(3) k assms(4)] net(1) show ?thesis by simp
  next
    case (work p ps s)
    have "p = Work_Process_Buffered \<longrightarrow> \<not> ring_full (sy_socket y)"
      using work(3) process_full by (auto simp: ring_full_def)
    from run_work_ok [OF assms(1) parts(1) this] work(3)
    have "same_events (sy_socket y) s \<or> both_off (sy_socket y) s" by auto
    with wired_up_same [OF assms(4)] work(1) show ?thesis by simp
  next
    case (readable answer s)
    with fire_read_wired [OF readable(3) k assms(4) parts(1) readable(2)] show ?thesis by simp
  next
    case (writable so_error s)
    with fire_write_wired [OF writable(3) k assms(4)] show ?thesis by simp
  next
    case (connect_timeout s)
    with fire_write_wired [OF connect_timeout(4) k assms(4)] show ?thesis by simp
  qed
qed

lemma sys_start_wired:
  assumes "sys_start env y"
  shows "wired_up (sy_socket y)"
  using assms
  by (auto simp: sys_start_def BeginConnect_def BeginProcess_def on_user_def system_of_def
    TcpSocketWrapper_new_def wired_up_def event_zero_def post_def Let_def)

section \<open>What there is to do\<close>

text \<open>
  Every byte waiting, every event and every post has a weight, larger the more it may lead to; a
  byte on the wire counts until the other end has taken it.
\<close>

definition post_weight :: "tcp_post list \<Rightarrow> nat" where
  "post_weight ps = sum_list (map (\<lambda>p. if is_net_post p then 6 else 1) ps)"

definition weight :: "tcp_socket \<Rightarrow> nat" where
  "weight s = 4 * length (unsent s) + 3 * length (tsw_wire s) + (if write_pending s then 4 else 0) +
     (if read_registered s then 2 else 0) + post_weight (tsw_posts s)"

definition load :: "tcp_system \<Rightarrow> nat" where
  "load y = weight (sy_socket y) + post_weight (sy_net y) + post_weight (sy_work y)"

lemma post_weight_simps [simp]:
  "post_weight [] = 0" "post_weight (p # ps) = (if is_net_post p then 6 else 1) + post_weight ps"
  "post_weight (ps @ qs) = post_weight ps + post_weight qs"
  by (simp_all add: post_weight_def)

lemma post_weight_split:
  "post_weight (filter is_net_post ps) + post_weight (filter (\<lambda>p. \<not> is_net_post p) ps) = post_weight ps"
  by (induction ps) simp_all

lemma load_settle:
  "load (settle s y) = weight s + post_weight (sy_net y) + post_weight (sy_work y)"
proof -
  have "write_pending (s\<lparr>tsw_posts := []\<rparr>) = write_pending s"
    "read_registered (s\<lparr>tsw_posts := []\<rparr>) = read_registered s"
    by (simp_all add: write_pending_def read_registered_def)
  then show ?thesis using post_weight_split [of "tsw_posts s"] by (simp add: load_def weight_def)
qed

text \<open>A kernel that has room: \<^verbatim>\<open>send\<close> accepts at least one byte.\<close>

definition open_kernel :: "tcp_env \<Rightarrow> bool" where
  "open_kernel env \<longleftrightarrow> (\<forall>n bs. bs \<noteq> [] \<longrightarrow>
     1 \<le> fst (env_send env n bs) \<and> fst (env_send env n bs) \<le> int (length bs))"

lemma try_write_all:
  assumes "open_kernel env" "ring_inv (tsw_sender_buffer s)"
    "unat n = ring_series_read (tsw_sender_buffer s)"
  shows "\<exists>t. try_write_loop env n s = Some (Inr t) \<and> unsent t = [] \<and> same_events s t \<and>
    tsw_wire t = tsw_wire s @ unsent s \<and> tsw_posts t = tsw_posts s \<and> tsw_state t = tsw_state s"
  using assms(2,3)
proof (induction "length (unsent s)" arbitrary: s n rule: less_induct)
  case less
  show ?case
  proof (cases "n > 0")
    case False
    then have "unsent s = []" using series_read_none [OF less.prems(1,2)] by simp
    with False show ?thesis by (subst try_write_loop.simps) (simp add: same_events_def)
  next
    case True
    have kernel: "kernel_ok env" using assms(1) by (simp add: kernel_ok_def open_kernel_def)
    let ?bs = "take (unat n) (unsent s)"
    obtain k en where k: "env_send env (tsw_sends s) ?bs = (k, en)"
      by (cases "env_send env (tsw_sends s) ?bs") auto
    have "unat n \<noteq> 0" using True by (simp add: word_gt_0 unat_eq_zero)
    moreover have "unat n \<le> length (unsent s)" using less.prems(2) by (simp add: ring_series_read_def)
    ultimately have "?bs \<noteq> []" by (auto simp del: length_ring_contents)
    then have "1 \<le> fst (env_send env (tsw_sends s) ?bs)" using assms(1) by (simp only: open_kernel_def) blast
    then have "\<not> k < 0" using k by simp
    from try_write_step(2) [OF less.prems True kernel k this] obtain r n' where r: "ring_inv r"
      "ring_contents r = drop (nat k) (unsent s)" "unat n' = ring_series_read r" "1 \<le> nat k"
      "nat k \<le> length (unsent s)"
      "try_write_loop env n s = try_write_loop env n'
        (s\<lparr>tsw_sends := Suc (tsw_sends s), tsw_sender_buffer := r,
           tsw_wire := tsw_wire s @ take (nat k) (unsent s)\<rparr>)" by blast
    let ?t = "s\<lparr>tsw_sends := Suc (tsw_sends s), tsw_sender_buffer := r,
        tsw_wire := tsw_wire s @ take (nat k) (unsent s)\<rparr>"
    have l: "length (unsent ?t) < length (unsent s)"
      using r(2,4,5) by (simp del: length_ring_contents)
    show ?thesis using less.hyps [OF l] r(1-3,6) by (auto simp: same_events_def)
  qed
qed

section \<open>Each operation lowers the weight\<close>

lemma event_flags:
  "write_pending s \<longleftrightarrow> (\<exists>f. tsw_socket_write_event s = Some f \<and> ev_added f)"
  "read_registered s \<longleftrightarrow> (\<exists>e. tsw_socket_read_event s = Some e \<and> ev_added e)"
  by (simp_all add: write_pending_def read_registered_def)

lemma open_kernel_ok: "open_kernel env \<Longrightarrow> kernel_ok env"
  by (simp add: kernel_ok_def open_kernel_def)

lemma TryWrite_weight:
  assumes "open_kernel env" "ring_inv (tsw_sender_buffer s)"
  shows "\<exists>t. TryWriteBufferToSocket env s = Some (Inr t) \<and> weight t \<le> weight s"
proof -
  obtain n where n: "ring_AvailableSeriesRead (tsw_sender_buffer s) = Inr n"
    "unat n = ring_series_read (tsw_sender_buffer s)"
    using ring_AvailableSeriesRead_ok [OF assms(2)] by blast
  obtain t where t: "try_write_loop env n s = Some (Inr t)" "unsent t = []" "same_events s t"
    "tsw_wire t = tsw_wire s @ unsent s" "tsw_posts t = tsw_posts s"
    using try_write_all [OF assms n(2)] by blast
  then have "weight t \<le> weight s"
    by (simp add: weight_def event_flags same_events_def del: length_ring_contents)
  with t(1) n(1) show ?thesis by (simp add: TryWriteBufferToSocket_def)
qed

lemma error_weight:
  assumes "conn_inv s"
  shows "weight (error_socket s) + (if write_pending s then 4 else 0) + (if read_registered s then 2 else 0) \<le>
    weight s + 1"
proof -
  from assms obtain e f where "tsw_socket_read_event s = Some e" "tsw_socket_write_event s = Some f"
    "conn_events (tsw_state s) e f" by (rule conn_invE)
  then have "\<not> write_pending (error_socket s)" "\<not> read_registered (error_socket s)"
    by (auto simp: event_flags error_socket_def conn_events_def)
  then show ?thesis by (simp add: weight_def error_socket_def del: length_ring_contents)
qed

text \<open>The write event leaves its list when it fires, which pays for what its callback does.\<close>

lemma fire_write_weight:
  assumes "conn_inv s" "write_pending s" "wired_up s" "system_env env" "open_kernel env"
  shows "\<exists>t. fire_write (on_network env) so_error EV_WRITE s = Some (Inr t) \<and> weight t < weight s"
proof -
  note env = system_env_net [OF assms(4)]
  from assms(1,2) obtain e f where ev: "tsw_socket_read_event s = Some e"
    "tsw_socket_write_event s = Some f" "ev_added f" "conn_events (tsw_state s) e f"
    by (auto simp: write_pending_def elim!: conn_invE)
  let ?s = "s\<lparr>tsw_socket_write_event := Some (event_fired f)\<rparr>"
  have inv: "conn_inv ?s" using fired_inv [OF assms(1) ev(2)] .
  have base: "ev_base f" using ev(3,4) by (simp add: conn_events_def)
  then have once: "\<not> ev_added (event_fired f)" using assms(3) ev(2) by (simp add: wired_up_def event_fired_def)
  have fired: "weight ?s + 4 = weight s"
    using ev(2,3) once by (simp add: weight_def event_flags del: length_ring_contents)
  have error: "OnErrorEvent (on_network env) ?s = Inr (error_socket ?s)" "weight (error_socket ?s) \<le> weight ?s + 1"
    using OnErrorEvent_net [of ?s] ev(1) env(4) error_weight [OF inv] by simp_all
  have "open_kernel (on_network env)" using assms(5) by (simp add: open_kernel_def on_network_def)
  moreover have "ring_inv (tsw_sender_buffer ?s)" using inv by (rule conn_invE)
  ultimately obtain w where w: "TryWriteBufferToSocket (on_network env) ?s = Some (Inr w)" "weight w \<le> weight ?s"
    using TryWrite_weight by blast
  obtain c where c: "ClientConnected (on_network env) ?s = Inr c" "weight c \<le> weight ?s + 3"
    using ClientConnected_net [of ?s e "event_fired f" "on_network env"] ev(1) env(4) once
    by (auto simp: weight_def event_flags simp del: length_ring_contents)
  from base ev(4) obtain a where "ev_callback f = Some (On_Connection, a) \<or> ev_callback f = Some (On_Write_Event, a)"
    by (auto simp: conn_events_def)
  then show ?thesis
  proof
    assume "ev_callback f = Some (On_Connection, a)"
    with fired error c ev(2) show ?thesis by (auto simp: fire_write_def OnConnection_def Let_def)
  next
    assume "ev_callback f = Some (On_Write_Event, a)"
    with fired w ev(2) show ?thesis by (auto simp: fire_write_def OnWriteEvent_def Let_def)
  qed
qed

text \<open>A read that finds bytes takes some, or closes because the ring has no room in series.\<close>

lemma fire_read_weight:
  assumes "conn_inv s" "read_registered s" "wired_up s" "bytes \<noteq> []" "\<not> env_in_worker env"
  shows "\<exists>t d. fire_read env (Sys_Data bytes) s = Inr t \<and> prefix d bytes \<and> received t = received s @ d \<and>
    weight t < weight s + 3 * length d"
proof -
  from assms(1,2) obtain e f where ev: "tsw_socket_read_event s = Some e"
    "tsw_socket_write_event s = Some f" "ev_added e" "conn_events (tsw_state s) e f"
    by (auto simp: read_registered_def elim!: conn_invE)
  have cb: "ev_callback e = Some (On_Read_Event, True)" "tsw_state s = CS_CONNECTED"
    using assms(3) ev by (auto simp: wired_up_def conn_events_def)
  let ?s = "s\<lparr>tsw_socket_read_event := Some (event_fired e)\<rparr>"
  have inv: "conn_inv ?s" using read_fired_inv [OF assms(1) ev(1)] .
  have ring: "ring_inv (tsw_receiver_buffer s)" using assms(1) by (rule conn_invE)
  have fired: "weight ?s \<le> weight s"
    "weight ?s + (if read_registered ?s then 0 else 2) = weight s"
    using ev(1,3) by (simp_all add: weight_def event_flags del: length_ring_contents)
  have fire: "fire_read env (Sys_Data bytes) s = TryReadDataFromSocket env (Sys_Data bytes) ?s"
    using cb ev(1) by (simp add: fire_read_def OnReadEvent_def)
  obtain n where n: "ring_AvailableSeriesWrite (tsw_receiver_buffer s) = Inr n"
    "unat n = ring_series_write (tsw_receiver_buffer s)"
    using ring_AvailableSeriesWrite_ok [OF ring] by blast
  let ?bs = "take (ring_series_write (tsw_receiver_buffer s)) bytes"
  show ?thesis
  proof (cases "?bs = []")
    case True
    then have "TryReadDataFromSocket env (Sys_Data bytes) ?s = OnErrorEvent env ?s"
      unfolding TryReadDataFromSocket_def by (simp add: n del: take_eq_Nil)
    moreover have "OnErrorEvent env ?s = Inr (error_socket ?s)" using OnErrorEvent_net [of ?s] ev(2) assms(5) by simp
    moreover have "weight (error_socket ?s) < weight s"
      using error_weight [OF inv] fired by (auto split: if_splits)
    moreover have "received (error_socket ?s) = received s" by (simp add: error_socket_def)
    ultimately show ?thesis using fire by (intro exI [of _ "error_socket ?s"] exI [of _ "[]"]) simp
  next
    case False
    have le: "length ?bs \<le> ring_series_write (tsw_receiver_buffer s)" by simp
    then have l: "unat (of_nat (length ?bs) :: u32) = length ?bs"
      by (intro ring_length_lt32 [OF ring]) (auto simp: ring_series_write_def)
    obtain d r' where d: "mem_write (rb_data (tsw_receiver_buffer s))
        (unat (ring_CurrentSeriesWriteHead (tsw_receiver_buffer s))) ?bs = Inr d"
      "ring_ConsumeSeriesWriteLen ((tsw_receiver_buffer s)\<lparr>rb_data := d\<rparr>) (of_nat (length ?bs)) = Inr r'"
      "ring_contents r' = received s @ ?bs"
      using ring_series_write_ok [OF ring l le] by blast
    let ?t = "post Work_Process_Buffered (?s\<lparr>tsw_receiver_buffer := r'\<rparr>)"
    have "TryReadDataFromSocket env (Sys_Data bytes) ?s = Inr ?t"
      unfolding TryReadDataFromSocket_def
      using False d(1,2) n by (simp del: length_take take_eq_Nil)
    moreover have "weight ?t < weight s + 3 * length ?bs"
    proof -
      have "weight ?t = weight ?s + 1"
        by (simp add: weight_def post_def event_flags del: length_ring_contents)
      moreover have "0 < length ?bs" using False by blast
      ultimately show ?thesis using fired(1) by linarith
    qed
    ultimately show ?thesis
      using fire d(3) take_is_prefix [of "ring_series_write (tsw_receiver_buffer s)" bytes]
      by (intro exI [of _ ?t] exI [of _ ?bs]) (simp add: post_def del: length_ring_contents length_take take_eq_Nil)
  qed
qed

text \<open>What starts a connection sets events on an idle socket and posts at most one signal.\<close>

lemma weight_started:
  assumes "unsent t = unsent s" "tsw_wire t = tsw_wire s"
    "tsw_posts t = tsw_posts s \<or> tsw_posts t = tsw_posts s @ [Work_Close_Signal]"
  shows "weight t \<le> weight s + 1 + (if write_pending t then 4 else 0) + (if read_registered t then 2 else 0)"
  using assms by (auto simp: weight_def simp del: length_ring_contents)

lemma Connect_weight:
  assumes "conn_inv s" "all_off s" "\<not> env_in_worker env" "ConnectServerInNetworkLoop env fd conn s = Inr t"
  shows "weight t \<le> weight s + 5"
proof -
  from assms(1) obtain e f where ev: "tsw_socket_read_event s = Some e" "tsw_socket_write_event s = Some f"
    by (rule conn_invE)
  then have "\<not> ev_added e" using assms(2) by (simp add: all_off_def event_flags)
  then have "\<not> read_registered t \<and> unsent t = unsent s \<and> tsw_wire t = tsw_wire s \<and>
      (tsw_posts t = tsw_posts s \<or> tsw_posts t = tsw_posts s @ [Work_Close_Signal])"
    using assms(3,4) ev
    by (auto simp: ConnectServerInNetworkLoop_def on_read_event_def on_write_event_def OnErrorEvent_net
      error_socket_def event_flags Let_def split: if_splits)
  with weight_started [of t s] show ?thesis by (auto split: if_splits)
qed

lemma Begin_weight:
  assumes "conn_inv s" "all_off s" "\<not> env_in_worker env" "BeginProcessInNetworkLoop env nb cfd s = Inr t"
  shows "weight t \<le> weight s + 3"
proof -
  from assms(1) obtain e f where ev: "tsw_socket_read_event s = Some e" "tsw_socket_write_event s = Some f"
    by (rule conn_invE)
  then have "\<not> ev_added f" using assms(2) by (simp add: all_off_def event_flags)
  then have "\<not> write_pending t \<and> unsent t = unsent s \<and> tsw_wire t = tsw_wire s \<and>
      (tsw_posts t = tsw_posts s \<or> tsw_posts t = tsw_posts s @ [Work_Close_Signal])"
    using assms(3,4) ev
    by (auto simp: BeginProcessInNetworkLoop_def on_read_event_def on_write_event_def OnErrorEvent_net
      error_socket_def event_flags Let_def split: if_splits)
  with weight_started [of t s] show ?thesis by (auto split: if_splits)
qed

lemma Close_weight:
  assumes "conn_inv s" "\<not> env_in_worker env"
  shows "weight (CloseConnectionInNetworkLoop env s) \<le> weight s + 1"
proof -
  have "\<not> write_pending (CloseConnectionInNetworkLoop env s)" "\<not> read_registered (CloseConnectionInNetworkLoop env s)"
    "tsw_wire (CloseConnectionInNetworkLoop env s) = tsw_wire s"
    using CloseConnection_conn [OF assms(1), of env]
    by (simp_all add: CloseConnectionInNetworkLoop_def OnDestroySocket_def post_def Let_def)
  with Close_net(3,5) [OF assms] show ?thesis by (simp add: weight_def del: length_ring_contents)
qed

lemma run_net_weight:
  assumes "sys_inv env y" "system_env env" "open_kernel env" "sy_net y = p # ps"
    "run_net (on_network env) answers p (sy_socket y) = Some (Inr t)"
  shows "weight t < weight (sy_socket y) + (if is_net_post p then 6 else 1)"
proof -
  let ?s = "sy_socket y"
  have inv: "conn_inv ?s" "ring_inv (tsw_sender_buffer ?s)" using sys_inv_socket [OF assms(1)] by simp_all
  have w: "\<not> env_in_worker (on_network env)" using system_env_net [OF assms(2)] by simp
  have off: "start_post p \<Longrightarrow> all_off ?s" using assms(1,4) by (auto simp: sys_inv_def start_ok_def)
  have kern: "open_kernel (on_network env)" using assms(3) by (simp add: open_kernel_def on_network_def)
  show ?thesis
  proof (cases p)
    case Net_Connect_Server
    then have "start_post p" by simp
    from Connect_weight [OF inv(1) off [OF this] w] Net_Connect_Server assms(5) show ?thesis
      by (cases answers) fastforce
  next
    case (Net_Begin_Process cfd)
    then have "start_post p" by simp
    from Begin_weight [OF inv(1) off [OF this] w] Net_Begin_Process assms(5) show ?thesis
      by (cases answers) fastforce
  next
    case Net_Try_Write
    with TryWrite_weight [OF kern inv(2)] assms(5) show ?thesis by auto
  next
    case Net_Close_Connection
    with Close_weight [OF inv(1) w] assms(5) show ?thesis by auto
  qed (use assms(5) in auto)
qed

lemma run_work_weight:
  assumes "conn_inv s" "system_env env" "silent env" "run_work (on_worker env) p s = Inr t"
  shows "weight t \<le> weight s"
proof -
  have "p = Work_Process_Buffered \<longrightarrow> \<not> ring_full s"
    using assms(4) process_full by (auto simp: ring_full_def)
  from run_work_ok [OF assms(2,1) this] assms(4) have w: "tsw_wire t = tsw_wire s"
    "told (on_worker env) (work_packets env p s) s t" "same_events s t \<or> both_off s t" by auto
  have "silent (on_worker env)" using assms(3) by (simp add: silent_def on_worker_def)
  with w(2) have "tsw_posts t = tsw_posts s" "unsent t = unsent s" by (simp_all add: told_def)
  moreover from assms(1) obtain e f where "tsw_socket_read_event s = Some e" "tsw_socket_write_event s = Some f"
    by (rule conn_invE)
  then have "write_pending t \<longrightarrow> write_pending s" "read_registered t \<longrightarrow> read_registered s"
    using w(3) by (auto simp: event_flags same_events_def both_off_def)
  ultimately show ?thesis using w(1) by (simp add: weight_def del: length_ring_contents)
qed

section \<open>The steps that are left when the users have stopped\<close>

text \<open>
  \<open>drive_step env inc y z\<close>: a loop runs the head of its queue, the write event fires, or the read event
  fires and finds \<open>inc\<close>, what is on its way.
\<close>

inductive drive_step :: "tcp_env \<Rightarrow> byte list \<Rightarrow> tcp_system \<Rightarrow> tcp_system \<Rightarrow> bool" for env inc where
  net: "\<lbrakk> sy_net y = p # ps; run_net (on_network env) answers p (sy_socket y) = Some (Inr s) \<rbrakk>
     \<Longrightarrow> drive_step env inc y (settle s (y\<lparr>sy_net := ps,
           sy_closed := sy_closed y \<or> p = Net_Close_Connection,
           sy_late := sy_late y \<or> sy_closed y \<and> p = Net_Try_Write\<rparr>))"
| work: "\<lbrakk> sy_work y = p # ps; run_work (on_worker env) p (sy_socket y) = Inr s \<rbrakk>
     \<Longrightarrow> drive_step env inc y (settle s (note_output s (y\<lparr>sy_work := ps,
           sy_broken := sy_broken y \<or> meets_illegal env p (sy_socket y)\<rparr>)))"
| readable: "\<lbrakk> read_registered (sy_socket y); inc \<noteq> [];
     fire_read (on_network env) (Sys_Data inc) (sy_socket y) = Inr s \<rbrakk>
     \<Longrightarrow> drive_step env inc y (settle s (note_input s y))"
| writable: "\<lbrakk> write_pending (sy_socket y);
     fire_write (on_network env) so_error EV_WRITE (sy_socket y) = Some (Inr s) \<rbrakk>
     \<Longrightarrow> drive_step env inc y (settle s y)"

lemma drive_sys_step:
  assumes "drive_step env inc y z"
  shows "sys_step env y z"
  using assms by cases (auto intro: sys_step.intros)

lemma drive_load:
  assumes "sys_inv env y" "wired_up (sy_socket y)" "system_env env" "open_kernel env" "silent env"
    "drive_step env inc y z"
  shows "\<exists>d. prefix d inc \<and> sy_taken z = sy_taken y @ d \<and> load z < load y + 3 * length d"
proof -
  have inv: "conn_inv (sy_socket y)" using sys_inv_socket [OF assms(1)] by simp
  have w: "\<not> env_in_worker (on_network env)" using system_env_net [OF assms(3)] by simp
  show ?thesis
    using assms(6)
  proof cases
    case (net p ps answers s)
    have "load z = weight s + post_weight (sy_net y) - (if is_net_post p then 6 else 1) + post_weight (sy_work y)"
      unfolding net(1) load_settle by (simp add: net(2))
    with run_net_weight [OF assms(1,3,4) net(2,3)] net(1,2) show ?thesis
      by (intro exI [of _ "[]"]) (simp add: load_def [of y] split: if_splits)
  next
    case (work p ps s)
    from run_work_weight [OF inv assms(3,5) work(3)] work(1,2) show ?thesis
      by (intro exI [of _ "[]"]) (simp add: load_settle load_def [of y])
  next
    case (readable s)
    from fire_read_weight [OF inv readable(2) assms(2) readable(3) w] readable(4) obtain d where
      "prefix d inc" "received s = received (sy_socket y) @ d" "weight s < weight (sy_socket y) + 3 * length d"
      by auto
    then show ?thesis
      unfolding readable(1)
      by (intro exI [of _ d]) (simp add: load_settle load_def [of y] note_input_def del: length_ring_contents)
  next
    case (writable so_error s)
    from fire_write_weight [OF inv writable(2) assms(2-4), of so_error] writable(1,3) show ?thesis
      by (intro exI [of _ "[]"]) (simp add: load_settle load_def [of y])
  qed
qed

section \<open>The pair, driven\<close>

abbreviation on_its_way :: "tcp_system \<Rightarrow> tcp_system \<Rightarrow> byte list" where
  "on_its_way y z \<equiv> drop (length (sy_taken z)) (tsw_wire (sy_socket y))"

inductive pair_drive :: "tcp_env \<Rightarrow> tcp_env \<Rightarrow> tcp_pair \<Rightarrow> tcp_pair \<Rightarrow> bool" for envl envr where
  left: "drive_step envl (on_its_way (pa_right p) (pa_left p)) (pa_left p) y
     \<Longrightarrow> pair_drive envl envr p (p\<lparr>pa_left := y\<rparr>)"
| right: "drive_step envr (on_its_way (pa_left p) (pa_right p)) (pa_right p) y
     \<Longrightarrow> pair_drive envl envr p (p\<lparr>pa_right := y\<rparr>)"

inductive_cases pair_driveE: "pair_drive envl envr p q"

text \<open>The pair is ready for it when its events are set as they should.\<close>

definition pair_live :: "tcp_env \<Rightarrow> tcp_env \<Rightarrow> tcp_pair \<Rightarrow> bool" where
  "pair_live envl envr p \<longleftrightarrow> pair_inv envl envr p \<and> wired_up (sy_socket (pa_left p)) \<and>
     wired_up (sy_socket (pa_right p))"

definition driven_env :: "tcp_env \<Rightarrow> bool" where
  "driven_env env \<longleftrightarrow> open_kernel env \<and> silent env"

definition pair_load :: "tcp_pair \<Rightarrow> nat" where
  "pair_load p = load (pa_left p) + load (pa_right p) -
     3 * (length (sy_taken (pa_left p)) + length (sy_taken (pa_right p)))"

lemma pair_step_live:
  assumes "pair_env envl envr" "pair_live envl envr p" "pair_step envl envr p q"
  shows "pair_live envl envr q"
proof -
  have inv: "sys_inv envl (pa_left p)" "sys_inv envr (pa_right p)"
    using assms(2) by (simp_all add: pair_live_def pair_inv_def stream_inv_def)
  have "wired_up (sy_socket (pa_left q)) \<and> wired_up (sy_socket (pa_right q))"
    using assms(3)
  proof cases
    case (left y)
    with sys_step_wired [OF _ inv(1) left(2)] assms(1,2) show ?thesis
      by (simp add: pair_live_def pair_env_def)
  next
    case (right y)
    with sys_step_wired [OF _ inv(2) right(2)] assms(1,2) show ?thesis
      by (simp add: pair_live_def pair_env_def)
  qed
  with pair_step_inv [OF assms(1) _ assms(3)] assms(2) show ?thesis by (simp add: pair_live_def)
qed

interpretation live_pairs: invariant_system "pair_step envl envr" "\<lambda>p. pair_env envl envr \<and> pair_live envl envr p"
  for envl envr
  by unfold_locales (use pair_step_live in blast)

lemma pair_start_live:
  assumes "pair_start envl envr p"
  shows "pair_live envl envr p"
  using assms pair_start_inv [OF assms] sys_start_wired by (auto simp: pair_live_def pair_start_def)

lemma linked_load:
  assumes "linked y z"
  shows "3 * length (sy_taken z) \<le> load y"
  using prefix_length_le [of "sy_taken z" "tsw_wire (sy_socket y)"] assms
  by (simp add: linked_def load_def weight_def)

lemma prefix_more:
  "prefix xs ys \<Longrightarrow> prefix d (drop (length xs) ys) \<Longrightarrow> prefix (xs @ d) ys"
  by (auto simp: prefix_def)

lemma pair_drive_ok:
  assumes "pair_env envl envr" "driven_env envl" "driven_env envr" "pair_live envl envr p" "pair_drive envl envr p q"
  shows "pair_step envl envr p q" "pair_load q < pair_load p"
proof -
  have inv: "sys_inv envl (pa_left p)" "sys_inv envr (pa_right p)" "linked (pa_left p) (pa_right p)"
    "linked (pa_right p) (pa_left p)" "wired_up (sy_socket (pa_left p))" "wired_up (sy_socket (pa_right p))"
    using assms(4) by (simp_all add: pair_live_def pair_inv_def stream_inv_def)
  have env: "system_env envl" "system_env envr" "open_kernel envl" "open_kernel envr" "silent envl" "silent envr"
    using assms(1-3) by (simp_all add: pair_env_def driven_env_def)
  note taken = linked_load [OF inv(3)] linked_load [OF inv(4)]
  have grows: "pair_load (p\<lparr>pa_left := y\<rparr>) < pair_load p"
    if "load y < load (pa_left p) + 3 * length d" "sy_taken y = sy_taken (pa_left p) @ d"
      "pair_step envl envr p (p\<lparr>pa_left := y\<rparr>)" for y d
  proof -
    have "linked y (pa_right p)" "linked (pa_right p) y"
      using pair_step_live [OF assms(1,4) that(3)] by (simp_all add: pair_live_def pair_inv_def)
    from linked_load [OF this(1)] linked_load [OF this(2)] taken that(1,2) show ?thesis
      by (simp add: pair_load_def)
  qed
  have grows': "pair_load (p\<lparr>pa_right := y\<rparr>) < pair_load p"
    if "load y < load (pa_right p) + 3 * length d" "sy_taken y = sy_taken (pa_right p) @ d"
      "pair_step envl envr p (p\<lparr>pa_right := y\<rparr>)" for y d
  proof -
    have "linked y (pa_left p)" "linked (pa_left p) y"
      using pair_step_live [OF assms(1,4) that(3)] by (simp_all add: pair_live_def pair_inv_def)
    from linked_load [OF this(1)] linked_load [OF this(2)] taken that(1,2) show ?thesis
      by (simp add: pair_load_def)
  qed
  have "pair_step envl envr p q \<and> pair_load q < pair_load p"
    using assms(5)
  proof (rule pair_driveE)
    fix y assume y: "q = p\<lparr>pa_left := y\<rparr>"
      "drive_step envl (on_its_way (pa_right p) (pa_left p)) (pa_left p) y"
    from drive_load [OF inv(1,5) env(1,3,5) y(2)] obtain d where
      d: "prefix d (on_its_way (pa_right p) (pa_left p))" "sy_taken y = sy_taken (pa_left p) @ d"
      "load y < load (pa_left p) + 3 * length d" by blast
    have "prefix (sy_taken y) (tsw_wire (sy_socket (pa_right p)))"
      using prefix_more [OF _ d(1)] inv(4) d(2) by (simp add: linked_def)
    with drive_sys_step [OF y(2)] have "pair_step envl envr p (p\<lparr>pa_left := y\<rparr>)" by (rule pair_step.left)
    with grows [OF d(3,2)] y(1) show ?thesis by simp
  next
    fix y assume y: "q = p\<lparr>pa_right := y\<rparr>"
      "drive_step envr (on_its_way (pa_left p) (pa_right p)) (pa_right p) y"
    from drive_load [OF inv(2,6) env(2,4,6) y(2)] obtain d where
      d: "prefix d (on_its_way (pa_left p) (pa_right p))" "sy_taken y = sy_taken (pa_right p) @ d"
      "load y < load (pa_right p) + 3 * length d" by blast
    have "prefix (sy_taken y) (tsw_wire (sy_socket (pa_left p)))"
      using prefix_more [OF _ d(1)] inv(3) d(2) by (simp add: linked_def)
    with drive_sys_step [OF y(2)] have "pair_step envl envr p (p\<lparr>pa_right := y\<rparr>)" by (rule pair_step.right)
    with grows' [OF d(3,2)] y(1) show ?thesis by simp
  qed
  then show "pair_step envl envr p q" "pair_load q < pair_load p" by simp_all
qed

interpretation driven_pairs: measured_system "pair_drive envl envr"
    "\<lambda>p. pair_env envl envr \<and> driven_env envl \<and> driven_env envr \<and> pair_live envl envr p" pair_load
  for envl envr
  by unfold_locales (use pair_drive_ok pair_step_live in blast)+

lemma driven_run_steps:
  assumes "(pair_drive envl envr)\<^sup>*\<^sup>* q r"
    "pair_env envl envr \<and> driven_env envl \<and> driven_env envr \<and> pair_live envl envr q"
  shows "(pair_step envl envr)\<^sup>*\<^sup>* q r"
  using assms(1)
proof (induction rule: rtranclp_induct)
  case (step u v)
  from driven_pairs.run_inv [OF step.hyps(1) assms(2)] pair_drive_ok(1) [OF _ _ _ _ step.hyps(2)]
  have "pair_step envl envr u v" by blast
  with step.IH show ?case by (rule rtranclp.rtrancl_into_rtrancl)
qed simp

section \<open>At rest\<close>

text \<open>An end that can do nothing has done its work, or its processing is stuck at an exactly full ring.\<close>

lemma drive_rest:
  assumes "sys_inv env y" "wired_up (sy_socket y)" "system_env env" "open_kernel env"
    "\<not> (\<exists>z. drive_step env inc y z)"
  shows "sy_net y = []" "\<not> ring_full (sy_socket y) \<Longrightarrow> sy_work y = []" "\<not> write_pending (sy_socket y)"
    "read_registered (sy_socket y) \<Longrightarrow> inc = []"
proof -
  have inv: "conn_inv (sy_socket y)" using sys_inv_socket [OF assms(1)] by simp
  have w: "\<not> env_in_worker (on_network env)" using system_env_net [OF assms(3)] by simp
  show "sy_net y = []"
  proof (rule ccontr)
    assume "sy_net y \<noteq> []"
    then obtain p ps where "sy_net y = p # ps" by (cases "sy_net y") auto
    with net_step_ok [OF assms(1,3) this, of "(0, (0, 0), 0)"] assms(5) show False
      by (blast intro: drive_step.net)
  qed
  show "sy_work y = []" if "\<not> ring_full (sy_socket y)"
  proof (rule ccontr)
    assume "sy_work y \<noteq> []"
    then obtain p ps where p: "sy_work y = p # ps" by (cases "sy_work y") auto
    with work_step_ok [OF assms(1,3) p] that assms(5) show False by (blast intro: drive_step.work)
  qed
  show "\<not> write_pending (sy_socket y)"
    using fire_write_weight [OF inv _ assms(2-4), of 0] assms(5) by (blast intro: drive_step.writable)
  show "inc = []" if "read_registered (sy_socket y)"
    using fire_read_weight [OF inv that assms(2) _ w, of inc] that assms(5) by (blast intro: drive_step.readable)
qed

text \<open>At rest, what one end put into its ring while the connection was up is handed over.\<close>

lemma rest_delivered:
  assumes "stream_inv env y" "stream_inv env' z" "linked y z" "env_le env' = env_le env"
    and "wired_up (sy_socket y)" "wired_up (sy_socket z)" "system_env env" "system_env env'"
      "open_kernel env" "open_kernel env'"
    and "\<not> (\<exists>y'. drive_step env inc y y')" "\<not> (\<exists>z'. drive_step env' (on_its_way y z) z z')"
    and "\<not> sy_early y" "\<not> sy_broken y" "tsw_state (sy_socket y) \<noteq> CS_CLOSED"
      "read_registered (sy_socket z)" "\<not> ring_full (sy_socket z)" "tsw_SignalReadPacket (sy_socket z)"
  shows "packets_of (tsw_signals (sy_socket z)) = fst (parse_frames (env_le env) (sy_output y))"
proof -
  have y: "sys_inv env y" and z: "sys_inv env' z" using assms(1,2) by (simp_all add: stream_inv_def)
  note ry = drive_rest [OF y assms(5,7,9,11)] and rz = drive_rest [OF z assms(6,8,10,12)]
  have "drained (sy_socket y)"
    using y ry(1) assms(13,14) by (auto simp: sys_inv_def output_ok_def)
  then have "unsent (sy_socket y) = []" using ry(3) assms(15) by (simp add: drained_def)
  then have "sy_output y = tsw_wire (sy_socket y)" using stream_output [OF assms(1)] by simp
  moreover have "sy_taken z = tsw_wire (sy_socket y)"
    using rz(4) [OF assms(16)] assms(3) by (auto simp: linked_def prefix_def)
  moreover have "Work_Process_Buffered \<notin> set (sy_work z)" using rz(2) [OF assms(17)] by simp
  ultimately show ?thesis using linked_delivers(2) [OF assms(1-4)] assms(18) by simp
qed

text \<open>In a pair at rest, both ways.\<close>

lemma rest_ends:
  assumes "\<not> (\<exists>u. pair_drive envl envr r u)"
  shows "\<not> (\<exists>y. drive_step envl (on_its_way (pa_right r) (pa_left r)) (pa_left r) y)"
    "\<not> (\<exists>y. drive_step envr (on_its_way (pa_left r) (pa_right r)) (pa_right r) y)"
  using assms by (blast intro: pair_drive.intros)+

lemma pair_rest_delivered:
  assumes "pair_env envl envr" "driven_env envl" "driven_env envr" "pair_live envl envr r"
    "\<not> (\<exists>u. pair_drive envl envr r u)" "(a, b) \<in> {(pa_left r, pa_right r), (pa_right r, pa_left r)}"
    "tsw_state (sy_socket a) \<noteq> CS_CLOSED" "\<not> sy_early a" "\<not> sy_broken a"
      "read_registered (sy_socket b)" "tsw_SignalReadPacket (sy_socket b)" "\<not> ring_full (sy_socket b)"
  shows "packets_of (tsw_signals (sy_socket b)) = fst (parse_frames (env_le envl) (sy_output a))"
proof -
  note rest = rest_ends [OF assms(5)]
  have inv: "stream_inv envl (pa_left r)" "stream_inv envr (pa_right r)" "linked (pa_left r) (pa_right r)"
    "linked (pa_right r) (pa_left r)" "wired_up (sy_socket (pa_left r))" "wired_up (sy_socket (pa_right r))"
    using assms(4) by (simp_all add: pair_live_def pair_inv_def)
  have env: "system_env envl" "system_env envr" "open_kernel envl" "open_kernel envr" "env_le envr = env_le envl"
    using assms(1-3) by (simp_all add: pair_env_def driven_env_def)
  from assms(6) consider "a = pa_left r" "b = pa_right r" | "a = pa_right r" "b = pa_left r" by auto
  then show ?thesis
  proof cases
    case 1
    from rest_delivered [OF inv(1,2,3) env(5) inv(5,6) env(1-4) rest] assms(7-12) 1 show ?thesis by simp
  next
    case 2
    from rest_delivered [OF inv(2,1,4) env(5) [symmetric] inv(6,5) env(2,1,4,3) rest(2,1)] assms(7-12) 2 env(5)
    show ?thesis by simp
  qed
qed

end
