(* ===== verification/Tcp_Loops_Run.thy ===== *)
theory Tcp_Loops_Run
  imports Tcp_Loops
begin

text \<open>
  Runs of the composed system on an accepted connection, with a kernel that takes no output and
  callbacks that do nothing: a packet arrives; a message is sent; a message is sent after the
  close.
\<close>

definition busy_env :: tcp_env where
  "busy_env = \<lparr> env_le = True, env_in_network = False, env_in_worker = False,
     env_signal = (\<lambda>_ s. Inr s), env_send = (\<lambda>_ _. (- 1, EAGAIN)) \<rparr>"

lemma busy_env_ok: "system_env busy_env"
  by (auto simp: system_env_def kernel_ok_def posting_def busy_env_def intro: by_callback_refl)

definition fresh_socket :: tcp_socket where
  "fresh_socket = (TcpSocketWrapper_new (\<lambda>_. 0) (\<lambda>_. 0))\<lparr>tsw_SignalReadPacket := True,
     tsw_SignalOnCloseEvent := True, tsw_SignalOnConnected := False\<rparr>"

definition accepted_system :: tcp_system where
  "accepted_system = system_of (post (Net_Begin_Process 7) fresh_socket)"

definition up_socket :: tcp_socket where
  "up_socket = fresh_socket\<lparr>tsw_socketfd := 7, tsw_state := CS_CONNECTED, tsw_share_this_helper := True,
     tsw_socket_read_event := Some (tcp_event_add None
       (tcp_event_set 7 (EV_READ OR EV_PERSIST) On_Read_Event True event_zero)),
     tsw_socket_write_event := Some (tcp_event_set 7 EV_WRITE On_Write_Event True event_zero)\<rparr>"

definition up_system :: "tcp_socket \<Rightarrow> tcp_post list \<Rightarrow> tcp_post list \<Rightarrow> bool \<Rightarrow> bool \<Rightarrow>
    byte list \<Rightarrow> byte list \<Rightarrow> tcp_system" where
  "up_system s net work closed late output taken = \<lparr> sy_socket = s, sy_net = net, sy_work = work,
     sy_early = False, sy_closed = closed, sy_late = late, sy_broken = False, sy_output = output,
     sy_taken = taken \<rparr>"

lemma accepted_start: "sys_start env accepted_system"
proof -
  have "BeginProcess (on_user env) 0 7 (fresh_socket\<lparr>tsw_remote_addr := ([], 0)\<rparr>) =
      Inr (post (Net_Begin_Process 7) fresh_socket)"
    by (simp add: BeginProcess_def on_user_def fresh_socket_def TcpSocketWrapper_new_def)
  then show ?thesis
    unfolding sys_start_def accepted_system_def fresh_socket_def Let_def by blast
qed

lemma accepted_queue: "sy_net accepted_system = [Net_Begin_Process 7]"
  by (simp add: accepted_system_def system_of_def post_def fresh_socket_def TcpSocketWrapper_new_def)

lemma up_posts: "tsw_posts up_socket = []" "up_socket\<lparr>tsw_posts := []\<rparr> = up_socket"
  by (simp_all add: up_socket_def fresh_socket_def TcpSocketWrapper_new_def)

lemma up_step: "sys_step env accepted_system (up_system up_socket [] [] False False [] [])"
proof -
  let ?s = "fresh_socket"
  have s: "sy_socket accepted_system = ?s"
    by (simp add: accepted_system_def system_of_def post_def fresh_socket_def TcpSocketWrapper_new_def)
  have "run_net (on_network env) (0, (0, 0), 0) (Net_Begin_Process 7) ?s = Some (Inr up_socket)"
    by (simp add: BeginProcessInNetworkLoop_def on_read_event_def on_write_event_def up_socket_def
      fresh_socket_def TcpSocketWrapper_new_def)
  from sys_step.net [OF accepted_queue, of env "(0, (0, 0), 0)", unfolded s, OF this]
  show ?thesis
    using up_posts
    by (simp add: settle_def up_system_def accepted_system_def system_of_def post_def
      fresh_socket_def TcpSocketWrapper_new_def)
qed

lemma new_ring:
  "ring_inv (RingBuffer_new g MaxBufferSize)" "ring_contents (RingBuffer_new g MaxBufferSize) = []"
  "ring_free (RingBuffer_new g MaxBufferSize) = 16777216"
  "ring_series_write (RingBuffer_new g MaxBufferSize) = 16777216"
proof -
  show inv: "ring_inv (RingBuffer_new g MaxBufferSize)"
    using ring_new_inv [of 24 g] by (simp add: MaxBufferSize_def)
  show "ring_contents (RingBuffer_new g MaxBufferSize) = []"
    by (simp add: ring_contents_def RingBuffer_new_def circ_def)
  show "ring_free (RingBuffer_new g MaxBufferSize) = 16777216"
    by (simp add: ring_free_def RingBuffer_new_def MaxBufferSize_def)
  then show "ring_series_write (RingBuffer_new g MaxBufferSize) = 16777216"
    by (simp add: ring_series_write_def RingBuffer_new_def MaxBufferSize_def)
qed

lemma up_events:
  "tsw_socket_read_event up_socket = Some (tcp_event_add None
     (tcp_event_set 7 (EV_READ OR EV_PERSIST) On_Read_Event True event_zero))"
  "tsw_socket_write_event up_socket = Some (tcp_event_set 7 EV_WRITE On_Write_Event True event_zero)"
  "tsw_state up_socket = CS_CONNECTED" "tsw_SignalReadPacket up_socket"
  "tsw_sender_buffer up_socket = RingBuffer_new (\<lambda>_. 0) MaxBufferSize"
  "tsw_receiver_buffer up_socket = RingBuffer_new (\<lambda>_. 0) MaxBufferSize"
  by (simp_all add: up_socket_def fresh_socket_def TcpSocketWrapper_new_def)

lemma up_socket_ok:
  "conn_inv up_socket" "receiver_ready up_socket" "sender_ready up_socket" "received up_socket = []"
  "unsent up_socket = []" "write_wired up_socket" "read_registered up_socket"
  "ring_free (tsw_sender_buffer up_socket) = 16777216"
  "ring_series_write (tsw_receiver_buffer up_socket) = 16777216"
  by (auto simp: up_events new_ring conn_inv_def conn_events_def receiver_ready_def sender_ready_def
    write_wired_def read_registered_def)

text \<open>A packet arrives.\<close>

lemma up_reads:
  "\<exists>r. fire_read env (Sys_Data [1, 0, 7]) up_socket =
      Inr (post Work_Process_Buffered (up_socket\<lparr>tsw_receiver_buffer := r\<rparr>)) \<and>
    ring_inv r \<and> ring_contents r = [1, 0, 7]"
proof -
  let ?e = "tcp_event_add None (tcp_event_set 7 (EV_READ OR EV_PERSIST) On_Read_Event True event_zero) :: tcp_event"
  have "ev_events ?e = EV_READ OR EV_PERSIST"
    by (simp add: tcp_event_add_def tcp_event_set_def event_add_def event_set_def)
  moreover have "(EV_READ OR EV_PERSIST) AND EV_PERSIST \<noteq> 0"
    by (simp add: EV_READ_def EV_PERSIST_def)
  ultimately have fired: "event_fired ?e = ?e" by (simp only: event_fired_def if_False)
  have b: "[1, 0, 7] = take (ring_series_write (tsw_receiver_buffer up_socket)) [1, 0, 7 :: byte]"
    by (simp add: up_socket_ok(9))
  have same: "up_socket\<lparr>tsw_socket_read_event := Some ?e\<rparr> = up_socket"
    by (simp add: up_socket_def)
  have e: "tsw_socket_read_event up_socket = Some ?e" "tsw_state up_socket = CS_CONNECTED"
    by (simp_all add: up_socket_def)
  from TryRead_data_ok [OF up_socket_ok(2) b, of env] show ?thesis
    by (auto simp: up_socket_ok(4) fire_read_def e fired same OnReadEvent_def)
qed

lemma packet_step:
  "\<exists>r. sys_step env (up_system up_socket [] [] False False [] [])
      (up_system (up_socket\<lparr>tsw_receiver_buffer := r\<rparr>) [] [Work_Process_Buffered] False False [] [1, 0, 7]) \<and>
    ring_inv r \<and> ring_contents r = [1, 0, 7]"
proof -
  from up_reads [of "on_network env"] obtain r where
    r: "fire_read (on_network env) (Sys_Data [1, 0, 7]) up_socket =
      Inr (post Work_Process_Buffered (up_socket\<lparr>tsw_receiver_buffer := r\<rparr>))"
    "ring_inv r" "ring_contents r = [1, 0, 7]" by blast
  let ?t = "post Work_Process_Buffered (up_socket\<lparr>tsw_receiver_buffer := r\<rparr>)"
  let ?y = "up_system up_socket [] [] False False [] []"
  have y: "sy_socket ?y = up_socket" by (simp add: up_system_def)
  have "sys_step env ?y (settle ?t (note_input ?t ?y))"
    using sys_step.readable [of ?y env "Sys_Data [1, 0, 7]", unfolded y, OF up_socket_ok(7) r(1)] .
  moreover have "settle ?t (note_input ?t ?y) =
      up_system (up_socket\<lparr>tsw_receiver_buffer := r\<rparr>) [] [Work_Process_Buffered] False False [] [1, 0, 7]"
    using up_posts up_socket_ok(4) r(3)
    by (simp add: settle_def note_input_def up_system_def post_def del: length_ring_contents)
  ultimately show ?thesis using r(2,3) by auto
qed

lemma packet_arrives:
  "\<exists>s. (sys_step env)\<^sup>*\<^sup>* accepted_system (up_system s [] [Work_Process_Buffered] False False [] [1, 0, 7]) \<and>
    received s = [1, 0, 7]"
proof -
  obtain r where "sys_step env (up_system up_socket [] [] False False [] [])
      (up_system (up_socket\<lparr>tsw_receiver_buffer := r\<rparr>) [] [Work_Process_Buffered] False False [] [1, 0, 7])"
    "ring_contents r = [1, 0, 7]" using packet_step by blast
  with up_step [of env] show ?thesis
    by (intro exI [of _ "up_socket\<lparr>tsw_receiver_buffer := r\<rparr>"])
      (simp add: converse_rtranclp_into_rtranclp [of "sys_step env"])
qed

text \<open>A message is sent, while a close is queued or not.\<close>

lemma up_sends:
  assumes "env_le env" "\<not> env_in_network env"
  shows "\<exists>r. SendData env [0, 0, 7] 3 up_socket =
      Some (Inr (True, [1, 0, 7], post Net_Try_Write (up_socket\<lparr>tsw_sender_buffer := r\<rparr>))) \<and>
    ring_inv r \<and> ring_contents r = [1, 0, 7]"
proof -
  have p: "is_payload [7]" and h: "length [0 :: byte, 0] = 2" by (simp_all add: is_payload_def)
  have room: "length [7 :: byte] + 4 \<le> ring_free (tsw_sender_buffer up_socket)"
    by (simp add: up_socket_ok(8))
  have frame: "frame_of True [7] = [1, 0, 7]"
    by (simp add: frame_of_def host_bytes_def le_bytes_def upt_rec drop_bit_Suc)
  from SendData_ok [OF up_socket_ok(3) p h room, of env] show ?thesis
    using assms by (auto simp: frame up_socket_ok(5) run_try_write_def)
qed

lemma message_sent:
  assumes "env_le env"
  shows "\<exists>r. sys_step env (up_system up_socket net [] False False output [])
      (up_system (up_socket\<lparr>tsw_sender_buffer := r\<rparr>) (net @ [Net_Try_Write]) [] False False (output @ [1, 0, 7]) []) \<and>
    ring_inv r \<and> ring_contents r = [1, 0, 7]"
proof -
  have user: "env_le (on_user env)" "\<not> env_in_network (on_user env)"
    using assms by (simp_all add: on_user_def)
  from up_sends [OF user] obtain r where
    r: "SendData (on_user env) [0, 0, 7] 3 up_socket =
      Some (Inr (True, [1, 0, 7], post Net_Try_Write (up_socket\<lparr>tsw_sender_buffer := r\<rparr>)))"
    "ring_inv r" "ring_contents r = [1, 0, 7]" by blast
  let ?y = "up_system up_socket net [] False False output []"
  let ?t = "post Net_Try_Write (up_socket\<lparr>tsw_sender_buffer := r\<rparr>)"
  have len: "unat (3 :: size_t) = length [0 :: byte, 0, 7]" by simp
  have two: "2 \<le> length [0 :: byte, 0, 7]" by simp
  have sock: "sy_socket ?y = up_socket" by (simp add: up_system_def)
  have "sys_step env ?y (settle ?t (note_output ?t ?y))"
    using sys_step.user_send [OF len two, of env ?y, unfolded sock, OF r(1)] .
  moreover have "settle ?t (note_output ?t ?y) =
      up_system (up_socket\<lparr>tsw_sender_buffer := r\<rparr>) (net @ [Net_Try_Write]) [] False False (output @ [1, 0, 7]) []"
    using up_posts up_socket_ok(5,6) r(3)
    by (simp add: settle_def note_output_def up_system_def post_def del: length_ring_contents)
  ultimately show ?thesis using r(2,3) by auto
qed

lemma output_waits:
  "\<exists>s. (sys_step busy_env)\<^sup>*\<^sup>* accepted_system (up_system s [Net_Try_Write] [] False False [1, 0, 7] []) \<and>
    unsent s = [1, 0, 7]"
proof -
  from message_sent [of busy_env "[]" "[]"] obtain r where
    "sys_step busy_env (up_system up_socket [] [] False False [] [])
      (up_system (up_socket\<lparr>tsw_sender_buffer := r\<rparr>) [Net_Try_Write] [] False False [1, 0, 7] [])"
    "ring_contents r = [1, 0, 7]" by (auto simp: busy_env_def)
  with up_step have "(sys_step busy_env)\<^sup>*\<^sup>* accepted_system
      (up_system (up_socket\<lparr>tsw_sender_buffer := r\<rparr>) [Net_Try_Write] [] False False [1, 0, 7] [])"
    by (metis converse_rtranclp_into_rtranclp rtranclp.rtrancl_refl)
  with \<open>ring_contents r = _\<close> show ?thesis
    by (intro exI [of _ "up_socket\<lparr>tsw_sender_buffer := r\<rparr>"]) simp
qed

text \<open>A message is sent after the close: the write event is registered again, and the helper goes.\<close>

lemma net_close_step:
  assumes "tsw_posts s = []"
  shows "sys_step busy_env (up_system s (Net_Close_Connection # ps) [] False False output taken)
    (up_system ((CloseConnectionInNetworkLoop (on_network busy_env) s)\<lparr>tsw_posts := []\<rparr>) ps
      [Work_Destroy_Socket] True False output taken)"
proof -
  let ?y = "up_system s (Net_Close_Connection # ps) [] False False output taken"
  have q: "sy_net ?y = Net_Close_Connection # ps" "sy_socket ?y = s" by (simp_all add: up_system_def)
  have p: "tsw_posts (CloseConnectionInNetworkLoop (on_network busy_env) s) = [Work_Destroy_Socket]"
    using assms by (simp add: CloseConnectionInNetworkLoop_def on_network_def post_def Let_def)
  from sys_step.net [OF q(1), of busy_env "(0, (0, 0), 0)", unfolded q(2)] show ?thesis
    by (simp add: settle_def up_system_def p)
qed

lemma settle_idle: "tsw_posts s = [] \<Longrightarrow> settle s y = y\<lparr>sy_socket := s\<rparr>"
  by (cases s) (simp add: settle_def)

lemma net_late_step:
  assumes "ring_inv (tsw_sender_buffer s)" "unsent s \<noteq> []" "tsw_socket_write_event s = Some f"
    "tsw_posts s = []"
  shows "sys_step busy_env (up_system s [Net_Try_Write] work True False output taken)
    (up_system (s\<lparr>tsw_sends := Suc (tsw_sends s), tsw_socket_write_event := Some (tcp_event_add None f)\<rparr>)
      [] work True True output taken)"
proof -
  let ?y = "up_system s [Net_Try_Write] work True False output taken"
  let ?t = "s\<lparr>tsw_sends := Suc (tsw_sends s), tsw_socket_write_event := Some (tcp_event_add None f)\<rparr>"
  have q: "sy_net ?y = Net_Try_Write # []" "sy_socket ?y = s" by (simp_all add: up_system_def)
  have "env_send (on_network busy_env) (tsw_sends s) = (\<lambda>_. (- 1, EAGAIN))"
    by (simp add: on_network_def busy_env_def)
  from TryWrite_busy [OF assms(1,2) this]
  have "run_net (on_network busy_env) (0, (0, 0), 0) Net_Try_Write s = Some (Inr ?t)"
    using assms(3) by (simp add: on_write_event_def)
  from sys_step.net [OF q(1), of busy_env "(0, (0, 0), 0)", unfolded q(2), OF this]
  show ?thesis using assms(4) by (simp add: settle_idle up_system_def)
qed

lemma destroy_step:
  assumes "tsw_posts s = []"
  shows "sys_step busy_env (up_system s [] [Work_Destroy_Socket] True True output taken)
    (up_system (s\<lparr>tsw_share_this_helper := False\<rparr>) [] [] True True output taken)"
proof -
  let ?y = "up_system s [] [Work_Destroy_Socket] True True output taken"
  have q: "sy_work ?y = Work_Destroy_Socket # []" "sy_socket ?y = s" by (simp_all add: up_system_def)
  have w: "run_work (on_worker busy_env) Work_Destroy_Socket s = Inr (s\<lparr>tsw_share_this_helper := False\<rparr>)"
    by (simp add: OnDestroySocket_def)
  from sys_step.work [OF q(1), of busy_env, unfolded q(2), OF w] show ?thesis
    using assms by (simp add: settle_idle note_output_def up_system_def meets_illegal_def)
qed

lemma late_run:
  "\<exists>s. (sys_step busy_env)\<^sup>*\<^sup>* accepted_system (up_system s [] [] True True [1, 0, 7] []) \<and>
    write_pending s \<and> \<not> tsw_share_this_helper s"
proof -
  let ?y1 = "up_system up_socket [] [] False False [] []"
  let ?y2 = "up_system up_socket [Net_Close_Connection] [] False False [] []"
  have s2: "sys_step busy_env ?y1 ?y2"
    using sys_step.user_close [of busy_env ?y1] up_posts
    by (simp add: CloseConnection_def on_user_def busy_env_def settle_def up_system_def post_def)
  obtain r where r: "sys_step busy_env ?y2
      (up_system (up_socket\<lparr>tsw_sender_buffer := r\<rparr>) [Net_Close_Connection, Net_Try_Write] [] False False [1, 0, 7] [])"
    "ring_inv r" "ring_contents r = [1, 0, 7]"
    using message_sent [of busy_env "[Net_Close_Connection]" "[]"] by (auto simp: busy_env_def)
  let ?s3 = "up_socket\<lparr>tsw_sender_buffer := r\<rparr>"
  let ?s4 = "(CloseConnectionInNetworkLoop (on_network busy_env) ?s3)\<lparr>tsw_posts := []\<rparr>"
  have s4: "sys_step busy_env (up_system ?s3 [Net_Close_Connection, Net_Try_Write] [] False False [1, 0, 7] [])
      (up_system ?s4 [Net_Try_Write] [Work_Destroy_Socket] True False [1, 0, 7] [])"
    by (rule net_close_step) (simp add: up_posts)
  obtain f where f: "tsw_socket_write_event ?s4 = Some f" "ev_base f" "tsw_sender_buffer ?s4 = r"
    by (simp add: CloseConnectionInNetworkLoop_def on_network_def post_def up_events Let_def)
  let ?s5 = "?s4\<lparr>tsw_sends := Suc (tsw_sends ?s4), tsw_socket_write_event := Some (tcp_event_add None f)\<rparr>"
  have s5: "sys_step busy_env (up_system ?s4 [Net_Try_Write] [Work_Destroy_Socket] True False [1, 0, 7] [])
      (up_system ?s5 [] [Work_Destroy_Socket] True True [1, 0, 7] [])"
    using r(2,3) f by (intro net_late_step) simp_all
  let ?s6 = "?s5\<lparr>tsw_share_this_helper := False\<rparr>"
  have s6: "sys_step busy_env (up_system ?s5 [] [Work_Destroy_Socket] True True [1, 0, 7] []) (up_system ?s6 [] [] True True [1, 0, 7] [])"
    by (rule destroy_step) simp
  have "(sys_step busy_env)\<^sup>*\<^sup>* accepted_system (up_system ?s6 [] [] True True [1, 0, 7] [])"
    using up_step s2 r(1) s4 s5 s6
    by (meson converse_rtranclp_into_rtranclp rtranclp.rtrancl_refl)
  moreover have "write_pending ?s6" using f(2) by (simp add: write_pending_def)
  ultimately show ?thesis by (intro exI [of _ ?s6]) simp
qed

end
