(* ===== verification/Tcp_Pair_Run.thy ===== *)
theory Tcp_Pair_Run
  imports Tcp_Progress Tcp_Loops_Run
begin

text \<open>
  A run of two connected systems over a kernel that takes output: a message is sent on the left,
  crosses, and is handed over on the right.
\<close>

definition open_env :: tcp_env where
  "open_env = busy_env\<lparr>env_send := (\<lambda>_ bs. (int (length bs), 0))\<rparr>"

lemma open_env_ok: "system_env open_env" "listening open_env" "pair_env open_env open_env"
  "driven_env open_env"
proof -
  show s: "system_env open_env"
    by (auto simp: system_env_def kernel_ok_def posting_def open_env_def busy_env_def Suc_le_eq
      intro: by_callback_refl)
  show l: "listening open_env" by (simp add: listening_def open_env_def busy_env_def)
  show "pair_env open_env open_env" using s l by (simp add: pair_env_def)
  show "driven_env open_env"
    by (auto simp: driven_env_def open_kernel_def silent_def open_env_def busy_env_def Suc_le_eq)
qed

text \<open>An end that is up and has nothing left to do.\<close>

definition idle_end :: "tcp_system \<Rightarrow> bool" where
  "idle_end y \<longleftrightarrow> sy_net y = [] \<and> sy_work y = [] \<and> \<not> write_pending (sy_socket y) \<and>
     read_registered (sy_socket y) \<and> tsw_state (sy_socket y) = CS_CONNECTED \<and> \<not> sy_early y \<and> \<not> sy_broken y"

lemma idle_end_rest: "idle_end y \<Longrightarrow> \<not> drive_step env [] y z"
  by (auto simp: idle_end_def elim!: drive_step.cases)

lemma up_socket_idle: "\<not> write_pending up_socket" "read_registered up_socket" "tsw_state up_socket = CS_CONNECTED"
    "tsw_wire up_socket = []"
proof -
  show "read_registered up_socket" by (rule up_socket_ok(7))
qed (simp_all add: write_pending_def up_socket_def fresh_socket_def TcpSocketWrapper_new_def tcp_event_set_def
  event_set_def event_zero_def)

lemma same_events_idle:
  "same_events s t \<Longrightarrow> write_pending t = write_pending s \<and> read_registered t = read_registered s"
  by (simp add: same_events_def event_flags)

lemma event_posts [simp]:
  "write_pending (s\<lparr>tsw_posts := ps\<rparr>) = write_pending s"
  "read_registered (s\<lparr>tsw_posts := ps\<rparr>) = read_registered s"
  "write_pending (s\<lparr>tsw_sender_buffer := r\<rparr>) = write_pending s"
  "read_registered (s\<lparr>tsw_sender_buffer := r\<rparr>) = read_registered s"
  by (simp_all add: write_pending_def read_registered_def)

lemma three_not_full:
  assumes "ring_inv (tsw_receiver_buffer s)" "received s = [a, b, c]"
  shows "\<not> ring_full s"
proof -
  obtain k where k: "unat (rb_capacity (tsw_receiver_buffer s)) = 2 ^ k"
    using assms(1) by (auto simp: ring_inv_def)
  have "(2 :: nat) ^ k \<noteq> 3"
  proof
    assume three: "(2 :: nat) ^ k = 3"
    then have "odd ((2 :: nat) ^ k)" by simp
    then have "k = 0" by simp
    with three show False by simp
  qed
  then show ?thesis using k by (simp add: ring_full_def assms(2) del: length_ring_contents)
qed

text \<open>The left end: it comes up, sends and writes.\<close>

lemma left_run:
  assumes "env_le env" "open_kernel env"
  shows "\<exists>y z. sys_step env (up_system up_socket [] [] False False [] []) y \<and> sys_step env y z \<and>
    sy_work y = [] \<and> sy_taken y = [] \<and> sy_taken z = [] \<and> unsent (sy_socket z) = [] \<and> sy_output z = [1, 0, 7] \<and> idle_end z"
proof -
  obtain r where r: "sys_step env (up_system up_socket [] [] False False [] [])
      (up_system (up_socket\<lparr>tsw_sender_buffer := r\<rparr>) [Net_Try_Write] [] False False [1, 0, 7] [])"
    "ring_inv r" using message_sent [OF assms(1), of "[]" "[]"] by auto
  let ?s = "up_socket\<lparr>tsw_sender_buffer := r\<rparr>"
  let ?y = "up_system ?s [Net_Try_Write] [] False False [1, 0, 7] []"
  obtain n where "ring_AvailableSeriesRead r = Inr n" "unat n = ring_series_read r"
    using ring_AvailableSeriesRead_ok [OF r(2)] by blast
  moreover have "open_kernel (on_network env)"
    using assms(2) by (simp add: open_kernel_def on_network_def)
  ultimately obtain t where t: "TryWriteBufferToSocket (on_network env) ?s = Some (Inr t)"
    "unsent t = []" "same_events ?s t" "tsw_posts t = []" "tsw_state t = CS_CONNECTED"
    using try_write_all [of "on_network env" ?s n] r(2) up_posts up_socket_idle
    by (auto simp: TryWriteBufferToSocket_def)
  have q: "sy_net ?y = Net_Try_Write # []" "sy_socket ?y = ?s" by (simp_all add: up_system_def)
  have w: "run_net (on_network env) (0, (0, 0), 0) Net_Try_Write ?s = Some (Inr t)" using t(1) by simp
  from sys_step.net [OF q(1), of env "(0, (0, 0), 0)", unfolded q(2), OF w] r(1) t up_socket_idle same_events_idle [OF t(3)]
  show ?thesis
    by (intro exI [of _ ?y] exI conjI) (auto simp: up_system_def idle_end_def)
qed

text \<open>The right end: it comes up, reads and hands over.\<close>

lemma right_run:
  assumes "system_env env" "env_le env"
  shows "\<exists>y z. sys_step env (up_system up_socket [] [] False False [] []) y \<and> sys_step env y z \<and>
    sy_taken y = [1, 0, 7] \<and> sy_taken z = [1, 0, 7] \<and> Work_Process_Buffered \<notin> set (sy_work z) \<and>
    tsw_wire (sy_socket z) = [] \<and> \<not> ring_full (sy_socket z) \<and>
    (calm (on_worker env) \<longrightarrow> tsw_SignalReadPacket (sy_socket z)) \<and> (silent env \<longrightarrow> idle_end z)"
proof -
  obtain r where r: "sys_step env (up_system up_socket [] [] False False [] [])
      (up_system (up_socket\<lparr>tsw_receiver_buffer := r\<rparr>) [] [Work_Process_Buffered] False False [] [1, 0, 7])"
    "ring_inv r" "ring_contents r = [1, 0, 7]" using packet_step by blast
  let ?s = "up_socket\<lparr>tsw_receiver_buffer := r\<rparr>"
  let ?y = "up_system ?s [] [Work_Process_Buffered] False False [] [1, 0, 7]"
  have inv: "conn_inv ?s" using up_socket_ok(1) r(2) by (simp add: conn_inv_def)
  have "\<not> ring_full ?s" using three_not_full [of ?s] r(2,3) by simp
  from run_work_ok [OF assms(1) inv, of Work_Process_Buffered] this obtain t qs where
    t: "run_work (on_worker env) Work_Process_Buffered ?s = Inr t" "queued qs ?s t" "conn_inv t"
      "tsw_state t = tsw_state ?s" "same_events ?s t \<or> meets_illegal env Work_Process_Buffered ?s"
      "received t = fst (snd (parse_frames (env_le env) (received ?s)))" "tsw_wire t = tsw_wire ?s"
      "told (on_worker env) (work_packets env Work_Process_Buffered ?s) ?s t" by auto
  have parse: "parse_frames (env_le env) (received ?s) = ([[1, 0, 7]], [], False)"
    using assms(2) by (simp add: r(3) parse_frames.simps host_word_def)
  then have legal: "\<not> meets_illegal env Work_Process_Buffered ?s" and got: "received t = []"
    using t(6) by (simp_all add: meets_illegal_def)
  have events: "same_events up_socket t" using t(5) legal by (simp add: same_events_def)
  have "ring_inv (tsw_receiver_buffer t)" using t(3) by (rule conn_invE)
  then have room: "\<not> ring_full t" unfolding ring_full_def got by (auto simp: ring_inv_def)
  have ready: "receiver_ready ?s" using up_socket_ok(2) r(2) by (simp add: receiver_ready_def)
  have "length (received ?s) < unat (rb_capacity (tsw_receiver_buffer ?s))"
    using \<open>\<not> ring_full ?s\<close> ring_length_le [OF r(2)] by (simp add: ring_full_def)
  from process_loop_ok [OF ready _ this, of "on_worker env"] t(1)
  have srp: "calm (on_worker env) \<longrightarrow> tsw_SignalReadPacket t"
    by (auto simp: receiver_ready_def)
  have q: "sy_work ?y = Work_Process_Buffered # []" "sy_socket ?y = ?s" by (simp_all add: up_system_def)
  let ?z = "settle t (note_output t (?y\<lparr>sy_work := [], sy_broken := sy_broken ?y \<or> meets_illegal env Work_Process_Buffered ?s\<rparr>))"
  have step: "sys_step env ?y ?z"
    using sys_step.work [OF q(1), of env, unfolded q(2), OF t(1)] .
  have posts: "set (tsw_posts t) \<subseteq> {Net_Try_Write, Net_Close_Connection}"
    using t(2) up_posts by (simp add: queued_def)
  have "silent (on_worker env)" if "silent env" using that by (simp add: silent_def on_worker_def)
  then have quiet: "silent env \<Longrightarrow> tsw_posts t = []" using t(8) up_posts by (simp add: told_def)
  have wired: "write_wired ?s" using up_socket_ok(6) by (simp add: write_wired_def)
  have "idle_end ?z" if "silent env"
    using quiet [OF that] same_events_idle [OF events] up_socket_idle t(4) legal wired
    by (auto simp: idle_end_def up_system_def note_output_def)
  moreover have "sy_taken ?y = [1, 0, 7]" "sy_taken ?z = [1, 0, 7]" by (simp_all add: up_system_def)
  moreover have "Work_Process_Buffered \<notin> set (sy_work ?z)" using posts by (auto simp: up_system_def)
  moreover have "tsw_wire (sy_socket ?z) = []" "\<not> ring_full (sy_socket ?z)"
    using t(7) up_socket_idle(4) room by (simp_all add: ring_full_def)
  ultimately show ?thesis
    using r(1) step srp by (intro exI [of _ ?y] exI [of _ ?z] conjI) simp_all
qed

definition accepted_pair :: tcp_pair where
  "accepted_pair = \<lparr> pa_left = accepted_system, pa_right = accepted_system \<rparr>"

lemma accepted_pair_start: "pair_start envl envr accepted_pair"
  using accepted_start
  by (simp add: pair_start_def accepted_pair_def)

lemma pair_run:
  assumes "pair_env envl envr" "env_le envl" "open_kernel envl"
  shows "\<exists>q. (pair_step envl envr)\<^sup>*\<^sup>* accepted_pair q \<and> sy_output (pa_left q) = [1, 0, 7] \<and>
    sy_taken (pa_right q) = tsw_wire (sy_socket (pa_left q)) \<and> unsent (sy_socket (pa_left q)) = [] \<and>
    Work_Process_Buffered \<notin> set (sy_work (pa_right q)) \<and>
    (calm (on_worker envr) \<longrightarrow> tsw_SignalReadPacket (sy_socket (pa_right q))) \<and>
    idle_end (pa_left q) \<and> sy_taken (pa_left q) = [] \<and> tsw_wire (sy_socket (pa_right q)) = [] \<and>
    \<not> ring_full (sy_socket (pa_right q)) \<and> (silent envr \<longrightarrow> idle_end (pa_right q))"
proof -
  let ?R = "pair_step envl envr" and ?u = "up_system up_socket [] [] False False [] []"
  obtain y z where l: "sys_step envl ?u y" "sys_step envl y z" "sy_taken y = []" "sy_taken z = []"
    "unsent (sy_socket z) = []" "sy_output z = [1, 0, 7]" "idle_end z" using left_run [OF assms(2,3)] by blast
  obtain v w where r: "sys_step envr ?u v" "sys_step envr v w" "sy_taken v = [1, 0, 7]"
    "sy_taken w = [1, 0, 7]" "Work_Process_Buffered \<notin> set (sy_work w)" 
    "calm (on_worker envr) \<longrightarrow> tsw_SignalReadPacket (sy_socket w)"
    "tsw_wire (sy_socket w) = []" "\<not> ring_full (sy_socket w)" "silent envr \<longrightarrow> idle_end w"
    using right_run [of envr] assms(1,2) by (auto simp: pair_env_def)
  have st: "stream_inv envl accepted_system" using accepted_start by (rule stream_inv_start)
  note up = up_step
  have "stream_inv envl z"
    using stream_inv_step(1) [of envl] assms(1) st up l(1,2) unfolding pair_env_def by blast
  then have wire: "tsw_wire (sy_socket z) = [1, 0, 7]" using l(5,6) stream_output by fastforce
  let ?p = "\<lambda>a b. \<lparr> pa_left = a, pa_right = b \<rparr>"
  have left: "?R (?p a b) (?p a' b)" if "sys_step envl a a'" "sy_taken a' = []" for a a' b
    using pair_step.left [of envl "?p a b" a' envr] that by simp
  have right: "?R (?p z b) (?p z b')" if "sys_step envr b b'" "prefix (sy_taken b') [1, 0, 7]" for b b'
    using pair_step.right [of envr "?p z b" b' envl] that wire by simp
  have u: "sy_taken ?u = []" by (simp add: up_system_def)
  have "?R (?p accepted_system accepted_system) (?p ?u accepted_system)" using left up u by blast
  then have "?R\<^sup>*\<^sup>* (?p accepted_system accepted_system) (?p ?u accepted_system)" by simp
  also have "?R (?p ?u accepted_system) (?p y accepted_system)" using left l by blast
  also have "?R (?p y accepted_system) (?p z accepted_system)" using left l by blast
  also have "?R (?p z accepted_system) (?p z ?u)" using right up u by simp
  also have "?R (?p z ?u) (?p z v)" using right r by simp
  also have "?R (?p z v) (?p z w)" using right r by simp
  finally show ?thesis
    using l(4-7) r(4-9) wire by (intro exI [of _ "?p z w"]) (simp add: accepted_pair_def)
qed

lemma open_pair_run:
  "\<exists>q. (pair_step open_env open_env)\<^sup>*\<^sup>* accepted_pair q \<and> sy_output (pa_left q) = [1, 0, 7] \<and>
    sy_taken (pa_right q) = tsw_wire (sy_socket (pa_left q)) \<and> unsent (sy_socket (pa_left q)) = [] \<and>
    Work_Process_Buffered \<notin> set (sy_work (pa_right q)) \<and> tsw_SignalReadPacket (sy_socket (pa_right q)) \<and>
    idle_end (pa_left q) \<and> idle_end (pa_right q) \<and> \<not> ring_full (sy_socket (pa_right q)) \<and>
    \<not> (\<exists>u. pair_drive open_env open_env q u)"
proof -
  have e: "env_le open_env" "open_kernel open_env" "silent open_env"
    using open_env_ok(4) by (simp_all add: open_env_def busy_env_def driven_env_def)
  have "calm (on_worker open_env)" by (simp add: calm_def on_worker_def open_env_def busy_env_def)
  with pair_run [OF open_env_ok(3) e(1,2)] e(3) obtain q where
    q: "(pair_step open_env open_env)\<^sup>*\<^sup>* accepted_pair q" "sy_output (pa_left q) = [1, 0, 7]"
    "sy_taken (pa_right q) = tsw_wire (sy_socket (pa_left q))" "unsent (sy_socket (pa_left q)) = []"
    "Work_Process_Buffered \<notin> set (sy_work (pa_right q))" "tsw_SignalReadPacket (sy_socket (pa_right q))"
    "idle_end (pa_left q)" "sy_taken (pa_left q) = []" "tsw_wire (sy_socket (pa_right q)) = []"
    "\<not> ring_full (sy_socket (pa_right q))" "idle_end (pa_right q)" by blast
  have "\<not> (\<exists>u. pair_drive open_env open_env q u)"
    using idle_end_rest [OF q(7), of open_env] idle_end_rest [OF q(11), of open_env] q(3,9)
    by (auto elim!: pair_driveE)
  with q show ?thesis by blast
qed

end
