(* ===== verification/Tcp_Solo_Run.thy ===== *)
theory Tcp_Solo_Run
  imports Tcp_Joined Tcp_Pair_Run
begin

text \<open>
  A run of two connected sockets with one loop each, just accepted: a message is sent on the left by
  another thread, crosses, and is handed over on the right.
\<close>

definition solo_of :: "tcp_socket \<Rightarrow> tcp_post list \<Rightarrow> byte list \<Rightarrow> byte list \<Rightarrow> solo_system" where
  "solo_of s q out taken = \<lparr> so_socket = s, so_queue = q, so_output = out, so_taken = taken \<rparr>"

definition accepted_solo :: solo_system where
  "accepted_solo = solo_of up_socket [] [] []"

lemma accepted_solo_start: "so_start env accepted_solo"
proof -
  obtain t where t: "AcceptConnection (on_loop env) 7 0 ([], 0) (\<lambda>_. 0) (\<lambda>_. 0) = Inr (Some t)"
    "set_functions True True False t = up_socket"
    by (simp add: AcceptConnection_def BeginProcess_def BeginProcessInNetworkLoop_def on_read_event_def on_write_event_def
      set_functions_def up_socket_def fresh_socket_def TcpSocketWrapper_new_def Let_def)
  have "up_socket\<lparr>tsw_posts := []\<rparr> = up_socket" "tsw_wire up_socket = []" by (simp_all add: up_posts up_socket_idle)
  moreover have "tsw_wire (TcpSocketWrapper_new (\<lambda>_. 0) (\<lambda>_. 0)) = []" "unsent (TcpSocketWrapper_new (\<lambda>_. 0) (\<lambda>_. 0)) = []"
    by (simp_all add: TcpSocketWrapper_new_def new_ring)
  ultimately have "accepted_solo = so_settle up_socket
      \<lparr> so_socket = TcpSocketWrapper_new (\<lambda>_. 0) (\<lambda>_. 0), so_queue = [], so_output = [], so_taken = [] \<rparr>"
    using up_posts(1) up_socket_ok(5) by (simp add: accepted_solo_def solo_of_def so_settle_def)
  with t(1) t(2) [symmetric] show ?thesis
    unfolding so_start_def Let_def by blast
qed

lemma solo_sends:
  assumes "env_le env" "open_kernel env"
  shows "\<exists>y z. so_step env accepted_solo y \<and> so_step env y z \<and> so_taken y = [] \<and> so_taken z = [] \<and>
    so_output z = [1, 0, 7] \<and> tsw_wire (so_socket z) = [1, 0, 7]"
proof -
  have user: "env_le (on_user env)" "\<not> env_in_network (on_user env)"
    using assms by (simp_all add: on_user_def)
  from up_sends [OF user] obtain r where
    r: "SendData (on_user env) [0, 0, 7] 3 up_socket =
      Some (Inr (True, [1, 0, 7], post Net_Try_Write (up_socket\<lparr>tsw_sender_buffer := r\<rparr>)))"
    "ring_inv r" "ring_contents r = [1, 0, 7]" by blast
  let ?s = "up_socket\<lparr>tsw_sender_buffer := r\<rparr>"
  let ?y = "solo_of ?s [Net_Try_Write] [1, 0, 7] []"
  have up: "so_socket accepted_solo = up_socket" by (simp add: accepted_solo_def solo_of_def)
  have len: "unat (3 :: size_t) = length [0 :: byte, 0, 7]" "2 \<le> length [0 :: byte, 0, 7]" by simp_all
  have "so_step env accepted_solo (so_settle (post Net_Try_Write ?s) accepted_solo)"
    using so_step.send [OF disjI1 [OF refl] len, of env accepted_solo, unfolded up, OF r(1)] .
  moreover have "so_settle (post Net_Try_Write ?s) accepted_solo = ?y"
    using up_posts up_socket_ok(5) up_socket_idle(4) r(3)
    by (simp add: so_settle_def accepted_solo_def solo_of_def post_def del: length_ring_contents)
  ultimately have y: "so_step env accepted_solo ?y" by simp
  obtain n where "ring_AvailableSeriesRead r = Inr n" "unat n = ring_series_read r"
    using ring_AvailableSeriesRead_ok [OF r(2)] by blast
  moreover have "open_kernel (on_loop env)"
    using assms(2) by (simp add: open_kernel_def on_loop_def)
  ultimately obtain t where t: "TryWriteBufferToSocket (on_loop env) ?s = Some (Inr t)"
    "unsent t = []" "tsw_wire t = [1, 0, 7]" "tsw_posts t = []"
    using try_write_all [of "on_loop env" ?s n] r(2,3) up_posts(1) up_socket_idle(4)
    by (auto simp: TryWriteBufferToSocket_def)
  have q: "so_queue ?y = Net_Try_Write # []" "so_socket ?y = ?s" by (simp_all add: solo_of_def)
  have "run_task (on_loop env) Net_Try_Write ?s = Some (Inr t)" using t(1) by (simp add: run_task_def)
  from so_step.task [OF q(1), of env, unfolded q(2), OF this]
  have "so_step env ?y (so_settle t (?y\<lparr>so_queue := []\<rparr>))" .
  with y t up_socket_idle(4) r(3) show ?thesis
    by (intro exI [of _ ?y] exI [of _ "so_settle t (?y\<lparr>so_queue := []\<rparr>)"])
      (simp add: so_settle_def solo_of_def del: length_ring_contents)
qed

lemma solo_reads:
  assumes "loop_env env" "env_le env"
  shows "\<exists>y z. so_step env accepted_solo y \<and> so_step env y z \<and> so_taken y = [1, 0, 7] \<and> so_taken z = [1, 0, 7] \<and>
    so_queue y = [Work_Process_Buffered] \<and> \<not> ring_full (so_socket y) \<and>
    (calm env \<longrightarrow> packets_of (tsw_signals (so_socket z)) = [[1, 0, 7]])"
proof -
  from up_reads [of "on_loop env"] obtain r where
    r: "fire_read (on_loop env) (Sys_Data [1, 0, 7]) up_socket =
      Inr (post Work_Process_Buffered (up_socket\<lparr>tsw_receiver_buffer := r\<rparr>))"
    "ring_inv r" "ring_contents r = [1, 0, 7]" by blast
  let ?t = "post Work_Process_Buffered (up_socket\<lparr>tsw_receiver_buffer := r\<rparr>)"
  let ?s = "up_socket\<lparr>tsw_receiver_buffer := r\<rparr>"
  let ?y = "solo_of ?s [Work_Process_Buffered] [] [1, 0, 7]"
  have up: "so_socket accepted_solo = up_socket" by (simp add: accepted_solo_def solo_of_def)
  have "so_step env accepted_solo (so_settle ?t (so_input ?t accepted_solo))"
    using so_step.readable [of accepted_solo env "Sys_Data [1, 0, 7]", unfolded up, OF up_socket_ok(7) r(1)] .
  moreover have "so_settle ?t (so_input ?t accepted_solo) = ?y"
    using up_posts up_socket_ok(4,5) up_socket_idle(4) r(3)
    by (simp add: so_settle_def so_input_def accepted_solo_def solo_of_def post_def del: length_ring_contents)
  ultimately have y: "so_step env accepted_solo ?y" by simp
  have room: "\<not> ring_full ?s" using three_not_full [of ?s] r(2,3) by simp
  have inv: "conn_inv ?s" using up_socket_ok(1) r(2) by (simp add: conn_inv_def)
  from run_task_stepped [OF inv assms(1), of Work_Process_Buffered] room obtain t where
    t: "run_task (on_loop env) Work_Process_Buffered ?s = Some (Inr t)" by auto
  have q: "so_queue ?y = Work_Process_Buffered # []" "so_socket ?y = ?s" by (simp_all add: solo_of_def)
  let ?z = "so_settle t (?y\<lparr>so_queue := []\<rparr>)"
  have z: "so_step env ?y ?z" using so_step.task [OF q(1), of env, unfolded q(2), OF t] .
  have "packets_of (tsw_signals t) = [[1, 0, 7]]" if "calm env"
  proof -
    have ready: "receiver_ready ?s" "calm (on_loop env)"
      using up_socket_ok(2) r(2) that by (simp_all add: receiver_ready_def calm_def on_loop_def)
    have "length (received ?s) < unat (rb_capacity (tsw_receiver_buffer ?s))"
      using room ring_length_le [OF r(2)] by (simp add: ring_full_def)
    moreover have "parse_frames (env_le env) (received ?s) = ([[1, 0, 7]], [], False)"
      using assms(2) by (simp add: r(3) parse_frames.simps host_word_def)
    moreover have "packets_of (tsw_signals ?s) = []"
      by (simp add: up_socket_def fresh_socket_def TcpSocketWrapper_new_def)
    ultimately show ?thesis
      using process_loop_ok [OF ready] t by (auto simp: run_task_def)
  qed
  with y z room show ?thesis
    by (intro exI [of _ ?y] exI [of _ ?z]) (simp add: so_settle_def solo_of_def)
qed

lemma solo_pair_run:
  assumes "loop_env envr" "env_le envl" "env_le envr" "open_kernel envl"
  shows "\<exists>c d. (join_step (so_step envl) (so_step envr) solo_view solo_view)\<^sup>*\<^sup>* (accepted_solo, accepted_solo) (c, d) \<and>
    so_output c = [1, 0, 7] \<and> so_taken d = [1, 0, 7] \<and>
    (calm envr \<longrightarrow> packets_of (tsw_signals (so_socket d)) = [[1, 0, 7]])"
proof -
  let ?R = "join_step (so_step envl) (so_step envr) solo_view solo_view" and ?a = accepted_solo
  obtain y z where l: "so_step envl ?a y" "so_step envl y z" "so_taken y = []" "so_taken z = []"
    "so_output z = [1, 0, 7]" "tsw_wire (so_socket z) = [1, 0, 7]" using solo_sends [OF assms(2,4)] by blast
  obtain v w where r: "so_step envr ?a v" "so_step envr v w" "so_taken v = [1, 0, 7]" "so_taken w = [1, 0, 7]"
    "calm envr \<longrightarrow> packets_of (tsw_signals (so_socket w)) = [[1, 0, 7]]" using solo_reads [OF assms(1,3)] by blast
  have "?R (?a, ?a) (y, ?a)" using l by (intro join_step.left) (simp_all add: solo_view_def socket_view_def)
  then have "?R\<^sup>*\<^sup>* (?a, ?a) (y, ?a)" by simp
  also have "?R (y, ?a) (z, ?a)" using l by (intro join_step.left) (simp_all add: solo_view_def socket_view_def)
  also have "?R (z, ?a) (z, v)" using l r by (intro join_step.right) (simp_all add: solo_view_def socket_view_def)
  also have "?R (z, v) (z, w)" using l r by (intro join_step.right) (simp_all add: solo_view_def socket_view_def)
  finally show ?thesis using l(5) r(4,5) by blast
qed

lemma open_env_loop: "loop_env open_env" "env_le open_env" "open_kernel open_env" "calm open_env"
proof -
  show "loop_env open_env"
    using open_env_ok(1) handled_refl by (simp add: loop_env_def system_env_def attending_def open_env_def busy_env_def)
  show "env_le open_env" "open_kernel open_env" "calm open_env"
    using open_env_ok(4) by (simp_all add: driven_env_def calm_def open_env_def busy_env_def)
qed

end
