(* ===== verification/Tcp_Lifetime.thy ===== *)
theory Tcp_Lifetime
  imports Tcp_Progress
begin

text \<open>
  Who owns a socket. The wrapper is held by shared pointers: the helper keeps one as long as libevent
  may call, and every functor bound to the wrapper keeps one until it has run. The task's own pointer
  is not counted: it is gone once the task has let go.
\<close>

section \<open>The owners\<close>

text \<open>
  A posted signal is a copy of the user's function and holds no pointer to the wrapper; every other
  functor is bound to \<^verbatim>\<open>shared_from_this\<close>.
\<close>

fun binds_wrapper :: "tcp_post \<Rightarrow> bool" where
  "binds_wrapper Work_Close_Signal = False"
| "binds_wrapper Work_Connected_Signal = False"
| "binds_wrapper _ = True"

definition wrapper_owners :: "tcp_system \<Rightarrow> nat" where
  "wrapper_owners y = of_bool (tsw_share_this_helper (sy_socket y)) +
     length (filter binds_wrapper (sy_net y @ sy_work y))"

text \<open>After the close has run, the helper is gone or its deletion waits on the worker loop.\<close>

definition freeing :: "tcp_system \<Rightarrow> bool" where
  "freeing y \<longleftrightarrow> (sy_closed y \<and> tsw_share_this_helper (sy_socket y) \<longrightarrow> Work_Destroy_Socket \<in> set (sy_work y))"

lemma freeing_settle:
  assumes "freeing y" "sy_closed z = sy_closed y" "set (sy_work y) - {p} \<subseteq> set (sy_work z)"
    "tsw_share_this_helper s \<longrightarrow> tsw_share_this_helper (sy_socket y) \<and> p \<noteq> Work_Destroy_Socket"
  shows "freeing (settle s z)"
  using assms by (auto simp: freeing_def)

lemma run_net_helper:
  assumes "conn_inv s" "system_env env" "\<not> start_post p" "p \<noteq> Net_Close_Connection"
    "run_net (on_network env) answers p s = Some (Inr t)"
  shows "tsw_share_this_helper t = tsw_share_this_helper s"
proof (cases p)
  case Net_Try_Write
  with TryWrite_net [OF assms(1,2)] assms(5) show ?thesis by (auto simp: net_moved_def)
qed (use assms in auto)

lemma freeing_step:
  assumes "system_env env" "sys_inv env y" "freeing y" "sys_step env y z"
  shows "freeing z"
proof -
  note parts = sys_inv_socket [OF assms(2)]
  note same = freeing_settle [OF assms(3), where p = Net_Try_Write]
  have moved: "freeing (settle t y)" "freeing (settle t (note_input u y))" if "net_moved (sy_socket y) t" for t u
    using that by (auto intro!: same simp: net_moved_def note_input_def)
  show ?thesis
    using assms(4)
  proof cases
    case (user_send len data ok d s)
    from SendData_any [OF parts(2) user_send(2,3), of "on_user env"] user_send(4) obtain r ps where
      "s = (sy_socket y)\<lparr>tsw_sender_buffer := r, tsw_posts := tsw_posts (sy_socket y) @ ps\<rparr>"
      by (auto simp: on_user_def)
    then show ?thesis unfolding user_send(1) by (intro same) auto
  next
    case (user_send_head buff ok s)
    from SendDataWithHead_any [OF parts(2) user_send_head(2), of "on_user env"] user_send_head(3) obtain r where
      "s = post Net_Try_Write ((sy_socket y)\<lparr>tsw_sender_buffer := r\<rparr>)" by (auto simp: on_user_def)
    then show ?thesis unfolding user_send_head(1) by (intro same) (auto simp: post_def)
  next
    case user_close
    then show ?thesis by (auto intro!: same simp: CloseConnection_def on_user_def post_def)
  next
    case (net p ps answers s)
    show ?thesis
    proof (cases "p = Net_Close_Connection")
      case True
      have "\<not> env_in_worker (on_network env)" using system_env_net [OF assms(1)] by simp
      from Close_net(3) [OF parts(1) this] True net(3) have "Work_Destroy_Socket \<in> set (tsw_posts s)"
        by (cases answers) auto
      then show ?thesis unfolding net(1) by (auto simp: freeing_def)
    next
      case other: False
      show ?thesis
      proof (cases "start_post p")
        case True
        then have "\<not> sy_closed y" using assms(2) net(2) by (auto simp: sys_inv_def start_ok_def)
        then show ?thesis unfolding net(1) using other by (simp add: freeing_def)
      next
        case False
        from run_net_helper [OF parts(1) assms(1) False other net(3)] other show ?thesis
          unfolding net(1) by (intro same) auto
      qed
    qed
  next
    case (work p ps s)
    have "p = Work_Process_Buffered \<longrightarrow> \<not> ring_full (sy_socket y)"
      using work(3) process_full by (auto simp: ring_full_def)
    from run_work_ok [OF assms(1) parts(1) this] work(3)
    have h: "tsw_share_this_helper s = tsw_share_this_helper (sy_socket y) \<or> p = Work_Destroy_Socket" by auto
    have "p = Work_Destroy_Socket \<longrightarrow> \<not> tsw_share_this_helper s"
      using work(3) by (auto simp: OnDestroySocket_def)
    with h work(2) show ?thesis
      unfolding work(1) by (intro freeing_settle [OF assms(3), where p = p]) auto
  next
    case (readable answer s)
    from fire_read_net [OF parts(1) readable(2) assms(1), of answer] readable(3) have "net_moved (sy_socket y) s"
      by auto
    then show ?thesis unfolding readable(1) by (rule moved(2))
  next
    case (writable so_error s)
    from fire_write_net [OF parts(1) writable(2) assms(1), of EV_WRITE so_error] writable(3)
    have "net_moved (sy_socket y) s" by auto
    then show ?thesis unfolding writable(1) by (rule moved(1))
  next
    case (connect_timeout s)
    from fire_write_net [OF parts(1) connect_timeout(2) assms(1), of EV_TIMEOUT 0] connect_timeout(3,4)
    have "net_moved (sy_socket y) s" by auto
    then show ?thesis unfolding connect_timeout(1) by (rule moved(1))
  qed
qed

interpretation freed_systems: invariant_system "sys_step env"
    "\<lambda>y. system_env env \<and> sys_inv env y \<and> freeing y" for env
  by unfold_locales (use sys_step_inv freeing_step in blast)

lemma start_freeing:
  assumes "sys_start env y"
  shows "freeing y"
  using assms by (auto simp: sys_start_def system_of_def freeing_def Let_def)

lemma reachable_freeing:
  assumes "sys_start env y" "(sys_step env)\<^sup>*\<^sup>* y z" "system_env env"
  shows "sys_inv env z" "freeing z"
  using freed_systems.run_inv [OF assms(2)] sys_start_inv [OF assms(1)] start_freeing [OF assms(1)] assms(3)
  by blast+

section \<open>Who owns what, when\<close>

text \<open>While libevent may call and no close has run, the helper owns the wrapper.\<close>

lemma owned_until_closed:
  assumes "sys_inv env z" "read_registered (sy_socket z) \<or> write_pending (sy_socket z)" "\<not> sy_closed z"
  shows "tsw_share_this_helper (sy_socket z)" "0 < wrapper_owners z"
proof -
  from assms(1) have "conn_inv (sy_socket z)" by (simp add: sys_inv_def)
  then have "events_set (sy_socket z)"
    using assms(2)
    by (auto simp: conn_inv_def conn_events_def events_set_def read_registered_def write_pending_def)
  with assms(1,3) show "tsw_share_this_helper (sy_socket z)" by (auto simp: sys_inv_def close_ok_def)
  then show "0 < wrapper_owners z" by (simp add: wrapper_owners_def)
qed

text \<open>Once closed, only functors that still wait own it.\<close>

lemma owners_after_close:
  assumes "freeing z" "sy_closed z"
  shows "wrapper_owners z = 0 \<longleftrightarrow> filter binds_wrapper (sy_net z @ sy_work z) = []"
  using assms by (auto simp: wrapper_owners_def freeing_def filter_empty_conv)

text \<open>A pair that is driven to rest keeps no closed end, but where a processing is stuck.\<close>

lemma rest_freed:
  assumes "sys_inv env y" "freeing y" "wired_up (sy_socket y)" "system_env env" "open_kernel env"
    "\<not> (\<exists>z. drive_step env inc y z)" "sy_closed y" "\<not> ring_full (sy_socket y)"
  shows "wrapper_owners y = 0"
  using owners_after_close [OF assms(2,7)] drive_rest(1,2) [OF assms(1,3-6)] assms(8) by simp

lemma pair_step_freeing:
  assumes "pair_env envl envr" "pair_inv envl envr p" "freeing (pa_left p)" "freeing (pa_right p)"
    "pair_step envl envr p q"
  shows "freeing (pa_left q)" "freeing (pa_right q)"
proof -
  have inv: "sys_inv envl (pa_left p)" "sys_inv envr (pa_right p)" "system_env envl" "system_env envr"
    using assms(1,2) by (simp_all add: pair_inv_def stream_inv_def pair_env_def)
  have "freeing (pa_left q) \<and> freeing (pa_right q)"
    using assms(5)
  proof cases
    case (left y)
    with freeing_step [OF inv(3,1) assms(3) left(2)] assms(4) show ?thesis by simp
  next
    case (right y)
    with freeing_step [OF inv(4,2) assms(4) right(2)] assms(3) show ?thesis by simp
  qed
  then show "freeing (pa_left q)" "freeing (pa_right q)" by simp_all
qed

interpretation freed_pairs: invariant_system "pair_step envl envr"
    "\<lambda>p. (pair_env envl envr \<and> pair_live envl envr p) \<and> freeing (pa_left p) \<and> freeing (pa_right p)"
  for envl envr
proof
  fix p q
  assume p: "(pair_env envl envr \<and> pair_live envl envr p) \<and> freeing (pa_left p) \<and> freeing (pa_right p)"
    and step: "pair_step envl envr p q"
  with pair_step_freeing [of envl envr p q] have "freeing (pa_left q)" "freeing (pa_right q)"
    by (simp_all add: pair_live_def)
  with live_pairs.step_inv [OF _ step] p
  show "(pair_env envl envr \<and> pair_live envl envr q) \<and> freeing (pa_left q) \<and> freeing (pa_right q)" by blast
qed

lemma pair_rest_freed:
  assumes "pair_env envl envr" "driven_env envl" "driven_env envr" "pair_live envl envr r"
    "freeing (pa_left r)" "freeing (pa_right r)" "\<not> (\<exists>u. pair_drive envl envr r u)"
    "y \<in> {pa_left r, pa_right r}" "sy_closed y" "\<not> ring_full (sy_socket y)"
  shows "wrapper_owners y = 0"
proof -
  note rest = rest_ends [OF assms(7)]
  have inv: "sys_inv envl (pa_left r)" "sys_inv envr (pa_right r)"
    "wired_up (sy_socket (pa_left r))" "wired_up (sy_socket (pa_right r))"
    using assms(4) by (simp_all add: pair_live_def pair_inv_def stream_inv_def)
  have env: "system_env envl" "system_env envr" "open_kernel envl" "open_kernel envr"
    using assms(1-3) by (simp_all add: pair_env_def driven_env_def)
  from assms(8) consider "y = pa_left r" | "y = pa_right r" by auto
  then show ?thesis
  proof cases
    case 1
    with rest_freed [OF inv(1) assms(5) inv(3) env(1,3) rest(1)] assms(9,10) show ?thesis by simp
  next
    case 2
    with rest_freed [OF inv(2) assms(6) inv(4) env(2,4) rest(2)] assms(9,10) show ?thesis by simp
  qed
qed

end
