(* ===== verification/Tcp_Threads.thy ===== *)
theory Tcp_Threads
  imports Tcp_Joined Ring_Threads
begin

text \<open>
  A connected socket under its three threads, cut where they touch what they share: the thread that
  sends, the network loop and the worker loop. Each operation that uses a ring is a machine whose
  steps are one access to a ring's counters, or one copy, or one system call or callback; the steps
  of the three interleave in any order. With nobody between its steps a machine does what the
  operation's definition does.
\<close>

section \<open>The machines\<close>

text \<open>\<^verbatim>\<open>SendData\<close> from the call of \<^verbatim>\<open>WriteContent\<close> on, and \<^verbatim>\<open>SendDataWithHead\<close>: load, copy, publish, post.\<close>

datatype user_pc =
    U_Idle
  | U_Write "byte list"
  | U_Copy "byte list"
  | U_Publish "byte list"
  | U_Post

text \<open>\<^verbatim>\<open>SendData\<close> before: the length, the room, and the header into the caller's storage.\<close>

definition send_begin :: "tcp_env \<Rightarrow> byte list \<Rightarrow> size_t \<Rightarrow> tcp_socket \<Rightarrow> user_pc result" where
  "send_begin env data len s =
     (if len > 65537 then Inr U_Idle
      else
        rbind (ring_AvailableWrite (tsw_sender_buffer s)) (\<lambda>avail.
        if (ucast avail :: size_t) < len + 2 then Inr U_Idle
        else
          rbind (mem_write data 0 (host_bytes (env_le env) 2 (ucast (len - 2) :: u16))) (\<lambda>data'.
          Inr (U_Write data'))))"

definition user_next :: "user_pc \<Rightarrow> tcp_socket \<Rightarrow> (user_pc \<times> tcp_socket) result" where
  "user_next pc s =
     (let r = tsw_sender_buffer s in
      case pc of
        U_Idle \<Rightarrow> Inl Bad_Function_Call
      | U_Write bs \<Rightarrow>
          rbind (ring_AvailableWrite r) (\<lambda>avail.
          Inr (if avail < of_nat (length bs) then U_Post else U_Copy bs, s))
      | U_Copy bs \<Rightarrow>
          rbind (ring_copy_in r (ring_CurrentSeriesWriteHead r) bs (of_nat (length bs))) (\<lambda>d.
          Inr (U_Publish bs, s\<lparr>tsw_sender_buffer := r\<lparr>rb_data := d\<rparr>\<rparr>))
      | U_Publish bs \<Rightarrow>
          Inr (U_Post, s\<lparr>tsw_sender_buffer := r\<lparr>rb_write_count := rb_write_count r + of_nat (length bs)\<rparr>\<rparr>)
      | U_Post \<Rightarrow> Inr (U_Idle, post Net_Try_Write s))"

text \<open>
  The network loop in \<^verbatim>\<open>TryWriteBufferToSocket\<close> (load, send, consume, load again) or in
  \<^verbatim>\<open>TryReadDataFromSocket\<close> (load, read, publish, queue the processing).
\<close>

datatype net_pc =
    N_Idle
  | N_Load
  | N_Have u32
  | N_Sent int
  | N_Reading sys_read
  | N_Space u32 sys_read
  | N_Got "byte list"
  | N_Queue

definition net_next :: "tcp_env \<Rightarrow> net_pc \<Rightarrow> tcp_socket \<Rightarrow> (net_pc \<times> tcp_socket) result" where
  "net_next env pc s =
     (case pc of
        N_Idle \<Rightarrow> Inl Bad_Function_Call
      | N_Load \<Rightarrow>
          rbind (ring_AvailableSeriesRead (tsw_sender_buffer s)) (\<lambda>available_read.
          Inr (if available_read > 0 then N_Have available_read else N_Idle, s))
      | N_Have available_read \<Rightarrow>
          rbind (mem_read (rb_data (tsw_sender_buffer s))
                   (unat (ring_CurrentSeriesReadHead (tsw_sender_buffer s))) (unat available_read)) (\<lambda>bs.
          let (send_n, errno) = env_send env (tsw_sends s) bs; t = s\<lparr>tsw_sends := Suc (tsw_sends s)\<rparr> in
          if send_n < 0 then
            rbind (if errno \<noteq> EAGAIN \<and> errno \<noteq> EINTR then OnErrorEvent env t
                   else on_write_event (tcp_event_add None) t) (\<lambda>t. Inr (N_Idle, t))
          else Inr (N_Sent send_n, t\<lparr>tsw_wire := tsw_wire s @ take (nat send_n) bs\<rparr>))
      | N_Sent send_n \<Rightarrow>
          rbind (ring_ConsumeSeriesReadLen (tsw_sender_buffer s) (word_of_int send_n)) (\<lambda>r.
          Inr (N_Load, s\<lparr>tsw_sender_buffer := r\<rparr>))
      | N_Reading answer \<Rightarrow>
          rbind (ring_AvailableSeriesWrite (tsw_receiver_buffer s)) (\<lambda>available_series_write.
          Inr (N_Space available_series_write answer, s))
      | N_Space available_series_write (Sys_Error errno) \<Rightarrow>
          rbind (if errno = EAGAIN \<or> errno = EINTR then Inr s else OnErrorEvent env s) (\<lambda>t. Inr (N_Idle, t))
      | N_Space available_series_write (Sys_Data bytes) \<Rightarrow>
          (let bs = take (unat available_series_write) bytes in
           if bs = [] then rbind (OnErrorEvent env s) (\<lambda>t. Inr (N_Idle, t))
           else
             rbind (mem_write (rb_data (tsw_receiver_buffer s))
                      (unat (ring_CurrentSeriesWriteHead (tsw_receiver_buffer s))) bs) (\<lambda>d.
             Inr (N_Got bs, s\<lparr>tsw_receiver_buffer := (tsw_receiver_buffer s)\<lparr>rb_data := d\<rparr>\<rparr>)))
      | N_Got bs \<Rightarrow>
          rbind (ring_ConsumeSeriesWriteLen (tsw_receiver_buffer s) (of_nat (length bs))) (\<lambda>r.
          Inr (N_Queue, s\<lparr>tsw_receiver_buffer := r\<rparr>))
      | N_Queue \<Rightarrow> Inr (N_Idle, post Work_Process_Buffered s))"

text \<open>
  The worker loop in \<^verbatim>\<open>TryProcessBufferedDataInWorkLoop\<close>: the two loads, the header and the tests; a
  packet in series is handed over and consumed, one that wraps is gathered and consumed in two parts
  and then handed over.
\<close>

datatype work_pc =
    K_Idle
  | K_Load
  | K_Series u32
  | K_Head u32 u32
  | K_Near u32
  | K_Take u32
  | K_Far u32 u32
  | K_Wrap "byte list" u32 u32
  | K_Rest "byte list" u32
  | K_Rest_Take "byte list" u32
  | K_Emit "byte list"

definition work_next :: "tcp_env \<Rightarrow> work_pc \<Rightarrow> tcp_socket \<Rightarrow> (work_pc \<times> tcp_socket) result" where
  "work_next env pc s =
     (let r = tsw_receiver_buffer s; head = unat (ring_CurrentSeriesReadHead r) in
      case pc of
        K_Idle \<Rightarrow> Inl Bad_Function_Call
      | K_Load \<Rightarrow> rbind (ring_AvailableRead r) (\<lambda>available_read. Inr (K_Series available_read, s))
      | K_Series available_read \<Rightarrow>
          rbind (ring_AvailableSeriesRead r) (\<lambda>available_series_read.
          Inr (if available_read < 2 then K_Idle else K_Head available_read available_series_read, s))
      | K_Head available_read available_series_read \<Rightarrow>
          rbind (read_header (env_le env) available_series_read r) (\<lambda>payload_len.
          if (ucast payload_len :: u32) > 65535 \<or> payload_len \<le> 0
          then rbind (illegal_length env s) (\<lambda>s. Inr (K_Idle, s))
          else
            let msg_len = (ucast payload_len :: u32) + 2 in
            Inr (if available_read < msg_len then K_Idle
              else if available_series_read \<ge> msg_len then K_Near msg_len
              else K_Far available_series_read msg_len, s))
      | K_Near msg_len \<Rightarrow>
          rbind (mem_read (rb_data r) head (unat msg_len)) (\<lambda>bs.
          rbind (emit_packet env bs s) (\<lambda>s. Inr (K_Take msg_len, s)))
      | K_Take msg_len \<Rightarrow>
          rbind (ring_ConsumeSeriesReadLen r msg_len) (\<lambda>r. Inr (K_Load, s\<lparr>tsw_receiver_buffer := r\<rparr>))
      | K_Far available_series_read msg_len \<Rightarrow>
          rbind (mem_read (rb_data r) head (unat available_series_read)) (\<lambda>bs.
          Inr (K_Wrap bs available_series_read (msg_len - available_series_read), s))
      | K_Wrap bs available_series_read remain_len \<Rightarrow>
          rbind (ring_ConsumeSeriesReadLen r available_series_read) (\<lambda>r.
          Inr (K_Rest bs remain_len, s\<lparr>tsw_receiver_buffer := r\<rparr>))
      | K_Rest bs remain_len \<Rightarrow>
          rbind (mem_read (rb_data r) head (unat remain_len)) (\<lambda>bs2. Inr (K_Rest_Take (bs @ bs2) remain_len, s))
      | K_Rest_Take bs remain_len \<Rightarrow>
          rbind (ring_ConsumeSeriesReadLen r remain_len) (\<lambda>r. Inr (K_Emit bs, s\<lparr>tsw_receiver_buffer := r\<rparr>))
      | K_Emit bs \<Rightarrow> rbind (emit_packet env bs s) (\<lambda>s. Inr (K_Load, s)))"

section \<open>A machine by itself\<close>

definition runs :: "('p \<Rightarrow> tcp_socket \<Rightarrow> ('p \<times> tcp_socket) result) \<Rightarrow> 'p \<times> tcp_socket \<Rightarrow> 'p \<times> tcp_socket \<Rightarrow> bool" where
  "runs next = (\<lambda>x y. next (fst x) (snd x) = Inr y)\<^sup>*\<^sup>*"

lemma runs_refl: "runs next x x"
  by (simp add: runs_def)

lemma runs_step:
  assumes "next p s = Inr x" "runs next x y"
  shows "runs next (p, s) y"
  using assms by (auto simp: runs_def intro: converse_rtranclp_into_rtranclp)

text \<open>A machine that has stopped has stopped in one way.\<close>

lemma runs_same_end:
  assumes "runs next x y" "runs next x z" "\<And>u. next (fst y) (snd y) \<noteq> Inr u" "\<And>u. next (fst z) (snd z) \<noteq> Inr u"
  shows "y = z"
  using assms(1,2) unfolding runs_def
proof (induction rule: converse_rtranclp_induct)
  case base
  then show ?case using assms(3) by (cases rule: converse_rtranclpE) auto
next
  case (step a b)
  from step.prems show ?case
  proof (cases rule: converse_rtranclpE)
    case base
    with step.hyps(1) assms(4) show ?thesis by blast
  next
    case (step c)
    with step.IH \<open>next (fst a) (snd a) = Inr b\<close> show ?thesis by simp
  qed
qed

lemma write_alone:
  assumes "try_write_loop env n s = Some res"
  shows "\<forall>t. res = Inr t \<longrightarrow> ring_AvailableSeriesRead (tsw_sender_buffer s) = Inr n \<longrightarrow>
    runs (net_next env) (N_Load, s) (N_Idle, t)"
proof (induction env n s res rule: try_write_loop.raw_induct)
  case (1 loop env n s res)
  show ?case
  proof (intro allI impI)
    fix t
    assume t: "res = Inr t" and n: "ring_AvailableSeriesRead (tsw_sender_buffer s) = Inr n"
    show "runs (net_next env) (N_Load, s) (N_Idle, t)"
    proof (cases "n > 0")
      case False
      with 1(2) t have "t = s" by simp
      with n False show ?thesis by (intro runs_step [OF _ runs_refl]) (simp add: net_next_def)
    next
      case True
      then have load: "net_next env N_Load s = Inr (N_Have n, s)" using n by (simp add: net_next_def)
      obtain bs where bs: "mem_read (rb_data (tsw_sender_buffer s))
          (unat (ring_CurrentSeriesReadHead (tsw_sender_buffer s))) (unat n) = Inr bs"
        using 1(2) t True by (auto split: sum.splits)
      obtain k en where k: "env_send env (tsw_sends s) bs = (k, en)" by (cases "env_send env (tsw_sends s) bs")
      let ?s = "s\<lparr>tsw_sends := Suc (tsw_sends s)\<rparr>"
      show ?thesis
      proof (cases "k < 0")
        case neg: True
        have "(if en \<noteq> EAGAIN \<and> en \<noteq> EINTR then OnErrorEvent env ?s else on_write_event (tcp_event_add None) ?s) = Inr t"
          using 1(2) t True bs k neg by (auto split: if_splits)
        then have "net_next env (N_Have n) s = Inr (N_Idle, t)" using bs k neg by (simp add: net_next_def Let_def)
        with load show ?thesis by (blast intro: runs_step runs_refl)
      next
        case pos: False
        then obtain r n' where r: "ring_ConsumeSeriesReadLen (tsw_sender_buffer s) (word_of_int k) = Inr r"
          "ring_AvailableSeriesRead r = Inr n'"
          "loop env n' (?s\<lparr>tsw_sender_buffer := r, tsw_wire := tsw_wire s @ take (nat k) bs\<rparr>) = Some res"
          using 1(2) t True bs k by (auto split: sum.splits)
        let ?t = "?s\<lparr>tsw_sender_buffer := r, tsw_wire := tsw_wire s @ take (nat k) bs\<rparr>"
        have "net_next env (N_Have n) s = Inr (N_Sent k, ?s\<lparr>tsw_wire := tsw_wire s @ take (nat k) bs\<rparr>)"
          using bs k pos by (simp add: net_next_def Let_def)
        moreover have "net_next env (N_Sent k) (?s\<lparr>tsw_wire := tsw_wire s @ take (nat k) bs\<rparr>) = Inr (N_Load, ?t)"
          using r(1) by (simp add: net_next_def)
        moreover have "runs (net_next env) (N_Load, ?t) (N_Idle, t)" using 1(1) [OF r(3)] t r(2) by simp
        ultimately show ?thesis using load by (blast intro: runs_step)
      qed
    qed
  qed
qed fact

lemma read_alone:
  assumes "TryReadDataFromSocket env answer s = Inr t"
  shows "runs (net_next env) (N_Reading answer, s) (N_Idle, t)"
proof -
  from assms obtain n where n: "ring_AvailableSeriesWrite (tsw_receiver_buffer s) = Inr n"
    by (auto simp: TryReadDataFromSocket_def rbind_eq_Inr)
  then have load: "net_next env (N_Reading answer) s = Inr (N_Space n answer, s)" by (simp add: net_next_def)
  consider (stop) "net_next env (N_Space n answer) s = Inr (N_Idle, t)"
    | (data) bytes bs d r where "answer = Sys_Data bytes" "bs = take (unat n) bytes" "bs \<noteq> []"
      "mem_write (rb_data (tsw_receiver_buffer s)) (unat (ring_CurrentSeriesWriteHead (tsw_receiver_buffer s))) bs = Inr d"
      "ring_ConsumeSeriesWriteLen ((tsw_receiver_buffer s)\<lparr>rb_data := d\<rparr>) (of_nat (length bs)) = Inr r"
      "t = post Work_Process_Buffered (s\<lparr>tsw_receiver_buffer := r\<rparr>)"
    using assms n
    by (cases answer) (auto simp: TryReadDataFromSocket_def rbind_eq_Inr net_next_def Let_def split: if_splits)
  then show ?thesis
  proof cases
    case stop
    with load show ?thesis by (blast intro: runs_step runs_refl)
  next
    case data
    let ?s = "s\<lparr>tsw_receiver_buffer := (tsw_receiver_buffer s)\<lparr>rb_data := d\<rparr>\<rparr>"
    have "net_next env (N_Space n answer) s = Inr (N_Got bs, ?s)" using data by (simp add: net_next_def Let_def)
    moreover have "net_next env (N_Got bs) ?s = Inr (N_Queue, s\<lparr>tsw_receiver_buffer := r\<rparr>)"
      using data(5) by (simp add: net_next_def)
    moreover have "net_next env N_Queue (s\<lparr>tsw_receiver_buffer := r\<rparr>) = Inr (N_Idle, t)"
      using data(6) by (simp add: net_next_def)
    ultimately show ?thesis using load by (blast intro: runs_step runs_refl)
  qed
qed

lemma user_alone:
  assumes "ring_WriteContent (tsw_sender_buffer s) bs (of_nat (length bs)) = Inr (ok, r)"
  shows "runs user_next (U_Write bs, s) (U_Idle, post Net_Try_Write (s\<lparr>tsw_sender_buffer := r\<rparr>))"
proof -
  let ?r = "tsw_sender_buffer s"
  obtain a where a: "ring_AvailableWrite ?r = Inr a" "a = rb_capacity ?r - (rb_write_count ?r - rb_read_count ?r)"
    using assms by (auto simp: ring_WriteContent_def ring_AvailableWrite_def Let_def assert_that_eq_Inr)
  have last: "user_next U_Post t = Inr (U_Idle, post Net_Try_Write t)" for t by (simp add: user_next_def)
  show ?thesis
  proof (cases "a < of_nat (length bs)")
    case True
    then have "user_next (U_Write bs) s = Inr (U_Post, s)" "r = ?r"
      using assms a by (simp_all add: user_next_def ring_WriteContent_def Let_def assert_that_eq_Inr)
    with last [of s] show ?thesis by (auto intro: runs_step runs_refl)
  next
    case False
    then obtain d where d: "ring_copy_in ?r (ring_CurrentSeriesWriteHead ?r) bs (of_nat (length bs)) = Inr d"
      "r = ?r\<lparr>rb_data := d, rb_write_count := rb_write_count ?r + of_nat (length bs)\<rparr>"
      using assms a
      by (auto simp: ring_WriteContent_def ring_CurrentSeriesWriteHead_def Let_def assert_that_eq_Inr rbind_eq_Inr)
    let ?s = "s\<lparr>tsw_sender_buffer := ?r\<lparr>rb_data := d\<rparr>\<rparr>"
    have "user_next (U_Write bs) s = Inr (U_Copy bs, s)" using False a(1) by (simp add: user_next_def)
    moreover have "user_next (U_Copy bs) s = Inr (U_Publish bs, ?s)" using d(1) by (simp add: user_next_def)
    moreover have "user_next (U_Publish bs) ?s = Inr (U_Post, s\<lparr>tsw_sender_buffer := r\<rparr>)"
      using d(2) by (simp add: user_next_def)
    ultimately show ?thesis using last by (blast intro: runs_step runs_refl)
  qed
qed

lemma round_alone:
  assumes "process_round env s = Inr (again, t)"
  shows "runs (work_next env) (K_Load, s) (if again then K_Load else K_Idle, t)"
proof -
  let ?r = "tsw_receiver_buffer s" and ?head = "unat (ring_CurrentSeriesReadHead (tsw_receiver_buffer s))"
  note defs = process_round_def work_next_def illegal_length_def
  from assms obtain a n where an: "ring_AvailableRead ?r = Inr a" "ring_AvailableSeriesRead ?r = Inr n"
    by (auto simp: process_round_def Let_def rbind_eq_Inr)
  have loads: "work_next env K_Load s = Inr (K_Series a, s)"
    "work_next env (K_Series a) s = Inr (if a < 2 then K_Idle else K_Head a n, s)"
    using an by (simp_all add: work_next_def)
  show ?thesis
  proof (cases "a < 2")
    case True
    then have "t = s" "\<not> again" using assms an by (simp_all add: process_round_def)
    with loads True show ?thesis by (auto intro: runs_step runs_refl)
  next
    case two: False
    with loads(2) have load2: "work_next env (K_Series a) s = Inr (K_Head a n, s)" by simp
    obtain len where len: "read_header (env_le env) n ?r = Inr len"
      using assms an two by (auto simp: process_round_def rbind_eq_Inr Let_def)
    let ?m = "(ucast len :: u32) + 2"
    consider (illegal) "(ucast len :: u32) > 65535 \<or> len \<le> 0"
      | (short) "\<not> ((ucast len :: u32) > 65535 \<or> len \<le> 0)" "a < ?m"
      | (near) "\<not> ((ucast len :: u32) > 65535 \<or> len \<le> 0)" "\<not> a < ?m" "n \<ge> ?m"
      | (far) "\<not> ((ucast len :: u32) > 65535 \<or> len \<le> 0)" "\<not> a < ?m" "\<not> n \<ge> ?m" by blast
    then show ?thesis
    proof cases
      case illegal
      then have "illegal_length env s = Inr t \<and> \<not> again"
        using assms an two len by (auto simp: process_round_def illegal_length_def rbind_eq_Inr Let_def split: if_splits)
      then have "work_next env (K_Head a n) s = Inr (K_Idle, t)" "\<not> again"
        using illegal len by (simp_all add: work_next_def Let_def)
      with loads(1) load2 show ?thesis by (auto intro: runs_step runs_refl)
    next
      case short
      then have "t = s" "\<not> again" "work_next env (K_Head a n) s = Inr (K_Idle, s)"
        using assms an two len by (simp_all add: process_round_def work_next_def Let_def)
      with loads(1) load2 show ?thesis by (auto intro: runs_step runs_refl)
    next
      case near
      then obtain bs u r where u: "mem_read (rb_data ?r) ?head (unat ?m) = Inr bs" "emit_packet env bs s = Inr u"
        "ring_ConsumeSeriesReadLen (tsw_receiver_buffer u) ?m = Inr r" "t = u\<lparr>tsw_receiver_buffer := r\<rparr>" "again"
        using assms an two len by (auto simp: process_round_def rbind_eq_Inr Let_def)
      have "work_next env (K_Head a n) s = Inr (K_Near ?m, s)" using near len by (simp add: work_next_def Let_def)
      moreover have "work_next env (K_Near ?m) s = Inr (K_Take ?m, u)" using u by (simp add: work_next_def Let_def)
      moreover have "work_next env (K_Take ?m) u = Inr (K_Load, t)" using u by (simp add: work_next_def Let_def)
      ultimately have "runs (work_next env) (K_Load, s) (K_Load, t)"
        using loads(1) load2 by (blast intro: runs_step runs_refl)
      with u(5) show ?thesis by simp
    next
      case far
      let ?k = "?m - n"
      from far obtain bs1 r1 bs2 r2 where u: "mem_read (rb_data ?r) ?head (unat n) = Inr bs1"
        "ring_ConsumeSeriesReadLen ?r n = Inr r1"
        "mem_read (rb_data r1) (unat (ring_CurrentSeriesReadHead r1)) (unat ?k) = Inr bs2"
        "ring_ConsumeSeriesReadLen r1 ?k = Inr r2"
        "emit_packet env (bs1 @ bs2) (s\<lparr>tsw_receiver_buffer := r2\<rparr>) = Inr t" "again"
        using assms an two len by (auto simp: process_round_def rbind_eq_Inr Let_def)
      have "work_next env (K_Head a n) s = Inr (K_Far n ?m, s)" using far len by (simp add: work_next_def Let_def)
      moreover have "work_next env (K_Far n ?m) s = Inr (K_Wrap bs1 n ?k, s)" using u by (simp add: work_next_def Let_def)
      moreover have "work_next env (K_Wrap bs1 n ?k) s = Inr (K_Rest bs1 ?k, s\<lparr>tsw_receiver_buffer := r1\<rparr>)"
        using u by (simp add: work_next_def Let_def)
      moreover have "work_next env (K_Rest bs1 ?k) (s\<lparr>tsw_receiver_buffer := r1\<rparr>) =
          Inr (K_Rest_Take (bs1 @ bs2) ?k, s\<lparr>tsw_receiver_buffer := r1\<rparr>)" using u by (simp add: work_next_def Let_def)
      moreover have "work_next env (K_Rest_Take (bs1 @ bs2) ?k) (s\<lparr>tsw_receiver_buffer := r1\<rparr>) =
          Inr (K_Emit (bs1 @ bs2), s\<lparr>tsw_receiver_buffer := r2\<rparr>)" using u by (simp add: work_next_def Let_def)
      moreover have "work_next env (K_Emit (bs1 @ bs2)) (s\<lparr>tsw_receiver_buffer := r2\<rparr>) = Inr (K_Load, t)"
        using u by (simp add: work_next_def Let_def)
      ultimately have "runs (work_next env) (K_Load, s) (K_Load, t)"
        using loads(1) load2 by (blast intro: runs_step runs_refl)
      with u(6) show ?thesis by simp
    qed
  qed
qed

lemma runs_trans: "runs next x y \<Longrightarrow> runs next y z \<Longrightarrow> runs next x z"
  by (auto simp: runs_def)

lemma process_alone:
  assumes "TryProcessBufferedDataInWorkLoop env s = Inr t"
  shows "runs (work_next env) (K_Load, s) (K_Idle, t)"
  using assms
proof (induction env s rule: TryProcessBufferedDataInWorkLoop.induct)
  case (1 env s)
  obtain again u where u: "process_round env s = Inr (again, u)"
    using "1.prems" by (subst (asm) TryProcessBufferedDataInWorkLoop.simps) (auto split: sum.splits)
  note round = round_alone [OF u]
  show ?case
  proof (cases again)
    case True
    then have "TryProcessBufferedDataInWorkLoop env u = Inr t"
      using "1.prems" u by (subst (asm) TryProcessBufferedDataInWorkLoop.simps) simp
    with "1.IH" [OF u refl True] round True show ?thesis by (auto intro: runs_trans)
  next
    case False
    with "1.prems" u have "t = u" by (subst (asm) TryProcessBufferedDataInWorkLoop.simps) simp
    with round False show ?thesis by simp
  qed
qed

end
