(* ===== verification/Tcp_Thread_Rings.thy ===== *)
theory Tcp_Thread_Rings
  imports Tcp_Threads
begin

text \<open>
  What the three threads know of the two rings between two of their steps, and that each step of one
  leaves true what the others know.
\<close>

section \<open>The sending ring: the user's thread writes, the network loop reads\<close>

fun user_writer :: "user_pc \<Rightarrow> writer_pc" where
  "user_writer (U_Copy bs) = W_Copy bs"
| "user_writer (U_Publish bs) = W_Publish bs"
| "user_writer _ = W_Idle"

fun net_reader :: "net_pc \<Rightarrow> reader_pc" where
  "net_reader (N_Have n) = R_Have (unat n)"
| "net_reader (N_Sent k) = R_Have (nat k)"
| "net_reader _ = R_Idle"

text \<open>Of the bytes in the ring, those the kernel has already taken.\<close>

fun sent_of :: "net_pc \<Rightarrow> nat" where
  "sent_of (N_Sent k) = nat k"
| "sent_of _ = 0"

definition send_ok :: "ring_buffer \<Rightarrow> user_pc \<Rightarrow> net_pc \<Rightarrow> bool" where
  "send_ok r u n \<longleftrightarrow> ring_inv r \<and> writer_ok r (user_writer u) \<and> reader_ok r (net_reader n) \<and>
     (\<forall>bs. u = U_Write bs \<longrightarrow> length bs < 2 ^ 32) \<and> (\<forall>m. n = N_Have m \<longrightarrow> 0 < m) \<and>
     (\<forall>k. n = N_Sent k \<longrightarrow> 1 \<le> k)"

text \<open>A writer leaves the read side of a ring alone.\<close>

definition read_side :: "ring_buffer \<Rightarrow> u32 \<times> u32 \<times> u32" where
  "read_side r = (rb_capacity r, rb_max_index r, rb_read_count r)"

lemma reader_ok_writer:
  "reader_ok r p \<Longrightarrow> ring_contents r' = ring_contents r @ d \<Longrightarrow> read_side r' = read_side r \<Longrightarrow> reader_ok r' p"
  by (rule reader_ok_extend) (simp_all add: read_side_def)

lemma series_read_le: "ring_series_read r \<le> length (ring_contents r)"
  by (simp add: ring_series_read_def)

lemma series_read_empty:
  assumes "ring_inv r"
  shows "ring_contents r = [] \<longleftrightarrow> ring_series_read r = 0"
  using ring_index_less [OF assms, of "rb_read_count r"]
  by (auto simp: ring_series_read_def min_def simp flip: length_0_conv)

lemma user_load_ok:
  assumes "send_ok r (U_Write bs) n"
  shows "\<exists>a. ring_AvailableWrite r = Inr a \<and> send_ok r (if a < of_nat (length bs) then U_Post else U_Copy bs) n"
proof -
  have inv: "ring_inv r" and l: "length bs < 2 ^ 32" using assms by (simp_all add: send_ok_def)
  obtain a where a: "ring_AvailableWrite r = Inr a" "unat a = ring_free r"
    using ring_AvailableWrite_ok [OF inv] by blast
  have "unat (of_nat (length bs) :: u32) = length bs" using l by (simp add: unat_of_nat)
  with a assms show ?thesis
    by (auto simp: send_ok_def writer_ok_def word_less_nat_alt)
qed

lemma user_copy_ok:
  assumes "send_ok r (U_Copy bs) n"
  shows "\<exists>d. ring_copy_in r (ring_CurrentSeriesWriteHead r) bs (of_nat (length bs)) = Inr d \<and>
    send_ok (r\<lparr>rb_data := d\<rparr>) (U_Publish bs) n \<and> ring_contents (r\<lparr>rb_data := d\<rparr>) = ring_contents r"
proof -
  have inv: "ring_inv r" and l: "length bs \<le> ring_free r"
    using assms by (simp_all add: send_ok_def writer_ok_def)
  have "unat (of_nat (length bs) :: u32) = length bs"
    using l by (intro ring_length_lt32 [OF inv]) (simp add: ring_free_def)
  then obtain d where d: "ring_copy_in r (ring_CurrentSeriesWriteHead r) bs (of_nat (length bs)) = Inr d"
    using ring_copy_in_ok [OF inv ring_index_less [OF inv], of "of_nat (length bs)" bs] l
    by (auto simp: ring_CurrentSeriesWriteHead_def ring_free_def)
  note c = copy_in_step [OF inv l d]
  have n: "reader_ok r (net_reader n)" "\<forall>m. n = N_Have m \<longrightarrow> 0 < m" "\<forall>k. n = N_Sent k \<longrightarrow> 1 \<le> k"
    using assms by (simp_all add: send_ok_def)
  have "reader_ok (r\<lparr>rb_data := d\<rparr>) (net_reader n)"
    by (rule reader_ok_writer [OF n(1), of _ "[]"]) (simp only: c(2) append_Nil2, simp add: read_side_def)
  moreover have "ring_free (r\<lparr>rb_data := d\<rparr>) = ring_free r" unfolding ring_free_def c(2) by simp
  ultimately have "send_ok (r\<lparr>rb_data := d\<rparr>) (U_Publish bs) n"
    using c(1,3) l n by (simp add: send_ok_def writer_ok_def)
  with d c(2) show ?thesis by blast
qed

lemma user_publish_ok:
  assumes "send_ok r (U_Publish bs) n"
  defines "r' \<equiv> r\<lparr>rb_write_count := rb_write_count r + of_nat (length bs)\<rparr>"
  shows "send_ok r' U_Post n" "ring_contents r' = ring_contents r @ bs"
proof -
  have inv: "ring_inv r" and l: "length bs \<le> ring_free r"
    and own: "circ (rb_data r) (unat (rb_write_count r)) (length bs) = bs"
    using assms by (simp_all add: send_ok_def writer_ok_def)
  note p = publish_step [OF inv l own, folded r'_def]
  show "ring_contents r' = ring_contents r @ bs" by (rule p)
  have n: "reader_ok r (net_reader n)" "\<forall>m. n = N_Have m \<longrightarrow> 0 < m" "\<forall>k. n = N_Sent k \<longrightarrow> 1 \<le> k"
    using assms(1) by (simp_all add: send_ok_def)
  have "read_side r' = read_side r" by (simp add: read_side_def r'_def)
  from reader_ok_writer [OF n(1) p(2) this] p(1) n(2,3) show "send_ok r' U_Post n"
    by (simp add: send_ok_def writer_ok_def)
qed

text \<open>A callback that sends: nobody is between two steps of a send.\<close>

lemma send_ok_callback:
  assumes "send_ok r u n" "ring_inv r'" "ring_contents r' = ring_contents r @ d" "read_side r' = read_side r"
    "r' = r \<or> u = U_Idle"
  shows "send_ok r' u n"
  using assms reader_ok_writer [OF _ assms(3,4)] by (auto simp: send_ok_def writer_ok_def)

lemma net_load_ok:
  assumes "send_ok r u n" "net_reader n = R_Idle"
  shows "\<exists>m. ring_AvailableSeriesRead r = Inr m \<and> send_ok r u (if m > 0 then N_Have m else N_Idle) \<and>
    (m = 0 \<longrightarrow> ring_contents r = [])"
proof -
  have inv: "ring_inv r" using assms(1) by (simp add: send_ok_def)
  obtain m where m: "ring_AvailableSeriesRead r = Inr m" "unat m = ring_series_read r"
    using ring_AvailableSeriesRead_ok [OF inv] by blast
  have "m = 0 \<longrightarrow> ring_contents r = []" using series_read_empty [OF inv] m(2) by (metis unat_0)
  with m assms(1) show ?thesis by (auto simp: send_ok_def reader_ok_def)
qed

lemma net_have_ok:
  assumes "send_ok r u (N_Have m)"
  shows "mem_read (rb_data r) (unat (ring_CurrentSeriesReadHead r)) (unat m) = Inr (take (unat m) (ring_contents r))"
    "1 \<le> unat m" "unat m \<le> length (ring_contents r)"
proof -
  have inv: "ring_inv r" and m: "unat m \<le> ring_series_read r" and "0 < m"
    using assms by (simp_all add: send_ok_def reader_ok_def)
  show "mem_read (rb_data r) (unat (ring_CurrentSeriesReadHead r)) (unat m) = Inr (take (unat m) (ring_contents r))"
    using ring_series_read_prefix [OF inv m] .
  show "1 \<le> unat m" using \<open>0 < m\<close> by (simp add: word_less_nat_alt)
  show "unat m \<le> length (ring_contents r)" using m series_read_le by (rule le_trans)
qed

lemma net_sent_ok:
  assumes "send_ok r u (N_Sent k)"
  shows "\<exists>r'. ring_ConsumeSeriesReadLen r (word_of_int k) = Inr r' \<and> send_ok r' u N_Load \<and>
    ring_contents r' = drop (nat k) (ring_contents r)"
proof -
  have inv: "ring_inv r" and k: "nat k \<le> ring_series_read r" "1 \<le> k"
    using assms by (simp_all add: send_ok_def reader_ok_def)
  have w: "word_of_int k = (of_nat (nat k) :: u32)" using k(2) by (simp add: of_nat_nat)
  have len: "nat k \<le> length (ring_contents r)" using k(1) series_read_le by (rule le_trans)
  have u: "unat (of_nat (nat k) :: u32) = nat k"
    using len ring_length_le [OF inv] by (intro ring_length_lt32 [OF inv]) simp
  let ?r = "r\<lparr>rb_read_count := rb_read_count r + of_nat (nat k)\<rparr>"
  have c: "ring_ConsumeSeriesReadLen r (of_nat (nat k)) = Inr ?r"
    using ring_Consume_read_ok [OF inv, of "of_nat (nat k)"] u k(1) by simp
  have r: "ring_inv ?r" "ring_contents ?r = drop (nat k) (ring_contents r)"
    using ring_read_advance [OF inv, of "of_nat (nat k)"] len u by simp_all
  have "writer_ok ?r (user_writer u)"
  proof (rule writer_ok_consume)
    show "writer_ok r (user_writer u)" using assms by (simp add: send_ok_def)
    show "ring_free r \<le> ring_free ?r" using r(2) by (simp add: ring_free_def del: length_ring_contents)
  qed simp_all
  with r c assms show ?thesis unfolding w by (auto simp: send_ok_def reader_ok_def)
qed

section \<open>The receiving ring: the network loop writes, the worker loop reads\<close>

fun net_writer :: "net_pc \<Rightarrow> writer_pc" where
  "net_writer (N_Got bs) = W_Publish bs"
| "net_writer _ = W_Idle"

text \<open>The bytes read and not yet published.\<close>

fun got_of :: "net_pc \<Rightarrow> byte list" where
  "got_of (N_Got bs) = bs"
| "got_of _ = []"

definition net_room :: "ring_buffer \<Rightarrow> net_pc \<Rightarrow> bool" where
  "net_room r n \<longleftrightarrow> writer_ok r (net_writer n) \<and> length (got_of n) \<le> ring_series_write r \<and>
     (\<forall>m answer. n = N_Space m answer \<longrightarrow> unat m \<le> ring_series_write r)"

definition series_room :: "ring_buffer \<Rightarrow> nat" where
  "series_room r = unat (rb_capacity r) - unat (rb_read_count r AND rb_max_index r)"

lemma series_read_room: "ring_series_read r = min (length (ring_contents r)) (series_room r)"
  by (simp add: ring_series_read_def series_room_def)

lemma series_room_side: "read_side r' = read_side r \<Longrightarrow> series_room r' = series_room r"
  by (simp add: read_side_def series_room_def)

definition is_frame :: "bool \<Rightarrow> byte list \<Rightarrow> bool" where
  "is_frame le p \<longleftrightarrow> header_of le p \<noteq> 0 \<and> length p = header_of le p + 2"

lemma is_frame_parse:
  assumes "is_frame le p"
  shows "parse_frames le (p @ ys) = prepend [p] (parse_frames le ys)"
  using assms parse_frames_step [of "header_of le p" le "p @ ys"] by (simp add: is_frame_def)

text \<open>
  The two counters the worker has loaded may be old by the time it uses them: there can only be more
  to read since.
\<close>

fun work_ok :: "bool \<Rightarrow> ring_buffer \<Rightarrow> work_pc \<Rightarrow> bool" where
  "work_ok le r (K_Series a) = (unat a \<le> length (ring_contents r))"
| "work_ok le r (K_Head a n) = (2 \<le> unat a \<and> unat a \<le> length (ring_contents r) \<and>
     (\<exists>av. unat a \<le> av \<and> av \<le> length (ring_contents r) \<and> unat n = min av (series_room r)))"
| "work_ok le r (K_Near m) = (unat m \<le> ring_series_read r \<and> is_frame le (take (unat m) (ring_contents r)))"
| "work_ok le r (K_Take m) = (unat m \<le> ring_series_read r)"
| "work_ok le r (K_Far n m) = (unat n = series_room r \<and> unat n < unat m \<and> unat m \<le> length (ring_contents r) \<and>
     is_frame le (take (unat m) (ring_contents r)))"
| "work_ok le r (K_Wrap bs n k) = (unat n = series_room r \<and> unat n + unat k \<le> length (ring_contents r) \<and>
     bs = take (unat n) (ring_contents r) \<and> is_frame le (take (unat n + unat k) (ring_contents r)))"
| "work_ok le r (K_Rest bs k) = (unat k \<le> ring_series_read r \<and> is_frame le (bs @ take (unat k) (ring_contents r)))"
| "work_ok le r (K_Rest_Take p k) = (unat k \<le> ring_series_read r \<and> is_frame le p)"
| "work_ok le r (K_Emit p) = is_frame le p"
| "work_ok le r _ = True"

text \<open>Of the bytes taken from the network and published, those whose packet has not been handed over.\<close>

fun in_hand :: "work_pc \<Rightarrow> byte list \<Rightarrow> byte list" where
  "in_hand (K_Take m) c = drop (unat m) c"
| "in_hand (K_Rest bs k) c = bs @ c"
| "in_hand (K_Rest_Take p k) c = p @ drop (unat k) c"
| "in_hand (K_Emit p) c = p @ c"
| "in_hand _ c = c"

definition receive_ok :: "bool \<Rightarrow> ring_buffer \<Rightarrow> net_pc \<Rightarrow> work_pc \<Rightarrow> bool" where
  "receive_ok le r n w \<longleftrightarrow> ring_inv r \<and> net_room r n \<and> work_ok le r w"

lemma work_ok_writer:
  assumes "work_ok le r w" "ring_contents r' = ring_contents r @ d" "read_side r' = read_side r"
  shows "work_ok le r' w"
proof -
  have room: "series_room r' = series_room r" using series_room_side [OF assms(3)] .
  have le: "ring_series_read r \<le> ring_series_read r'" "length (ring_contents r) \<le> length (ring_contents r')"
    by (simp_all add: series_read_room room assms(2) del: length_ring_contents)
  have tk: "take m (ring_contents r') = take m (ring_contents r)" if "m \<le> length (ring_contents r)" for m
    using that assms(2) by simp
  show ?thesis
    using assms(1)
  proof (cases w)
    case (K_Head a n)
    then obtain av where "2 \<le> unat a" "unat a \<le> av" "av \<le> length (ring_contents r)" "unat n = min av (series_room r)"
      using assms(1) by auto
    with K_Head le(2) room show ?thesis by (auto simp del: length_ring_contents intro!: exI [of _ av])
  next
    case (K_Near m)
    then have "unat m \<le> length (ring_contents r)" using assms(1) series_read_le [of r] by (simp del: length_ring_contents)
    with K_Near assms(1) le tk show ?thesis by (simp del: length_ring_contents)
  next
    case (K_Rest bs k)
    then have "unat k \<le> length (ring_contents r)" using assms(1) series_read_le [of r] by (simp del: length_ring_contents)
    with K_Rest assms(1) le tk show ?thesis by (simp del: length_ring_contents)
  next
    case (K_Wrap bs n k)
    with assms(1) have "take (unat n + unat k) (ring_contents r') = take (unat n + unat k) (ring_contents r)"
      "take (unat n) (ring_contents r') = take (unat n) (ring_contents r)"
      using tk [of "unat n + unat k"] tk [of "unat n"] by (simp_all del: length_ring_contents)
    with K_Wrap assms(1) le room show ?thesis by (auto simp del: length_ring_contents)
  qed (use le room tk in \<open>simp_all del: length_ring_contents\<close>)
qed

lemma in_hand_append:
  assumes "work_ok le r w"
  shows "in_hand w (ring_contents r @ d) = in_hand w (ring_contents r) @ d"
  using assms series_read_le [of r] by (cases w) (simp_all del: length_ring_contents)

lemma net_room_reader:
  assumes "net_room r n" "ring_free r \<le> ring_free r'" "rb_data r' = rb_data r"
    "rb_write_count r' = rb_write_count r" "rb_capacity r' = rb_capacity r" "rb_max_index r' = rb_max_index r"
  shows "net_room r' n"
proof -
  have "ring_series_write r \<le> ring_series_write r'" using assms(2,4-6) by (simp add: ring_series_write_def)
  with assms(1) writer_ok_consume [of r "net_writer n" r', OF _ assms(2-4)] show ?thesis
    by (fastforce simp: net_room_def)
qed

section \<open>Each step on the receiving ring\<close>

lemma series_write_le: "ring_series_write r \<le> ring_free r"
  by (simp add: ring_series_write_def)

lemma net_reading_ok:
  assumes "receive_ok le r n w" "net_writer n = W_Idle" "got_of n = []"
  shows "\<exists>m. ring_AvailableSeriesWrite r = Inr m \<and> receive_ok le r (N_Space m answer) w"
proof -
  have "ring_inv r" using assms(1) by (simp add: receive_ok_def)
  from ring_AvailableSeriesWrite_ok [OF this] assms(1) show ?thesis
    by (auto simp: receive_ok_def net_room_def writer_ok_def)
qed

lemma net_got_ok:
  assumes "receive_ok le r (N_Space m answer) w" "length bs \<le> unat m"
  shows "\<exists>d. mem_write (rb_data r) (unat (ring_CurrentSeriesWriteHead r)) bs = Inr d \<and>
    receive_ok le (r\<lparr>rb_data := d\<rparr>) (N_Got bs) w \<and> ring_contents (r\<lparr>rb_data := d\<rparr>) = ring_contents r"
proof -
  let ?i = "rb_write_count r AND rb_max_index r"
  let ?d = "overlay (rb_data r) (unat ?i) bs"
  have inv: "ring_inv r" and work: "work_ok le r w" and l: "length bs \<le> ring_series_write r"
    using assms by (auto simp: receive_ok_def net_room_def)
  have free: "length bs \<le> ring_free r" using l series_write_le by (rule le_trans)
  have n: "unat (of_nat (length bs) :: u32) = length bs"
    using free by (intro ring_length_lt32 [OF inv]) (simp add: ring_free_def)
  have less: "unat ?i < unat (rb_capacity r)" using inv by (rule ring_index_less)
  have fit: "unat ?i + length bs \<le> unat (rb_capacity r)" using l less by (auto simp: ring_series_write_def)
  have "circ_write (rb_data r) (unat ?i) bs = ?d"
    using fit ring_data_length [OF inv] by (simp add: circ_write_def)
  then have "ring_copy_in r (ring_CurrentSeriesWriteHead r) bs (of_nat (length bs)) = Inr ?d"
    using ring_copy_in_ok [OF inv less, of "of_nat (length bs)" bs] n free
    by (simp add: ring_CurrentSeriesWriteHead_def ring_free_def)
  note c = copy_in_step [OF inv free this]
  have same: "ring_free (r\<lparr>rb_data := ?d\<rparr>) = ring_free r" unfolding ring_free_def c(2) by simp
  then have "ring_series_write (r\<lparr>rb_data := ?d\<rparr>) = ring_series_write r" by (simp add: ring_series_write_def)
  then have "net_room (r\<lparr>rb_data := ?d\<rparr>) (N_Got bs)"
    using c(3) free l same by (simp add: net_room_def writer_ok_def)
  moreover have "work_ok le (r\<lparr>rb_data := ?d\<rparr>) w"
    by (rule work_ok_writer [OF work, of _ "[]"]) (simp only: c(2) append_Nil2, simp add: read_side_def)
  moreover have "mem_write (rb_data r) (unat (ring_CurrentSeriesWriteHead r)) bs = Inr ?d"
    using fit ring_data_length [OF inv] by (simp add: ring_CurrentSeriesWriteHead_def)
  ultimately show ?thesis using c(1,2) by (auto simp: receive_ok_def simp del: length_ring_contents)
qed

lemma net_publish_ok:
  assumes "receive_ok le r (N_Got bs) w"
  shows "\<exists>r'. ring_ConsumeSeriesWriteLen r (of_nat (length bs)) = Inr r' \<and> receive_ok le r' N_Queue w \<and>
    ring_contents r' = ring_contents r @ bs"
proof -
  let ?i = "rb_write_count r AND rb_max_index r"
  let ?r = "r\<lparr>rb_write_count := rb_write_count r + of_nat (length bs)\<rparr>"
  have inv: "ring_inv r" and work: "work_ok le r w" and l: "length bs \<le> ring_series_write r" "length bs \<le> ring_free r"
    and own: "circ (rb_data r) (unat (rb_write_count r)) (length bs) = bs"
    using assms by (auto simp: receive_ok_def net_room_def writer_ok_def)
  have n: "unat (of_nat (length bs) :: u32) = length bs"
    using l(2) by (intro ring_length_lt32 [OF inv]) (simp add: ring_free_def)
  have less: "unat ?i < unat (rb_capacity r)" using inv by (rule ring_index_less)
  have fit: "unat ?i + length bs \<le> unat (rb_capacity r)" using l less by (auto simp: ring_series_write_def)
  have "unat (?i + of_nat (length bs)) = unat ?i + length bs"
    using fit n inv ring_index_plus [of r "of_nat (length bs)" "rb_write_count r"] by simp
  then have "ring_ConsumeSeriesWriteLen r (of_nat (length bs)) = Inr ?r"
    using fit by (simp add: ring_ConsumeSeriesWriteLen_def Let_def word_le_nat_alt)
  moreover note p = publish_step [OF inv l(2) own]
  moreover have "work_ok le ?r w"
    by (rule work_ok_writer [OF work p(2)]) (simp add: read_side_def)
  ultimately show ?thesis by (simp add: receive_ok_def net_room_def writer_ok_def)
qed

lemma work_load_ok:
  assumes "receive_ok le r n w" "length (ring_contents r) < unat (rb_capacity r)"
  shows "\<exists>a. ring_AvailableRead r = Inr a \<and> receive_ok le r n (K_Series a) \<and> unat a = length (ring_contents r)"
  using assms ring_AvailableRead_ok [of r] by (auto simp: receive_ok_def)

lemma work_series_ok:
  assumes "receive_ok le r n (K_Series a)"
  shows "\<exists>m. ring_AvailableSeriesRead r = Inr m \<and> receive_ok le r n (if a < 2 then K_Idle else K_Head a m)"
proof -
  have inv: "ring_inv r" and a: "unat a \<le> length (ring_contents r)" using assms by (simp_all add: receive_ok_def)
  obtain m where m: "ring_AvailableSeriesRead r = Inr m" "unat m = ring_series_read r"
    using ring_AvailableSeriesRead_ok [OF inv] by blast
  have "\<exists>av. unat a \<le> av \<and> av \<le> length (ring_contents r) \<and> unat m = min av (series_room r)"
    using a m(2) by (intro exI [of _ "length (ring_contents r)"]) (simp add: series_read_room)
  with m(1) a assms show ?thesis by (auto simp: receive_ok_def word_less_nat_alt simp del: length_ring_contents)
qed

text \<open>The header and the tests: what the counters loaded earlier allow is still there.\<close>

lemma work_head_ok:
  assumes "receive_ok le r n (K_Head a m)"
  shows "read_header le m r = Inr (host_word le (take 2 (ring_contents r)))"
proof -
  have inv: "ring_inv r" and a: "2 \<le> unat a" "unat a \<le> length (ring_contents r)"
    using assms by (simp_all add: receive_ok_def)
  obtain av where av: "unat a \<le> av" "av \<le> length (ring_contents r)" "unat m = min av (series_room r)"
    using assms by (auto simp: receive_ok_def)
  show ?thesis
  proof (cases "2 \<le> unat m")
    case True
    then have "2 \<le> ring_series_read r" using av by (simp add: series_read_room del: length_ring_contents)
    with True show ?thesis
      using ring_series_read_prefix [OF inv, of 2] by (simp add: read_header_def word_le_nat_alt)
  next
    case False
    with av a have "unat m = ring_series_read r" by (simp add: series_read_room del: length_ring_contents)
    moreover have "2 \<le> length (ring_contents r)" using a by (rule le_trans)
    ultimately show ?thesis using read_header_ok [OF inv] by blast
  qed
qed

lemma work_length_ok:
  assumes "receive_ok le r n (K_Head a s)" "header_of le (ring_contents r) \<noteq> 0"
  defines "m \<equiv> (ucast (host_word le (take 2 (ring_contents r)) :: u16) :: u32) + 2"
  shows "unat m = header_of le (ring_contents r) + 2"
    and "\<not> a < m \<Longrightarrow> receive_ok le r n (if s \<ge> m then K_Near m else K_Far s m)"
proof -
  let ?h = "host_word le (take 2 (ring_contents r)) :: u16" and ?c = "ring_contents r"
  have "unat (ucast ?h :: u32) = unat ?h" by (rule unat_ucast_u16)
  moreover have "unat ?h < 65536" using unsigned_less [of ?h] by simp
  ultimately show m: "unat m = unat ?h + 2" unfolding m_def by (subst unat_plus_fits) auto
  assume "\<not> a < m"
  then have a: "unat m \<le> unat a" by (simp add: word_less_nat_alt)
  obtain av where av: "unat a \<le> av" "av \<le> length ?c" "unat s = min av (series_room r)"
    using assms(1) by (auto simp: receive_ok_def)
  have "2 \<le> unat m" "unat m \<le> length ?c" using m a av by simp_all
  then have "take 2 (take (unat m) ?c) = take 2 ?c" "length (take (unat m) ?c) = unat ?h + 2"
    using m by (simp_all add: min_def del: length_ring_contents)
  then have "is_frame le (take (unat m) ?c)" using assms(2) by (simp only: is_frame_def simp_thms)
  moreover have "unat m \<le> ring_series_read r" if "s \<ge> m"
    using that av a by (simp add: series_read_room word_le_nat_alt del: length_ring_contents)
  moreover have "unat s = series_room r \<and> unat s < unat m" if "\<not> s \<ge> m"
    using that av a by (simp add: word_le_nat_alt not_le min_def split: if_splits)
  ultimately show "receive_ok le r n (if s \<ge> m then K_Near m else K_Far s m)"
    using assms(1) a av by (auto simp: receive_ok_def simp del: length_ring_contents)
qed

text \<open>Consuming what lies in series.\<close>

lemma work_consume_ok:
  assumes "ring_inv r" "net_room r n" "unat m \<le> ring_series_read r"
  defines "r' \<equiv> r\<lparr>rb_read_count := rb_read_count r + m\<rparr>"
  shows "ring_ConsumeSeriesReadLen r m = Inr r'" "ring_inv r'" "net_room r' n"
    "ring_contents r' = drop (unat m) (ring_contents r)"
proof -
  show "ring_ConsumeSeriesReadLen r m = Inr r'" unfolding r'_def using assms(1,3) by (rule ring_Consume_read_ok)
  have "unat m \<le> length (ring_contents r)" using assms(3) series_read_le by (rule le_trans)
  from ring_read_advance [OF assms(1) this] show c: "ring_inv r'" "ring_contents r' = drop (unat m) (ring_contents r)"
    by (simp_all add: r'_def)
  show "net_room r' n"
    by (rule net_room_reader [OF assms(2)]) (use c(2) in \<open>simp_all add: r'_def ring_free_def del: length_ring_contents\<close>)
qed

lemma work_take_ok:
  assumes "receive_ok le r n (K_Take m)"
  shows "\<exists>r'. ring_ConsumeSeriesReadLen r m = Inr r' \<and> receive_ok le r' n K_Load \<and>
    ring_contents r' = drop (unat m) (ring_contents r)"
  using work_consume_ok [of r n m] assms by (simp add: receive_ok_def)

lemma work_near_ok:
  assumes "receive_ok le r n (K_Near m)"
  shows "mem_read (rb_data r) (unat (ring_CurrentSeriesReadHead r)) (unat m) = Inr (take (unat m) (ring_contents r))"
    "is_frame le (take (unat m) (ring_contents r))" "receive_ok le r n (K_Take m)"
  using assms ring_series_read_prefix [of r "unat m"] by (simp_all add: receive_ok_def)

lemma work_far_ok:
  assumes "receive_ok le r n (K_Far s m)"
  shows "mem_read (rb_data r) (unat (ring_CurrentSeriesReadHead r)) (unat s) = Inr (take (unat s) (ring_contents r))"
    "receive_ok le r n (K_Wrap (take (unat s) (ring_contents r)) s (m - s))"
proof -
  have w: "ring_inv r" "net_room r n" "unat s = series_room r" "unat s < unat m" "unat m \<le> length (ring_contents r)"
    "is_frame le (take (unat m) (ring_contents r))" using assms by (simp_all add: receive_ok_def)
  then have "unat s \<le> ring_series_read r" by (simp add: series_read_room del: length_ring_contents)
  with ring_series_read_prefix [OF w(1)] show "mem_read (rb_data r) (unat (ring_CurrentSeriesReadHead r)) (unat s) =
      Inr (take (unat s) (ring_contents r))" by blast
  have "unat s + unat (m - s) = unat m" using w(4) by (subst unat_minus_fits) auto
  with w show "receive_ok le r n (K_Wrap (take (unat s) (ring_contents r)) s (m - s))"
    by (simp add: receive_ok_def del: length_ring_contents)
qed

lemma work_wrap_ok:
  assumes "receive_ok le r n (K_Wrap bs s k)"
  shows "\<exists>r'. ring_ConsumeSeriesReadLen r s = Inr r' \<and> receive_ok le r' n (K_Rest bs k) \<and>
    ring_contents r' = drop (unat s) (ring_contents r) \<and> bs = take (unat s) (ring_contents r)"
proof -
  have w: "ring_inv r" "net_room r n" "unat s = series_room r" "unat s + unat k \<le> length (ring_contents r)"
    "bs = take (unat s) (ring_contents r)" "is_frame le (take (unat s + unat k) (ring_contents r))"
    using assms unfolding receive_ok_def work_ok.simps by blast+
  then have s: "unat s = ring_series_read r" by (simp add: series_read_room del: length_ring_contents)
  let ?r = "r\<lparr>rb_read_count := rb_read_count r + s\<rparr>"
  note c = work_consume_ok [OF w(1,2), of s]
  have "ring_series_read ?r = length (ring_contents r) - ring_series_read r" using ring_series_rest [OF w(1) s] .
  then have "unat k \<le> ring_series_read ?r" using w(4) s by (simp del: length_ring_contents)
  moreover have "take (unat s + unat k) (ring_contents r) = bs @ take (unat k) (drop (unat s) (ring_contents r))"
    by (simp add: w(5) take_add)
  ultimately show ?thesis using c w s by (simp add: receive_ok_def)
qed

lemma work_rest_ok:
  assumes "receive_ok le r n (K_Rest bs k)"
  shows "mem_read (rb_data r) (unat (ring_CurrentSeriesReadHead r)) (unat k) = Inr (take (unat k) (ring_contents r))"
    "receive_ok le r n (K_Rest_Take (bs @ take (unat k) (ring_contents r)) k)"
  using assms ring_series_read_prefix [of r "unat k"] by (simp_all add: receive_ok_def)

lemma work_rest_take_ok:
  assumes "receive_ok le r n (K_Rest_Take p k)"
  shows "\<exists>r'. ring_ConsumeSeriesReadLen r k = Inr r' \<and> receive_ok le r' n (K_Emit p) \<and>
    ring_contents r' = drop (unat k) (ring_contents r)"
  using work_consume_ok [of r n k] assms by (simp add: receive_ok_def)

end
