(* ===== verification/Tcp_Thread_System.thy ===== *)
theory Tcp_Thread_System
  imports Tcp_Thread_Rings
begin

text \<open>
  The system of Tcp_Loops with its three threads between their steps: each loop takes the head of its
  queue when it has nothing under way, or the network loop an event; what works on a ring goes on in
  the steps of its machine, interleaved with those of the other two threads, and the rest, which
  touches no ring, is one step.
\<close>

section \<open>The system\<close>

record tcp_threads =
  th_system :: tcp_system
  th_user :: user_pc
  th_net :: net_pc
  th_work :: work_pc

abbreviation th_socket :: "tcp_threads \<Rightarrow> tcp_socket" where
  "th_socket y \<equiv> sy_socket (th_system y)"

text \<open>What a loop begins with: a head of its queue, or an event that has fired.\<close>

definition net_begin :: "tcp_env \<Rightarrow> int \<times> (int \<times> int) \<times> int \<Rightarrow> tcp_post \<Rightarrow> tcp_socket \<Rightarrow>
    (net_pc \<times> tcp_socket) result option" where
  "net_begin env answers p s =
     (if p = Net_Try_Write then Some (Inr (N_Load, s))
      else map_option (\<lambda>r. rbind r (\<lambda>t. Inr (N_Idle, t))) (run_net env answers p s))"

definition work_begin :: "tcp_env \<Rightarrow> tcp_post \<Rightarrow> tcp_socket \<Rightarrow> (work_pc \<times> tcp_socket) result" where
  "work_begin env p s =
     (if p = Work_Process_Buffered then Inr (K_Load, s) else rbind (run_work env p s) (\<lambda>t. Inr (K_Idle, t)))"

definition read_begin :: "tcp_env \<Rightarrow> sys_read \<Rightarrow> tcp_socket \<Rightarrow> (net_pc \<times> tcp_socket) result" where
  "read_begin env answer s =
     (case tsw_socket_read_event s of
        None \<Rightarrow> Inl Null_Deref
      | Some e \<Rightarrow>
          (let s = s\<lparr>tsw_socket_read_event := Some (event_fired e)\<rparr> in
           case ev_callback e of
             Some (On_Read_Event, arg) \<Rightarrow>
               Inr (if arg \<and> tsw_state s = CS_CONNECTED then N_Reading answer else N_Idle, s)
           | Some (On_New_Connection, arg) \<Rightarrow> rbind (OnNewConnection env arg s) (\<lambda>s. Inr (N_Idle, s))
           | _ \<Rightarrow> Inl Bad_Function_Call))"

definition write_begin :: "tcp_env \<Rightarrow> int \<Rightarrow> 16 word \<Rightarrow> tcp_socket \<Rightarrow> (net_pc \<times> tcp_socket) result" where
  "write_begin env so_error event s =
     (case tsw_socket_write_event s of
        None \<Rightarrow> Inl Null_Deref
      | Some f \<Rightarrow>
          (let s = s\<lparr>tsw_socket_write_event := Some (event_fired f)\<rparr> in
           case ev_callback f of
             Some (On_Connection, arg) \<Rightarrow> rbind (OnConnection env so_error event arg s) (\<lambda>s. Inr (N_Idle, s))
           | Some (On_Write_Event, arg) \<Rightarrow> Inr (if arg then N_Load else N_Idle, s)
           | _ \<Rightarrow> Inl Bad_Function_Call))"

text \<open>The worker is about to read a length of zero.\<close>

fun at_illegal :: "bool \<Rightarrow> work_pc \<Rightarrow> byte list \<Rightarrow> bool" where
  "at_illegal le (K_Head a n) c = (header_of le c = 0)"
| "at_illegal le _ c = False"

text \<open>
  The ring has one writing thread: while a user's thread is between two steps of a send, no handler
  sends; nor does a second thread.
\<close>

definition one_sender :: "tcp_threads \<Rightarrow> tcp_socket \<Rightarrow> bool" where
  "one_sender y t \<longleftrightarrow> tsw_sender_buffer t = tsw_sender_buffer (th_socket y) \<or> th_user y = U_Idle"

inductive th_step :: "tcp_env \<Rightarrow> tcp_threads \<Rightarrow> tcp_threads \<Rightarrow> bool" for env where
  send: "\<lbrakk> th_user y = U_Idle; unat len = length data; 2 \<le> length data;
     send_begin env data len (th_socket y) = Inr u \<rbrakk>
     \<Longrightarrow> th_step env y (y\<lparr>th_user := u\<rparr>)"
| send_head: "\<lbrakk> th_user y = U_Idle; length buff < 2 ^ 32 \<rbrakk> \<Longrightarrow> th_step env y (y\<lparr>th_user := U_Write buff\<rparr>)"
| user: "\<lbrakk> th_user y \<noteq> U_Idle; user_next (th_user y) (th_socket y) = Inr (u, s) \<rbrakk>
     \<Longrightarrow> th_step env y (y\<lparr>th_user := u, th_system := settle s (note_output s (th_system y))\<rparr>)"
| user_close: "th_user y = U_Idle
     \<Longrightarrow> th_step env y (y\<lparr>th_system := settle (CloseConnection (on_user env) (th_socket y)) (th_system y)\<rparr>)"
| net_task: "\<lbrakk> th_net y = N_Idle; sy_net (th_system y) = p # ps;
     net_begin (on_network env) answers p (th_socket y) = Some (Inr (n, s)) \<rbrakk>
     \<Longrightarrow> th_step env y (y\<lparr>th_net := n, th_system := settle s ((th_system y)\<lparr>sy_net := ps,
           sy_closed := sy_closed (th_system y) \<or> p = Net_Close_Connection,
           sy_late := sy_late (th_system y) \<or> sy_closed (th_system y) \<and> p = Net_Try_Write\<rparr>)\<rparr>)"
| readable: "\<lbrakk> th_net y = N_Idle; read_registered (th_socket y);
     read_begin (on_network env) answer (th_socket y) = Inr (n, s) \<rbrakk>
     \<Longrightarrow> th_step env y (y\<lparr>th_net := n, th_system := settle s (th_system y)\<rparr>)"
| writable: "\<lbrakk> th_net y = N_Idle; write_pending (th_socket y);
     write_begin (on_network env) so_error EV_WRITE (th_socket y) = Inr (n, s) \<rbrakk>
     \<Longrightarrow> th_step env y (y\<lparr>th_net := n, th_system := settle s (th_system y)\<rparr>)"
| connect_timeout: "\<lbrakk> th_net y = N_Idle; write_pending (th_socket y); tsw_state (th_socket y) = CS_CONNECTING;
     write_begin (on_network env) 0 EV_TIMEOUT (th_socket y) = Inr (n, s) \<rbrakk>
     \<Longrightarrow> th_step env y (y\<lparr>th_net := n, th_system := settle s (th_system y)\<rparr>)"
| net: "\<lbrakk> th_net y \<noteq> N_Idle; net_next (on_network env) (th_net y) (th_socket y) = Inr (n, s) \<rbrakk>
     \<Longrightarrow> th_step env y (y\<lparr>th_net := n,
           th_system := settle s ((th_system y)\<lparr>sy_taken := sy_taken (th_system y) @ got_of n\<rparr>)\<rparr>)"
| work_task: "\<lbrakk> th_work y = K_Idle; sy_work (th_system y) = p # ps;
     work_begin (on_worker env) p (th_socket y) = Inr (w, s); one_sender y s \<rbrakk>
     \<Longrightarrow> th_step env y (y\<lparr>th_work := w, th_system := settle s (note_output s ((th_system y)\<lparr>sy_work := ps\<rparr>))\<rparr>)"
| work: "\<lbrakk> th_work y \<noteq> K_Idle; work_next (on_worker env) (th_work y) (th_socket y) = Inr (w, s); one_sender y s \<rbrakk>
     \<Longrightarrow> th_step env y (y\<lparr>th_work := w, th_system := settle s (note_output s ((th_system y)\<lparr>sy_broken :=
           sy_broken (th_system y) \<or> at_illegal (env_le env) (th_work y) (received (th_socket y))\<rparr>))\<rparr>)"

definition threads_of :: "tcp_system \<Rightarrow> tcp_threads" where
  "threads_of y = \<lparr> th_system = y, th_user = U_Idle, th_net = N_Idle, th_work = K_Idle \<rparr>"

text \<open>Callbacks write to the sending ring, if they send; they do not read it.\<close>

definition sending :: "tcp_env \<Rightarrow> bool" where
  "sending env \<longleftrightarrow> (\<forall>sig s t. ring_inv (tsw_sender_buffer s) \<longrightarrow> env_signal env sig s = Inr t \<longrightarrow>
     read_side (tsw_sender_buffer t) = read_side (tsw_sender_buffer s))"

definition thread_env :: "tcp_env \<Rightarrow> bool" where
  "thread_env env \<longleftrightarrow> system_env env \<and> listening env \<and> sending env"

section \<open>The invariant\<close>

fun writing :: "net_pc \<Rightarrow> bool" where
  "writing N_Load = True"
| "writing (N_Have m) = True"
| "writing (N_Sent k) = True"
| "writing _ = False"

text \<open>The worker will look at all that is in the ring before it stops.\<close>

fun looking :: "byte list \<Rightarrow> work_pc \<Rightarrow> bool" where
  "looking c K_Idle = False"
| "looking c (K_Series a) = (unat a = length c)"
| "looking c (K_Head a n) = (unat a = length c)"
| "looking c _ = True"

definition input_alive :: "bool \<Rightarrow> tcp_system \<Rightarrow> net_pc \<Rightarrow> work_pc \<Rightarrow> bool" where
  "input_alive le y n w \<longleftrightarrow> (fst (parse_frames le (received (sy_socket y))) \<noteq> [] \<longrightarrow>
     Work_Process_Buffered \<in> set (sy_work y) \<or> n = N_Queue \<or> looking (received (sy_socket y)) w)"

definition output_alive :: "tcp_system \<Rightarrow> user_pc \<Rightarrow> net_pc \<Rightarrow> bool" where
  "output_alive y u n \<longleftrightarrow> (\<not> sy_early y \<longrightarrow> (write_wired (sy_socket y) \<or> unsent (sy_socket y) = []) \<and>
     (\<not> sy_broken y \<longrightarrow> drained (sy_socket y) \<or> Net_Try_Write \<in> set (sy_net y) \<or> u = U_Post \<or> writing n))"

text \<open>While the network loop is at work no start waits, and after a close it works only late.\<close>

definition net_free :: "tcp_system \<Rightarrow> bool" where
  "net_free y \<longleftrightarrow> \<not> list_ex start_post (sy_net y) \<and> (sy_closed y \<longrightarrow> sy_late y)"

definition control :: "tcp_system \<Rightarrow> net_pc \<Rightarrow> bool" where
  "control y n \<longleftrightarrow> conn_inv (sy_socket y) \<and> tsw_posts (sy_socket y) = [] \<and> start_ok y \<and> close_ok y \<and>
     (n \<noteq> N_Idle \<longrightarrow> net_free y)"

definition flowing :: "bool \<Rightarrow> tcp_system \<Rightarrow> net_pc \<Rightarrow> work_pc \<Rightarrow> bool" where
  "flowing le y n w \<longleftrightarrow> (let s = sy_socket y in
     relays le (tsw_wire s) (drop (sent_of n) (unsent s)) (in_hand w (received s) @ got_of n)
       (packets_of (tsw_signals s)) (tsw_SignalReadPacket s) (sy_output y) (sy_taken y))"

definition th_inv :: "tcp_env \<Rightarrow> tcp_threads \<Rightarrow> bool" where
  "th_inv env y \<longleftrightarrow> control (th_system y) (th_net y) \<and>
     send_ok (tsw_sender_buffer (th_socket y)) (th_user y) (th_net y) \<and>
     receive_ok (env_le env) (tsw_receiver_buffer (th_socket y)) (th_net y) (th_work y) \<and>
     flowing (env_le env) (th_system y) (th_net y) (th_work y) \<and>
     input_alive (env_le env) (th_system y) (th_net y) (th_work y) \<and>
     output_alive (th_system y) (th_user y) (th_net y)"

section \<open>A step of the user's thread or of the worker loop\<close>

lemma in_hand_got:
  "got_of n \<noteq> [] \<Longrightarrow> \<exists>bs. n = N_Got bs"
  by (cases n) auto

lemma sent_le: "send_ok r u n \<Longrightarrow> sent_of n \<le> length (ring_contents r)"
  using series_read_le [of r] by (cases n) (auto simp: send_ok_def reader_ok_def simp del: length_ring_contents)

lemma producer_step:
  fixes y :: tcp_threads and t :: tcp_socket
  defines "sys \<equiv> th_system y" and "s \<equiv> sy_socket (th_system y)" and "n \<equiv> th_net y"
  assumes inv: "th_inv env y"
    and t: "conn_inv t" "tsw_state t = tsw_state s" "tsw_share_this_helper t = tsw_share_this_helper s \<or> sy_closed sys"
      "same_events s t \<or> both_off s t \<and> b" "tsw_wire t = tsw_wire s"
    and posts: "tsw_posts t = ps" "set ps \<subseteq> {Net_Try_Write, Net_Close_Connection}"
    and snd: "send_ok (tsw_sender_buffer t) u' n" "unsent t = unsent s @ d"
      "d \<noteq> [] \<longrightarrow> Net_Try_Write \<in> set ps \<or> u' = U_Post" "th_user y = U_Post \<longrightarrow> u' = U_Post \<or> Net_Try_Write \<in> set ps"
    and rcv: "receive_ok (env_le env) (tsw_receiver_buffer t) n w'" "hears qs s t"
      "\<And>ys. parse_frames (env_le env) (in_hand (th_work y) (received s) @ ys) =
        prepend qs (parse_frames (env_le env) (in_hand w' (received t) @ ys))"
    and alive: "fst (parse_frames (env_le env) (received t)) \<noteq> [] \<Longrightarrow>
        Work_Process_Buffered \<in> set wl \<or> n = N_Queue \<or> looking (received t) w'"
    and wl: "set wl \<subseteq> set (sy_work sys)"
  shows "th_inv env (y\<lparr>th_user := u', th_work := w',
    th_system := settle t (note_output t (sys\<lparr>sy_work := wl, sy_broken := sy_broken sys \<or> b\<rparr>))\<rparr>)"
proof -
  note ps = inv [unfolded th_inv_def control_def, folded s_def sys_def n_def]
  let ?z = "settle t (note_output t (sys\<lparr>sy_work := wl, sy_broken := sy_broken sys \<or> b\<rparr>))"
  have net: "filter is_net_post ps = ps" "filter (\<lambda>p. \<not> is_net_post p) ps = []"
    using posts(2) by (auto simp: filter_id_conv filter_empty_conv)
  have sock: "sy_socket sys = s" by (simp add: sys_def s_def)
  have "conn_inv s" using ps sock by simp
  then obtain e f where e: "tsw_socket_read_event s = Some e" "tsw_socket_write_event s = Some f"
    by (rule conn_invE)
  have same: "events_set t = events_set s" "write_wired t = write_wired s"
    "all_off s \<longrightarrow> all_off t" "same_events s t \<longrightarrow> write_pending t = write_pending s"
    using t(4) e t(2)
    by (auto simp: same_events_def both_off_def events_set_def write_wired_def all_off_def
      read_registered_def write_pending_def)
  have starts: "list_all (\<lambda>p. \<not> start_post p) ps" using not_start [of ps] posts(2) net(1) by simp
  have "start_ok ?z"
    by (rule start_ok_append [of sys ps]) (use ps starts same(1,3) t(3) posts(1) net(1) sock in simp_all)
  moreover have "close_ok ?z"
    using ps same(1,3) t(3) wl posts(1) net(2) sock unfolding close_ok_def by auto
  moreover have "n \<noteq> N_Idle \<longrightarrow> net_free ?z"
    using ps starts posts(1) net(1) by (auto simp: net_free_def list_ex_iff list_all_iff)
  ultimately have "control ?z n" using t(1) by (simp add: control_def)
  moreover have "flowing (env_le env) ?z n w'"
  proof -
    have out: "tsw_wire t @ drop (sent_of n) (unsent t) = tsw_wire s @ drop (sent_of n) (unsent s) @ d"
      using sent_le [of "tsw_sender_buffer s" "th_user y" n] ps snd(2) t(5) by (simp del: length_ring_contents)
    have "relays (env_le env) (tsw_wire t) (drop (sent_of n) (unsent t)) (in_hand w' (received t) @ got_of n)
        (packets_of (tsw_signals t)) (tsw_SignalReadPacket t) (sy_output sys @ d) (sy_taken sys @ [])"
    proof (rule relays_step [OF _ out rcv(2)])
      show "relays (env_le env) (tsw_wire s) (drop (sent_of n) (unsent s)) (in_hand (th_work y) (received s) @ got_of n)
          (packets_of (tsw_signals s)) (tsw_SignalReadPacket s) (sy_output sys) (sy_taken sys)"
        using ps sock by (simp add: flowing_def Let_def)
      show "parse_frames (env_le env) ((in_hand (th_work y) (received s) @ got_of n) @ [] @ ys) =
          prepend qs (parse_frames (env_le env) ((in_hand w' (received t) @ got_of n) @ ys))" for ys
        using rcv(3) [of "got_of n @ ys"] by simp
    qed
    then show ?thesis using snd(2) sock by (simp add: flowing_def Let_def del: length_ring_contents)
  qed
  moreover have "input_alive (env_le env) ?z n w'"
    using alive posts(1) net(2) by (simp add: input_alive_def)
  moreover have "output_alive ?z u' n"
  proof -
    have d: "length (unsent s) < length (unsent t) \<or> d = []"
      using snd(2) by (cases d) (simp_all del: length_ring_contents)
    have "drained s \<and> same_events s t \<longrightarrow> drained t \<or> d \<noteq> []"
      using same(4) snd(2) t(2) by (auto simp: drained_def)
    then show ?thesis
      using ps d same(2) posts(1) net(1) t(4) snd(2-4) sock unfolding output_alive_def
      by (auto simp del: length_ring_contents)
  qed
  ultimately show ?thesis using snd(1) rcv(1) by (simp add: th_inv_def n_def)
qed

lemma th_inv_parts:
  assumes "th_inv env y"
  shows "conn_inv (th_socket y)" "tsw_posts (th_socket y) = []"
    "send_ok (tsw_sender_buffer (th_socket y)) (th_user y) (th_net y)"
    "receive_ok (env_le env) (tsw_receiver_buffer (th_socket y)) (th_net y) (th_work y)"
    "ring_inv (tsw_sender_buffer (th_socket y))" "ring_inv (tsw_receiver_buffer (th_socket y))"
  using assms by (auto simp: th_inv_def control_def send_ok_def receive_ok_def)

text \<open>A step of the user's thread: it changes the sending ring and posts.\<close>

lemma user_moves:
  assumes inv: "th_inv env y" and t: "t = (th_socket y)\<lparr>tsw_sender_buffer := r, tsw_posts := ps\<rparr>"
    and "set ps \<subseteq> {Net_Try_Write, Net_Close_Connection}"
    and r: "send_ok r u' (th_net y)" "ring_contents r = unsent (th_socket y) @ d"
    and "d \<noteq> [] \<longrightarrow> Net_Try_Write \<in> set ps \<or> u' = U_Post"
      "th_user y = U_Post \<longrightarrow> u' = U_Post \<or> Net_Try_Write \<in> set ps"
  shows "th_inv env (y\<lparr>th_user := u', th_system := settle t (note_output t (th_system y))\<rparr>)"
proof -
  note parts = th_inv_parts [OF inv]
  have "conn_inv t" using parts(1) r(1) by (simp add: t conn_inv_def send_ok_def)
  moreover have "fst (parse_frames (env_le env) (received t)) \<noteq> [] \<Longrightarrow> Work_Process_Buffered \<in> set (sy_work (th_system y)) \<or>
      th_net y = N_Queue \<or> looking (received t) (th_work y)"
    using inv by (simp add: th_inv_def input_alive_def t)
  ultimately have "th_inv env (y\<lparr>th_user := u', th_work := th_work y, th_system := settle t (note_output t
      ((th_system y)\<lparr>sy_work := sy_work (th_system y), sy_broken := sy_broken (th_system y) \<or> False\<rparr>))\<rparr>)"
    using assms parts by (intro producer_step [where ps = ps and qs = "[]" and d = d]) (simp_all add: same_events_def hears_def)
  then show ?thesis by simp
qed

lemma user_step_ok:
  assumes inv: "th_inv env y" and u: "th_user y \<noteq> U_Idle"
  shows "\<exists>u s. user_next (th_user y) (th_socket y) = Inr (u, s) \<and>
    th_inv env (y\<lparr>th_user := u, th_system := settle s (note_output s (th_system y))\<rparr>)"
proof -
  let ?s = "th_socket y" and ?r = "tsw_sender_buffer (th_socket y)"
  note parts = th_inv_parts [OF inv] and moves = user_moves [OF inv]
  show ?thesis
  proof (cases "th_user y")
    case U_Idle
    with u show ?thesis by simp
  next
    case (U_Write bs)
    then obtain a where a: "ring_AvailableWrite ?r = Inr a"
      "send_ok ?r (if a < of_nat (length bs) then U_Post else U_Copy bs) (th_net y)"
      using user_load_ok [of ?r bs] parts(3) by auto
    have s: "?s = ?s\<lparr>tsw_sender_buffer := ?r, tsw_posts := []\<rparr>" using parts(2) by simp
    from moves [OF s _ a(2), of "[]"] a(1) U_Write show ?thesis by (simp add: user_next_def Let_def)
  next
    case (U_Copy bs)
    then obtain d where d: "ring_copy_in ?r (ring_CurrentSeriesWriteHead ?r) bs (of_nat (length bs)) = Inr d"
      "send_ok (?r\<lparr>rb_data := d\<rparr>) (U_Publish bs) (th_net y)" "ring_contents (?r\<lparr>rb_data := d\<rparr>) = ring_contents ?r"
      using user_copy_ok [of ?r bs] parts(3) by auto
    have s: "?s\<lparr>tsw_sender_buffer := ?r\<lparr>rb_data := d\<rparr>\<rparr> = ?s\<lparr>tsw_sender_buffer := ?r\<lparr>rb_data := d\<rparr>, tsw_posts := []\<rparr>"
      using parts(2) by simp
    from moves [OF s _ d(2), of "[]"] d(1,3) U_Copy show ?thesis by (simp add: user_next_def Let_def)
  next
    case (U_Publish bs)
    let ?p = "?r\<lparr>rb_write_count := rb_write_count ?r + of_nat (length bs)\<rparr>"
    have p: "send_ok ?p U_Post (th_net y)" "ring_contents ?p = ring_contents ?r @ bs"
      using user_publish_ok [of ?r bs] parts(3) U_Publish by auto
    have s: "?s\<lparr>tsw_sender_buffer := ?p\<rparr> = ?s\<lparr>tsw_sender_buffer := ?p, tsw_posts := []\<rparr>"
      using parts(2) by simp
    from moves [OF s _ p] U_Publish show ?thesis by (simp add: user_next_def Let_def)
  next
    case U_Post
    have s: "post Net_Try_Write ?s = ?s\<lparr>tsw_sender_buffer := ?r, tsw_posts := [Net_Try_Write]\<rparr>"
      using parts(2) by (simp add: post_def)
    have "send_ok ?r U_Idle (th_net y)" using parts(3) U_Post by (simp add: send_ok_def)
    from moves [OF s _ this, of "[]"] U_Post show ?thesis by (simp add: user_next_def Let_def)
  qed
qed

text \<open>A step of the worker loop: it takes from the receiving ring, or calls the user.\<close>

lemma worker_step:
  assumes inv: "th_inv env y" and t: "worked (th_socket y) t" "hears qs (th_socket y) t"
      "same_events (th_socket y) t \<or> both_off (th_socket y) t \<and> b"
    and ring: "read_side (tsw_sender_buffer t) = read_side (tsw_sender_buffer (th_socket y))" "one_sender y t"
    and r: "receive_ok (env_le env) (tsw_receiver_buffer t) (th_net y) w'"
    and cut: "\<And>ys. parse_frames (env_le env) (in_hand (th_work y) (received (th_socket y)) @ ys) =
        prepend qs (parse_frames (env_le env) (in_hand w' (received t) @ ys))"
    and alive: "fst (parse_frames (env_le env) (received t)) \<noteq> [] \<Longrightarrow>
        Work_Process_Buffered \<in> set wl \<or> th_net y = N_Queue \<or> looking (received t) w'"
    and wl: "set wl \<subseteq> set (sy_work (th_system y))"
  shows "th_inv env (y\<lparr>th_work := w', th_system := settle t (note_output t ((th_system y)\<lparr>sy_work := wl,
    sy_broken := sy_broken (th_system y) \<or> b\<rparr>))\<rparr>)"
proof -
  note parts = th_inv_parts [OF inv]
  have conn: "conn_inv t" using worked_conn_inv [OF parts(1) t(1)] t(3) by blast
  from t(1) parts(2) obtain ps d where q: "tsw_posts t = ps" "set ps \<subseteq> {Net_Try_Write, Net_Close_Connection}"
    "ring_inv (tsw_sender_buffer t)" "unsent t = unsent (th_socket y) @ d" "d \<noteq> [] \<longrightarrow> Net_Try_Write \<in> set ps"
    and s: "tsw_wire t = tsw_wire (th_socket y)" "tsw_state t = tsw_state (th_socket y)"
    "tsw_share_this_helper t = tsw_share_this_helper (th_socket y)"
    by (auto simp: worked_def queued_def)
  have "send_ok (tsw_sender_buffer t) (th_user y) (th_net y)"
    using ring(2) by (intro send_ok_callback [OF parts(3) q(3,4) ring(1)]) (simp add: one_sender_def)
  with q s t ring r cut alive wl conn
  have "th_inv env (y\<lparr>th_user := th_user y, th_work := w', th_system := settle t (note_output t
      ((th_system y)\<lparr>sy_work := wl, sy_broken := sy_broken (th_system y) \<or> b\<rparr>))\<rparr>)"
    by (intro producer_step [OF inv, where ps = ps and qs = qs and d = d]) simp_all
  then show ?thesis by simp
qed

definition mute :: "tcp_env \<Rightarrow> tcp_socket \<Rightarrow> tcp_socket \<Rightarrow> bool" where
  "mute env s t \<longleftrightarrow> (silent env \<longrightarrow> tsw_posts t = tsw_posts s \<and> tsw_sender_buffer t = tsw_sender_buffer s)"

lemma emit_side:
  assumes "sending env" "ring_inv (tsw_sender_buffer s)"
  shows "emit (on_worker env) sig s = Inr t \<Longrightarrow> read_side (tsw_sender_buffer t) = read_side (tsw_sender_buffer s)"
    and "emit_packet (on_worker env) bs s = Inr t \<Longrightarrow> read_side (tsw_sender_buffer t) = read_side (tsw_sender_buffer s)"
proof -
  show e: "emit (on_worker env) sig s = Inr t \<Longrightarrow> read_side (tsw_sender_buffer t) = read_side (tsw_sender_buffer s)" for sig t
    using assms(1) [unfolded sending_def, rule_format, of "s\<lparr>tsw_signals := tsw_signals s @ [sig]\<rparr>" sig t] assms(2)
    by (simp add: emit_def on_worker_def)
  show "emit_packet (on_worker env) bs s = Inr t \<Longrightarrow> read_side (tsw_sender_buffer t) = read_side (tsw_sender_buffer s)"
    using e by (fastforce simp: emit_packet_def rbind_eq_Inr split: if_splits)
qed

lemma thread_env_work:
  assumes "thread_env env"
  shows "posting (on_worker env)" "listening (on_worker env)" "sending env" "env_le (on_worker env) = env_le env"
    "silent (on_worker env) = silent env"
  using assms system_env_work [of env] by (simp_all add: thread_env_def listening_def silent_def on_worker_def)

lemma work_packet_ok:
  assumes "thread_env env" "conn_inv s"
  shows "\<exists>t. emit_packet (on_worker env) bs s = Inr t \<and> worked s t \<and> hears [bs] s t \<and> same_events s t \<and>
    tsw_receiver_buffer t = tsw_receiver_buffer s \<and> read_side (tsw_sender_buffer t) = read_side (tsw_sender_buffer s) \<and> mute env s t"
proof -
  note env = thread_env_work [OF assms(1)]
  have inv: "ring_inv (tsw_sender_buffer s)" "ring_inv (tsw_receiver_buffer s)" using assms(2) by (auto elim: conn_invE)
  from emit_packet_posting [OF env(1) inv, of bs] env(2,5) emit_side(2) [OF env(3) inv(1)] show ?thesis
    by (auto simp: told_def mute_def)
qed

lemma work_signal_ok:
  assumes "thread_env env" "conn_inv s" "packets_of [sig] = []"
  shows "\<exists>t. emit (on_worker env) sig s = Inr t \<and> worked s t \<and> hears [] s t \<and> same_events s t \<and>
    tsw_receiver_buffer t = tsw_receiver_buffer s \<and> read_side (tsw_sender_buffer t) = read_side (tsw_sender_buffer s) \<and> mute env s t"
proof -
  note env = thread_env_work [OF assms(1)]
  have inv: "ring_inv (tsw_sender_buffer s)" "ring_inv (tsw_receiver_buffer s)" using assms(2) by (auto elim: conn_invE)
  from emit_posting [OF env(1) inv, of sig] env(2,5) emit_side(1) [OF env(3) inv(1)] assms(3) show ?thesis
    by (auto simp: told_def mute_def)
qed

lemma work_illegal_ok:
  assumes "thread_env env" "conn_inv s"
  shows "\<exists>t. illegal_length (on_worker env) s = Inr t \<and> worked s t \<and> hears [] s t \<and> both_off s t \<and>
    tsw_receiver_buffer t = tsw_receiver_buffer s \<and> read_side (tsw_sender_buffer t) = read_side (tsw_sender_buffer s) \<and> mute env s t"
proof -
  from assms(2) obtain e f where ev: "tsw_socket_read_event s = Some e" "tsw_socket_write_event s = Some f"
    "conn_events (tsw_state s) e f" "ring_inv (tsw_sender_buffer s)" "ring_inv (tsw_receiver_buffer s)"
    by (rule conn_invE)
  let ?s = "s\<lparr>tsw_socket_read_event := Some (tcp_event_del e), tsw_socket_write_event := Some (tcp_event_del f)\<rparr>"
  have off: "both_off s ?s" using ev by (simp add: both_off_def)
  have worked: "worked s ?s" using ev by (auto simp: worked_def queued_def)
  then have "conn_inv ?s" using worked_conn_inv [OF assms(2)] off by blast
  from work_signal_ok [OF assms(1) this, of Signal_On_Close] obtain u where
    u: "emit (on_worker env) Signal_On_Close ?s = Inr u" "worked ?s u" "hears [] ?s u" "same_events ?s u"
    "tsw_receiver_buffer u = tsw_receiver_buffer s" "read_side (tsw_sender_buffer u) = read_side (tsw_sender_buffer s)"
    "mute env ?s u" by auto
  have "worked s u" using worked u(2) by (rule worked_trans)
  moreover have "hears [] s ?s" by (simp add: hears_def)
  then have "hears [] s u" using hears_trans [of "[]" s ?s "[]" u] u(3) by simp
  moreover have "both_off s u" using off u(4) by (simp add: both_off_def same_events_def)
  moreover have "illegal_length (on_worker env) s = (if tsw_SignalOnCloseEvent s then Inr u else Inr ?s)"
    using ev u(1) by (simp add: illegal_length_def on_read_event_def on_write_event_def)
  moreover have "mute env s ?s" "mute env s u" using u(7) by (simp_all add: mute_def)
  ultimately show ?thesis using u(5,6) off worked \<open>hears [] s ?s\<close> by auto
qed

lemma no_frame:
  "length c < 2 \<or> length c < header_of le c + 2 \<and> header_of le c \<noteq> 0 \<Longrightarrow> parse_frames le c = ([], c, False)"
  "2 \<le> length c \<Longrightarrow> header_of le c = 0 \<Longrightarrow> parse_frames le c = ([], c, True)"
  by (subst parse_frames.simps, auto simp: Let_def)+

section \<open>The worker's machine\<close>

text \<open>
  What a step of the worker does: it hands over the packets \<open>qs\<close> that it cuts off what it has in hand,
  and either goes on looking or, with nothing left to find, stops. Each step leaves it less to do.
\<close>

fun work_load :: "work_pc \<Rightarrow> nat" where
  "work_load K_Idle = 0"
| "work_load K_Load = 11"
| "work_load (K_Series a) = 10"
| "work_load (K_Head a n) = 9"
| "work_load (K_Near m) = 8"
| "work_load (K_Take m) = 12"
| "work_load (K_Far n m) = 8"
| "work_load (K_Wrap bs n k) = 7"
| "work_load (K_Rest bs k) = 6"
| "work_load (K_Rest_Take p k) = 5"
| "work_load (K_Emit p) = 4"

definition work_left :: "work_pc \<Rightarrow> byte list \<Rightarrow> nat" where
  "work_left w c = 8 * length (in_hand w c) + work_load w"

definition work_does :: "tcp_env \<Rightarrow> net_pc \<Rightarrow> work_pc \<Rightarrow> tcp_socket \<Rightarrow> work_pc \<Rightarrow> tcp_socket \<Rightarrow> bool" where
  "work_does env n w s w' t \<longleftrightarrow> (let le = env_le env; c = received s; c' = received t in
     worked s t \<and> (same_events s t \<or> both_off s t \<and> at_illegal le w c) \<and>
     read_side (tsw_sender_buffer t) = read_side (tsw_sender_buffer s) \<and>
     receive_ok le (tsw_receiver_buffer t) n w' \<and> mute env s t \<and> work_left w' c' < work_left w c \<and>
     (\<exists>qs. hears qs s t \<and>
        (\<forall>ys. parse_frames le (in_hand w c @ ys) = prepend qs (parse_frames le (in_hand w' c' @ ys)))) \<and>
     (looking c' w' \<and> \<not> at_illegal le w c \<or>
      c' = c \<and> in_hand w c = c \<and> (looking c w \<longrightarrow> w' = K_Idle \<and> parse_frames le c = ([], c, at_illegal le w c))))"

lemma work_does_ring:
  assumes s: "conn_inv s" "rb_capacity r = rb_capacity (tsw_receiver_buffer s)"
    and r: "receive_ok (env_le env) r n w'" "in_hand w' (ring_contents r) = in_hand w (received s)" "work_load w' < work_load w"
    and look: "looking (ring_contents r) w' \<and> \<not> at_illegal (env_le env) w (received s) \<or>
      ring_contents r = received s \<and> in_hand w (received s) = received s \<and> (looking (received s) w \<longrightarrow>
        w' = K_Idle \<and> parse_frames (env_le env) (received s) = ([], received s, at_illegal (env_le env) w (received s)))"
  shows "work_does env n w s w' (s\<lparr>tsw_receiver_buffer := r\<rparr>)"
proof -
  have "ring_inv r" using r(1) by (simp add: receive_ok_def)
  then have "worked s (s\<lparr>tsw_receiver_buffer := r\<rparr>)" using s by (auto simp: worked_def queued_def conn_inv_def)
  moreover have "hears [] s (s\<lparr>tsw_receiver_buffer := r\<rparr>)" "mute env s (s\<lparr>tsw_receiver_buffer := r\<rparr>)"
    by (simp_all add: hears_def mute_def)
  moreover have "work_left w' (ring_contents r) < work_left w (received s)" using r(2,3) by (simp add: work_left_def)
  moreover have "parse_frames (env_le env) (in_hand w (received s) @ ys) =
      prepend [] (parse_frames (env_le env) (in_hand w' (ring_contents r) @ ys))" for ys using r(2) by simp
  ultimately show ?thesis
    using r(1) look unfolding work_does_def Let_def by (auto simp: same_events_def simp del: length_ring_contents)
qed

lemma work_does_call:
  assumes "worked s t" "hears qs s t" "same_events s t" "tsw_receiver_buffer t = tsw_receiver_buffer s"
    "read_side (tsw_sender_buffer t) = read_side (tsw_sender_buffer s)" "mute env s t"
    and "receive_ok (env_le env) (tsw_receiver_buffer s) n w'" "work_left w' (received s) < work_left w (received s)"
    and "\<And>ys. parse_frames (env_le env) (in_hand w (received s) @ ys) =
      prepend qs (parse_frames (env_le env) (in_hand w' (received s) @ ys))"
    and "looking (received s) w'" "\<not> at_illegal (env_le env) w (received s)"
  shows "work_does env n w s w' t"
  using assms unfolding work_does_def Let_def by auto

lemma consumed_capacity: "ring_ConsumeSeriesReadLen r m = Inr r' \<Longrightarrow> rb_capacity r' = rb_capacity r"
  by (auto simp: ring_ConsumeSeriesReadLen_def Let_def assert_that_eq_Inr rbind_eq_Inr)

text \<open>With the header read: an illegal length, a packet that is not all there, or one to take.\<close>

lemma work_head_does:
  assumes env: "thread_env env" and s: "conn_inv s"
    and head: "receive_ok (env_le env) (tsw_receiver_buffer s) n (K_Head a m)"
  shows "\<exists>w' t. work_next (on_worker env) (K_Head a m) s = Inr (w', t) \<and> work_does env n (K_Head a m) s w' t"
proof -
  let ?r = "tsw_receiver_buffer s" and ?c = "received s" and ?le = "env_le env"
  let ?h = "host_word ?le (take 2 ?c) :: u16"
  let ?m = "(ucast ?h :: u32) + 2"
  have h: "read_header (env_le (on_worker env)) m ?r = Inr ?h"
    using work_head_ok [OF head] thread_env_work(4) [OF env] by simp
  have two: "2 \<le> length ?c" using head by (simp add: receive_ok_def del: length_ring_contents)
  have "unat ?h < 65536" using unsigned_less [of ?h] by simp
  then have legal: "\<not> (ucast ?h :: u32) > 65535"
    using unat_ucast_u16 [of ?h] by (simp add: word_less_nat_alt)
  show ?thesis
  proof (cases "?h = 0")
    case True
    then have zero: "header_of ?le ?c = 0" by simp
    obtain t where t: "illegal_length (on_worker env) s = Inr t" "worked s t" "hears [] s t" "both_off s t"
      "tsw_receiver_buffer t = ?r" "read_side (tsw_sender_buffer t) = read_side (tsw_sender_buffer s)" "mute env s t"
      using work_illegal_ok [OF env s] by blast
    have "work_next (on_worker env) (K_Head a m) s = Inr (K_Idle, t)"
      using h True t(1) by (simp add: work_next_def Let_def)
    moreover have "receive_ok ?le ?r n K_Idle" using head by (simp add: receive_ok_def)
    then have "work_does env n (K_Head a m) s K_Idle t"
      using t zero no_frame(2) [OF two zero] unfolding work_does_def Let_def
      by (auto simp: work_left_def simp del: length_ring_contents intro!: exI [of _ "[]"])
    ultimately show ?thesis by blast
  next
    case False
    then have nz: "header_of ?le ?c \<noteq> 0" by (simp add: unat_eq_zero)
    note m = work_length_ok [OF head nz]
    let ?w = "if a < ?m then K_Idle else if m \<ge> ?m then K_Near ?m else K_Far m ?m"
    have "work_next (on_worker env) (K_Head a m) s = Inr (?w, s)"
      using h False legal by (simp add: work_next_def Let_def)
    moreover have "receive_ok ?le ?r n ?w" using m(2) head by (auto simp: receive_ok_def)
    moreover have "a < ?m \<Longrightarrow> unat a = length ?c \<Longrightarrow> parse_frames ?le ?c = ([], ?c, False)"
      using m(1) nz by (intro no_frame(1)) (simp add: word_less_nat_alt del: length_ring_contents)
    then have "work_does env n (K_Head a m) s ?w (s\<lparr>tsw_receiver_buffer := ?r\<rparr>)"
      using nz calculation(2) by (intro work_does_ring s) (auto simp del: length_ring_contents)
    ultimately show ?thesis by auto
  qed
qed

text \<open>What the worker loop has begun it can go on with, but for a load that finds the ring exactly full.\<close>

lemma work_near_does:
  assumes env: "thread_env env" and s: "conn_inv s"
    and rcv: "receive_ok (env_le env) (tsw_receiver_buffer s) n (K_Near m)"
  shows "\<exists>w' t. work_next (on_worker env) (K_Near m) s = Inr (w', t) \<and> work_does env n (K_Near m) s w' t"
proof -
  let ?c = "received s" and ?le = "env_le env"
  let ?p = "take (unat m) ?c"
  note near = work_near_ok [OF rcv]
  obtain t where t: "emit_packet (on_worker env) ?p s = Inr t" "worked s t" "hears [?p] s t" "same_events s t"
    "tsw_receiver_buffer t = tsw_receiver_buffer s" "read_side (tsw_sender_buffer t) = read_side (tsw_sender_buffer s)" "mute env s t"
    using work_packet_ok [OF env s] by blast
  have "parse_frames ?le (?c @ ys) = prepend [?p] (parse_frames ?le (drop (unat m) ?c @ ys))" for ys
    using is_frame_parse [OF near(2), of "drop (unat m) ?c @ ys"] by (simp flip: append_assoc)
  moreover have "3 \<le> length ?p" using near(2) by (auto simp: is_frame_def)
  then have "work_left (K_Take m) ?c < work_left (K_Near m) ?c"
    by (simp add: work_left_def del: length_ring_contents) linarith
  ultimately have "work_does env n (K_Near m) s (K_Take m) t"
    using work_does_call [OF t(2-7) near(3)] by simp
  moreover have "work_next (on_worker env) (K_Near m) s = Inr (K_Take m, t)"
    using near(1) t(1) by (simp add: work_next_def Let_def)
  ultimately show ?thesis by blast
qed

lemma work_emit_does:
  assumes env: "thread_env env" and s: "conn_inv s"
    and rcv: "receive_ok (env_le env) (tsw_receiver_buffer s) n (K_Emit p)"
  shows "\<exists>w' t. work_next (on_worker env) (K_Emit p) s = Inr (w', t) \<and> work_does env n (K_Emit p) s w' t"
proof -
  have p: "is_frame (env_le env) p" "receive_ok (env_le env) (tsw_receiver_buffer s) n K_Load"
    using rcv by (simp_all add: receive_ok_def)
  obtain t where t: "emit_packet (on_worker env) p s = Inr t" "worked s t" "hears [p] s t" "same_events s t"
    "tsw_receiver_buffer t = tsw_receiver_buffer s" "read_side (tsw_sender_buffer t) = read_side (tsw_sender_buffer s)" "mute env s t"
    using work_packet_ok [OF env s] by blast
  have "3 \<le> length p" using p(1) by (auto simp: is_frame_def)
  then have "work_left K_Load (received s) < work_left (K_Emit p) (received s)"
    by (simp add: work_left_def del: length_ring_contents)
  with work_does_call [OF t(2-7) p(2)] is_frame_parse [OF p(1)]
  have "work_does env n (K_Emit p) s K_Load t" by simp
  moreover have "work_next (on_worker env) (K_Emit p) s = Inr (K_Load, t)"
    using t(1) by (simp add: work_next_def Let_def)
  ultimately show ?thesis by blast
qed

lemma work_next_ok:
  assumes env: "thread_env env" and s: "conn_inv s" and w: "w \<noteq> K_Idle"
    and rcv: "receive_ok (env_le env) (tsw_receiver_buffer s) n w"
    and full: "\<not> (w = K_Load \<and> ring_full s)"
  shows "\<exists>w' t. work_next (on_worker env) w s = Inr (w', t) \<and> work_does env n w s w' t"
proof -
  let ?r = "tsw_receiver_buffer s" and ?c = "received s" and ?le = "env_le env"
  note ring = work_does_ring [OF s, where env = env and n = n and w = w]
  have same: "work_does env n w s w' s" if "receive_ok ?le ?r n w'" "in_hand w' ?c = in_hand w ?c" "work_load w' < work_load w"
    "looking ?c w' \<and> \<not> at_illegal ?le w ?c \<or>
      in_hand w ?c = ?c \<and> (looking ?c w \<longrightarrow> w' = K_Idle \<and> parse_frames ?le ?c = ([], ?c, at_illegal ?le w ?c))" for w'
    using ring [of ?r w'] that by simp
  show ?thesis
  proof (cases w)
    case K_Idle
    with w show ?thesis by simp
  next
    case K_Load
    have "ring_inv ?r" using s by (rule conn_invE)
    then have "length ?c < unat (rb_capacity ?r)"
      using full K_Load ring_length_le [of ?r] by (simp add: ring_full_def)
    from work_load_ok [OF rcv [unfolded K_Load] this] obtain a where
      "ring_AvailableRead ?r = Inr a" "receive_ok ?le ?r n (K_Series a)" "unat a = length ?c" by blast
    with same [of "K_Series a"] K_Load show ?thesis by (simp add: work_next_def del: length_ring_contents)
  next
    case (K_Series a)
    from work_series_ok [OF rcv [unfolded K_Series]] obtain m where m: "ring_AvailableSeriesRead ?r = Inr m"
      "receive_ok ?le ?r n (if a < 2 then K_Idle else K_Head a m)" by blast
    have "a < 2 \<Longrightarrow> unat a = length ?c \<Longrightarrow> parse_frames ?le ?c = ([], ?c, False)"
      by (rule no_frame(1)) (simp add: word_less_nat_alt del: length_ring_contents)
    with same [OF m(2)] m(1) K_Series show ?thesis
      by (auto simp: work_next_def simp del: length_ring_contents)
  next
    case (K_Head a m)
    with work_head_does [OF env s] rcv show ?thesis by simp
  next
    case (K_Near m)
    with work_near_does [OF env s] rcv show ?thesis by simp
  next
    case (K_Take m)
    obtain r where "ring_ConsumeSeriesReadLen ?r m = Inr r" "receive_ok ?le r n K_Load"
      "ring_contents r = drop (unat m) ?c" using work_take_ok [OF rcv [unfolded K_Take]] by blast
    with ring [of r K_Load] consumed_capacity K_Take show ?thesis by (simp add: work_next_def Let_def)
  next
    case (K_Far m k)
    note far = work_far_ok [OF rcv [unfolded K_Far]]
    with same [OF far(2)] K_Far show ?thesis by (simp add: work_next_def Let_def)
  next
    case (K_Wrap bs m k)
    obtain r where "ring_ConsumeSeriesReadLen ?r m = Inr r" "receive_ok ?le r n (K_Rest bs k)"
      "ring_contents r = drop (unat m) ?c" "bs = take (unat m) ?c" using work_wrap_ok [OF rcv [unfolded K_Wrap]] by blast
    with ring [of r "K_Rest bs k"] consumed_capacity K_Wrap show ?thesis by (simp add: work_next_def Let_def)
  next
    case (K_Rest bs k)
    note rest = work_rest_ok [OF rcv [unfolded K_Rest]]
    with same [OF rest(2)] K_Rest show ?thesis by (simp add: work_next_def Let_def)
  next
    case (K_Rest_Take p k)
    obtain r where "ring_ConsumeSeriesReadLen ?r k = Inr r" "receive_ok ?le r n (K_Emit p)"
      "ring_contents r = drop (unat k) ?c" using work_rest_take_ok [OF rcv [unfolded K_Rest_Take]] by blast
    with ring [of r "K_Emit p"] consumed_capacity K_Rest_Take show ?thesis by (simp add: work_next_def Let_def)
  next
    case (K_Emit p)
    with work_emit_does [OF env s] rcv show ?thesis by simp
  qed
qed

lemma work_machine_ok:
  assumes env: "thread_env env" and inv: "th_inv env y" and w: "th_work y \<noteq> K_Idle"
    and full: "\<not> (th_work y = K_Load \<and> ring_full (th_socket y))"
  shows "\<exists>w s. work_next (on_worker env) (th_work y) (th_socket y) = Inr (w, s) \<and> (one_sender y s \<longrightarrow>
    th_inv env (y\<lparr>th_work := w, th_system := settle s (note_output s ((th_system y)\<lparr>sy_broken :=
      sy_broken (th_system y) \<or> at_illegal (env_le env) (th_work y) (received (th_socket y))\<rparr>))\<rparr>))"
proof -
  let ?s = "th_socket y" and ?w = "th_work y"
  note parts = th_inv_parts [OF inv]
  obtain w' t where t: "work_next (on_worker env) ?w ?s = Inr (w', t)" "work_does env (th_net y) ?w ?s w' t"
    using work_next_ok [OF env parts(1) w parts(4) full] by blast
  from t(2) obtain qs where d: "worked ?s t" "hears qs ?s t"
    "same_events ?s t \<or> both_off ?s t \<and> at_illegal (env_le env) ?w (received ?s)"
    "read_side (tsw_sender_buffer t) = read_side (tsw_sender_buffer ?s)"
    "receive_ok (env_le env) (tsw_receiver_buffer t) (th_net y) w'"
    "\<And>ys. parse_frames (env_le env) (in_hand ?w (received ?s) @ ys) =
        prepend qs (parse_frames (env_le env) (in_hand w' (received t) @ ys))"
    "looking (received t) w' \<or> received t = received ?s \<and> (looking (received ?s) ?w \<longrightarrow> fst (parse_frames (env_le env) (received ?s)) = [])"
    unfolding work_does_def Let_def by auto
  have "fst (parse_frames (env_le env) (received t)) \<noteq> [] \<Longrightarrow>
      Work_Process_Buffered \<in> set (sy_work (th_system y)) \<or> th_net y = N_Queue \<or> looking (received t) w'"
    using inv d(7) by (auto simp: th_inv_def input_alive_def)
  from worker_step [OF inv d(1-4) _ d(5,6) this subset_refl] t(1) show ?thesis by simp
qed

end
