(* ===== verification/Tcp_Thread_Net.thy ===== *)
theory Tcp_Thread_Net
  imports Tcp_Thread_System
begin

text \<open>
  The other steps of the three threads: what the worker loop begins with, and all that the network
  loop does. Together: every step keeps the invariant, and none that can be next faults.
\<close>

section \<open>What the worker loop begins with\<close>

lemma work_task_ok:
  assumes env: "thread_env env" and inv: "th_inv env y" and w: "th_work y = K_Idle" "sy_work (th_system y) = p # ps"
  shows "\<exists>w s. work_begin (on_worker env) p (th_socket y) = Inr (w, s) \<and> (one_sender y s \<longrightarrow>
    th_inv env (y\<lparr>th_work := w, th_system := settle s (note_output s ((th_system y)\<lparr>sy_work := ps\<rparr>))\<rparr>))"
proof -
  let ?s = "th_socket y" and ?r = "tsw_receiver_buffer (th_socket y)" and ?n = "th_net y"
  note parts = th_inv_parts [OF inv]
  have before: "fst (parse_frames (env_le env) (received ?s)) \<noteq> [] \<Longrightarrow>
      p = Work_Process_Buffered \<or> Work_Process_Buffered \<in> set ps \<or> ?n = N_Queue"
    using inv w by (auto simp: th_inv_def input_alive_def)
  have sub: "set ps \<subseteq> set (sy_work (th_system y))" using w(2) by auto
  have idle: "receive_ok (env_le env) ?r ?n K_Idle" "receive_ok (env_le env) ?r ?n K_Load"
    using parts(4) by (simp_all add: receive_ok_def)
  have refl: "worked ?s ?s" "hears [] ?s ?s" "same_events ?s ?s"
    using parts by (simp_all add: worked_refl hears_def same_events_def)
  note same = worker_step [OF inv refl(1,2) _ _ _ _ _ _ sub, where b = False]
  show ?thesis
  proof (cases "p = Work_Process_Buffered")
    case True
    with same [of K_Load] refl(3) idle(2) w(1) show ?thesis by (simp add: work_begin_def one_sender_def)
  next
    case False
    have out: "\<exists>w s. work_begin (on_worker env) p ?s = Inr (w, s) \<and> (one_sender y s \<longrightarrow>
        th_inv env (y\<lparr>th_work := w, th_system := settle s (note_output s ((th_system y)\<lparr>sy_work := ps\<rparr>))\<rparr>))"
      if call: "run_work (on_worker env) p ?s = emit (on_worker env) sig ?s" and none: "packets_of [sig] = []" for sig
    proof -
      obtain t where t: "emit (on_worker env) sig ?s = Inr t" "worked ?s t" "hears [] ?s t" "same_events ?s t"
        "tsw_receiver_buffer t = ?r" "read_side (tsw_sender_buffer t) = read_side (tsw_sender_buffer ?s)"
        using work_signal_ok [OF env parts(1) none] by blast
      have "one_sender y t \<longrightarrow> th_inv env (y\<lparr>th_work := K_Idle,
          th_system := settle t (note_output t ((th_system y)\<lparr>sy_work := ps\<rparr>))\<rparr>)"
        using worker_step [OF inv t(2,3) _ t(6) _ _ _ _ sub, of False K_Idle] t(4,5) idle(1) w(1) before False by auto
      with call t(1) False show ?thesis by (simp add: work_begin_def)
    qed
    have same: "th_inv env (y\<lparr>th_work := K_Idle, th_system := settle ?s (note_output ?s ((th_system y)\<lparr>sy_work := ps\<rparr>))\<rparr>)"
      using same [of K_Idle] refl(3) idle(1) w(1) before False by (auto simp: one_sender_def)
    show ?thesis
    proof (cases "p = Work_Destroy_Socket")
      case True
      let ?t = "OnDestroySocket ?s"
      have closed: "sy_closed (th_system y)"
        using inv w(2) True by (auto simp: th_inv_def control_def close_ok_def)
      have "conn_inv ?t" using parts(1) by (simp add: OnDestroySocket_def conn_inv_history)
      then have "th_inv env (y\<lparr>th_user := th_user y, th_work := K_Idle, th_system := settle ?t (note_output ?t
          ((th_system y)\<lparr>sy_work := ps, sy_broken := sy_broken (th_system y) \<or> False\<rparr>))\<rparr>)"
        using parts idle(1) sub before False w(1) closed
        by (intro producer_step [OF inv, where ps = "[]" and qs = "[]" and d = "[]"])
          (auto simp: OnDestroySocket_def same_events_def hears_def)
      then show ?thesis using True by (simp add: work_begin_def)
    qed (use False same out [of Signal_On_Close] out [of Signal_On_Connected] in
      \<open>cases p; simp add: work_begin_def\<close>)
  qed
qed

section \<open>A step of the network loop\<close>

lemma no_start_ok: "\<not> list_ex start_post (sy_net y) \<Longrightarrow> start_ok y"
  by (cases "sy_net y") (auto simp: start_ok_def)

text \<open>Within its machines and at an event no start waits, and it may work.\<close>

lemma net_control:
  assumes "control y n" "net_free y" "conn_inv t" "tsw_share_this_helper t = tsw_share_this_helper (sy_socket y)"
    "events_set t = events_set (sy_socket y)" "tsw_posts t = ps"
    "set ps \<subseteq> {Work_Process_Buffered, Work_Close_Signal, Work_Connected_Signal}"
    "sy_net z = sy_net y" "sy_work z = sy_work y" "sy_closed z = sy_closed y" "sy_late z = sy_late y"
  shows "control (settle t z) n'"
proof -
  have "filter is_net_post ps = []" "Work_Destroy_Socket \<notin> set ps" using assms(7) by (auto simp: filter_empty_conv)
  then have "net_free (settle t z)" "close_ok (settle t z)"
    using assms by (auto simp: net_free_def control_def close_ok_def)
  with assms(3) show ?thesis by (simp add: control_def no_start_ok net_free_def)
qed

lemma consumer_step:
  fixes y :: tcp_threads and t :: tcp_socket
  defines "sys \<equiv> th_system y" and "s \<equiv> sy_socket (th_system y)" and "n \<equiv> th_net y"
  assumes inv: "th_inv env y" and c: "control (settle t z) n'"
    and z: "sy_work z = sy_work sys" "sy_early z = sy_early sys" "sy_broken z = sy_broken sys"
      "sy_output z = sy_output sys" "sy_taken z = sy_taken sys @ new"
    and snd: "send_ok (tsw_sender_buffer t) (th_user y) n'"
      "tsw_wire t @ drop (sent_of n') (unsent t) = tsw_wire s @ drop (sent_of n) (unsent s)"
      "unsent s = [] \<longrightarrow> unsent t = []"
    and rcv: "receive_ok (env_le env) (tsw_receiver_buffer t) n' (th_work y)"
      "in_hand (th_work y) (received t) @ got_of n' = in_hand (th_work y) (received s) @ got_of n @ new"
      "packets_of (tsw_signals t) = packets_of (tsw_signals s)" "tsw_SignalReadPacket t = tsw_SignalReadPacket s"
    and inp: "received t = received s \<and> n \<noteq> N_Queue \<or> n' = N_Queue \<or> Work_Process_Buffered \<in> set (tsw_posts t)"
    and out: "write_wired s \<longrightarrow> write_wired t"
      "\<lbrakk> write_wired s; drained s \<or> writing n \<or> Net_Try_Write \<in> set (sy_net sys) \<rbrakk> \<Longrightarrow>
        drained t \<or> writing n' \<or> Net_Try_Write \<in> set (sy_net z)"
  shows "th_inv env (y\<lparr>th_net := n', th_system := settle t z\<rparr>)"
proof -
  note ps = inv [unfolded th_inv_def, folded s_def sys_def n_def]
  have sock: "sy_socket sys = s" by (simp add: sys_def s_def)
  have "flowing (env_le env) (settle t z) n' (th_work y)"
    using ps snd(2) rcv(2-4) z(4,5) sock
    using relays_step [of "env_le env" "tsw_wire s" "drop (sent_of n) (unsent s)"
      "in_hand (th_work y) (received s) @ got_of n" s "sy_output sys" "sy_taken sys"
      "tsw_wire t" "drop (sent_of n') (unsent t)" "[]" "[]" t new "in_hand (th_work y) (received t) @ got_of n'"]
    by (simp add: flowing_def hears_def Let_def flip: append_assoc)
  moreover have "input_alive (env_le env) (settle t z) n' (th_work y)"
    using ps inp z(1) sock by (auto simp: input_alive_def)
  moreover have "output_alive (settle t z) (th_user y) n'"
  proof -
    have "unsent s = [] \<longrightarrow> drained s \<and> drained t" using snd(3) by (simp add: drained_def)
    then show ?thesis using ps snd(3) out z(2,3) sock by (auto simp: output_alive_def)
  qed
  ultimately show ?thesis using c snd(1) rcv(1) by (simp add: th_inv_def)
qed

text \<open>Where the network loop knows nothing of the rings, any step that leaves them alone is fine.\<close>

fun resting :: "net_pc \<Rightarrow> bool" where
  "resting N_Idle = True"
| "resting N_Load = True"
| "resting (N_Reading answer) = True"
| "resting _ = False"

lemma resting_ok:
  assumes "resting n'"
  shows "send_ok r u n \<Longrightarrow> send_ok r u n'" "receive_ok le q n w \<Longrightarrow> receive_ok le q n' w"
    "sent_of n' = 0" "got_of n' = []"
  using assms by (cases n'; simp add: send_ok_def receive_ok_def net_room_def reader_ok_def writer_ok_def)+

lemma net_plain:
  fixes y :: tcp_threads and t :: tcp_socket
  defines "sys \<equiv> th_system y" and "s \<equiv> sy_socket (th_system y)" and "n \<equiv> th_net y"
  assumes inv: "th_inv env y" and c: "control (settle t z) n'"
    and z: "sy_work z = sy_work sys" "sy_early z = sy_early sys" "sy_broken z = sy_broken sys"
      "sy_output z = sy_output sys" "sy_taken z = sy_taken sys"
    and k: "kept_both s t" "resting n'" "sent_of n = 0" "got_of n = []" "n \<noteq> N_Queue"
    and out: "write_wired s \<longrightarrow> write_wired t"
      "\<lbrakk> write_wired s; drained s \<or> writing n \<or> Net_Try_Write \<in> set (sy_net sys) \<rbrakk> \<Longrightarrow>
        drained t \<or> writing n' \<or> Net_Try_Write \<in> set (sy_net z)"
  shows "th_inv env (y\<lparr>th_net := n', th_system := settle t z\<rparr>)"
proof -
  note parts = th_inv_parts [OF inv] and r = resting_ok [OF k(2)]
  have s: "tsw_signals t = tsw_signals s" "tsw_SignalReadPacket t = tsw_SignalReadPacket s"
    "tsw_receiver_buffer t = tsw_receiver_buffer s" "tsw_sender_buffer t = tsw_sender_buffer s" "tsw_wire t = tsw_wire s"
    using k(1) by (simp_all add: kept_both_def)
  have ok: "send_ok (tsw_sender_buffer t) (th_user y) n'" "receive_ok (env_le env) (tsw_receiver_buffer t) n' (th_work y)"
    using r(1,2) parts(3,4) s by (auto simp: s_def n_def)
  show ?thesis
    using z s r(3,4) k(3-5) out ok(1,2)
    by (intro consumer_step [OF inv c, where new = "[]"]; simp add: sys_def s_def n_def)
qed

lemma net_rest:
  assumes inv: "th_inv env y" and n: "th_net y \<noteq> N_Idle" "resting n'" "sent_of (th_net y) = 0" "got_of (th_net y) = []"
      "th_net y \<noteq> N_Queue"
    and t: "conn_inv t" "kept_both (th_socket y) t" "tsw_share_this_helper t = tsw_share_this_helper (th_socket y)"
      "events_set t = events_set (th_socket y)" "write_wired (th_socket y) \<longrightarrow> write_wired t"
      "tsw_posts t = ps" "set ps \<subseteq> {Work_Process_Buffered, Work_Close_Signal, Work_Connected_Signal}"
    and out: "\<lbrakk> write_wired (th_socket y); drained (th_socket y) \<or> writing (th_net y) \<rbrakk> \<Longrightarrow> drained t \<or> writing n'"
  shows "th_inv env (y\<lparr>th_net := n', th_system := settle t (th_system y)\<rparr>)"
proof -
  have "control (th_system y) (th_net y)" "net_free (th_system y)"
    using inv n(1) by (auto simp: th_inv_def control_def)
  from net_control [OF this t(1,3,4,6,7) refl refl refl refl] have "control (settle t (th_system y)) n'" .
  from net_plain [OF inv this] n t(2,5) out show ?thesis by blast
qed

lemma thread_env_net:
  assumes "thread_env env"
  shows "system_env env" "kernel_ok (on_network env)" "\<not> env_in_worker (on_network env)"
  using assms system_env_net [of env] by (simp_all add: thread_env_def)

lemma OnErrorEvent_on_network:
  assumes "conn_inv s"
  shows "OnErrorEvent (on_network env) s = Inr (error_socket s)"
  using assms by (intro OnErrorEvent_net) (auto simp: on_network_def elim: conn_invE)

lemma error_rest:
  assumes inv: "th_inv env y" and n: "th_net y \<noteq> N_Idle" "sent_of (th_net y) = 0" "got_of (th_net y) = []" "th_net y \<noteq> N_Queue"
  shows "th_inv env (y\<lparr>th_net := N_Idle,
    th_system := settle (error_socket ((th_socket y)\<lparr>tsw_sends := k\<rparr>)) (th_system y)\<rparr>)"
proof -
  let ?s = "(th_socket y)\<lparr>tsw_sends := k\<rparr>"
  note parts = th_inv_parts [OF inv]
  have "conn_inv ?s" using parts(1) by (simp add: conn_inv_history)
  note m = error_socket_moved [OF this]
  have w: "events_set ?s = events_set (th_socket y)" "write_wired ?s = write_wired (th_socket y)"
    by (simp_all add: events_set_def write_wired_def)
  have "kept_both (th_socket y) (error_socket ?s)" by (simp add: kept_both_def error_socket_def)
  with m w parts(2) n show ?thesis
    by (intro net_rest [OF inv, where ps = "if tsw_SignalOnCloseEvent (th_socket y) then [Work_Close_Signal] else []"])
      (auto simp: net_moved_def error_socket_def)
qed

lemma add_rest:
  assumes inv: "th_inv env y" and n: "th_net y \<noteq> N_Idle" "sent_of (th_net y) = 0" "got_of (th_net y) = []" "th_net y \<noteq> N_Queue"
  shows "\<exists>t. on_write_event (tcp_event_add None) ((th_socket y)\<lparr>tsw_sends := k\<rparr>) = Inr t \<and>
    th_inv env (y\<lparr>th_net := N_Idle, th_system := settle t (th_system y)\<rparr>)"
proof -
  let ?s = "th_socket y"
  note parts = th_inv_parts [OF inv]
  from parts(1) obtain e f where ev: "tsw_socket_read_event ?s = Some e" "tsw_socket_write_event ?s = Some f"
    "conn_events (tsw_state ?s) e f" "ring_inv (tsw_sender_buffer ?s)" "ring_inv (tsw_receiver_buffer ?s)"
    by (rule conn_invE)
  let ?t = "?s\<lparr>tsw_sends := k, tsw_socket_write_event := Some (tcp_event_add None f)\<rparr>"
  have c: "conn_inv ?t" using ev by (auto simp: conn_inv_def conn_events_def)
  have t: "kept_both ?s ?t" "events_set ?t = events_set ?s" "write_wired ?s \<longrightarrow> write_wired ?t"
    "write_wired ?s \<longrightarrow> drained ?t"
    using ev(2) by (auto simp: kept_both_def events_set_def write_wired_def drained_def write_pending_def)
  have "th_inv env (y\<lparr>th_net := N_Idle, th_system := settle ?t (th_system y)\<rparr>)"
    by (rule net_rest [OF inv n(1) _ n(2-4) c t(1) _ t(2,3), where ps = "[]"])
      (use parts(2) t(4) in \<open>simp_all\<close>)
  moreover have "on_write_event (tcp_event_add None) (?s\<lparr>tsw_sends := k\<rparr>) = Inr ?t"
    using ev(2) by (simp add: on_write_event_def)
  ultimately show ?thesis by blast
qed

text \<open>The machines that write to the socket and read from it.\<close>

lemma net_ring:
  fixes y :: tcp_threads and t :: tcp_socket
  defines "sys \<equiv> th_system y" and "s \<equiv> sy_socket (th_system y)" and "n \<equiv> th_net y"
  assumes inv: "th_inv env y" and n: "n \<noteq> N_Idle"
    and t: "t = s\<lparr>tsw_sender_buffer := r, tsw_receiver_buffer := q, tsw_sends := k, tsw_wire := w, tsw_posts := ps\<rparr>"
      "set ps \<subseteq> {Work_Process_Buffered}"
    and snd: "send_ok r (th_user y) n'" "w @ drop (sent_of n') (ring_contents r) = tsw_wire s @ drop (sent_of n) (unsent s)"
      "unsent s = [] \<longrightarrow> ring_contents r = []"
    and rcv: "receive_ok (env_le env) q n' (th_work y)"
      "in_hand (th_work y) (ring_contents q) @ got_of n' = in_hand (th_work y) (received s) @ got_of n @ new"
      "ring_contents q = received s \<and> n \<noteq> N_Queue \<or> n' = N_Queue \<or> ps \<noteq> []"
    and out: "writing n \<Longrightarrow> ring_contents r = [] \<or> writing n'"
      "ring_contents r = unsent s \<or> writing n'"
  shows "th_inv env (y\<lparr>th_net := n', th_system := settle t (sys\<lparr>sy_taken := sy_taken sys @ new\<rparr>)\<rparr>)"
proof -
  note parts = th_inv_parts [OF inv]
  have ctl: "control sys n" "net_free sys"
    using inv n by (auto simp: th_inv_def control_def sys_def n_def)
  have conn: "conn_inv t" using parts(1) snd(1) rcv(1) by (simp add: t s_def conn_inv_def send_ok_def receive_ok_def)
  have w: "events_set t = events_set s" "write_wired t = write_wired s" "write_pending t = write_pending s"
    by (simp_all add: t events_set_def write_wired_def write_pending_def)
  have "control (settle t (sys\<lparr>sy_taken := sy_taken sys @ new\<rparr>)) n'"
    by (rule net_control [OF ctl conn]) (use w(1) t in \<open>auto simp: sys_def s_def\<close>)
  moreover have "drained s \<Longrightarrow> drained t \<or> writing n'"
    using snd(3) out(2) w(3) by (auto simp: drained_def t)
  moreover have "writing n \<Longrightarrow> drained t \<or> writing n'" using out(1) by (auto simp: drained_def t)
  moreover have "ps \<noteq> [] \<Longrightarrow> Work_Process_Buffered \<in> set ps" using t(2) by (cases ps) auto
  ultimately show ?thesis
    using snd rcv w(2) t(1) unfolding sys_def s_def n_def
    by (intro consumer_step [OF inv]) auto
qed

lemma net_ring_quiet:
  assumes "th_inv env y" "th_net y \<noteq> N_Idle"
    and "send_ok r (th_user y) n'" "receive_ok (env_le env) q n' (th_work y)"
    and "w @ drop (sent_of n') (ring_contents r) = tsw_wire (th_socket y) @ drop (sent_of (th_net y)) (unsent (th_socket y))"
      "unsent (th_socket y) = [] \<longrightarrow> ring_contents r = []"
      "in_hand (th_work y) (ring_contents q) @ got_of n' = in_hand (th_work y) (received (th_socket y)) @ got_of (th_net y) @ new"
      "ring_contents q = received (th_socket y) \<and> th_net y \<noteq> N_Queue \<or> n' = N_Queue"
      "writing (th_net y) \<Longrightarrow> ring_contents r = [] \<or> writing n'" "ring_contents r = unsent (th_socket y) \<or> writing n'"
  shows "th_inv env (y\<lparr>th_net := n', th_system := settle ((th_socket y)\<lparr>tsw_sender_buffer := r, tsw_receiver_buffer := q,
    tsw_sends := k, tsw_wire := w\<rparr>) ((th_system y)\<lparr>sy_taken := sy_taken (th_system y) @ new\<rparr>)\<rparr>)"
proof -
  have "(th_socket y)\<lparr>tsw_sender_buffer := r, tsw_receiver_buffer := q, tsw_sends := k, tsw_wire := w, tsw_posts := []\<rparr> =
      (th_socket y)\<lparr>tsw_sender_buffer := r, tsw_receiver_buffer := q, tsw_sends := k, tsw_wire := w\<rparr>"
    using th_inv_parts(2) [OF assms(1)] by simp
  with net_ring [OF assms(1,2) refl _ assms(3,5,6,4,7) _ assms(9,10), of "[]" k] assms(8) show ?thesis by simp
qed

lemma error_now:
  assumes "conn_inv s"
  shows "OnErrorEvent (on_network env) (s\<lparr>tsw_sends := k\<rparr>) = Inr (error_socket (s\<lparr>tsw_sends := k\<rparr>))"
  using assms by (intro OnErrorEvent_on_network) (simp add: conn_inv_history)

text \<open>A send: the kernel takes some, or is busy, or fails.\<close>

lemma net_have_step:
  assumes env: "thread_env env" and inv: "th_inv env y" and N_Have: "th_net y = N_Have m"
  shows "\<exists>n s. net_next (on_network env) (th_net y) (th_socket y) = Inr (n, s) \<and>
    th_inv env (y\<lparr>th_net := n, th_system := settle s ((th_system y)\<lparr>sy_taken := sy_taken (th_system y) @ got_of n\<rparr>)\<rparr>)"
proof -
  let ?s = "th_socket y" and ?r = "tsw_sender_buffer (th_socket y)" and ?q = "tsw_receiver_buffer (th_socket y)"
  note parts = th_inv_parts [OF inv] and kernel = thread_env_net(2) [OF env]
  have busy: "th_net y \<noteq> N_Idle" using N_Have by simp
  note ring = net_ring_quiet [OF inv busy] and err = error_now [OF parts(1)]
  note offer = net_have_ok [OF parts(3) [unfolded N_Have]]
  let ?bs = "take (unat m) (unsent ?s)"
  obtain k en where k: "env_send env (tsw_sends ?s) ?bs = (k, en)" by (cases "env_send env (tsw_sends ?s) ?bs")
  then have send: "env_send (on_network env) (tsw_sends ?s) ?bs = (k, en)" by (simp add: on_network_def)
  show ?thesis
  proof (cases "k < 0")
    case True
    obtain t where t: "on_write_event (tcp_event_add None) (?s\<lparr>tsw_sends := Suc (tsw_sends ?s)\<rparr>) = Inr t"
      "th_inv env (y\<lparr>th_net := N_Idle, th_system := settle t (th_system y)\<rparr>)"
      using add_rest [OF inv busy, of "Suc (tsw_sends ?s)"] N_Have by auto
    have "th_inv env (y\<lparr>th_net := N_Idle,
        th_system := settle (error_socket (?s\<lparr>tsw_sends := Suc (tsw_sends ?s)\<rparr>)) (th_system y)\<rparr>)"
      using error_rest [OF inv busy] N_Have by simp
    with t offer(1) send True err N_Have show ?thesis by (auto simp: net_next_def Let_def)
  next
    case False
    have "?bs \<noteq> []" using offer(2,3) by (auto simp flip: length_0_conv simp del: length_ring_contents)
    then have "1 \<le> k \<and> k \<le> int (length ?bs)"
      using kernel [unfolded kernel_ok_def, rule_format, of ?bs "tsw_sends ?s"] send False by simp
    moreover have "length ?bs = unat m" using offer(3) by (simp del: length_ring_contents)
    ultimately have k2: "1 \<le> k" "nat k \<le> unat m" by (simp_all only: nat_le_iff)
    have tk: "take (nat k) ?bs = take (nat k) (unsent ?s)" using k2(2) by (simp add: min_def)
    have "unat m \<le> ring_series_read ?r" using parts(3) N_Have by (simp add: send_ok_def reader_ok_def)
    then have snd: "send_ok ?r (th_user y) (N_Sent k)"
      using parts(3) N_Have k2 by (simp add: send_ok_def reader_ok_def)
    have "receive_ok (env_le env) ?q (N_Sent k) (th_work y)"
      using parts(4) N_Have by (simp add: receive_ok_def net_room_def writer_ok_def)
    from ring [OF snd this, where k = "Suc (tsw_sends ?s)" and w = "tsw_wire ?s @ take (nat k) (unsent ?s)" and new = "[]"] N_Have
    have "th_inv env (y\<lparr>th_net := N_Sent k, th_system := settle (?s\<lparr>tsw_sends := Suc (tsw_sends ?s),
        tsw_wire := tsw_wire ?s @ take (nat k) (unsent ?s)\<rparr>) (th_system y)\<rparr>)" by simp
    with offer(1) send False tk N_Have show ?thesis by (simp add: net_next_def Let_def)
  qed
qed

text \<open>A read: it takes some, finds none, or closes.\<close>

lemma net_space_step:
  assumes inv: "th_inv env y" and N_Space: "th_net y = N_Space m answer"
  shows "\<exists>n s. net_next (on_network env) (th_net y) (th_socket y) = Inr (n, s) \<and>
    th_inv env (y\<lparr>th_net := n, th_system := settle s ((th_system y)\<lparr>sy_taken := sy_taken (th_system y) @ got_of n\<rparr>)\<rparr>)"
proof -
  let ?s = "th_socket y" and ?r = "tsw_sender_buffer (th_socket y)" and ?q = "tsw_receiver_buffer (th_socket y)"
  note parts = th_inv_parts [OF inv]
  have busy: "th_net y \<noteq> N_Idle" using N_Space by simp
  note ring = net_ring_quiet [OF inv busy] and err = error_now [OF parts(1)]
  have same: "?s\<lparr>tsw_sends := tsw_sends ?s\<rparr> = ?s" by simp
  have closed: "th_inv env (y\<lparr>th_net := N_Idle, th_system := settle (error_socket ?s) (th_system y)\<rparr>)"
    using error_rest [OF inv busy, of "tsw_sends ?s"] N_Space by simp
  have idle: "send_ok ?r (th_user y) N_Idle" "receive_ok (env_le env) ?q N_Idle (th_work y)"
    using parts(3,4) N_Space by (simp_all add: send_ok_def receive_ok_def net_room_def writer_ok_def)
  have none: "th_inv env (y\<lparr>th_net := N_Idle, th_system := settle ?s (th_system y)\<rparr>)"
    using ring [OF idle(1) idle(2), where k = "tsw_sends ?s" and w = "tsw_wire ?s" and new = "[]"] N_Space by simp
  show ?thesis
  proof (cases answer)
    case (Sys_Error errno)
    with closed none err [of env "tsw_sends ?s"] N_Space show ?thesis by (simp add: net_next_def)
  next
    case (Sys_Data bytes)
    let ?bs = "take (unat m) bytes"
    show ?thesis
    proof (cases "?bs = []")
      case True
      with closed err [of env "tsw_sends ?s"] N_Space Sys_Data show ?thesis by (simp add: net_next_def Let_def)
    next
      case False
      obtain d where d: "mem_write (rb_data ?q) (unat (ring_CurrentSeriesWriteHead ?q)) ?bs = Inr d"
        "receive_ok (env_le env) (?q\<lparr>rb_data := d\<rparr>) (N_Got ?bs) (th_work y)"
        "ring_contents (?q\<lparr>rb_data := d\<rparr>) = received ?s"
        using net_got_ok [OF parts(4) [unfolded N_Space], of ?bs] by auto
      have "send_ok ?r (th_user y) (N_Got ?bs)" using parts(3) N_Space by (simp add: send_ok_def)
      from ring [OF this d(2), where k = "tsw_sends ?s" and w = "tsw_wire ?s" and new = "?bs"]
        d(1,3) N_Space Sys_Data False
      show ?thesis by (simp add: net_next_def Let_def del: take_eq_Nil)
    qed
  qed
qed

lemma net_machine_ok:
  assumes env: "thread_env env" and inv: "th_inv env y" and n: "th_net y \<noteq> N_Idle"
  shows "\<exists>n s. net_next (on_network env) (th_net y) (th_socket y) = Inr (n, s) \<and>
    th_inv env (y\<lparr>th_net := n, th_system := settle s ((th_system y)\<lparr>sy_taken := sy_taken (th_system y) @ got_of n\<rparr>)\<rparr>)"
proof -
  let ?s = "th_socket y" and ?r = "tsw_sender_buffer (th_socket y)" and ?q = "tsw_receiver_buffer (th_socket y)"
  note parts = th_inv_parts [OF inv]
  note ring = net_ring_quiet [OF inv n]
  show ?thesis
  proof (cases "th_net y")
    case N_Idle
    with n show ?thesis by simp
  next
    case N_Load
    obtain m where m: "ring_AvailableSeriesRead ?r = Inr m" "send_ok ?r (th_user y) (if m > 0 then N_Have m else N_Idle)"
      "m = 0 \<longrightarrow> unsent ?s = []" using net_load_ok [OF parts(3)] N_Load by auto
    let ?n = "if m > 0 then N_Have m else N_Idle"
    have "receive_ok (env_le env) ?q ?n (th_work y)"
      using parts(4) N_Load by (simp add: receive_ok_def net_room_def writer_ok_def)
    note step = ring [OF m(2) this, where k = "tsw_sends ?s" and w = "tsw_wire ?s" and new = "[]"]
    show ?thesis
    proof (cases "m = 0")
      case True
      with step m N_Load show ?thesis by (simp add: net_next_def)
    next
      case False
      then have "m > 0" by (simp add: word_gt_0)
      with step m(1) N_Load show ?thesis by (simp add: net_next_def)
    qed
  next
    case (N_Have m)
    with net_have_step [OF env inv] show ?thesis by simp
  next
    case (N_Sent k)
    obtain r where r: "ring_ConsumeSeriesReadLen ?r (word_of_int k) = Inr r" "send_ok r (th_user y) N_Load"
      "ring_contents r = drop (nat k) (unsent ?s)" using net_sent_ok [OF parts(3) [unfolded N_Sent]] by blast
    have "receive_ok (env_le env) ?q N_Load (th_work y)"
      using parts(4) N_Sent by (simp add: receive_ok_def net_room_def writer_ok_def)
    from ring [OF r(2) this, where k = "tsw_sends ?s" and w = "tsw_wire ?s" and new = "[]"] r(1,3) N_Sent
    show ?thesis by (simp add: net_next_def)
  next
    case (N_Reading answer)
    obtain m where m: "ring_AvailableSeriesWrite ?q = Inr m" "receive_ok (env_le env) ?q (N_Space m answer) (th_work y)"
      using net_reading_ok [OF parts(4)] N_Reading by auto
    have "send_ok ?r (th_user y) (N_Space m answer)" using parts(3) N_Reading by (simp add: send_ok_def)
    from ring [OF this m(2), where k = "tsw_sends ?s" and w = "tsw_wire ?s" and new = "[]"] m(1) N_Reading
    show ?thesis by (simp add: net_next_def)
  next
    case (N_Space m answer)
    with net_space_step [OF inv] show ?thesis by simp
  next
    case (N_Got bs)
    obtain q where q: "ring_ConsumeSeriesWriteLen ?q (of_nat (length bs)) = Inr q"
      "receive_ok (env_le env) q N_Queue (th_work y)" "ring_contents q = received ?s @ bs"
      using net_publish_ok [OF parts(4) [unfolded N_Got]] by blast
    have snd: "send_ok ?r (th_user y) N_Queue" using parts(3) N_Got by (simp add: send_ok_def)
    have "in_hand (th_work y) (ring_contents q) = in_hand (th_work y) (received ?s) @ bs"
      unfolding q(3) using parts(4) by (intro in_hand_append [of "env_le env"]) (simp add: receive_ok_def)
    with ring [OF snd q(2), where k = "tsw_sends ?s" and w = "tsw_wire ?s" and new = "[]"] q(1) N_Got
    show ?thesis by (simp add: net_next_def)
  next
    case N_Queue
    have idle: "send_ok ?r (th_user y) N_Idle" "receive_ok (env_le env) ?q N_Idle (th_work y)"
      using parts(3,4) N_Queue by (simp_all add: send_ok_def receive_ok_def net_room_def writer_ok_def)
    from net_ring [where t = "post Work_Process_Buffered ?s" and k = "tsw_sends ?s" and w = "tsw_wire ?s" and ps = "[Work_Process_Buffered]" and new = "[]",
        OF inv n _ _ idle(1) _ _ idle(2)]
      N_Queue parts(2) show ?thesis by (simp add: net_next_def post_def)
  qed
qed

end
