(* ===== verification/Tcp_Thread_Runs.thy ===== *)
theory Tcp_Thread_Runs
  imports Tcp_Thread_Net
begin

text \<open>
  The three threads from the start of a connection on: every step keeps the invariant, whatever the
  interleaving, so the system of the three threads is an end of a connection like the systems whose
  operations run one at a time.
\<close>

section \<open>What the network loop begins with\<close>

text \<open>Starts and the close are those of Tcp_Loops, whose invariant has the same part for the control.\<close>

definition opened :: "tcp_system \<Rightarrow> tcp_system" where
  "opened y = y\<lparr>sy_early := True, sy_work := Work_Process_Buffered # sy_work y\<rparr>"

lemma control_opened:
  "control y N_Idle \<longleftrightarrow> sys_inv env (opened y)"
  by (simp add: control_def sys_inv_def opened_def start_ok_def close_ok_def input_ok_def output_ok_def
    cong: list.case_cong)

lemma opened_settle: "settle t (opened y) = opened (settle t y)"
  by (simp add: opened_def settle_def)

lemma start_control:
  assumes "control y N_Idle" "sy_net y = p # n" "start_post p" "started (sy_socket y) t"
  shows "control (settle t (y\<lparr>sy_net := n\<rparr>)) N_Idle"
proof -
  have "sys_inv env (opened y)" for env using assms(1) control_opened by blast
  from start_inv [OF this, of p n t] assms have "sys_inv env (settle t ((opened y)\<lparr>sy_net := n\<rparr>))" for env
    by (simp add: opened_def)
  moreover have "settle t ((opened y)\<lparr>sy_net := n\<rparr>) = opened (settle t (y\<lparr>sy_net := n\<rparr>))"
    by (simp add: opened_def settle_def)
  ultimately show ?thesis using control_opened by metis
qed

lemma close_control:
  assumes "control y N_Idle" "sy_net y = Net_Close_Connection # n" "\<not> env_in_worker env"
  shows "control (settle (CloseConnectionInNetworkLoop env (sy_socket y)) (y\<lparr>sy_net := n, sy_closed := True\<rparr>)) N_Idle"
proof -
  have "sys_inv env (opened y)" using assms(1) control_opened by blast
  from close_inv [OF this _ assms(3), of n] assms
  have "sys_inv env (settle (CloseConnectionInNetworkLoop env (sy_socket y)) ((opened y)\<lparr>sy_net := n, sy_closed := True\<rparr>))"
    by (simp add: opened_def)
  moreover have "settle t ((opened y)\<lparr>sy_net := n, sy_closed := True\<rparr>) = opened (settle t (y\<lparr>sy_net := n, sy_closed := True\<rparr>))" for t
    by (simp add: opened_def settle_def)
  ultimately show ?thesis using control_opened by metis
qed

text \<open>A post that starts nothing may be taken off the queue.\<close>

lemma taken_control:
  assumes "control y N_Idle" "sy_net y = p # n" "\<not> start_post p"
    "sy_closed y \<longrightarrow> l \<or> n' = N_Idle"
  shows "control (settle (sy_socket y) (y\<lparr>sy_net := n, sy_late := sy_late y \<or> l\<rparr>)) n'"
proof -
  have "\<not> list_ex start_post n" using assms(1,2) by (auto simp: control_def start_ok_def)
  with assms show ?thesis
    by (auto simp: control_def close_ok_def net_free_def intro!: no_start_ok)
qed

lemma write_wired_events: "write_wired s \<Longrightarrow> conn_inv s \<Longrightarrow> events_set s"
  by (auto simp: write_wired_def events_set_def conn_events_def elim!: conn_invE)

lemma net_task_ok:
  assumes env: "thread_env env" and inv: "th_inv env y" and n: "th_net y = N_Idle" "sy_net (th_system y) = p # ps"
  shows "\<exists>n s. net_begin (on_network env) answers p (th_socket y) = Some (Inr (n, s)) \<and>
    th_inv env (y\<lparr>th_net := n, th_system := settle s ((th_system y)\<lparr>sy_net := ps,
      sy_closed := sy_closed (th_system y) \<or> p = Net_Close_Connection,
      sy_late := sy_late (th_system y) \<or> sy_closed (th_system y) \<and> p = Net_Try_Write\<rparr>)\<rparr>)"
proof -
  obtain fd conn nb where a: "answers = (fd, conn, nb)" by (cases answers) auto
  let ?y = "th_system y" and ?s = "th_socket y"
  note parts = th_inv_parts [OF inv] and k = thread_env_net [OF env]
  have ctl: "control ?y N_Idle" using inv n(1) by (simp add: th_inv_def)
  have same: "?y\<lparr>sy_net := ps, sy_closed := sy_closed ?y, sy_late := l\<rparr> = ?y\<lparr>sy_net := ps, sy_late := l\<rparr>" for l
    by simp
  have plain: "th_inv env (y\<lparr>th_net := n', th_system := settle t z\<rparr>)"
    if "control (settle t z) n'" "sy_work z = sy_work ?y" "sy_early z = sy_early ?y" "sy_broken z = sy_broken ?y"
      "sy_output z = sy_output ?y" "sy_taken z = sy_taken ?y" "kept_both ?s t" "resting n'"
      "write_wired ?s \<longrightarrow> write_wired t"
      "\<lbrakk> write_wired ?s; drained ?s \<or> Net_Try_Write \<in> set (sy_net ?y) \<rbrakk> \<Longrightarrow>
        drained t \<or> writing n' \<or> Net_Try_Write \<in> set (sy_net z)" for t z n'
    using net_plain [OF inv that(1-8)] n(1) that(9,10) by simp
  consider (start) "start_post p" | (close) "p = Net_Close_Connection" | (flush) "p = Net_Try_Write"
    | (other) "\<not> start_post p" "p \<noteq> Net_Close_Connection" "p \<noteq> Net_Try_Write" by blast
  then show ?thesis
  proof cases
    case start
    then have st: "all_off ?s" "\<not> events_set ?s" "p = Net_Connect_Server \<longrightarrow> tsw_share_this_helper ?s"
      using ctl n(2) by (auto simp: control_def start_ok_def)
    obtain t where t: "run_net (on_network env) answers p ?s = Some (Inr t)" "started ?s t"
      using start st Connect_net [OF parts(1) st(1,2) _ k(1), of fd conn] Begin_net [OF parts(1) st(1,2) k(1), of nb]
      by (cases p) (auto simp: a)
    have "kept_both ?s t" using t(1) start start_kept [OF k(3)] by (cases p) (auto simp: a)
    moreover have "\<not> write_wired ?s" using st(2) write_wired_events parts(1) by blast
    moreover note start_control [OF ctl n(2) start t(2)]
    ultimately have "th_inv env (y\<lparr>th_net := N_Idle, th_system := settle t (?y\<lparr>sy_net := ps\<rparr>)\<rparr>)"
      by (intro plain) simp_all
    moreover have "p \<noteq> Net_Close_Connection" "p \<noteq> Net_Try_Write" using start by auto
    ultimately show ?thesis using t(1) by (simp add: net_begin_def)
  next
    case close
    let ?t = "CloseConnectionInNetworkLoop (on_network env) ?s"
    note c = Close_net [OF parts(1) k(3)]
    have "kept_both ?s ?t" by (simp add: kept_both_def CloseConnectionInNetworkLoop_def on_network_def post_def Let_def)
    moreover have "drained ?t" using c(2) by (simp add: all_off_def drained_def)
    moreover have "control (settle ?t (?y\<lparr>sy_net := ps, sy_closed := True\<rparr>)) N_Idle"
      using close_control [OF ctl _ k(3)] n(2) close by simp
    ultimately have "th_inv env (y\<lparr>th_net := N_Idle, th_system := settle ?t (?y\<lparr>sy_net := ps, sy_closed := True\<rparr>)\<rparr>)"
      using c(6) by (intro plain) simp_all
    with close show ?thesis by (simp add: net_begin_def a)
  next
    case flush
    have "control (settle ?s (?y\<lparr>sy_net := ps, sy_late := sy_late ?y \<or> sy_closed ?y\<rparr>)) N_Load"
      using flush by (intro taken_control [OF ctl n(2)]) simp_all
    then have "th_inv env (y\<lparr>th_net := N_Load, th_system := settle ?s (?y\<lparr>sy_net := ps, sy_late := sy_late ?y \<or> sy_closed ?y\<rparr>)\<rparr>)"
      by (intro plain) (simp_all add: kept_both_def)
    with flush show ?thesis by (simp add: net_begin_def same)
  next
    case other
    have "control (settle ?s (?y\<lparr>sy_net := ps, sy_late := sy_late ?y \<or> False\<rparr>)) N_Idle"
      using other by (intro taken_control [OF ctl n(2)]) simp_all
    then have "th_inv env (y\<lparr>th_net := N_Idle, th_system := settle ?s (?y\<lparr>sy_net := ps, sy_late := sy_late ?y\<rparr>)\<rparr>)"
      using other n(2) by (intro plain) (simp_all add: kept_both_def)
    moreover have "run_net (on_network env) answers p ?s = Some (Inr ?s)" using other by (cases p) (simp_all add: a)
    ultimately show ?thesis using other by (simp add: net_begin_def same)
  qed
qed

text \<open>An event that has fired.\<close>

lemma registered_free:
  assumes "control y N_Idle" "\<not> all_off (sy_socket y)"
  shows "net_free y"
  using assms by (cases "sy_net y") (auto simp: net_free_def control_def start_ok_def close_ok_def)

lemma event_rest:
  assumes inv: "th_inv env y" and n: "th_net y = N_Idle" "\<not> all_off (th_socket y)" "resting n'"
    and t: "conn_inv t" "kept_both (th_socket y) t" "tsw_share_this_helper t = tsw_share_this_helper (th_socket y)"
      "events_set t = events_set (th_socket y)" "write_wired (th_socket y) \<longrightarrow> write_wired t"
      "tsw_posts t = ps" "set ps \<subseteq> {Work_Process_Buffered, Work_Close_Signal, Work_Connected_Signal}"
    and out: "\<lbrakk> write_wired (th_socket y); drained (th_socket y) \<rbrakk> \<Longrightarrow> drained t \<or> writing n'"
  shows "th_inv env (y\<lparr>th_net := n', th_system := settle t (th_system y)\<rparr>)"
proof -
  have c: "control (th_system y) N_Idle" using inv n(1) by (simp add: th_inv_def)
  from net_control [OF c registered_free [OF c n(2)] t(1,3,4,6,7) refl refl refl refl]
  have "control (settle t (th_system y)) n'" .
  from net_plain [OF inv this] n t(2,5) out show ?thesis by auto
qed

lemma OnConnection_kept:
  assumes "OnConnection env so_error event a s = Inr t" "\<not> env_in_worker env"
  shows "kept_both s t"
proof -
  have "kept_both s t" if "ClientConnected env s = Inr t"
    using that assms(2)
    by (auto simp: ClientConnected_def rbind_eq_Inr on_read_event_def on_write_event_def
      post_def kept_both_def Let_def split: if_splits option.splits)
  with assms OnErrorEvent_kept show ?thesis
    by (auto simp: OnConnection_def kept_both_def split: if_splits)
qed

lemma read_begin_ok:
  assumes inv: "th_inv env y" and n: "th_net y = N_Idle" "read_registered (th_socket y)"
  shows "\<exists>n s. read_begin (on_network env) answer (th_socket y) = Inr (n, s) \<and>
    th_inv env (y\<lparr>th_net := n, th_system := settle s (th_system y)\<rparr>)"
proof -
  let ?s = "th_socket y"
  note parts = th_inv_parts [OF inv]
  from parts(1) n(2) obtain e f where ev: "tsw_socket_read_event ?s = Some e" "ev_added e" "conn_events (tsw_state ?s) e f"
    by (auto simp: read_registered_def elim!: conn_invE)
  then obtain a where a: "ev_callback e = Some (On_Read_Event, a)" by (auto simp: conn_events_def)
  let ?t = "?s\<lparr>tsw_socket_read_event := Some (event_fired e)\<rparr>"
  let ?n = "if a \<and> tsw_state ?s = CS_CONNECTED then N_Reading answer else N_Idle"
  have t: "kept_both ?s ?t" "events_set ?t = events_set ?s" "write_wired ?t = write_wired ?s" "drained ?t = drained ?s"
    using ev(1) by (auto simp: kept_both_def events_set_def write_wired_def drained_def write_pending_def)
  have "th_inv env (y\<lparr>th_net := ?n, th_system := settle ?t (th_system y)\<rparr>)"
    by (rule event_rest [OF inv n(1) registered_on(1) [OF n(2)] _ read_fired_inv [OF parts(1) ev(1)] t(1) _ t(2), where ps = "[]"])
      (use t parts(2) in simp_all)
  moreover have "read_begin (on_network env) answer ?s = Inr (?n, ?t)"
    using ev(1) a by (simp add: read_begin_def)
  ultimately show ?thesis by blast
qed

lemma write_begin_ok:
  assumes env: "thread_env env" and inv: "th_inv env y" and n: "th_net y = N_Idle" "write_pending (th_socket y)"
    and event: "event = EV_WRITE \<or> event = EV_TIMEOUT \<and> tsw_state (th_socket y) = CS_CONNECTING"
  shows "\<exists>n s. write_begin (on_network env) so_error event (th_socket y) = Inr (n, s) \<and>
    th_inv env (y\<lparr>th_net := n, th_system := settle s (th_system y)\<rparr>)"
proof -
  let ?s = "th_socket y"
  note parts = th_inv_parts [OF inv] and k = thread_env_net [OF env]
  note rest = event_rest [OF inv n(1) registered_on(2) [OF n(2)]]
  from parts(1) n(2) obtain e f where ev: "tsw_socket_read_event ?s = Some e" "tsw_socket_write_event ?s = Some f"
    "ev_added f" "conn_events (tsw_state ?s) e f"
    by (auto simp: write_pending_def elim!: conn_invE)
  let ?t = "?s\<lparr>tsw_socket_write_event := Some (event_fired f)\<rparr>"
  from ev obtain a where "ev_callback f = Some (On_Connection, a) \<or> ev_callback f = Some (On_Write_Event, a)"
    by (auto simp: conn_events_def)
  then show ?thesis
  proof
    assume a: "ev_callback f = Some (On_Connection, a)"
    obtain t where t: "fire_write (on_network env) so_error event ?s = Some (Inr t)" "net_moved ?s t"
      using fire_write_net [OF parts(1) n(2) k(1) event] by blast
    then have on: "OnConnection (on_network env) so_error event a ?t = Inr t" using ev(2) a by (simp add: fire_write_def)
    have "kept_both ?s ?t" by (simp add: kept_both_def)
    then have kept: "kept_both ?s t" using OnConnection_kept [OF on k(3)] by (simp add: kept_both_def)
    obtain ps where "tsw_posts t = ps" "set ps \<subseteq> {Work_Process_Buffered, Work_Close_Signal, Work_Connected_Signal}"
      using t(2) parts(2) by (auto simp: net_moved_def)
    moreover have "conn_inv t" "tsw_share_this_helper t = tsw_share_this_helper ?s" "events_set t = events_set ?s"
      "write_wired ?s \<longrightarrow> write_wired t" "write_wired ?s \<longrightarrow> drained ?s \<longrightarrow> drained t"
      using t(2) by (simp_all add: net_moved_def)
    ultimately have "th_inv env (y\<lparr>th_net := N_Idle, th_system := settle t (th_system y)\<rparr>)"
      using kept by (intro rest) simp_all
    moreover have "write_begin (on_network env) so_error event ?s = Inr (N_Idle, t)"
      using ev(2) a on by (simp add: write_begin_def)
    ultimately show ?thesis by blast
  next
    assume a: "ev_callback f = Some (On_Write_Event, a)"
    have t: "kept_both ?s ?t" "events_set ?t = events_set ?s" "write_wired ?t = write_wired ?s"
      "write_wired ?s \<Longrightarrow> a"
      using ev(2) a by (auto simp: kept_both_def events_set_def write_wired_def)
    have "th_inv env (y\<lparr>th_net := if a then N_Load else N_Idle, th_system := settle ?t (th_system y)\<rparr>)"
      by (rule rest [OF _ fired_inv [OF parts(1) ev(2)] t(1) _ t(2), where ps = "[]"])
        (use t parts(2) in simp_all)
    moreover have "write_begin (on_network env) so_error event ?s = Inr (if a then N_Load else N_Idle, ?t)"
      using ev(2) a by (simp add: write_begin_def)
    ultimately show ?thesis by blast
  qed
qed

section \<open>Every step\<close>

lemma send_begin_ok:
  assumes "ring_inv (tsw_sender_buffer s)" "unat len = length data" "2 \<le> length data"
  shows "\<exists>u. send_begin env data len s = Inr u \<and> (u = U_Idle \<or> (\<exists>bs. u = U_Write bs \<and> length bs = length data \<and> length bs < 2 ^ 32))"
proof -
  obtain a where a: "ring_AvailableWrite (tsw_sender_buffer s) = Inr a"
    using ring_AvailableWrite_ok [OF assms(1)] by blast
  obtain d where d: "mem_write data 0 (host_bytes (env_le env) 2 (ucast (len - 2) :: u16)) = Inr d" "length d = length data"
    using assms(3) by (auto simp: mem_write_def overlay_def)
  have "\<not> len > 65537 \<Longrightarrow> length data < 2 ^ 32" using assms(2) by (simp add: word_less_nat_alt)
  with a d show ?thesis by (auto simp: send_begin_def)
qed

lemma th_step_inv:
  assumes env: "thread_env env" and inv: "th_inv env y" and step: "th_step env y z"
  shows "th_inv env z"
proof -
  note parts = th_inv_parts [OF inv]
  show ?thesis
    using step
  proof cases
    case (send len data u)
    then have u: "send_ok (tsw_sender_buffer (th_socket y)) u (th_net y)"
      using send_begin_ok [OF parts(5), of len data env] parts(3) by (auto simp: send_ok_def)
    have "output_alive (th_system y) u (th_net y)" using inv send(2) by (auto simp: th_inv_def output_alive_def)
    with u inv send(1) show ?thesis by (simp add: th_inv_def)
  next
    case (send_head buff)
    have "output_alive (th_system y) (U_Write buff) (th_net y)"
      using inv send_head(2) by (auto simp: th_inv_def output_alive_def)
    with inv send_head show ?thesis by (simp add: th_inv_def send_ok_def)
  next
    case (user u s)
    with user_step_ok [OF inv user(2)] show ?thesis by auto
  next
    case user_close
    let ?t = "CloseConnection (on_user env) (th_socket y)"
    have t: "?t = (th_socket y)\<lparr>tsw_sender_buffer := tsw_sender_buffer (th_socket y), tsw_posts := [Net_Close_Connection]\<rparr>"
      using parts(2) by (simp add: CloseConnection_def on_user_def post_def)
    have same: "note_output ?t (th_system y) = th_system y" unfolding t by (intro note_output_same) simp
    have "th_inv env (y\<lparr>th_user := U_Idle, th_system := settle ?t (th_system y)\<rparr>)"
      using user_moves [OF inv t, of U_Idle "[]"] parts(3) user_close(2) same by simp
    moreover have "y\<lparr>th_user := U_Idle, th_system := settle ?t (th_system y)\<rparr> = z"
      unfolding user_close(1) using user_close(2) by (cases y) simp
    ultimately show ?thesis by (simp only:)
  next
    case (net_task p ps answers n s)
    with net_task_ok [OF env inv net_task(2,3), of answers] show ?thesis by auto
  next
    case (readable answer n s)
    with read_begin_ok [OF inv readable(2,3), of answer] show ?thesis by auto
  next
    case (writable so_error n s)
    with write_begin_ok [OF env inv writable(2,3), of EV_WRITE so_error] show ?thesis by auto
  next
    case (connect_timeout n s)
    with write_begin_ok [OF env inv connect_timeout(2,3), of EV_TIMEOUT 0] show ?thesis by auto
  next
    case (net n s)
    with net_machine_ok [OF env inv net(2)] show ?thesis by auto
  next
    case (work_task p ps w s)
    with work_task_ok [OF env inv work_task(2,3)] show ?thesis by auto
  next
    case (work w s)
    have "\<not> (th_work y = K_Load \<and> ring_full (th_socket y))"
      using work(3) ring_AvailableRead_full by (auto simp: work_next_def ring_full_def)
    with work_machine_ok [OF env inv work(2)] work show ?thesis by auto
  qed
qed

interpretation threads: invariant_system "th_step env" "\<lambda>y. thread_env env \<and> th_inv env y" for env
  by unfold_locales (use th_step_inv in blast)

text \<open>Bytes are put on the wire and never taken back.\<close>

lemma emit_wire:
  assumes "thread_env env" "conn_inv s" "emit (on_worker env) sig s = Inr t"
  shows "tsw_wire t = tsw_wire s"
proof -
  have "ring_inv (tsw_sender_buffer s)" "ring_inv (tsw_receiver_buffer s)" using assms(2) by (auto elim: conn_invE)
  from emit_posting [OF thread_env_work(1) [OF assms(1)] this, of sig] assms(3) show ?thesis
    by (auto simp: worked_def)
qed

lemma work_wire:
  assumes "thread_env env" "conn_inv s"
  shows "work_next (on_worker env) w s = Inr (w', t) \<Longrightarrow> tsw_wire t = tsw_wire s"
    and "work_begin (on_worker env) p s = Inr (w', t) \<Longrightarrow> tsw_wire t = tsw_wire s"
proof -
  note wire = emit_wire [OF assms(1)]
  have packet: "emit_packet (on_worker env) bs s = Inr t \<Longrightarrow> tsw_wire t = tsw_wire s" for bs t
    using wire [OF assms(2)] by (fastforce simp: emit_packet_def rbind_eq_Inr split: if_splits)
  have illegal: "illegal_length (on_worker env) s = Inr t \<Longrightarrow> tsw_wire t = tsw_wire s" for t
    using work_illegal_ok [OF assms] by (auto simp: worked_def)
  show "work_next (on_worker env) w s = Inr (w', t) \<Longrightarrow> tsw_wire t = tsw_wire s"
    using packet illegal by (cases w) (auto simp: work_next_def Let_def rbind_eq_Inr split: if_splits)
  show "work_begin (on_worker env) p s = Inr (w', t) \<Longrightarrow> tsw_wire t = tsw_wire s"
    using wire [OF assms(2)]
    by (cases p) (auto simp: work_begin_def rbind_eq_Inr OnDestroySocket_def)
qed

lemma net_next_wire:
  assumes "net_next env n s = Inr (n', t)" "\<not> env_in_worker env"
  shows "prefix (tsw_wire s) (tsw_wire t)"
proof -
  have kept: "tsw_wire t = tsw_wire u" if "OnErrorEvent env u = Inr t \<or> on_write_event f u = Inr t" for u f
    using that OnErrorEvent_kept [OF _ assms(2)] on_write_event_kept by (auto simp: kept_both_def)
  show ?thesis
  proof (cases n)
    case (N_Have m)
    then obtain bs where bs: "mem_read (rb_data (tsw_sender_buffer s))
        (unat (ring_CurrentSeriesReadHead (tsw_sender_buffer s))) (unat m) = Inr bs"
      using assms(1) by (auto simp: net_next_def rbind_eq_Inr)
    obtain k en where "env_send env (tsw_sends s) bs = (k, en)" by (cases "env_send env (tsw_sends s) bs")
    with bs N_Have assms(1) have "(if k < 0 then rbind (if en \<noteq> EAGAIN \<and> en \<noteq> EINTR
          then OnErrorEvent env (s\<lparr>tsw_sends := Suc (tsw_sends s)\<rparr>)
          else on_write_event (tcp_event_add None) (s\<lparr>tsw_sends := Suc (tsw_sends s)\<rparr>)) (\<lambda>t. Inr (N_Idle, t))
        else Inr (N_Sent k, s\<lparr>tsw_sends := Suc (tsw_sends s), tsw_wire := tsw_wire s @ take (nat k) bs\<rparr>)) = Inr (n', t)"
      by (simp add: net_next_def Let_def)
    with kept [of "s\<lparr>tsw_sends := Suc (tsw_sends s)\<rparr>" "tcp_event_add None"] show ?thesis
      by (auto simp: rbind_eq_Inr split: if_splits)
  next
    case (N_Space m answer)
    with assms(1) kept [of s] show ?thesis
      by (cases answer) (auto simp: net_next_def Let_def rbind_eq_Inr split: if_splits)
  qed (use assms(1) in \<open>auto simp: net_next_def rbind_eq_Inr post_def\<close>)
qed

lemma th_step_wire:
  assumes env: "thread_env env" and inv: "th_inv env y" and step: "th_step env y z"
  shows "prefix (tsw_wire (th_socket y)) (tsw_wire (th_socket z))"
proof -
  note parts = th_inv_parts [OF inv] and k = thread_env_net [OF env]
  have event: "tsw_wire s = tsw_wire (th_socket y)"
    if "write_begin (on_network env) so_error e (th_socket y) = Inr (n, s)" for so_error e n s
    using that OnConnection_kept [OF _ k(3)]
    by (auto simp: write_begin_def Let_def rbind_eq_Inr kept_both_def split: option.splits tcp_callback.splits)
  show ?thesis
    using step
  proof cases
    case (user u s)
    then show ?thesis
      by (cases "th_user y") (auto simp: user_next_def Let_def rbind_eq_Inr post_def)
  next
    case user_close
    then show ?thesis by (simp add: CloseConnection_def on_user_def post_def)
  next
    case (net_task p ps answers n s)
    show ?thesis
    proof (cases "p = Net_Try_Write")
      case False
      then have "run_net (on_network env) answers p (th_socket y) = Some (Inr s)"
        using net_task(4) by (auto simp: net_begin_def rbind_eq_Inr)
      from run_net_kept [OF this parts(5) k(2,3)] net_task(1) show ?thesis by (simp add: kept_def)
    qed (use net_task in \<open>simp add: net_begin_def\<close>)
  next
    case (readable answer n s)
    from parts(1) readable(3) obtain e a where "tsw_socket_read_event (th_socket y) = Some e"
      "ev_callback e = Some (On_Read_Event, a)"
      by (auto simp: read_registered_def conn_events_def elim!: conn_invE)
    with readable show ?thesis by (auto simp: read_begin_def)
  next
    case (net n s)
    with net_next_wire k(3) show ?thesis by simp
  next
    case (work_task p ps w s)
    with work_wire(2) [OF env parts(1)] show ?thesis by auto
  next
    case (work w s)
    with work_wire(1) [OF env parts(1)] show ?thesis by auto
  qed (use event in auto)
qed

section \<open>An end of a connection\<close>

lemma th_start_inv:
  assumes "sys_start env y"
  shows "th_inv env (threads_of y)" "sy_taken y = []"
proof -
  have y: "sys_inv env y" "carries (env_le env) (sy_socket y) (sy_output y) (sy_taken y)"
    using stream_inv_start [OF assms] by (simp_all add: stream_inv_def)
  note parts = sys_inv_socket [OF y(1)]
  have "ring_inv (tsw_receiver_buffer (sy_socket y))" using parts(1) by (rule conn_invE)
  with y parts(2) show "th_inv env (threads_of y)"
    by (auto simp: th_inv_def threads_of_def control_def sys_inv_def send_ok_def receive_ok_def net_room_def
      writer_ok_def reader_ok_def flowing_def Let_def carries_def input_alive_def input_ok_def output_alive_def output_ok_def)
  show "sy_taken y = []" using stream_inv_start [OF assms] by simp
qed

definition th_view :: "tcp_threads \<Rightarrow> end_view" where
  "th_view y = \<lparr> ve_wire = tsw_wire (th_socket y), ve_rest = drop (sent_of (th_net y)) (unsent (th_socket y)),
     ve_arrived = in_hand (th_work y) (received (th_socket y)) @ got_of (th_net y),
     ve_packets = packets_of (tsw_signals (th_socket y)), ve_reading = tsw_SignalReadPacket (th_socket y),
     ve_output = sy_output (th_system y), ve_taken = sy_taken (th_system y) \<rparr>"

interpretation three_threads: stream_end "th_step env" "\<lambda>y. thread_env env \<and> th_inv env y" th_view "env_le env" for env
proof
  fix y z
  assume y: "thread_env env \<and> th_inv env y"
  then show "ve_relays (env_le env) (th_view y)"
    by (simp add: ve_relays_def th_view_def th_inv_def flowing_def Let_def)
  assume "th_step env y z"
  with y th_step_wire [of env y z] show "prefix (ve_wire (th_view y)) (ve_wire (th_view z))"
    by (simp add: th_view_def)
qed

interpretation threads_joined: joined_ends "th_step envl" "\<lambda>y. thread_env envl \<and> th_inv envl y" th_view
    "th_step (same_order envl envr)" "\<lambda>y. thread_env (same_order envl envr) \<and> th_inv (same_order envl envr) y"
    th_view "env_le envl" for envl envr
  using three_threads.stream_end_axioms [of envl] three_threads.stream_end_axioms [of "same_order envl envr"]
  by (simp add: joined_ends_def)

end
