(* ===== verification/Tcp_Thread_Atomic.thy ===== *)
theory Tcp_Thread_Atomic
  imports Tcp_Thread_Runs
begin

text \<open>
  Whole operations are runs of the threads: where one thread's operation is not interleaved with the
  others', the three threads do what the system of Tcp_Loops does in one step. So every run of that
  system is a run of the threads.
\<close>

section \<open>Operations do not look at what is posted\<close>

abbreviation queue_after :: "tcp_post list \<Rightarrow> ('a \<times> tcp_socket) result \<Rightarrow> ('a \<times> tcp_socket) result" where
  "queue_after ps r \<equiv> rbind r (\<lambda>(p, t). Inr (p, t\<lparr>tsw_posts := ps @ tsw_posts t\<rparr>))"

definition blind :: "tcp_env \<Rightarrow> bool" where
  "blind env \<longleftrightarrow> (\<forall>sig s ps. env_signal env sig (s\<lparr>tsw_posts := ps\<rparr>) =
     rbind (env_signal env sig (s\<lparr>tsw_posts := []\<rparr>)) (\<lambda>t. Inr (t\<lparr>tsw_posts := ps @ tsw_posts t\<rparr>)))"

text \<open>An update of the posts is made last.\<close>

lemma posts_last:
  "tsw_signals_update f (s\<lparr>tsw_posts := ps\<rparr>) = (tsw_signals_update f s)\<lparr>tsw_posts := ps\<rparr>"
  "tsw_sends_update g (s\<lparr>tsw_posts := ps\<rparr>) = (tsw_sends_update g s)\<lparr>tsw_posts := ps\<rparr>"
  "tsw_wire_update h (s\<lparr>tsw_posts := ps\<rparr>) = (tsw_wire_update h s)\<lparr>tsw_posts := ps\<rparr>"
  "tsw_sender_buffer_update i (s\<lparr>tsw_posts := ps\<rparr>) = (tsw_sender_buffer_update i s)\<lparr>tsw_posts := ps\<rparr>"
  "tsw_receiver_buffer_update i (s\<lparr>tsw_posts := ps\<rparr>) = (tsw_receiver_buffer_update i s)\<lparr>tsw_posts := ps\<rparr>"
  "tsw_socket_read_event_update j (s\<lparr>tsw_posts := ps\<rparr>) = (tsw_socket_read_event_update j s)\<lparr>tsw_posts := ps\<rparr>"
  "tsw_socket_write_event_update j (s\<lparr>tsw_posts := ps\<rparr>) = (tsw_socket_write_event_update j s)\<lparr>tsw_posts := ps\<rparr>"
  "tsw_state_update k (s\<lparr>tsw_posts := ps\<rparr>) = (tsw_state_update k s)\<lparr>tsw_posts := ps\<rparr>"
  by (cases s; simp)+

lemma rbind_rbind: "rbind (rbind r f) g = rbind r (\<lambda>x. rbind (f x) g)"
  by (cases r) simp_all

lemma on_event_blind:
  "on_read_event f (s\<lparr>tsw_posts := ps\<rparr>) = rbind (on_read_event f s) (\<lambda>t. Inr (t\<lparr>tsw_posts := ps\<rparr>))"
  "on_write_event f (s\<lparr>tsw_posts := ps\<rparr>) = rbind (on_write_event f s) (\<lambda>t. Inr (t\<lparr>tsw_posts := ps\<rparr>))"
  by (simp_all add: on_read_event_def on_write_event_def split: option.split)

lemma OnErrorEvent_blind:
  assumes "\<not> env_in_worker env"
  shows "OnErrorEvent env (s\<lparr>tsw_posts := ps\<rparr>) =
    rbind (OnErrorEvent env (s\<lparr>tsw_posts := []\<rparr>)) (\<lambda>t. Inr (t\<lparr>tsw_posts := ps @ tsw_posts t\<rparr>))"
  using assms
  by (simp add: posts_last OnErrorEvent_def on_read_event_def on_write_event_def post_def Let_def split: option.split)

lemma net_blind:
  assumes "\<not> env_in_worker env"
  shows "net_next env n (s\<lparr>tsw_posts := ps\<rparr>) = queue_after ps (net_next env n (s\<lparr>tsw_posts := []\<rparr>))"
proof -
  have err: "OnErrorEvent env (s\<lparr>tsw_sends := k, tsw_posts := ps\<rparr>) =
      rbind (OnErrorEvent env (s\<lparr>tsw_sends := k, tsw_posts := []\<rparr>)) (\<lambda>t. Inr (t\<lparr>tsw_posts := ps @ tsw_posts t\<rparr>))" for k
    using OnErrorEvent_blind [OF assms, where s = "s\<lparr>tsw_sends := k\<rparr>" and ps = ps] by (simp add: posts_last)
  have add: "on_write_event f (s\<lparr>tsw_sends := k, tsw_posts := ps\<rparr>) =
      rbind (on_write_event f (s\<lparr>tsw_sends := k, tsw_posts := []\<rparr>)) (\<lambda>t. Inr (t\<lparr>tsw_posts := ps @ tsw_posts t\<rparr>))" for k f
    by (simp add: posts_last on_write_event_def split: option.split)
  show ?thesis
  proof (cases n)
    case (N_Have m)
    then show ?thesis
      by (cases "mem_read (rb_data (tsw_sender_buffer s)) (unat (ring_CurrentSeriesReadHead (tsw_sender_buffer s))) (unat m)")
        (simp_all add: posts_last net_next_def Let_def err add rbind_rbind split: prod.split)
  next
    case (N_Space m answer)
    then show ?thesis
      by (cases answer) (simp_all add: posts_last net_next_def Let_def OnErrorEvent_blind [OF assms, where s = s and ps = ps] rbind_rbind)
  qed (simp_all add: posts_last net_next_def rbind_rbind post_def)
qed

lemma emit_blind:
  assumes "blind env"
  shows "emit env sig (s\<lparr>tsw_posts := ps\<rparr>) =
    rbind (emit env sig (s\<lparr>tsw_posts := []\<rparr>)) (\<lambda>t. Inr (t\<lparr>tsw_posts := ps @ tsw_posts t\<rparr>))"
  using assms [unfolded blind_def, rule_format, where sig = sig and s = "s\<lparr>tsw_signals := tsw_signals s @ [sig]\<rparr>" and ps = ps]
  by (simp add: emit_def posts_last)

lemma work_blind:
  assumes "blind env"
  shows "work_next env w (s\<lparr>tsw_posts := ps\<rparr>) = queue_after ps (work_next env w (s\<lparr>tsw_posts := []\<rparr>))"
proof -
  have packet: "emit_packet env bs (s\<lparr>tsw_posts := ps\<rparr>) =
      rbind (emit_packet env bs (s\<lparr>tsw_posts := []\<rparr>)) (\<lambda>t. Inr (t\<lparr>tsw_posts := ps @ tsw_posts t\<rparr>))" for bs
    by (simp add: posts_last emit_packet_def emit_blind [OF assms, where s = s and ps = ps] rbind_rbind)
  have illegal: "illegal_length env (s\<lparr>tsw_posts := ps\<rparr>) =
      rbind (illegal_length env (s\<lparr>tsw_posts := []\<rparr>)) (\<lambda>t. Inr (t\<lparr>tsw_posts := ps @ tsw_posts t\<rparr>))"
  proof -
    have "emit env Signal_On_Close (s\<lparr>tsw_socket_read_event := e, tsw_socket_write_event := f, tsw_posts := ps\<rparr>) =
        rbind (emit env Signal_On_Close (s\<lparr>tsw_socket_read_event := e, tsw_socket_write_event := f, tsw_posts := []\<rparr>))
          (\<lambda>t. Inr (t\<lparr>tsw_posts := ps @ tsw_posts t\<rparr>))" for e f
      using emit_blind [OF assms, where sig = Signal_On_Close and s = "s\<lparr>tsw_socket_read_event := e, tsw_socket_write_event := f\<rparr>" and ps = ps] by (simp add: posts_last)
    then show ?thesis
      by (simp add: posts_last illegal_length_def on_read_event_def on_write_event_def split: option.split)
  qed
  show ?thesis
  proof (cases w)
    case (K_Head a m)
    then show ?thesis
      by (cases "read_header (env_le env) m (tsw_receiver_buffer s)")
        (simp_all add: work_next_def Let_def illegal rbind_rbind)
  qed (simp_all add: posts_last work_next_def Let_def packet rbind_rbind)
qed

section \<open>The network loop\<close>

lemma settle_settle:
  "settle (t\<lparr>tsw_posts := qs\<rparr>) (settle s y) = settle (t\<lparr>tsw_posts := tsw_posts s @ qs\<rparr>) y"
  by (simp add: settle_def)

lemma settle_none: "tsw_posts (sy_socket y) = [] \<Longrightarrow> settle (sy_socket y) y = y"
  by (simp add: settle_def)

lemma writing_next:
  assumes "writing n" "net_next env n s = Inr (n', t)"
  shows "writing n' \<or> n' = N_Idle"
proof (cases n)
  case (N_Have m)
  then obtain bs where bs: "mem_read (rb_data (tsw_sender_buffer s))
      (unat (ring_CurrentSeriesReadHead (tsw_sender_buffer s))) (unat m) = Inr bs"
    using assms(2) by (auto simp: net_next_def rbind_eq_Inr)
  obtain k en where "env_send env (tsw_sends s) bs = (k, en)" by (cases "env_send env (tsw_sends s) bs")
  with bs N_Have assms(2) show ?thesis by (auto simp: net_next_def Let_def rbind_eq_Inr split: if_splits)
qed (use assms in \<open>auto simp: net_next_def rbind_eq_Inr split: if_splits\<close>)

lemma net_step_plain:
  assumes "th_net y \<noteq> N_Idle" "net_next (on_network env) (th_net y) (th_socket y) = Inr (n, t)" "got_of n = []"
  shows "th_step env y (y\<lparr>th_net := n, th_system := settle t (th_system y)\<rparr>)"
  using th_step.net [OF assms(1,2)] assms(3) by simp

lemma write_runs:
  assumes "runs (net_next (on_network env)) x z"
  shows "fst z = N_Idle \<Longrightarrow> writing (fst x) \<or> fst x = N_Idle \<Longrightarrow> \<forall>y. th_net y = fst x \<longrightarrow>
    th_socket y = (snd x)\<lparr>tsw_posts := []\<rparr> \<longrightarrow> (\<exists>qs. tsw_posts (snd z) = tsw_posts (snd x) @ qs \<and>
      (th_step env)\<^sup>*\<^sup>* y (y\<lparr>th_net := N_Idle, th_system := settle ((snd z)\<lparr>tsw_posts := qs\<rparr>) (th_system y)\<rparr>))"
  using assms unfolding runs_def
proof (induction rule: converse_rtranclp_induct)
  case base
  show ?case
  proof (intro allI impI)
    fix y assume y: "th_net y = fst z" "th_socket y = (snd z)\<lparr>tsw_posts := []\<rparr>"
    have "y\<lparr>th_net := N_Idle, th_system := settle ((snd z)\<lparr>tsw_posts := []\<rparr>) (th_system y)\<rparr> = y"
      using y base(1) settle_none [of "th_system y"] by (cases y) simp
    then show "\<exists>qs. tsw_posts (snd z) = tsw_posts (snd z) @ qs \<and>
      (th_step env)\<^sup>*\<^sup>* y (y\<lparr>th_net := N_Idle, th_system := settle ((snd z)\<lparr>tsw_posts := qs\<rparr>) (th_system y)\<rparr>)"
      by (intro exI [of _ "[]"]) simp
  qed
next
  case (step x x')
  obtain n s where x: "x = (n, s)" by (cases x)
  obtain n' s' where x': "x' = (n', s')" by (cases x')
  have next1: "net_next (on_network env) n s = Inr (n', s')" using step.hyps(1) by (simp add: x x')
  then have n: "writing n" using step.prems(2) by (auto simp: x net_next_def)
  have w: "writing n' \<or> n' = N_Idle" using writing_next [OF n next1] .
  then have got: "got_of n' = []" by (cases n') auto
  have "net_next (on_network env) n s = queue_after (tsw_posts s) (net_next (on_network env) n (s\<lparr>tsw_posts := []\<rparr>))"
    using net_blind [where env = "on_network env" and n = n and s = s and ps = "tsw_posts s"] by (simp add: on_network_def)
  then have "queue_after (tsw_posts s) (net_next (on_network env) n (s\<lparr>tsw_posts := []\<rparr>)) = Inr (n', s')"
    using next1 by simp
  then obtain u where u: "net_next (on_network env) n (s\<lparr>tsw_posts := []\<rparr>) = Inr (n', u)"
    "s' = u\<lparr>tsw_posts := tsw_posts s @ tsw_posts u\<rparr>" by (auto simp: rbind_eq_Inr)
  show ?case
  proof (intro allI impI)
    fix y assume y: "th_net y = fst x" "th_socket y = (snd x)\<lparr>tsw_posts := []\<rparr>"
    let ?y = "y\<lparr>th_net := n', th_system := settle u (th_system y)\<rparr>"
    have "n \<noteq> N_Idle" using n by auto
    then have "th_step env y ?y"
      using th_step.net [of y env n' u] y u(1) got by (simp add: x)
    moreover obtain qs where qs: "tsw_posts (snd z) = tsw_posts s' @ qs" "(th_step env)\<^sup>*\<^sup>* ?y
        (?y\<lparr>th_net := N_Idle, th_system := settle ((snd z)\<lparr>tsw_posts := qs\<rparr>) (th_system ?y)\<rparr>)"
      using step.IH [OF step.prems(1), THEN spec, of ?y] w u(2) by (auto simp: x')
    ultimately have "(th_step env)\<^sup>*\<^sup>* y
        (y\<lparr>th_net := N_Idle, th_system := settle ((snd z)\<lparr>tsw_posts := tsw_posts u @ qs\<rparr>) (th_system y)\<rparr>)"
      by (simp add: settle_settle)
    with qs(1) u(2) show "\<exists>qs. tsw_posts (snd z) = tsw_posts (snd x) @ qs \<and>
      (th_step env)\<^sup>*\<^sup>* y (y\<lparr>th_net := N_Idle, th_system := settle ((snd z)\<lparr>tsw_posts := qs\<rparr>) (th_system y)\<rparr>)"
      by (intro exI [of _ "tsw_posts u @ qs"]) (simp add: x)
  qed
qed

lemma try_write_runs:
  assumes "TryWriteBufferToSocket (on_network env) (th_socket y) = Some (Inr t)" "th_net y = N_Load"
    "tsw_posts (th_socket y) = []"
  shows "(th_step env)\<^sup>*\<^sup>* y (y\<lparr>th_net := N_Idle, th_system := settle t (th_system y)\<rparr>)"
proof -
  let ?s = "th_socket y"
  from assms(1) obtain n where n: "ring_AvailableSeriesRead (tsw_sender_buffer ?s) = Inr n"
    "try_write_loop (on_network env) n ?s = Some (Inr t)"
    by (auto simp: TryWriteBufferToSocket_def split: sum.splits)
  have "runs (net_next (on_network env)) (N_Load, ?s) (N_Idle, t)" using write_alone [OF n(2)] n(1) by simp
  from write_runs [OF this] assms(2,3) show ?thesis by auto
qed

lemma try_read_runs:
  assumes "TryReadDataFromSocket (on_network env) answer (th_socket y) = Inr t" "th_net y = N_Reading answer"
    "tsw_posts (th_socket y) = []" "ring_inv (tsw_receiver_buffer (th_socket y))"
  shows "(th_step env)\<^sup>*\<^sup>* y (y\<lparr>th_net := N_Idle, th_system := settle t (note_input t (th_system y))\<rparr>)"
proof -
  let ?s = "th_socket y" and ?y = "th_system y"
  obtain n where n: "ring_AvailableSeriesWrite (tsw_receiver_buffer ?s) = Inr n" "unat n = ring_series_write (tsw_receiver_buffer ?s)"
    using ring_AvailableSeriesWrite_ok [OF assms(4)] by blast
  have "net_next (on_network env) (th_net y) ?s = Inr (N_Space n answer, ?s)"
    using n(1) assms(2) by (simp add: net_next_def)
  from th_step.net [OF _ this] assms(2) have "th_step env y (y\<lparr>th_net := N_Space n answer, th_system := settle ?s ?y\<rparr>)" by simp
  then have first: "(th_step env)\<^sup>*\<^sup>* y (y\<lparr>th_net := N_Space n answer\<rparr>)"
    using settle_none [OF assms(3)] by (cases y) simp
  consider (stop) "net_next (on_network env) (N_Space n answer) ?s = Inr (N_Idle, t)" "received t = received ?s"
    | (data) bytes bs d r where "answer = Sys_Data bytes" "bs = take (unat n) bytes" "bs \<noteq> []"
      "mem_write (rb_data (tsw_receiver_buffer ?s)) (unat (ring_CurrentSeriesWriteHead (tsw_receiver_buffer ?s))) bs = Inr d"
      "ring_ConsumeSeriesWriteLen ((tsw_receiver_buffer ?s)\<lparr>rb_data := d\<rparr>) (of_nat (length bs)) = Inr r"
      "t = post Work_Process_Buffered (?s\<lparr>tsw_receiver_buffer := r\<rparr>)"
  proof -
    have "OnErrorEvent (on_network env) ?s = Inr t \<Longrightarrow> received t = received ?s"
      using OnErrorEvent_kept [of "on_network env" ?s t] by (simp add: kept_both_def on_network_def)
    with that assms(1) n(1) show ?thesis
      by (cases answer) (auto simp: TryReadDataFromSocket_def rbind_eq_Inr net_next_def Let_def split: if_splits)
  qed
  then show ?thesis
  proof cases
    case stop
    have "th_step env (y\<lparr>th_net := N_Space n answer\<rparr>) (y\<lparr>th_net := N_Idle, th_system := settle t ?y\<rparr>)"
      using th_step.net [of "y\<lparr>th_net := N_Space n answer\<rparr>" env N_Idle t] stop(1) by simp
    moreover have "note_input t ?y = ?y" using stop(2) by (simp add: note_input_def)
    ultimately show ?thesis using first by (simp add: rtranclp.rtrancl_into_rtrancl)
  next
    case data
    have len: "length bs \<le> ring_series_write (tsw_receiver_buffer ?s)" using data(2) n(2) by simp
    then have "unat (of_nat (length bs) :: u32) = length bs"
      by (intro ring_length_lt32 [OF assms(4)]) (auto simp: ring_series_write_def)
    with ring_series_write_ok [OF assms(4) this len] data(4,5) have c: "ring_contents r = received ?s @ bs" by auto
    let ?q = "(tsw_receiver_buffer ?s)\<lparr>rb_data := d\<rparr>"
    let ?a = "settle (?s\<lparr>tsw_receiver_buffer := ?q\<rparr>) (?y\<lparr>sy_taken := sy_taken ?y @ bs\<rparr>)"
    let ?b = "settle ((sy_socket ?a)\<lparr>tsw_receiver_buffer := r\<rparr>) ?a"
    let ?c = "settle (post Work_Process_Buffered (sy_socket ?b)) ?b"
    note first
    also have "th_step env (y\<lparr>th_net := N_Space n answer\<rparr>) (y\<lparr>th_net := N_Got bs, th_system := ?a\<rparr>)"
      using th_step.net [of "y\<lparr>th_net := N_Space n answer\<rparr>" env "N_Got bs" "?s\<lparr>tsw_receiver_buffer := ?q\<rparr>"] data(1-4)
      by (simp add: net_next_def Let_def)
    also have "th_step env (y\<lparr>th_net := N_Got bs, th_system := ?a\<rparr>) (y\<lparr>th_net := N_Queue, th_system := ?b\<rparr>)"
      using net_step_plain [of "y\<lparr>th_net := N_Got bs, th_system := ?a\<rparr>" env N_Queue] data(5)
      by (simp add: net_next_def)
    also have "th_step env (y\<lparr>th_net := N_Queue, th_system := ?b\<rparr>) (y\<lparr>th_net := N_Idle, th_system := ?c\<rparr>)"
      using net_step_plain [of "y\<lparr>th_net := N_Queue, th_system := ?b\<rparr>" env N_Idle]
      by (simp add: net_next_def)
    finally have "(th_step env)\<^sup>*\<^sup>* y (y\<lparr>th_net := N_Idle, th_system := ?c\<rparr>)" .
    moreover have "?c = settle t (note_input t ?y)"
      using assms(3) c data(6) by (simp add: settle_def note_input_def post_def del: length_ring_contents)
    ultimately show ?thesis by simp
  qed
qed

section \<open>The user's thread\<close>

lemma user_publish_runs:
  fixes bs :: "byte list"
  assumes y: "tsw_posts (th_socket y) = []"
    and d: "ring_contents (tsw_sender_buffer (th_socket y)\<lparr>rb_data := d\<rparr>) = unsent (th_socket y)"
  defines "c \<equiv> (th_socket y)\<lparr>tsw_sender_buffer := tsw_sender_buffer (th_socket y)\<lparr>rb_data := d\<rparr>\<rparr>"
    and "p \<equiv> (th_socket y)\<lparr>tsw_sender_buffer := tsw_sender_buffer (th_socket y)\<lparr>rb_data := d,
      rb_write_count := rb_write_count (tsw_sender_buffer (th_socket y)) + of_nat (length bs)\<rparr>\<rparr>"
  shows "(th_step env)\<^sup>*\<^sup>* (y\<lparr>th_user := U_Publish bs, th_system := settle c (th_system y)\<rparr>)
    (y\<lparr>th_user := U_Idle, th_system := settle (post Net_Try_Write p) (note_output (post Net_Try_Write p) (th_system y))\<rparr>)"
proof -
  let ?y = "th_system y" and ?t = "post Net_Try_Write p"
  let ?yc = "y\<lparr>th_user := U_Publish bs, th_system := settle c ?y\<rparr>"
  let ?yp = "y\<lparr>th_user := U_Post, th_system := settle p (note_output p ?y)\<rparr>"
  let ?q = "post Net_Try_Write (th_socket ?yp)"
  have "user_next (th_user ?yc) (th_socket ?yc) = Inr (U_Post, p)"
    using y by (cases "th_socket y") (simp add: user_next_def c_def p_def settle_def)
  from th_step.user [OF _ this] have "th_step env ?yc (?yc\<lparr>th_user := U_Post,
      th_system := settle p (note_output p (th_system ?yc))\<rparr>)" by simp
  moreover have "note_output p (settle c ?y) = settle c (note_output p ?y)"
    using d by (simp add: c_def p_def note_output_def settle_def write_wired_def del: length_ring_contents)
  ultimately have first: "th_step env ?yc ?yp" using y by (simp add: settle_def c_def)
  have "user_next (th_user ?yp) (th_socket ?yp) = Inr (U_Idle, ?q)" by (simp add: user_next_def)
  from th_step.user [OF _ this] have step: "th_step env ?yp (?yp\<lparr>th_user := U_Idle,
      th_system := settle ?q (note_output ?q (th_system ?yp))\<rparr>)" by simp
  have "note_output ?q (th_system ?yp) = th_system ?yp"
    by (intro note_output_same) (simp add: settle_def post_def)
  then have "settle ?q (note_output ?q (th_system ?yp)) = settle ?q (th_system ?yp)" by (simp only:)
  also have "\<dots> = settle ?t (note_output p ?y)"
    using y by (simp add: settle_def p_def post_def)
  finally have last: "settle ?q (note_output ?q (th_system ?yp)) = settle ?t (note_output p ?y)" .
  have "note_output ?t ?y = note_output p ?y" by (simp add: note_output_def p_def post_def)
  with step [unfolded last] have "th_step env ?yp
      (y\<lparr>th_user := U_Idle, th_system := settle ?t (note_output ?t ?y)\<rparr>)" by simp
  with first show ?thesis by (blast intro: rtranclp.rtrancl_into_rtrancl)
qed

lemma user_write_runs:
  assumes y: "th_user y = U_Write bs" "tsw_posts (th_socket y) = []" "ring_inv (tsw_sender_buffer (th_socket y))"
    and len: "length bs < 2 ^ 32"
    and ring: "ring_WriteContent (tsw_sender_buffer (th_socket y)) bs (of_nat (length bs)) = Inr (ok, r)"
  defines "t \<equiv> post Net_Try_Write ((th_socket y)\<lparr>tsw_sender_buffer := r\<rparr>)"
  shows "(th_step env)\<^sup>*\<^sup>* y (y\<lparr>th_user := U_Idle, th_system := settle t (note_output t (th_system y))\<rparr>)"
proof -
  let ?s = "th_socket y" and ?r = "tsw_sender_buffer (th_socket y)" and ?y = "th_system y"
  have send: "send_ok ?r (U_Write bs) N_Idle"
    using y(3) len by (simp add: send_ok_def writer_ok_def reader_ok_def)
  from user_load_ok [OF send] obtain a where a: "ring_AvailableWrite ?r = Inr a"
    "send_ok ?r (if a < of_nat (length bs) then U_Post else U_Copy bs) N_Idle" by blast
  have av: "a = rb_capacity ?r - (rb_write_count ?r - rb_read_count ?r)"
    using a(1) by (auto simp: ring_AvailableWrite_def Let_def assert_that_eq_Inr)
  have "settle ?s (note_output ?s ?y) = ?y"
    unfolding note_output_same [OF refl] by (rule settle_none [OF y(2)])
  then have still: "y\<lparr>th_user := u, th_system := settle ?s (note_output ?s ?y)\<rparr> = y\<lparr>th_user := u\<rparr>" for u
    by (cases y) simp
  show ?thesis
  proof (cases "a < of_nat (length bs)")
    case True
    then have "user_next (th_user y) ?s = Inr (U_Post, ?s)" "r = ?r"
      using ring av a(1) by (simp_all add: y(1) user_next_def ring_WriteContent_def Let_def assert_that_eq_Inr)
    then have "(th_step env)\<^sup>*\<^sup>* y (y\<lparr>th_user := U_Post\<rparr>)" "t = post Net_Try_Write ?s"
      using th_step.user [of y U_Post ?s env] y(1) still [of U_Post] t_def by auto
    moreover have "th_step env (y\<lparr>th_user := U_Post\<rparr>)
        (y\<lparr>th_user := U_Idle, th_system := settle t (note_output t ?y)\<rparr>)"
      using th_step.user [of "y\<lparr>th_user := U_Post\<rparr>" U_Idle t env] \<open>t = post Net_Try_Write ?s\<close>
      by (simp add: user_next_def)
    ultimately show ?thesis by (simp add: rtranclp.rtrancl_into_rtrancl)
  next
    case False
    then have copy: "send_ok ?r (U_Copy bs) N_Idle" using a(2) by simp
    from user_copy_ok [OF this] obtain d where d: "ring_copy_in ?r (ring_CurrentSeriesWriteHead ?r) bs (of_nat (length bs)) = Inr d"
      "send_ok (?r\<lparr>rb_data := d\<rparr>) (U_Publish bs) N_Idle" "ring_contents (?r\<lparr>rb_data := d\<rparr>) = unsent ?s" by blast
    have r: "r = ?r\<lparr>rb_data := d, rb_write_count := rb_write_count ?r + of_nat (length bs)\<rparr>"
      using ring False av d(1)
      by (auto simp: ring_WriteContent_def ring_CurrentSeriesWriteHead_def Let_def assert_that_eq_Inr rbind_eq_Inr)
    let ?c = "?s\<lparr>tsw_sender_buffer := ?r\<lparr>rb_data := d\<rparr>\<rparr>"
    let ?yc = "y\<lparr>th_user := U_Publish bs, th_system := settle ?c (note_output ?c ?y)\<rparr>"
    have nc: "note_output ?c ?y = ?y" using d(3) by (intro note_output_same) simp
    have "user_next (th_user y) ?s = Inr (U_Copy bs, ?s)" using a(1) False by (simp add: y(1) user_next_def)
    then have "(th_step env)\<^sup>*\<^sup>* y (y\<lparr>th_user := U_Copy bs\<rparr>)"
      using th_step.user [of y "U_Copy bs" ?s env] y(1) still [of "U_Copy bs"] by auto
    also have "th_step env (y\<lparr>th_user := U_Copy bs\<rparr>) ?yc"
      using th_step.user [of "y\<lparr>th_user := U_Copy bs\<rparr>" "U_Publish bs" ?c env] d(1) by (simp add: user_next_def)
    also have "(th_step env)\<^sup>*\<^sup>* ?yc (y\<lparr>th_user := U_Idle, th_system := settle t (note_output t ?y)\<rparr>)"
      unfolding nc t_def r by (rule user_publish_runs [OF y(2) d(3)])
    finally show ?thesis .
  qed
qed

lemma send_data_runs:
  assumes y: "th_user y = U_Idle" "tsw_posts (th_socket y) = []" "ring_inv (tsw_sender_buffer (th_socket y))"
    and data: "unat len = length data" "2 \<le> length data"
    and send: "SendData (on_user env) data len (th_socket y) = Some (Inr (ok, d, t))"
  shows "(th_step env)\<^sup>*\<^sup>* y (y\<lparr>th_system := settle t (note_output t (th_system y))\<rparr>)"
proof -
  let ?s = "th_socket y" and ?y = "th_system y"
  obtain u where u: "send_begin env data len ?s = Inr u" using send_begin_ok [OF y(3) data] by blast
  have le: "env_le (on_user env) = env_le env" by (simp add: on_user_def)
  consider (refused) "u = U_Idle" "t = ?s"
    | (taken) data' r where "u = U_Write data'" "length data' = length data" "\<not> len > 65537"
      "ring_WriteContent (tsw_sender_buffer ?s) data' (ucast len) = Inr r"
      "t = post Net_Try_Write (?s\<lparr>tsw_sender_buffer := snd r\<rparr>)"
  proof -
    have posts: "run_try_write (on_user env) s' = Some (Inr (post Net_Try_Write s'))" for s'
      by (simp add: run_try_write_def on_user_def)
    obtain a where a: "ring_AvailableWrite (tsw_sender_buffer ?s) = Inr a" using ring_AvailableWrite_ok [OF y(3)] by blast
    show thesis
    proof (cases "len > 65537 \<or> (ucast a :: size_t) < len + 2")
      case True
      with send u a that(1) show ?thesis by (auto simp: SendData_def send_begin_def split: if_splits)
    next
      case False
      obtain data' where d: "mem_write data 0 (host_bytes (env_le env) 2 (ucast (len - 2) :: u16)) = Inr data'"
        "length data' = length data" using data(2) by (auto simp: mem_write_def overlay_def)
      have "u = U_Write data'" using u a False d(1) by (simp add: send_begin_def)
      moreover obtain r where "ring_WriteContent (tsw_sender_buffer ?s) data' (ucast len) = Inr r"
        "t = post Net_Try_Write (?s\<lparr>tsw_sender_buffer := snd r\<rparr>)"
        using send a False d(1)
        by (cases "ring_WriteContent (tsw_sender_buffer ?s) data' (ucast len)")
          (auto simp: SendData_def le posts split: prod.splits)
      ultimately show ?thesis using that(2) d(2) False by blast
    qed
  qed
  then show ?thesis
  proof cases
    case refused
    have "settle t (note_output t ?y) = ?y"
      unfolding refused note_output_same [OF refl] by (rule settle_none [OF y(2)])
    then show ?thesis by simp
  next
    case taken
    have small: "length data' < 2 ^ 32" using taken(2,3) data(1) by (simp add: word_less_nat_alt)
    moreover have "ucast len = (of_nat (length data') :: u32)"
      using data(1) taken(2) by (metis of_nat_unat)
    ultimately have "(th_step env)\<^sup>*\<^sup>* (y\<lparr>th_user := u\<rparr>) ((y\<lparr>th_user := u\<rparr>)\<lparr>th_user := U_Idle,
        th_system := settle t (note_output t ?y)\<rparr>)"
      using user_write_runs [of "y\<lparr>th_user := u\<rparr>" data' "fst r" "snd r"] y taken by simp
    moreover have "(y\<lparr>th_user := u\<rparr>)\<lparr>th_user := U_Idle, th_system := settle t (note_output t ?y)\<rparr> =
        y\<lparr>th_system := settle t (note_output t ?y)\<rparr>" using y(1) by (cases y) simp
    ultimately show ?thesis
      using th_step.send [OF y(1) data u] by (simp add: converse_rtranclp_into_rtranclp)
  qed
qed

lemma send_head_runs:
  assumes y: "th_user y = U_Idle" "tsw_posts (th_socket y) = []" "ring_inv (tsw_sender_buffer (th_socket y))"
    and buff: "length buff < 2 ^ 32"
    and send: "SendDataWithHead (on_user env) buff (th_socket y) = Some (Inr (ok, t))"
  shows "(th_step env)\<^sup>*\<^sup>* y (y\<lparr>th_system := settle t (note_output t (th_system y))\<rparr>)"
proof -
  let ?y = "y\<lparr>th_user := U_Write buff\<rparr>"
  have "run_try_write (on_user env) s' = Some (Inr (post Net_Try_Write s'))" for s'
    by (simp add: run_try_write_def on_user_def)
  with send obtain k r where r: "ring_WriteContent (tsw_sender_buffer (th_socket y)) buff (of_nat (length buff)) = Inr (k, r)"
    "t = post Net_Try_Write ((th_socket y)\<lparr>tsw_sender_buffer := r\<rparr>)"
    by (auto simp: SendDataWithHead_def split: sum.splits)
  then have "(th_step env)\<^sup>*\<^sup>* ?y (?y\<lparr>th_user := U_Idle, th_system := settle t (note_output t (th_system y))\<rparr>)"
    using user_write_runs [of ?y buff k r] y buff by simp
  moreover have "?y\<lparr>th_user := U_Idle, th_system := settle t (note_output t (th_system y))\<rparr> =
      y\<lparr>th_system := settle t (note_output t (th_system y))\<rparr>" using y(1) by (cases y) simp
  ultimately have "(th_step env)\<^sup>*\<^sup>* ?y (y\<lparr>th_system := settle t (note_output t (th_system y))\<rparr>)" by (simp only:)
  with th_step.send_head [OF y(1) buff] show ?thesis by (rule converse_rtranclp_into_rtranclp)
qed

section \<open>The worker loop\<close>

lemma note_output_twice:
  assumes "unsent u = unsent (sy_socket y) @ d" "unsent v = unsent u @ e" "write_wired u = write_wired (sy_socket y)"
  shows "settle (v\<lparr>tsw_posts := qs\<rparr>) (note_output v ((settle u (note_output u (y\<lparr>sy_broken := b\<rparr>)))\<lparr>sy_broken := b'\<rparr>)) =
    settle (v\<lparr>tsw_posts := tsw_posts u @ qs\<rparr>) (note_output v (y\<lparr>sy_broken := b'\<rparr>))"
  using assms by (cases y) (auto simp: settle_def note_output_def simp del: length_ring_contents)

lemma worked_wired:
  assumes "conn_inv s" "worked s t" "same_events s t \<or> both_off s t"
  shows "write_wired t = write_wired s"
proof -
  from assms(1) obtain f where "tsw_socket_write_event s = Some f" by (rule conn_invE)
  with assms(3) show ?thesis by (auto simp: same_events_def both_off_def write_wired_def)
qed

abbreviation illegal_in :: "tcp_env \<Rightarrow> byte list \<Rightarrow> bool" where
  "illegal_in env c \<equiv> snd (snd (parse_frames (env_le env) c))"

lemma prepend_flag: "snd (snd (prepend qs p)) = snd (snd p)"
  by (cases p) (simp add: prepend_def)

lemma work_flag:
  assumes does: "work_does env n w s w' u" and "looking (received s) w"
  shows "looking (received u) w' \<or> w' = K_Idle"
    and "illegal_in env (in_hand w (received s)) \<longleftrightarrow>
      at_illegal (env_le env) w (received s) \<or> w' \<noteq> K_Idle \<and> illegal_in env (in_hand w' (received u))"
proof -
  from does obtain qs where "\<forall>ys. parse_frames (env_le env) (in_hand w (received s) @ ys) =
      prepend qs (parse_frames (env_le env) (in_hand w' (received u) @ ys))"
    unfolding work_does_def Let_def by blast
  from spec [OF this, of "[]"] have cut: "illegal_in env (in_hand w (received s)) = illegal_in env (in_hand w' (received u))"
    by (simp add: prepend_flag)
  have "looking (received u) w' \<and> \<not> at_illegal (env_le env) w (received s) \<or>
      w' = K_Idle \<and> illegal_in env (in_hand w (received s)) = at_illegal (env_le env) w (received s)"
    using assms unfolding work_does_def Let_def by auto
  then show "looking (received u) w' \<or> w' = K_Idle"
    "illegal_in env (in_hand w (received s)) \<longleftrightarrow>
      at_illegal (env_le env) w (received s) \<or> w' \<noteq> K_Idle \<and> illegal_in env (in_hand w' (received u))"
    using cut by auto
qed

lemma work_runs:
  assumes env: "thread_env env" "blind env" and run: "runs (work_next (on_worker env)) x z"
  shows "fst z = K_Idle \<Longrightarrow> looking (received (snd x)) (fst x) \<or> fst x = K_Idle \<Longrightarrow>
    \<forall>y. th_inv env y \<longrightarrow> th_user y = U_Idle \<longrightarrow> th_work y = fst x \<longrightarrow> th_socket y = (snd x)\<lparr>tsw_posts := []\<rparr> \<longrightarrow>
      (\<exists>qs d. tsw_posts (snd z) = tsw_posts (snd x) @ qs \<and> unsent (snd z) = unsent (snd x) @ d \<and>
      (th_step env)\<^sup>*\<^sup>* y (y\<lparr>th_work := K_Idle, th_system := settle ((snd z)\<lparr>tsw_posts := qs\<rparr>) (note_output (snd z)
        ((th_system y)\<lparr>sy_broken := sy_broken (th_system y) \<or>
          fst x \<noteq> K_Idle \<and> illegal_in env (in_hand (fst x) (received (snd x)))\<rparr>))\<rparr>))"
  using run unfolding runs_def
proof (induction rule: converse_rtranclp_induct)
  case base
  show ?case
  proof (intro allI impI)
    fix y assume y: "th_work y = fst z" "th_socket y = (snd z)\<lparr>tsw_posts := []\<rparr>"
    have "note_output (snd z) (th_system y) = th_system y" using y(2) by (intro note_output_same) simp
    then have "y\<lparr>th_work := K_Idle, th_system := settle ((snd z)\<lparr>tsw_posts := []\<rparr>) (note_output (snd z)
        ((th_system y)\<lparr>sy_broken := sy_broken (th_system y) \<or> False\<rparr>))\<rparr> = y"
      using y base(1) settle_none [of "th_system y"] by (cases y) simp
    then show "\<exists>qs d. tsw_posts (snd z) = tsw_posts (snd z) @ qs \<and> unsent (snd z) = unsent (snd z) @ d \<and>
      (th_step env)\<^sup>*\<^sup>* y (y\<lparr>th_work := K_Idle, th_system := settle ((snd z)\<lparr>tsw_posts := qs\<rparr>) (note_output (snd z)
        ((th_system y)\<lparr>sy_broken := sy_broken (th_system y) \<or>
          fst z \<noteq> K_Idle \<and> illegal_in env (in_hand (fst z) (received (snd z)))\<rparr>))\<rparr>)"
      using base(1) by (intro exI [of _ "[]"]) simp
  qed
next
  case (step x x')
  obtain w s where x: "x = (w, s)" by (cases x)
  obtain w' s' where x': "x' = (w', s')" by (cases x')
  let ?s = "s\<lparr>tsw_posts := []\<rparr>" and ?ill = "at_illegal (env_le env) w (received s)"
  have next1: "work_next (on_worker env) w s = Inr (w', s')" using step.hyps(1) by (simp add: x x')
  then have w: "w \<noteq> K_Idle" by (auto simp: work_next_def)
  have calls: "env_signal (on_worker env) = env_signal env" by (simp add: on_worker_def)
  have "blind (on_worker env)" using env(2) unfolding blind_def calls .
  from work_blind [OF this, where w = w and s = s and ps = "tsw_posts s"] next1
  have "queue_after (tsw_posts s) (work_next (on_worker env) w ?s) = Inr (w', s')" by simp
  then obtain u where u: "work_next (on_worker env) w ?s = Inr (w', u)"
    "s' = u\<lparr>tsw_posts := tsw_posts s @ tsw_posts u\<rparr>" by (auto simp: rbind_eq_Inr)
  show ?case
  proof (intro allI impI)
    fix y assume y: "th_inv env y" "th_user y = U_Idle" "th_work y = fst x" "th_socket y = (snd x)\<lparr>tsw_posts := []\<rparr>"
    note parts = th_inv_parts [OF y(1)]
    have here: "th_work y = w" "th_socket y = ?s" using y(3,4) by (simp_all add: x)
    have full: "\<not> (w = K_Load \<and> ring_full ?s)"
      using u(1) ring_AvailableRead_full by (auto simp: work_next_def ring_full_def)
    have does: "work_does env (th_net y) w ?s w' u"
      using work_next_ok [OF env(1) parts(1) _ parts(4)] w full u(1) by (simp add: here)
    let ?y = "y\<lparr>th_work := w', th_system := settle u (note_output u ((th_system y)\<lparr>sy_broken :=
      sy_broken (th_system y) \<or> ?ill\<rparr>))\<rparr>"
    have one: "th_step env y ?y"
      using th_step.work [of y env w' u] w u(1) y(2) by (simp add: here one_sender_def)
    have worked: "worked ?s u" "same_events ?s u \<or> both_off ?s u" using does by (auto simp: work_does_def Let_def)
    then obtain d where d: "unsent u = unsent s @ d" by (auto simp: worked_def queued_def)
    have wired: "write_wired u = write_wired (th_socket y)"
      using worked_wired [OF parts(1), of u] worked by (simp add: here)
    have look: "looking (received u) w' \<or> w' = K_Idle"
      and flag: "illegal_in env (in_hand w (received s)) \<longleftrightarrow> ?ill \<or> w' \<noteq> K_Idle \<and> illegal_in env (in_hand w' (received u))"
      using work_flag [OF does] step.prems(2) w by (simp_all add: x)
    have "th_inv env ?y" using th_step_inv [OF env(1) y(1) one] .
    then obtain qs e where qs: "tsw_posts (snd z) = tsw_posts s' @ qs" "unsent (snd z) = unsent s' @ e"
      "(th_step env)\<^sup>*\<^sup>* ?y (?y\<lparr>th_work := K_Idle, th_system := settle ((snd z)\<lparr>tsw_posts := qs\<rparr>) (note_output (snd z)
        ((th_system ?y)\<lparr>sy_broken := sy_broken (th_system ?y) \<or>
          w' \<noteq> K_Idle \<and> illegal_in env (in_hand w' (received u))\<rparr>))\<rparr>)"
      using step.IH [OF step.prems(1), THEN spec, of ?y] look y(2) u(2) by (auto simp: x')
    have "sy_broken (th_system ?y) = (sy_broken (th_system y) \<or> ?ill)" by (simp add: settle_def note_output_def)
    then have b: "(sy_broken (th_system ?y) \<or> w' \<noteq> K_Idle \<and> illegal_in env (in_hand w' (received u))) =
        (sy_broken (th_system y) \<or> illegal_in env (in_hand w (received s)))" using flag by auto
    have last: "?y\<lparr>th_work := K_Idle, th_system := settle ((snd z)\<lparr>tsw_posts := qs\<rparr>) (note_output (snd z)
        ((th_system ?y)\<lparr>sy_broken := sy_broken (th_system y) \<or> illegal_in env (in_hand w (received s))\<rparr>))\<rparr> =
        y\<lparr>th_work := K_Idle, th_system := settle ((snd z)\<lparr>tsw_posts := tsw_posts u @ qs\<rparr>) (note_output (snd z)
        ((th_system y)\<lparr>sy_broken := sy_broken (th_system y) \<or> illegal_in env (in_hand w (received s))\<rparr>))\<rparr>"
      using note_output_twice [of u "th_system y" d "snd z" e] d qs(2) u(2) wired by (simp add: here del: length_ring_contents)
    have "(th_step env)\<^sup>*\<^sup>* y (y\<lparr>th_work := K_Idle, th_system := settle ((snd z)\<lparr>tsw_posts := tsw_posts u @ qs\<rparr>)
        (note_output (snd z) ((th_system y)\<lparr>sy_broken := sy_broken (th_system y) \<or> illegal_in env (in_hand w (received s))\<rparr>))\<rparr>)"
      using converse_rtranclp_into_rtranclp [OF one qs(3) [unfolded b last]] .
    with qs(1,2) u(2) d w show "\<exists>qs d. tsw_posts (snd z) = tsw_posts (snd x) @ qs \<and> unsent (snd z) = unsent (snd x) @ d \<and>
      (th_step env)\<^sup>*\<^sup>* y (y\<lparr>th_work := K_Idle, th_system := settle ((snd z)\<lparr>tsw_posts := qs\<rparr>) (note_output (snd z)
        ((th_system y)\<lparr>sy_broken := sy_broken (th_system y) \<or>
          fst x \<noteq> K_Idle \<and> illegal_in env (in_hand (fst x) (received (snd x)))\<rparr>))\<rparr>)"
      by (intro exI [of _ "tsw_posts u @ qs"] exI [of _ "d @ e"]) (simp add: x)
  qed
qed

section \<open>Every step of the system\<close>

lemma settle_socket: "tsw_posts u = [] \<Longrightarrow> sy_socket (settle u y) = u"
  by (simp add: settle_def)

lemma settle_over:
  assumes "tsw_posts u = []"
  shows "settle t (settle u y) = settle t y"
    and "received u = received (sy_socket y) \<Longrightarrow> settle t (note_input t (settle u y)) = settle t (note_input t y)"
  using assms by (simp_all add: settle_def note_input_def)

lemma net_back:
  "th_net y = N_Idle \<Longrightarrow> y\<lparr>th_net := n, th_system := x, th_net := N_Idle, th_system := z\<rparr> = y\<lparr>th_system := z\<rparr>"
  by (cases y) simp

lemma read_event_runs:
  assumes inv: "th_inv env y" and n: "th_net y = N_Idle" "read_registered (th_socket y)"
    and fire: "fire_read (on_network env) answer (th_socket y) = Inr t"
  shows "(th_step env)\<^sup>*\<^sup>* y (y\<lparr>th_system := settle t (note_input t (th_system y))\<rparr>)"
proof -
  let ?s = "th_socket y" and ?y = "th_system y"
  note parts = th_inv_parts [OF inv]
  from parts(1) n(2) obtain e f where ev: "tsw_socket_read_event ?s = Some e" "ev_added e" "conn_events (tsw_state ?s) e f"
    by (auto simp: read_registered_def elim!: conn_invE)
  then obtain a where a: "ev_callback e = Some (On_Read_Event, a)" by (auto simp: conn_events_def)
  let ?u = "?s\<lparr>tsw_socket_read_event := Some (event_fired e)\<rparr>"
  let ?n = "if a \<and> tsw_state ?s = CS_CONNECTED then N_Reading answer else N_Idle"
  let ?v = "y\<lparr>th_net := ?n, th_system := settle ?u ?y\<rparr>"
  have "read_begin (on_network env) answer ?s = Inr (?n, ?u)"
    using ev(1) a by (simp add: read_begin_def)
  from th_step.readable [OF n this] have first: "th_step env y ?v" .
  have over: "settle t (note_input t (settle ?u ?y)) = settle t (note_input t ?y)"
    using parts(2) by (intro settle_over(2)) simp_all
  show ?thesis
  proof (cases "a \<and> tsw_state ?s = CS_CONNECTED")
    case True
    have "th_socket ?v = ?u" using settle_socket [of ?u] parts(2) by simp
    then have "TryReadDataFromSocket (on_network env) answer (th_socket ?v) = Inr t"
      using fire ev(1) a True by (simp only:) (simp add: fire_read_def OnReadEvent_def)
    from try_read_runs [OF this] True parts(2,6)
    have "(th_step env)\<^sup>*\<^sup>* ?v (?v\<lparr>th_net := N_Idle, th_system := settle t (note_input t (settle ?u ?y))\<rparr>)" by simp
    with converse_rtranclp_into_rtranclp [where r = "th_step env", OF first] show ?thesis unfolding over net_back [OF n(1)] .
  next
    case False
    then have "t = ?u" using fire ev(1) a by (auto simp: fire_read_def OnReadEvent_def Let_def split: if_splits)
    then have "note_input t ?y = ?y" by (simp add: note_input_def)
    moreover have "?v = y\<lparr>th_system := settle ?u ?y\<rparr>" using False n(1) by (cases y) auto
    ultimately show ?thesis using first \<open>t = ?u\<close> by auto
  qed
qed

lemma write_event_runs:
  assumes inv: "th_inv env y" and n: "th_net y = N_Idle"
    and fire: "fire_write (on_network env) so_error event (th_socket y) = Some (Inr t)"
    and step: "\<And>m s. write_begin (on_network env) so_error event (th_socket y) = Inr (m, s) \<Longrightarrow>
      th_step env y (y\<lparr>th_net := m, th_system := settle s (th_system y)\<rparr>)"
  shows "(th_step env)\<^sup>*\<^sup>* y (y\<lparr>th_system := settle t (th_system y)\<rparr>)"
proof -
  let ?s = "th_socket y" and ?y = "th_system y"
  note parts = th_inv_parts [OF inv]
  obtain f where f: "tsw_socket_write_event ?s = Some f" using parts(1) by (auto elim: conn_invE)
  let ?u = "?s\<lparr>tsw_socket_write_event := Some (event_fired f)\<rparr>"
  have stop: ?thesis if "write_begin (on_network env) so_error event ?s = Inr (N_Idle, t)"
  proof -
    have "y\<lparr>th_net := N_Idle, th_system := settle t ?y\<rparr> = y\<lparr>th_system := settle t ?y\<rparr>" using n by (cases y) simp
    with step [OF that] show ?thesis by auto
  qed
  show ?thesis
  proof (cases "ev_callback f = Some (On_Write_Event, True)")
    case True
    let ?v = "y\<lparr>th_net := N_Load, th_system := settle ?u ?y\<rparr>"
    have "write_begin (on_network env) so_error event ?s = Inr (N_Load, ?u)"
      using f True by (simp add: write_begin_def)
    note first = step [OF this]
    have "th_socket ?v = ?u" using settle_socket [of ?u] parts(2) by simp
    then have "TryWriteBufferToSocket (on_network env) (th_socket ?v) = Some (Inr t)"
      using fire f True by (simp only:) (simp add: fire_write_def OnWriteEvent_def)
    from try_write_runs [OF this] parts(2)
    have "(th_step env)\<^sup>*\<^sup>* ?v (?v\<lparr>th_net := N_Idle, th_system := settle t (settle ?u ?y)\<rparr>)" by simp
    moreover have "settle t (settle ?u ?y) = settle t ?y" using parts(2) by (intro settle_over(1)) simp
    ultimately show ?thesis using converse_rtranclp_into_rtranclp [where r = "th_step env", OF first] by (simp only: net_back [OF n])
  next
    case False
    with fire f have "write_begin (on_network env) so_error event ?s = Inr (N_Idle, t)"
      by (auto simp: fire_write_def write_begin_def OnWriteEvent_def Let_def split: option.splits tcp_callback.splits prod.splits)
    then show ?thesis by (rule stop)
  qed
qed

lemma net_task_runs:
  assumes inv: "th_inv env y" and n: "th_net y = N_Idle" "sy_net (th_system y) = p # ps"
    and run: "run_net (on_network env) answers p (th_socket y) = Some (Inr t)"
  shows "(th_step env)\<^sup>*\<^sup>* y (y\<lparr>th_system := settle t ((th_system y)\<lparr>sy_net := ps,
    sy_closed := sy_closed (th_system y) \<or> p = Net_Close_Connection,
    sy_late := sy_late (th_system y) \<or> sy_closed (th_system y) \<and> p = Net_Try_Write\<rparr>)\<rparr>)"
proof -
  let ?s = "th_socket y"
  note parts = th_inv_parts [OF inv]
  define x where "x = (th_system y)\<lparr>sy_net := ps, sy_closed := sy_closed (th_system y) \<or> p = Net_Close_Connection,
    sy_late := sy_late (th_system y) \<or> sy_closed (th_system y) \<and> p = Net_Try_Write\<rparr>"
  have x: "sy_socket x = ?s" by (simp add: x_def)
  note step = th_step.net_task [OF n, where env = env and answers = answers, folded x_def]
  have "(th_step env)\<^sup>*\<^sup>* y (y\<lparr>th_system := settle t x\<rparr>)"
  proof (cases "p = Net_Try_Write")
    case True
    let ?v = "y\<lparr>th_net := N_Load, th_system := settle ?s x\<rparr>"
    have "net_begin (on_network env) answers p ?s = Some (Inr (N_Load, ?s))" using True by (simp add: net_begin_def)
    note first = step [OF this]
    have "th_socket ?v = ?s" using settle_socket [of ?s] parts(2) by simp
    then have "TryWriteBufferToSocket (on_network env) (th_socket ?v) = Some (Inr t)"
      using run True by (simp only:) (cases answers; auto)
    from try_write_runs [OF this] parts(2)
    have "(th_step env)\<^sup>*\<^sup>* ?v (?v\<lparr>th_net := N_Idle, th_system := settle t (settle ?s x)\<rparr>)" by simp
    moreover have "settle t (settle ?s x) = settle t x" using parts(2) by (intro settle_over(1))
    ultimately show ?thesis using converse_rtranclp_into_rtranclp [where r = "th_step env", OF first] by (simp only: net_back [OF n(1)])
  next
    case False
    then have "net_begin (on_network env) answers p ?s = Some (Inr (N_Idle, t))" using run by (simp add: net_begin_def)
    from step [OF this] have "th_step env y (y\<lparr>th_net := N_Idle, th_system := settle t x\<rparr>)" .
    moreover have "y\<lparr>th_net := N_Idle, th_system := settle t x\<rparr> = y\<lparr>th_system := settle t x\<rparr>" using n(1) by (cases y) simp
    ultimately show ?thesis by auto
  qed
  then show ?thesis unfolding x_def .
qed

lemma work_task_runs:
  assumes env: "thread_env env" "blind env" and inv: "th_inv env y"
    and w: "th_user y = U_Idle" "th_work y = K_Idle" "sy_work (th_system y) = p # ps"
    and run: "run_work (on_worker env) p (th_socket y) = Inr t"
  shows "(th_step env)\<^sup>*\<^sup>* y (y\<lparr>th_system := settle t (note_output t ((th_system y)\<lparr>sy_work := ps,
    sy_broken := sy_broken (th_system y) \<or> meets_illegal env p (th_socket y)\<rparr>))\<rparr>)"
proof -
  let ?s = "th_socket y" and ?x = "(th_system y)\<lparr>sy_work := ps\<rparr>"
  note parts = th_inv_parts [OF inv]
  have sender: "one_sender y s" for s using w(1) by (simp add: one_sender_def)
  show ?thesis
  proof (cases "p = Work_Process_Buffered")
    case True
    let ?v = "y\<lparr>th_work := K_Load, th_system := settle ?s (note_output ?s ?x)\<rparr>"
    have x: "settle ?s (note_output ?s ?x) = ?x"
      using settle_none [of ?x] note_output_same [of ?s ?x] parts(2) by (simp del: length_ring_contents)
    have "work_begin (on_worker env) p ?s = Inr (K_Load, ?s)" using True by (simp add: work_begin_def)
    from th_step.work_task [OF w(2,3) this sender] have first: "th_step env y ?v" .
    then have v: "th_inv env ?v" by (rule th_step_inv [OF env(1) inv])
    have "runs (work_next (on_worker env)) (K_Load, ?s) (K_Idle, t)"
      using run True by (intro process_alone) simp
    from work_runs [OF env this] v w(1) parts(2) obtain qs where
      qs: "tsw_posts t = qs" "(th_step env)\<^sup>*\<^sup>* ?v (?v\<lparr>th_work := K_Idle, th_system := settle (t\<lparr>tsw_posts := qs\<rparr>)
        (note_output t (?x\<lparr>sy_broken := sy_broken ?x \<or> illegal_in env (received ?s)\<rparr>))\<rparr>)"
      unfolding x by auto
    have "?v\<lparr>th_work := K_Idle, th_system := z\<rparr> = y\<lparr>th_system := z\<rparr>" for z using w(2) by (cases y) simp
    moreover have "t\<lparr>tsw_posts := qs\<rparr> = t" using qs(1) by simp
    ultimately show ?thesis
      using converse_rtranclp_into_rtranclp [OF first qs(2)] True by (simp add: meets_illegal_def)
  next
    case False
    then have "work_begin (on_worker env) p ?s = Inr (K_Idle, t)" using run by (simp add: work_begin_def)
    from th_step.work_task [OF w(2,3) this sender]
    have "th_step env y (y\<lparr>th_work := K_Idle, th_system := settle t (note_output t ?x)\<rparr>)" .
    moreover have "y\<lparr>th_work := K_Idle, th_system := z\<rparr> = y\<lparr>th_system := z\<rparr>" for z using w(2) by (cases y) simp
    ultimately show ?thesis using False by (auto simp: meets_illegal_def)
  qed
qed

text \<open>
  So a step of the system is a run of the threads, from one state where all are idle to another. Only
  the worker's steps need blind callbacks.
\<close>

lemma threads_of_update: "(threads_of x)\<lparr>th_system := z\<rparr> = threads_of z"
  by (simp add: threads_of_def)

lemma system_step_runs:
  assumes env: "thread_env env" "blind env \<or> sy_work x = []" and inv: "th_inv env (threads_of x)"
    and step: "sys_step env x z"
  shows "(th_step env)\<^sup>*\<^sup>* (threads_of x) (threads_of z)"
proof -
  let ?y = "threads_of x"
  note parts = th_inv_parts [OF inv]
  have idle: "th_user ?y = U_Idle" "th_net ?y = N_Idle" "th_work ?y = K_Idle" "th_system ?y = x"
    by (simp_all add: threads_of_def)
  show ?thesis
    using step
  proof cases
    case (user_send len data ok d s)
    then show ?thesis
      using send_data_runs [OF idle(1) parts(2,5) user_send(2,3)] by (simp add: idle threads_of_update)
  next
    case (user_send_head buff ok s)
    then show ?thesis
      using send_head_runs [OF idle(1) parts(2,5) user_send_head(2)] by (simp add: idle threads_of_update)
  next
    case user_close
    with th_step.user_close [OF idle(1), of env] show ?thesis by (simp add: idle threads_of_update r_into_rtranclp)
  next
    case (net p ps answers s)
    with net_task_runs [OF inv idle(2), of p ps answers s] show ?thesis by (simp add: idle threads_of_update)
  next
    case (work p ps s)
    then have "blind env" using env(2) by simp
    from work_task_runs [OF env(1) this inv idle(1,3), of p ps s] work show ?thesis by (simp add: idle threads_of_update)
  next
    case (readable answer s)
    with read_event_runs [OF inv idle(2), of answer s] show ?thesis by (simp add: idle threads_of_update)
  next
    case (writable so_error s)
    with write_event_runs [OF inv idle(2), of so_error EV_WRITE s] th_step.writable [OF idle(2)]
    show ?thesis by (simp add: idle threads_of_update)
  next
    case (connect_timeout s)
    with write_event_runs [OF inv idle(2), of 0 EV_TIMEOUT s] th_step.connect_timeout [OF idle(2)]
    show ?thesis by (simp add: idle threads_of_update)
  qed
qed

lemma system_runs:
  assumes env: "thread_env env" "blind env" and inv: "th_inv env (threads_of x)" and run: "(sys_step env)\<^sup>*\<^sup>* x z"
  shows "(th_step env)\<^sup>*\<^sup>* (threads_of x) (threads_of z)"
  using run
proof induction
  case (step y z)
  have "th_inv env (threads_of y)"
    using threads.run_inv [OF step.IH] env(1) inv by blast
  with system_step_runs [OF env(1) _ _ step.hyps(2)] env(2) step.IH show ?case by (meson rtranclp_trans)
qed simp

end
