(* ===== verification/Tcp_Thread_Rest.thy ===== *)
theory Tcp_Thread_Rest
  imports Tcp_Thread_Runs
begin

text \<open>
  What the three threads have begun, and what is posted to the loops, comes to an end in any order
  of their steps; then nothing is stranded in the rings.
\<close>

section \<open>What there is to do\<close>

text \<open>
  The steps of a machine, the bytes it has still to move, and the posts count, each more than what
  it may lead to.
\<close>

fun user_load :: "user_pc \<Rightarrow> nat" where
  "user_load U_Idle = 0"
| "user_load (U_Write bs) = 104 + 15 * length bs"
| "user_load (U_Copy bs) = 103 + 15 * length bs"
| "user_load (U_Publish bs) = 102 + 15 * length bs"
| "user_load U_Post = 101"

fun answer_size :: "sys_read \<Rightarrow> nat" where
  "answer_size (Sys_Data bytes) = length bytes"
| "answer_size (Sys_Error errno) = 0"

fun net_load :: "net_pc \<Rightarrow> nat" where
  "net_load N_Idle = 0"
| "net_load N_Load = 15"
| "net_load (N_Have n) = 14"
| "net_load (N_Sent k) = 1"
| "net_load (N_Reading answer) = 16 + 8 * answer_size answer"
| "net_load (N_Space n answer) = 15 + 8 * answer_size answer"
| "net_load (N_Got bs) = 14 + 8 * length bs"
| "net_load N_Queue = 13"

definition posts_load :: "tcp_post list \<Rightarrow> nat" where
  "posts_load ps = 100 * length (filter is_net_post ps) + 12 * length (filter (\<lambda>p. \<not> is_net_post p) ps)"

definition th_load :: "tcp_threads \<Rightarrow> nat" where
  "th_load y = 15 * length (unsent (th_socket y)) + work_left (th_work y) (received (th_socket y)) +
     user_load (th_user y) + net_load (th_net y) + 100 * length (sy_net (th_system y)) + 12 * length (sy_work (th_system y))"

definition socket_load :: "tcp_socket \<Rightarrow> nat" where
  "socket_load s = 15 * length (unsent s) + posts_load (tsw_posts s)"

lemma th_load_settle:
  "th_load (y\<lparr>th_system := settle t x\<rparr>) = socket_load t + work_left (th_work y) (received t) +
     user_load (th_user y) + net_load (th_net y) + 100 * length (sy_net x) + 12 * length (sy_work x)"
  by (simp add: th_load_def settle_def socket_load_def posts_load_def)

lemma th_load_socket:
  assumes "tsw_posts (th_socket y) = []"
  shows "th_load y = socket_load (th_socket y) + work_left (th_work y) (received (th_socket y)) +
     user_load (th_user y) + net_load (th_net y) + 100 * length (sy_net (th_system y)) + 12 * length (sy_work (th_system y))"
  using assms by (simp add: th_load_def socket_load_def posts_load_def)

lemma load_history [simp]:
  "socket_load (s\<lparr>tsw_receiver_buffer := q\<rparr>) = socket_load s" "socket_load (s\<lparr>tsw_sends := k\<rparr>) = socket_load s"
  "socket_load (s\<lparr>tsw_wire := w\<rparr>) = socket_load s"
  "socket_load (post p s) = socket_load s + (if is_net_post p then 100 else 12)"
  by (simp_all add: socket_load_def post_def posts_load_def)

lemma user_less:
  assumes inv: "th_inv env y" and u: "user_next (th_user y) (th_socket y) = Inr (u, t)"
  shows "socket_load t + user_load u < socket_load (th_socket y) + user_load (th_user y)" "received t = received (th_socket y)"
proof -
  let ?s = "th_socket y" and ?r = "tsw_sender_buffer (th_socket y)"
  note parts = th_inv_parts [OF inv]
  have "socket_load t + user_load u < socket_load ?s + user_load (th_user y) \<and> received t = received ?s"
  proof (cases "th_user y")
    case (U_Copy bs)
    then obtain d where d: "ring_copy_in ?r (ring_CurrentSeriesWriteHead ?r) bs (of_nat (length bs)) = Inr d"
      "ring_contents (?r\<lparr>rb_data := d\<rparr>) = ring_contents ?r"
      using user_copy_ok [of ?r bs] parts(3) by auto
    then have "u = U_Publish bs" "t = ?s\<lparr>tsw_sender_buffer := ?r\<lparr>rb_data := d\<rparr>\<rparr>"
      using u U_Copy by (auto simp: user_next_def Let_def)
    with U_Copy d(2) show ?thesis by (simp add: socket_load_def del: length_ring_contents)
  next
    case (U_Publish bs)
    let ?p = "?r\<lparr>rb_write_count := rb_write_count ?r + of_nat (length bs)\<rparr>"
    have "ring_contents ?p = ring_contents ?r @ bs" using user_publish_ok [of ?r bs] parts(3) U_Publish by auto
    moreover have "u = U_Post" "t = ?s\<lparr>tsw_sender_buffer := ?p\<rparr>" using u U_Publish by (auto simp: user_next_def Let_def)
    ultimately show ?thesis using U_Publish by (simp add: socket_load_def del: length_ring_contents)
  next
    case U_Post
    with u show ?thesis by (auto simp: user_next_def Let_def post_def socket_load_def posts_load_def)
  qed (use u in \<open>auto simp: user_next_def Let_def rbind_eq_Inr split: if_splits\<close>)
  then show "socket_load t + user_load u < socket_load ?s + user_load (th_user y)" "received t = received ?s" by auto
qed

lemma error_load: "socket_load (error_socket s) \<le> socket_load s + 12" "received (error_socket s) = received s"
  by (simp_all add: socket_load_def posts_load_def error_socket_def)

lemma closed_load:
  assumes "conn_inv s" "OnErrorEvent (on_network env) (s\<lparr>tsw_sends := k\<rparr>) = Inr t"
  shows "socket_load t \<le> socket_load s + 12 \<and> received t = received s"
  using assms error_load [of "s\<lparr>tsw_sends := k\<rparr>"] by (auto simp: error_now)

lemma added_load:
  assumes "on_write_event f (s\<lparr>tsw_sends := k\<rparr>) = Inr t"
  shows "socket_load t = socket_load s \<and> received t = received s"
  using assms by (auto simp: on_write_event_def socket_load_def split: option.splits)

lemma net_have_less:
  assumes inv: "th_inv env y" and N_Have: "th_net y = N_Have m"
    and n: "net_next (on_network env) (th_net y) (th_socket y) = Inr (n, t)"
  shows "socket_load t + net_load n + work_left (th_work y) (received t) <
    socket_load (th_socket y) + net_load (th_net y) + work_left (th_work y) (received (th_socket y))"
proof -
  let ?s = "th_socket y"
  note parts = th_inv_parts [OF inv]
  note offer = net_have_ok [OF parts(3) [unfolded N_Have]]
  let ?bs = "take (unat m) (unsent ?s)"
  obtain k en where k: "env_send (on_network env) (tsw_sends ?s) ?bs = (k, en)"
    by (cases "env_send (on_network env) (tsw_sends ?s) ?bs")
  have step: "(if k < 0 then rbind (if en \<noteq> EAGAIN \<and> en \<noteq> EINTR then OnErrorEvent (on_network env) (?s\<lparr>tsw_sends := Suc (tsw_sends ?s)\<rparr>)
      else on_write_event (tcp_event_add None) (?s\<lparr>tsw_sends := Suc (tsw_sends ?s)\<rparr>)) (\<lambda>t. Inr (N_Idle, t))
      else Inr (N_Sent k, ?s\<lparr>tsw_sends := Suc (tsw_sends ?s), tsw_wire := tsw_wire ?s @ take (nat k) ?bs\<rparr>)) = Inr (n, t)"
    using n N_Have offer(1) k by (simp add: net_next_def Let_def)
  show ?thesis
  proof (cases "k < 0")
    case True
    then have "n = N_Idle" "OnErrorEvent (on_network env) (?s\<lparr>tsw_sends := Suc (tsw_sends ?s)\<rparr>) = Inr t \<or>
        on_write_event (tcp_event_add None) (?s\<lparr>tsw_sends := Suc (tsw_sends ?s)\<rparr>) = Inr t"
      using step by (auto simp: rbind_eq_Inr split: if_splits)
    moreover have "socket_load t \<le> socket_load ?s + 12 \<and> received t = received ?s"
      using calculation(2) closed_load [OF parts(1)] added_load by fastforce
    ultimately show ?thesis using N_Have by simp
  next
    case False
    then have "n = N_Sent k" "t = ?s\<lparr>tsw_sends := Suc (tsw_sends ?s), tsw_wire := tsw_wire ?s @ take (nat k) ?bs\<rparr>"
      using step by auto
    then show ?thesis using N_Have by (simp add: socket_load_def)
  qed
qed

lemma net_space_less:
  assumes inv: "th_inv env y" and N_Space: "th_net y = N_Space m answer"
    and n: "net_next (on_network env) (th_net y) (th_socket y) = Inr (n, t)"
  shows "socket_load t + net_load n + work_left (th_work y) (received t) <
    socket_load (th_socket y) + net_load (th_net y) + work_left (th_work y) (received (th_socket y))"
proof -
  let ?s = "th_socket y" and ?q = "tsw_receiver_buffer (th_socket y)"
  note parts = th_inv_parts [OF inv]
  show ?thesis
  proof (cases "\<exists>bytes. answer = Sys_Data bytes \<and> take (unat m) bytes \<noteq> []")
    case True
    then obtain bytes where b: "answer = Sys_Data bytes" "take (unat m) bytes \<noteq> []" by blast
    let ?bs = "take (unat m) bytes"
    obtain d where d: "mem_write (rb_data ?q) (unat (ring_CurrentSeriesWriteHead ?q)) ?bs = Inr d"
      "ring_contents (?q\<lparr>rb_data := d\<rparr>) = received ?s"
      using net_got_ok [OF parts(4) [unfolded N_Space], of ?bs] by auto
    then have "n = N_Got ?bs" "t = ?s\<lparr>tsw_receiver_buffer := ?q\<lparr>rb_data := d\<rparr>\<rparr>"
      using n N_Space b by (auto simp: net_next_def Let_def simp del: take_eq_Nil)
    then show ?thesis using d(2) N_Space b(1) by simp
  next
    case False
    then have "n = N_Idle" "t = ?s \<or> OnErrorEvent (on_network env) ?s = Inr t"
      using n N_Space by (cases answer; auto simp: net_next_def Let_def rbind_eq_Inr split: if_splits)+
    moreover have "OnErrorEvent (on_network env) ?s = Inr t \<Longrightarrow> socket_load t \<le> socket_load ?s + 12 \<and> received t = received ?s"
      using OnErrorEvent_on_network [OF parts(1)] error_load [of ?s] by auto
    ultimately show ?thesis using N_Space by auto
  qed
qed

lemma net_less:
  assumes env: "thread_env env" and inv: "th_inv env y" and n: "net_next (on_network env) (th_net y) (th_socket y) = Inr (n, t)"
  shows "socket_load t + net_load n + work_left (th_work y) (received t) <
    socket_load (th_socket y) + net_load (th_net y) + work_left (th_work y) (received (th_socket y))"
proof -
  let ?s = "th_socket y" and ?r = "tsw_sender_buffer (th_socket y)" and ?q = "tsw_receiver_buffer (th_socket y)"
  let ?w = "th_work y"
  note parts = th_inv_parts [OF inv]
  show ?thesis
  proof (cases "th_net y")
    case (N_Have m)
    with net_have_less [OF inv _ n] show ?thesis by simp
  next
    case (N_Sent k)
    obtain r where r: "ring_ConsumeSeriesReadLen ?r (word_of_int k) = Inr r" "ring_contents r = drop (nat k) (unsent ?s)"
      using net_sent_ok [OF parts(3) [unfolded N_Sent]] by blast
    then have t: "n = N_Load" "t = ?s\<lparr>tsw_sender_buffer := r\<rparr>" using n N_Sent by (auto simp: net_next_def)
    have "1 \<le> k" using parts(3) N_Sent by (simp add: send_ok_def)
    then have "1 \<le> nat k" "nat k \<le> length (unsent ?s)"
      using N_Sent sent_le [OF parts(3)] by (simp_all add: nat_le_eq_zle del: length_ring_contents)
    then show ?thesis using t r(2) N_Sent by (simp add: socket_load_def del: length_ring_contents)
  next
    case (N_Space m answer)
    with net_space_less [OF inv _ n] show ?thesis by simp
  next
    case (N_Got bs)
    obtain q where q: "ring_ConsumeSeriesWriteLen ?q (of_nat (length bs)) = Inr q" "ring_contents q = received ?s @ bs"
      using net_publish_ok [OF parts(4) [unfolded N_Got]] by blast
    then have t: "n = N_Queue" "t = ?s\<lparr>tsw_receiver_buffer := q\<rparr>" using n N_Got by (auto simp: net_next_def)
    have "in_hand ?w (received ?s @ bs) = in_hand ?w (received ?s) @ bs"
      using parts(4) by (intro in_hand_append [of "env_le env"]) (simp add: receive_ok_def)
    then have "work_left ?w (ring_contents q) = work_left ?w (received ?s) + 8 * length bs" by (simp add: work_left_def q(2))
    then show ?thesis using t N_Got by (simp del: length_ring_contents)
  next
    case N_Queue
    then have "n = N_Idle" "t = post Work_Process_Buffered ?s" using n by (auto simp: net_next_def)
    then show ?thesis using N_Queue load_history(4) [of Work_Process_Buffered ?s] by (simp add: post_def)
  qed (use n in \<open>auto simp: net_next_def rbind_eq_Inr split: if_splits\<close>)
qed

lemma start_load:
  assumes "conn_inv s" "\<not> env_in_worker env"
    and "ConnectServerInNetworkLoop env fd conn s = Inr t \<or> BeginProcessInNetworkLoop env nb cfd s = Inr t"
  shows "socket_load t \<le> socket_load s + 12" "received t = received s"
proof -
  from assms(1) obtain e f where ev: "tsw_socket_read_event s = Some e" "tsw_socket_write_event s = Some f"
    by (rule conn_invE)
  have "tsw_receiver_buffer t = tsw_receiver_buffer s \<and> unsent t = unsent s \<and>
      (tsw_posts t = tsw_posts s \<or> tsw_posts t = tsw_posts s @ [Work_Close_Signal])"
    using assms(2,3) ev
    by (auto simp: ConnectServerInNetworkLoop_def BeginProcessInNetworkLoop_def on_read_event_def on_write_event_def
      OnErrorEvent_net error_socket_def Let_def split: if_splits)
  then show "socket_load t \<le> socket_load s + 12" "received t = received s"
    by (auto simp: socket_load_def posts_load_def)
qed

lemma net_begin_less:
  assumes env: "thread_env env" and s: "conn_inv s"
    and run: "net_begin (on_network env) answers p s = Some (Inr (n, t))"
  shows "socket_load t + net_load n < socket_load s + 100" "received t = received s"
proof -
  obtain fd conn nb where a: "answers = (fd, conn, nb)" by (cases answers) auto
  have k: "\<not> env_in_worker (on_network env)" by (simp add: on_network_def)
  note close = Close_net(3-5) [OF s k]
  have "socket_load t + net_load n < socket_load s + 100 \<and> received t = received s"
  proof (cases "p = Net_Try_Write")
    case False
    then have r: "n = N_Idle" "run_net (on_network env) answers p s = Some (Inr t)"
      using run by (auto simp: net_begin_def rbind_eq_Inr)
    have "socket_load t \<le> socket_load s + 12 \<and> received t = received s"
    proof (cases p)
      case Net_Close_Connection
      with r(2) a close show ?thesis by (auto simp: socket_load_def posts_load_def simp del: length_ring_contents)
    next
      case Net_Connect_Server
      with r(2) a start_load [OF s k, of fd conn t] show ?thesis by auto
    next
      case (Net_Begin_Process cfd)
      with r(2) a start_load [OF s k, of _ _ t nb cfd] show ?thesis by auto
    qed (use r(2) a False in auto)
    with r(1) show ?thesis by simp
  qed (use run in \<open>auto simp: net_begin_def\<close>)
  then show "socket_load t + net_load n < socket_load s + 100" "received t = received s" by auto
qed

lemma work_begin_less:
  assumes env: "thread_env env" "silent env" and s: "conn_inv s"
    and run: "work_begin (on_worker env) p s = Inr (w, t)"
  shows "socket_load t + work_left w (received t) < socket_load s + work_left K_Idle (received s) + 12"
proof (cases "p = Work_Process_Buffered")
  case True
  with run show ?thesis by (simp add: work_begin_def work_left_def)
next
  case False
  then have r: "w = K_Idle" "run_work (on_worker env) p s = Inr t" using run by (auto simp: work_begin_def rbind_eq_Inr)
  have "socket_load t = socket_load s \<and> received t = received s"
    if "emit (on_worker env) sig s = Inr t" "packets_of [sig] = []" for sig
    using work_signal_ok [OF env(1) s that(2)] that(1) env(2) by (auto simp: mute_def socket_load_def)
  moreover have "socket_load (OnDestroySocket s) = socket_load s" "received (OnDestroySocket s) = received s"
    by (simp_all add: OnDestroySocket_def socket_load_def)
  ultimately have "socket_load t = socket_load s \<and> received t = received s"
    using r(2) False by (cases p) auto
  with r(1) show ?thesis by simp
qed

lemma work_less:
  assumes env: "thread_env env" "silent env" and inv: "th_inv env y" and w: "th_work y \<noteq> K_Idle"
    and run: "work_next (on_worker env) (th_work y) (th_socket y) = Inr (w, t)"
  shows "socket_load t + work_left w (received t) < socket_load (th_socket y) + work_left (th_work y) (received (th_socket y))"
proof -
  note parts = th_inv_parts [OF inv]
  have "\<not> (th_work y = K_Load \<and> ring_full (th_socket y))"
    using run ring_AvailableRead_full by (auto simp: work_next_def ring_full_def)
  from work_next_ok [OF env(1) parts(1) w parts(4) this] run
  have "work_does env (th_net y) (th_work y) (th_socket y) w t" by auto
  then show ?thesis using env(2) by (auto simp: work_does_def Let_def mute_def socket_load_def)
qed

section \<open>The steps that finish\<close>

text \<open>A thread goes on with what it has begun, or a loop with its queue: nothing new is called or arrives.\<close>

inductive th_inner :: "tcp_env \<Rightarrow> tcp_threads \<Rightarrow> tcp_threads \<Rightarrow> bool" for env where
  user: "\<lbrakk> th_user y \<noteq> U_Idle; user_next (th_user y) (th_socket y) = Inr (u, s) \<rbrakk>
     \<Longrightarrow> th_inner env y (y\<lparr>th_user := u, th_system := settle s (note_output s (th_system y))\<rparr>)"
| net_task: "\<lbrakk> th_net y = N_Idle; sy_net (th_system y) = p # ps;
     net_begin (on_network env) answers p (th_socket y) = Some (Inr (n, s)) \<rbrakk>
     \<Longrightarrow> th_inner env y (y\<lparr>th_net := n, th_system := settle s ((th_system y)\<lparr>sy_net := ps,
           sy_closed := sy_closed (th_system y) \<or> p = Net_Close_Connection,
           sy_late := sy_late (th_system y) \<or> sy_closed (th_system y) \<and> p = Net_Try_Write\<rparr>)\<rparr>)"
| net: "\<lbrakk> th_net y \<noteq> N_Idle; net_next (on_network env) (th_net y) (th_socket y) = Inr (n, s) \<rbrakk>
     \<Longrightarrow> th_inner env y (y\<lparr>th_net := n,
           th_system := settle s ((th_system y)\<lparr>sy_taken := sy_taken (th_system y) @ got_of n\<rparr>)\<rparr>)"
| work_task: "\<lbrakk> th_work y = K_Idle; sy_work (th_system y) = p # ps;
     work_begin (on_worker env) p (th_socket y) = Inr (w, s); one_sender y s \<rbrakk>
     \<Longrightarrow> th_inner env y (y\<lparr>th_work := w, th_system := settle s (note_output s ((th_system y)\<lparr>sy_work := ps\<rparr>))\<rparr>)"
| work: "\<lbrakk> th_work y \<noteq> K_Idle; work_next (on_worker env) (th_work y) (th_socket y) = Inr (w, s); one_sender y s \<rbrakk>
     \<Longrightarrow> th_inner env y (y\<lparr>th_work := w, th_system := settle s (note_output s ((th_system y)\<lparr>sy_broken :=
           sy_broken (th_system y) \<or> at_illegal (env_le env) (th_work y) (received (th_socket y))\<rparr>))\<rparr>)"

lemma inner_step: "th_inner env y z \<Longrightarrow> th_step env y z"
  by (cases rule: th_inner.cases) (auto intro: th_step.intros)

lemma inner_less:
  assumes env: "thread_env env" "silent env" and inv: "th_inv env y" and step: "th_inner env y z"
  shows "th_load z < th_load y"
proof -
  note parts = th_inv_parts [OF inv] and here = th_load_socket [OF parts(2)]
  note settled = th_load_settle
  show ?thesis
    using step
  proof cases
    case (user u s)
    with user_less [OF inv user(3)] show ?thesis by (simp add: here settled note_output_def)
  next
    case (net_task p ps answers n s)
    with net_begin_less [OF env(1) parts(1) net_task(4)] show ?thesis by (simp add: here settled)
  next
    case (net n s)
    with net_less [OF env(1) inv net(3)] show ?thesis by (simp add: here settled)
  next
    case (work_task p ps w s)
    with work_begin_less [OF env parts(1) work_task(4)] show ?thesis by (simp add: here settled note_output_def)
  next
    case (work w s)
    with work_less [OF env inv work(2,3)] show ?thesis by (simp add: here settled note_output_def)
  qed
qed

interpretation inner_steps: measured_system "th_inner env" "\<lambda>y. thread_env env \<and> silent env \<and> th_inv env y" th_load for env
  by unfold_locales (use th_step_inv inner_step inner_less in blast)+

section \<open>At rest\<close>

text \<open>Where no thread can go on, all is done, but for a worker that met an exactly full ring.\<close>

definition th_rest :: "tcp_threads \<Rightarrow> bool" where
  "th_rest y \<longleftrightarrow> th_user y = U_Idle \<and> th_net y = N_Idle \<and> sy_net (th_system y) = [] \<and>
     (th_work y = K_Idle \<and> sy_work (th_system y) = [] \<or> th_work y = K_Load \<and> ring_full (th_socket y))"

lemma inner_stops:
  assumes env: "thread_env env" and inv: "th_inv env y" and stop: "\<not> (\<exists>z. th_inner env y z)"
  shows "th_rest y"
proof -
  have u: "th_user y = U_Idle" using user_step_ok [OF inv] th_inner.user [of y] stop by blast
  then have one: "one_sender y s" for s by (simp add: one_sender_def)
  have "th_net y = N_Idle" using net_machine_ok [OF env inv] th_inner.net [of y env] stop by blast
  moreover have "sy_net (th_system y) = []" if "th_net y = N_Idle"
    using net_task_ok [OF env inv that] th_inner.net_task [OF that] stop by (cases "sy_net (th_system y)") blast+
  moreover have "th_work y = K_Idle \<or> th_work y = K_Load \<and> ring_full (th_socket y)"
    using work_machine_ok [OF env inv] th_inner.work [of y env] one stop by blast
  moreover have "sy_work (th_system y) = []" if "th_work y = K_Idle"
    using work_task_ok [OF env inv that] th_inner.work_task [OF that _ _ one] stop by (cases "sy_work (th_system y)") blast+
  ultimately show ?thesis using u by (auto simp: th_rest_def)
qed

text \<open>
  At rest: the output is on the wire, or the write event waits for the socket, or the connection is
  closed; and every whole packet that has arrived has been handed over.
\<close>

lemma rest_done:
  assumes inv: "th_inv env y" and rest: "th_rest y"
  shows "sy_output (th_system y) = tsw_wire (th_socket y) @ unsent (th_socket y)"
    and "\<not> sy_early (th_system y) \<Longrightarrow> \<not> sy_broken (th_system y) \<Longrightarrow> drained (th_socket y)"
    and "\<not> ring_full (th_socket y) \<Longrightarrow> fst (parse_frames (env_le env) (received (th_socket y))) = []"
    and "\<not> ring_full (th_socket y) \<Longrightarrow> tsw_SignalReadPacket (th_socket y) \<Longrightarrow>
      packets_of (tsw_signals (th_socket y)) = fst (parse_frames (env_le env) (sy_taken (th_system y)))"
proof -
  let ?s = "th_socket y" and ?le = "env_le env"
  have idle: "th_user y = U_Idle" "th_net y = N_Idle" "sy_net (th_system y) = []"
    and work: "th_work y = K_Idle \<and> sy_work (th_system y) = [] \<or> th_work y = K_Load \<and> ring_full ?s"
    using rest by (simp_all add: th_rest_def)
  have f: "relays ?le (tsw_wire ?s) (unsent ?s) (received ?s) (packets_of (tsw_signals ?s)) (tsw_SignalReadPacket ?s)
      (sy_output (th_system y)) (sy_taken (th_system y))"
    using inv idle work by (auto simp: th_inv_def flowing_def Let_def)
  then show "sy_output (th_system y) = tsw_wire ?s @ unsent ?s" by (simp add: relays_def)
  show "\<not> sy_early (th_system y) \<Longrightarrow> \<not> sy_broken (th_system y) \<Longrightarrow> drained ?s"
    using inv idle by (simp add: th_inv_def output_alive_def)
  show none: "\<not> ring_full ?s \<Longrightarrow> fst (parse_frames ?le (received ?s)) = []"
    using inv idle work by (auto simp: th_inv_def input_alive_def)
  assume "\<not> ring_full ?s" "tsw_SignalReadPacket ?s"
  from f obtain cut where "\<forall>ys. parse_frames ?le (sy_taken (th_system y) @ ys) = prepend cut (parse_frames ?le (received ?s @ ys))"
    "tsw_SignalReadPacket ?s \<longrightarrow> packets_of (tsw_signals ?s) = cut" unfolding relays_def by blast
  from spec [OF this(1), of "[]"] this(2) none [OF \<open>\<not> ring_full ?s\<close>] \<open>tsw_SignalReadPacket ?s\<close>
  show "packets_of (tsw_signals ?s) = fst (parse_frames ?le (sy_taken (th_system y)))" by simp
qed

end
