(* ===== verification/Tcp_Two_Senders.thy ===== *)
theory Tcp_Two_Senders
  imports Tcp_Thread_Rings
begin

text \<open>
  Why the sending ring needs one sender: nothing in \<^verbatim>\<open>SendData\<close> keeps two threads apart, and two that
  write at once copy to the same place and publish twice.
\<close>

lemma copy_in_writes:
  assumes inv: "ring_inv r" and len: "length bs \<le> ring_free r"
  shows "ring_copy_in r (ring_CurrentSeriesWriteHead r) bs (of_nat (length bs)) =
    Inr (circ_write (rb_data r) (unat (ring_CurrentSeriesWriteHead r)) bs)"
proof -
  have "unat (of_nat (length bs) :: u32) = length bs"
    using len by (intro ring_length_lt32 [OF inv]) (simp add: ring_free_def)
  with len show ?thesis
    using ring_copy_in_ok [OF inv ring_index_less [OF inv], of "of_nat (length bs)" bs]
    by (simp add: ring_CurrentSeriesWriteHead_def ring_free_def)
qed

text \<open>Both have loaded the counters, both have copied; then both publish.\<close>

lemma both_published:
  assumes inv: "ring_inv r" and len: "length a = length b" "2 * length b \<le> ring_free r"
    and d: "da = circ_write (rb_data r) (unat (ring_CurrentSeriesWriteHead r)) a"
      "db = circ_write da (unat (ring_CurrentSeriesWriteHead r)) b"
    and r4: "r4 = r\<lparr>rb_data := db, rb_write_count := rb_write_count r + of_nat (length a) + of_nat (length b)\<rparr>"
  shows "ring_contents r4 = ring_contents r @ b @ circ (rb_data r) (unat (rb_write_count r) + length b) (length b)"
proof -
  let ?i = "unat (ring_CurrentSeriesWriteHead r)" and ?w = "unat (rb_write_count r)"
  have i: "?i < length (rb_data r)" and dl: "length (rb_data r) = unat (rb_capacity r)"
    using ring_index_less [OF inv] ring_data_length [OF inv] by (simp_all add: ring_CurrentSeriesWriteHead_def)
  have free: "length a \<le> ring_free r" "length b \<le> ring_free r" using len by simp_all
  have room: "2 * length b \<le> length (rb_data r)" using len(2) dl by (simp add: ring_free_def)
  have n: "unat (of_nat (length b) :: u32) = length b"
    using free(2) by (intro ring_length_lt32 [OF inv]) (simp add: ring_free_def)
  note ca = copy_in_step [OF inv free(1) copy_in_writes [OF inv free(1)], folded d(1)]
  let ?ra = "r\<lparr>rb_data := da\<rparr>"
  have free': "length b \<le> ring_free ?ra" using free(2) ca(2) by (simp add: ring_free_def del: length_ring_contents)
  have cb: "ring_copy_in ?ra (ring_CurrentSeriesWriteHead ?ra) b (of_nat (length b)) = Inr db"
    using copy_in_writes [OF ca(1) free'] d(2) by (simp add: ring_CurrentSeriesWriteHead_def)
  note cb = copy_in_step [OF ca(1) free' cb, simplified]
  let ?rb = "r\<lparr>rb_data := db\<rparr>"
  have freeb: "ring_free ?rb = ring_free r" using ca(2) cb(2) by (simp add: ring_free_def del: length_ring_contents)
  have "length b \<le> ring_free ?rb" using free(2) freeb by simp
  from publish_step [OF cb(1) this] cb(3)
  have p: "ring_inv (?rb\<lparr>rb_write_count := rb_write_count r + of_nat (length b)\<rparr>)"
    "ring_contents (?rb\<lparr>rb_write_count := rb_write_count r + of_nat (length b)\<rparr>) = ring_contents r @ b"
    using ca(2) cb(2) by simp_all
  let ?rc = "?rb\<lparr>rb_write_count := rb_write_count r + of_nat (length b)\<rparr>"
  let ?X = "circ db (unat (rb_write_count r + of_nat (length b))) (length b)"
  have "length ?X \<le> ring_free ?rc"
    using len(2) p(2) freeb cb(2) ca(2) by (simp add: ring_free_def del: length_ring_contents)
  from publish_step(2) [OF p(1) this] have last: "ring_contents r4 = ring_contents r @ b @ ?X"
    using p(2) len(1) by (simp add: r4)
  have ld: "length da = length (rb_data r)" "length db = length (rb_data r)"
    using i room len(1) d by simp_all
  have at: "(?w + length b + n) mod length (rb_data r) = (?i + length b + n) mod length (rb_data r)" for n
    using ring_index [OF inv, of "rb_write_count r"] dl
    by (simp add: ring_CurrentSeriesWriteHead_def add.assoc mod_add_left_eq)
  have "?X = circ db (?w + length b) (length b)"
    using ring_count_plus [OF inv, of "rb_write_count r" "of_nat (length b)"] n dl ld by (intro circ_cong_mod) simp
  also have "\<dots> = circ (rb_data r) (?w + length b) (length b)"
  proof (rule nth_equalityI)
    fix k
    assume "k < length (circ db (?w + length b) (length b))"
    then have k: "k < length b" by simp
    have "db ! ((?i + (length b + k)) mod length da) = da ! ((?i + (length b + k)) mod length (rb_data r))"
      using nth_circ_write [of ?i da b "length b + k"] i room k ld d(2) by simp
    also have "\<dots> = rb_data r ! ((?i + (length b + k)) mod length (rb_data r))"
      using nth_circ_write [of ?i "rb_data r" a "length b + k"] i room k len(1) d(1) by simp
    finally show "circ db (?w + length b) (length b) ! k = circ (rb_data r) (?w + length b) (length b) ! k"
      using k at [of k] ld by (simp add: circ_def add.assoc)
  qed simp
  finally show ?thesis using last by simp
qed

lemma two_senders:
  assumes inv: "ring_inv (tsw_sender_buffer s)"
    and len: "length a = length b" "2 * length b \<le> ring_free (tsw_sender_buffer s)"
  shows "\<exists>s1 s2 s3 s4. user_next (U_Write a) s = Inr (U_Copy a, s) \<and> user_next (U_Write b) s = Inr (U_Copy b, s) \<and>
    user_next (U_Copy a) s = Inr (U_Publish a, s1) \<and> user_next (U_Copy b) s1 = Inr (U_Publish b, s2) \<and>
    user_next (U_Publish a) s2 = Inr (U_Post, s3) \<and> user_next (U_Publish b) s3 = Inr (U_Post, s4) \<and>
    unsent s4 = unsent s @ b @ circ (rb_data (tsw_sender_buffer s))
      (unat (rb_write_count (tsw_sender_buffer s)) + length b) (length b)"
proof -
  let ?r = "tsw_sender_buffer s"
  let ?i = "unat (ring_CurrentSeriesWriteHead ?r)"
  let ?da = "circ_write (rb_data ?r) ?i a" and ?s1 = "s\<lparr>tsw_sender_buffer := ?r\<lparr>rb_data := circ_write (rb_data ?r) ?i a\<rparr>\<rparr>"
  let ?db = "circ_write ?da ?i b"
  let ?s2 = "s\<lparr>tsw_sender_buffer := ?r\<lparr>rb_data := ?db\<rparr>\<rparr>"
  let ?s3 = "s\<lparr>tsw_sender_buffer := ?r\<lparr>rb_data := ?db, rb_write_count := rb_write_count ?r + of_nat (length a)\<rparr>\<rparr>"
  let ?r4 = "?r\<lparr>rb_data := ?db, rb_write_count := rb_write_count ?r + of_nat (length a) + of_nat (length b)\<rparr>"
  have free: "length a \<le> ring_free ?r" "length b \<le> ring_free ?r" using len by simp_all
  have n: "unat (of_nat (length bs) :: u32) = length bs" if "length bs \<le> ring_free ?r" for bs :: "byte list"
    using that by (intro ring_length_lt32 [OF inv]) (simp add: ring_free_def)
  obtain m where m: "ring_AvailableWrite ?r = Inr m" "unat m = ring_free ?r" using ring_AvailableWrite_ok [OF inv] by blast
  have load: "user_next (U_Write bs) s = Inr (U_Copy bs, s)" if "length bs \<le> ring_free ?r" for bs
    using m that n [OF that] by (simp add: user_next_def Let_def word_less_nat_alt)
  note ca = copy_in_writes [OF inv free(1)]
  have inva: "ring_inv (?r\<lparr>rb_data := ?da\<rparr>)" "ring_contents (?r\<lparr>rb_data := ?da\<rparr>) = ring_contents ?r"
    using copy_in_step [OF inv free(1) ca] by simp_all
  have "length b \<le> ring_free (?r\<lparr>rb_data := ?da\<rparr>)"
    using free(2) inva(2) by (simp add: ring_free_def del: length_ring_contents)
  note cb = copy_in_writes [OF inva(1) this]
  have "user_next (U_Copy a) s = Inr (U_Publish a, ?s1)" using ca by (simp add: user_next_def Let_def)
  moreover have "user_next (U_Copy b) ?s1 = Inr (U_Publish b, ?s2)"
    using cb by (simp add: user_next_def Let_def ring_CurrentSeriesWriteHead_def)
  moreover have "user_next (U_Publish a) ?s2 = Inr (U_Post, ?s3)" by (simp add: user_next_def Let_def)
  moreover have "user_next (U_Publish b) ?s3 = Inr (U_Post, s\<lparr>tsw_sender_buffer := ?r4\<rparr>)" by (simp add: user_next_def Let_def)
  moreover have "ring_contents ?r4 = unsent s @ b @ circ (rb_data ?r) (unat (rb_write_count ?r) + length b) (length b)"
    by (rule both_published [OF inv len refl refl refl])
  ultimately show ?thesis using load [OF free(1)] load [OF free(2)]
    by (intro exI [of _ ?s1] exI [of _ ?s2] exI [of _ ?s3] exI [of _ "s\<lparr>tsw_sender_buffer := ?r4\<rparr>"]) simp
qed

end
