(* ===== verification/Tcp_Thread_Pairs.thy ===== *)
theory Tcp_Thread_Pairs
  imports Tcp_Thread_Atomic Tcp_Thread_Rest Tcp_Pair_Run Tcp_Two_Senders
begin

text \<open>
  Two ends of a connection, each under its three threads: the runs of the pair of Tcp_Pair are among
  theirs. And what no thread ever meets: a step it cannot take.
\<close>

section \<open>No thread faults\<close>

text \<open>
  Whatever a thread does next, it can: go on where it is, begin the head of its loop's queue or an
  event, begin a send. But for the worker's load of an exactly full ring.
\<close>

definition threads_ready :: "tcp_env \<Rightarrow> tcp_threads \<Rightarrow> bool" where
  "threads_ready env y \<longleftrightarrow> (let s = th_socket y in
     (th_user y \<noteq> U_Idle \<longrightarrow> (\<exists>r. user_next (th_user y) s = Inr r)) \<and>
     (th_net y \<noteq> N_Idle \<longrightarrow> (\<exists>r. net_next (on_network env) (th_net y) s = Inr r)) \<and>
     (th_work y \<noteq> K_Idle \<longrightarrow> th_work y = K_Load \<and> ring_full s \<or>
        (\<exists>r. work_next (on_worker env) (th_work y) s = Inr r)) \<and>
     (\<forall>len data. unat len = length data \<longrightarrow> 2 \<le> length data \<longrightarrow> (\<exists>u. send_begin env data len s = Inr u)) \<and>
     (th_net y = N_Idle \<longrightarrow>
        (\<forall>p ps answers. sy_net (th_system y) = p # ps \<longrightarrow> (\<exists>r. net_begin (on_network env) answers p s = Some (Inr r))) \<and>
        (read_registered s \<longrightarrow> (\<forall>answer. \<exists>r. read_begin (on_network env) answer s = Inr r)) \<and>
        (write_pending s \<longrightarrow> (\<forall>so_error. \<exists>r. write_begin (on_network env) so_error EV_WRITE s = Inr r)) \<and>
        (write_pending s \<longrightarrow> tsw_state s = CS_CONNECTING \<longrightarrow> (\<exists>r. write_begin (on_network env) 0 EV_TIMEOUT s = Inr r))) \<and>
     (th_work y = K_Idle \<longrightarrow>
        (\<forall>p ps. sy_work (th_system y) = p # ps \<longrightarrow> (\<exists>r. work_begin (on_worker env) p s = Inr r))))"

lemma th_inv_ready:
  assumes env: "thread_env env" and inv: "th_inv env y"
  shows "threads_ready env y"
proof -
  let ?s = "th_socket y"
  note parts = th_inv_parts [OF inv]
  have "th_user y \<noteq> U_Idle \<Longrightarrow> \<exists>r. user_next (th_user y) ?s = Inr r" using user_step_ok [OF inv] by blast
  moreover have "th_net y \<noteq> N_Idle \<Longrightarrow> \<exists>r. net_next (on_network env) (th_net y) ?s = Inr r"
    using net_machine_ok [OF env inv] by blast
  moreover have "th_work y \<noteq> K_Idle \<Longrightarrow> th_work y = K_Load \<and> ring_full ?s \<or> (\<exists>r. work_next (on_worker env) (th_work y) ?s = Inr r)"
    using work_next_ok [OF env parts(1) _ parts(4)] by blast
  moreover have "\<exists>u. send_begin env data len ?s = Inr u" if "unat len = length data" "2 \<le> length data" for len data
    using send_begin_ok [OF parts(5) that] by blast
  moreover have "\<exists>r. net_begin (on_network env) answers p ?s = Some (Inr r)"
    if "th_net y = N_Idle" "sy_net (th_system y) = p # ps" for p ps answers
    using net_task_ok [OF env inv that, of answers] by blast
  moreover have "\<exists>r. read_begin (on_network env) answer ?s = Inr r" if "th_net y = N_Idle" "read_registered ?s" for answer
    using read_begin_ok [OF inv that, of answer] by blast
  moreover have "\<exists>r. write_begin (on_network env) so_error event ?s = Inr r"
    if "th_net y = N_Idle" "write_pending ?s" "event = EV_WRITE \<or> event = EV_TIMEOUT \<and> tsw_state ?s = CS_CONNECTING" for so_error event
    using write_begin_ok [OF env inv that(1,2), of event so_error] that(3) by blast
  moreover have "\<exists>r. work_begin (on_worker env) p ?s = Inr r"
    if "th_work y = K_Idle" "sy_work (th_system y) = p # ps" for p ps
    using work_task_ok [OF env inv that] by blast
  ultimately show ?thesis unfolding threads_ready_def Let_def by blast
qed

section \<open>The pair's runs are the threads' runs\<close>

lemma th_step_taken: "th_step env y z \<Longrightarrow> prefix (ve_taken (th_view y)) (ve_taken (th_view z))"
  by (cases rule: th_step.cases) (auto simp: th_view_def settle_def note_output_def)

lemma th_run_taken: "(th_step env)\<^sup>*\<^sup>* y z \<Longrightarrow> prefix (ve_taken (th_view y)) (ve_taken (th_view z))"
  by (induction rule: rtranclp_induct) (auto dest: th_step_taken intro: prefix_order.trans)

lemma left_runs:
  assumes "(th_step envl)\<^sup>*\<^sup>* a a'" "prefix (ve_taken (th_view a')) (ve_wire (th_view b))"
  shows "(join_step (th_step envl) (th_step envr) th_view th_view)\<^sup>*\<^sup>* (a, b) (a', b)"
  using assms
proof (induction rule: rtranclp_induct)
  case (step u v)
  have "prefix (ve_taken (th_view u)) (ve_wire (th_view b))"
    using th_step_taken [OF step.hyps(2)] step.prems by (rule prefix_order.trans)
  from step.IH [OF this] join_step.left [of "th_step envl" u v th_view th_view b "th_step envr", OF step.hyps(2) step.prems]
  show ?case by (rule rtranclp.rtrancl_into_rtrancl)
qed simp

lemma right_runs:
  assumes "(th_step envr)\<^sup>*\<^sup>* b b'" "prefix (ve_taken (th_view b')) (ve_wire (th_view a))"
  shows "(join_step (th_step envl) (th_step envr) th_view th_view)\<^sup>*\<^sup>* (a, b) (a, b')"
  using assms
proof (induction rule: rtranclp_induct)
  case (step u v)
  have "prefix (ve_taken (th_view u)) (ve_wire (th_view a))"
    using th_step_taken [OF step.hyps(2)] step.prems by (rule prefix_order.trans)
  from step.IH [OF this] join_step.right [of "th_step envr" u v th_view th_view a "th_step envl", OF step.hyps(2) step.prems]
  show ?case by (rule rtranclp.rtrancl_into_rtrancl)
qed simp

lemma view_threads_of:
  "ve_taken (th_view (threads_of y)) = sy_taken y" "ve_wire (th_view (threads_of y)) = tsw_wire (sy_socket y)"
  by (simp_all add: th_view_def threads_of_def)

definition threads_pair :: "tcp_pair \<Rightarrow> tcp_threads \<times> tcp_threads" where
  "threads_pair p = (threads_of (pa_left p), threads_of (pa_right p))"

lemma pair_runs:
  assumes env: "thread_env envl" "blind envl" "thread_env envr" "blind envr"
    and inv: "th_inv envl (threads_of (pa_left p))" "th_inv envr (threads_of (pa_right p))"
    and run: "(pair_step envl envr)\<^sup>*\<^sup>* p q"
  shows "(join_step (th_step envl) (th_step envr) th_view th_view)\<^sup>*\<^sup>* (threads_pair p) (threads_pair q) \<and>
    th_inv envl (threads_of (pa_left q)) \<and> th_inv envr (threads_of (pa_right q))"
  using run
proof induction
  case base
  then show ?case using inv by simp
next
  case (step u v)
  let ?J = "join_step (th_step envl) (th_step envr) th_view th_view"
  have u: "th_inv envl (threads_of (pa_left u))" "th_inv envr (threads_of (pa_right u))" using step.IH by simp_all
  have "?J\<^sup>*\<^sup>* (threads_pair u) (threads_pair v) \<and> th_inv envl (threads_of (pa_left v)) \<and> th_inv envr (threads_of (pa_right v))"
    using step.hyps(2)
  proof cases
    case (left y)
    have run: "(th_step envl)\<^sup>*\<^sup>* (threads_of (pa_left u)) (threads_of y)"
      using system_step_runs [OF env(1) _ u(1) left(2)] env(2) by blast
    have "th_inv envl (threads_of y)" using threads.run_inv [OF run] env(1) u(1) by blast
    with left_runs [OF run] left(1,3) u(2) show ?thesis by (simp add: threads_pair_def view_threads_of)
  next
    case (right y)
    have run: "(th_step envr)\<^sup>*\<^sup>* (threads_of (pa_right u)) (threads_of y)"
      using system_step_runs [OF env(3) _ u(2) right(2)] env(4) by blast
    have "th_inv envr (threads_of y)" using threads.run_inv [OF run] env(3) u(2) by blast
    with right_runs [OF run] right(1,3) u(1) show ?thesis by (simp add: threads_pair_def view_threads_of)
  qed
  with step.IH show ?case by (meson rtranclp_trans)
qed

section \<open>A run\<close>

lemma open_env_threads: "thread_env open_env" "blind open_env" "silent open_env" "env_le open_env"
proof -
  have "sending open_env" by (simp add: sending_def open_env_def busy_env_def)
  then show "thread_env open_env" using open_env_ok by (simp add: thread_env_def)
  show "blind open_env" by (simp add: blind_def open_env_def busy_env_def)
  show "silent open_env" "env_le open_env"
    using open_env_ok(4) by (simp_all add: open_env_def busy_env_def driven_env_def)
qed

lemma threads_pair_run:
  "\<exists>c d. (join_step (th_step open_env) (th_step open_env) th_view th_view)\<^sup>*\<^sup>*
      (threads_of accepted_system, threads_of accepted_system) (threads_of c, threads_of d) \<and>
    sy_output c = [1, 0, 7] \<and> sy_taken d = [1, 0, 7] \<and> tsw_SignalReadPacket (sy_socket d) \<and>
    sy_net d = [] \<and> sy_work d = [] \<and> \<not> ring_full (sy_socket d)"
proof -
  obtain q where q: "(pair_step open_env open_env)\<^sup>*\<^sup>* accepted_pair q" "sy_output (pa_left q) = [1, 0, 7]"
    "sy_taken (pa_right q) = tsw_wire (sy_socket (pa_left q))" "unsent (sy_socket (pa_left q)) = []"
    "tsw_SignalReadPacket (sy_socket (pa_right q))" "idle_end (pa_right q)" "\<not> ring_full (sy_socket (pa_right q))"
    using open_pair_run by blast
  note inv = th_start_inv(1) [OF accepted_start]
  have "pa_left accepted_pair = accepted_system" "pa_right accepted_pair = accepted_system"
    by (simp_all add: accepted_pair_def)
  with pair_runs [OF open_env_threads(1,2,1,2) _ _ q(1)] inv
  have r: "(join_step (th_step open_env) (th_step open_env) th_view th_view)\<^sup>*\<^sup>* (threads_pair accepted_pair) (threads_pair q)"
    "th_inv open_env (threads_of (pa_left q))" by simp_all
  from r(2) have "sy_output (pa_left q) = tsw_wire (sy_socket (pa_left q)) @ unsent (sy_socket (pa_left q))"
    by (simp add: th_inv_def flowing_def relays_def threads_of_def Let_def)
  with q r(1) show ?thesis
    by (intro exI [of _ "pa_left q"] exI [of _ "pa_right q"]) (simp add: threads_pair_def accepted_pair_def idle_end_def)
qed

text \<open>And one, up to where the packet has arrived, whatever the callbacks look at.\<close>

lemma arrival_run:
  assumes "thread_env envl" "thread_env envr" "env_le envl" "open_kernel envl"
  shows "\<exists>c d. (join_step (th_step envl) (th_step envr) th_view th_view)\<^sup>*\<^sup>*
      (threads_of accepted_system, threads_of accepted_system) (threads_of c, threads_of d) \<and>
    sy_output c = [1, 0, 7] \<and> sy_taken d = [1, 0, 7]"
proof -
  let ?u = "up_system up_socket [] [] False False [] []"
  have run: "(th_step env)\<^sup>*\<^sup>* (threads_of x) (threads_of y) \<and> th_inv env (threads_of y)"
    if "thread_env env" "th_inv env (threads_of x)" "sys_step env x y" "sy_work x = []" for env x y
  proof -
    have r: "(th_step env)\<^sup>*\<^sup>* (threads_of x) (threads_of y)"
      using system_step_runs [OF that(1) _ that(2,3)] that(4) by blast
    with threads.run_inv [OF r] that(1,2) show ?thesis by blast
  qed
  have none: "sy_work accepted_system = []" "sy_work ?u = []"
    by (simp_all add: up_system_def accepted_system_def system_of_def post_def fresh_socket_def TcpSocketWrapper_new_def)
  obtain y z where l: "sys_step envl ?u y" "sys_step envl y z" "sy_work y = []" "sy_taken z = []"
    "unsent (sy_socket z) = []" "sy_output z = [1, 0, 7]" using left_run [OF assms(3,4)] by blast
  have up: "(th_step env)\<^sup>*\<^sup>* (threads_of accepted_system) (threads_of ?u) \<and> th_inv env (threads_of ?u)"
    if "thread_env env" for env
    using run [OF that th_start_inv(1) [OF accepted_start] up_step none(1)] .
  note y = run [OF assms(1) conjunct2 [OF up [OF assms(1)]] l(1) none(2)]
  note z = run [OF assms(1) conjunct2 [OF y] l(2,3)]
  have left: "(th_step envl)\<^sup>*\<^sup>* (threads_of accepted_system) (threads_of z)"
    using up [OF assms(1)] y z by (meson rtranclp_trans)
  have wire: "tsw_wire (sy_socket z) = [1, 0, 7]"
    using z l(5,6) by (simp add: th_inv_def flowing_def relays_def threads_of_def Let_def)
  obtain r where "sys_step envr ?u (up_system (up_socket\<lparr>tsw_receiver_buffer := r\<rparr>) [] [Work_Process_Buffered] False False [] [1, 0, 7])"
    using packet_step by blast
  then obtain d where d: "sys_step envr ?u d" "sy_taken d = [1, 0, 7]" by (auto simp: up_system_def)
  have right: "(th_step envr)\<^sup>*\<^sup>* (threads_of accepted_system) (threads_of d)"
    using up [OF assms(2)] run [OF assms(2) conjunct2 [OF up [OF assms(2)]] d(1) none(2)] by (meson rtranclp_trans)
  have "(join_step (th_step envl) (th_step envr) th_view th_view)\<^sup>*\<^sup>*
      (threads_of accepted_system, threads_of accepted_system) (threads_of z, threads_of accepted_system)"
    by (rule left_runs [OF left]) (simp add: view_threads_of l(4))
  also have "(join_step (th_step envl) (th_step envr) th_view th_view)\<^sup>*\<^sup>*
      (threads_of z, threads_of accepted_system) (threads_of z, threads_of d)"
    by (rule right_runs [OF right]) (simp add: view_threads_of d(2) wire)
  finally show ?thesis using l(6) d(2) by blast
qed

text \<open>And one over a kernel that is busy: the message waits in the ring.\<close>

lemma busy_env_threads: "thread_env busy_env" "blind busy_env"
proof -
  have "sending busy_env" "listening busy_env" by (simp_all add: sending_def listening_def busy_env_def)
  then show "thread_env busy_env" using busy_env_ok by (simp add: thread_env_def)
  show "blind busy_env" by (simp add: blind_def busy_env_def)
qed

lemma busy_threads_run:
  "\<exists>y. (th_step busy_env)\<^sup>*\<^sup>* (threads_of accepted_system) y \<and> unsent (th_socket y) = [1, 0, 7] \<and>
    \<not> sy_early (th_system y) \<and> \<not> sy_broken (th_system y)"
proof -
  obtain s where s: "(sys_step busy_env)\<^sup>*\<^sup>* accepted_system (up_system s [Net_Try_Write] [] False False [1, 0, 7] [])"
    "unsent s = [1, 0, 7]" using output_waits by blast
  from system_runs [OF busy_env_threads th_start_inv(1) [OF accepted_start] s(1)] s(2) show ?thesis
    by (intro exI [of _ "threads_of (up_system s [Net_Try_Write] [] False False [1, 0, 7] [])"])
      (simp add: threads_of_def up_system_def)
qed

end
