(* ===== verification/Tcp_Thread_Tasks.thy ===== *)
theory Tcp_Thread_Tasks
  imports Tcp_Thread_Pairs Tcp_Tasks
begin

text \<open>
  The tasks' handlers under the three threads: they write to the sending ring and leave its reader's
  side alone, so a client task and a server task are users of their sockets as the threads need them.
\<close>

section \<open>What a handler does to the ring\<close>

text \<open>\<open>obeys\<close>, and the reader's counter of the sending ring is not touched.\<close>

definition only_writes :: "tcp_socket \<Rightarrow> tcp_socket \<Rightarrow> bool" where
  "only_writes s t \<longleftrightarrow> obeys s t \<and> read_side (tsw_sender_buffer t) = read_side (tsw_sender_buffer s)"

lemma WriteContent_side: "ring_WriteContent r bs len = Inr (ok, r') \<Longrightarrow> read_side r' = read_side r"
  by (auto simp: ring_WriteContent_def read_side_def Let_def assert_that_eq_Inr rbind_eq_Inr split: if_splits)

lemma CloseConnection_sender [simp]:
  "tsw_sender_buffer (CloseConnection env s) = tsw_sender_buffer s"
  by (simp add: CloseConnection_def CloseConnectionInNetworkLoop_def OnDestroySocket_def post_def Let_def)

lemma Send_side:
  assumes "\<not> env_in_network env"
  shows "SendData env data len s = Some (Inr (b, d, t)) \<Longrightarrow> read_side (tsw_sender_buffer t) = read_side (tsw_sender_buffer s)"
    and "SendDataWithHead env buff s = Some (Inr (b, t)) \<Longrightarrow> read_side (tsw_sender_buffer t) = read_side (tsw_sender_buffer s)"
proof -
  have posts: "run_try_write env u = Some (Inr (post Net_Try_Write u))" for u using assms by (simp add: run_try_write_def)
  show "read_side (tsw_sender_buffer t) = read_side (tsw_sender_buffer s)" if "SendData env data len s = Some (Inr (b, d, t))"
    using that WriteContent_side [of "tsw_sender_buffer s"]
    by (auto simp: SendData_def posts rbind_eq_Inr post_def split: if_splits sum.splits prod.splits)
  show "read_side (tsw_sender_buffer t) = read_side (tsw_sender_buffer s)" if "SendDataWithHead env buff s = Some (Inr (b, t))"
    using that WriteContent_side [of "tsw_sender_buffer s"]
    by (auto simp: SendDataWithHead_def posts post_def split: sum.splits)
qed

lemma writing_contract:
  assumes "\<not> env_in_network (te_tcp env)"
  shows "socket_contract env (\<lambda>s. ring_inv (tsw_sender_buffer s)) only_writes"
proof -
  note send = posted_contract [OF assms] and side = Send_side [OF assms]
  note close = socket_contract.axioms(1) [OF send]
  show ?thesis
  proof
    fix s t u :: tcp_socket and c :: bool and data buff :: "byte list"
    show "ring_inv (tsw_sender_buffer s) \<Longrightarrow> only_writes s s" by (simp add: only_writes_def obeys_refl)
    show "only_writes s t \<Longrightarrow> ring_inv (tsw_sender_buffer t)" by (auto simp: only_writes_def obeys_ring)
    show "only_writes s t \<Longrightarrow> only_writes t u \<Longrightarrow> only_writes s u" by (auto simp: only_writes_def intro: obeys_trans)
    assume s: "ring_inv (tsw_sender_buffer s)"
    show "only_writes s (CloseConnection (te_tcp env) s)" "only_writes s (CloseConnection (te_tcp env)
        (s\<lparr>tsw_SignalOnConnected := c, tsw_SignalReadPacket := False, tsw_SignalOnCloseEvent := False\<rparr>))"
      using closing_contract.R_close [OF close s] closing_contract.R_stop [OF close s, of c]
      by (simp_all add: only_writes_def)
    show "\<exists>b t. SendDataWithHead (te_tcp env) buff s = Some (Inr (b, t)) \<and> only_writes s t" if "length buff < 2 ^ 32"
      using socket_contract.R_send_head [OF send s that] side(2) by (auto simp: only_writes_def)
    show "\<exists>b d t. SendData (te_tcp env) data (of_nat (length data)) s = Some (Inr (b, d, t)) \<and> only_writes s t"
      if "2 \<le> length data" "length data < 2 ^ 64"
      using socket_contract.R_send [OF send s that] side(1) by (fastforce simp: only_writes_def)
  qed
qed

interpretation writing_task: socket_contract "worker_task env" "\<lambda>s. ring_inv (tsw_sender_buffer s)" only_writes for env
  by (rule writing_contract) (simp add: worker_task_def on_worker_def)

section \<open>The tasks' sockets under three threads\<close>

lemma only_writes_env:
  assumes "kernel_ok env"
    and calls: "\<And>sig s. ring_inv (tsw_sender_buffer s) \<Longrightarrow> \<exists>t. env_signal env sig s = Inr t \<and> only_writes s t"
  shows "thread_env env"
proof -
  have "\<exists>t. env_signal env sig s = Inr t \<and> obeys s t" if "ring_inv (tsw_sender_buffer s)" for sig s
    using calls [OF that, of sig] by (auto simp: only_writes_def)
  note ok = obeys_env [of env, OF this]
  have "sending env"
    unfolding sending_def
  proof (intro allI impI)
    fix sig s t
    assume s: "ring_inv (tsw_sender_buffer s)" "env_signal env sig s = Inr t"
    from calls [OF s(1), of sig] s(2) show "read_side (tsw_sender_buffer t) = read_side (tsw_sender_buffer s)"
      by (simp add: only_writes_def)
  qed
  with ok assms(1) show ?thesis by (simp add: thread_env_def system_env_def)
qed

lemma tasks_thread_env:
  assumes "kernel_ok (te_tcp env)"
  shows "(\<And>sig. list_all call_fits (sreact sig)) \<Longrightarrow> thread_env (server_env env hk sreact sst)"
    and "(\<And>sig. list_all client_call_fits (creact sig)) \<Longrightarrow> (\<And>sigs. rearms (cst sigs)) \<Longrightarrow>
      thread_env (client_env env hk now creact cst)"
proof -
  show "thread_env (server_env env hk sreact sst)" if "\<And>sig. list_all call_fits (sreact sig)"
    using assms writing_task.server_signal_keeps that
    by (intro only_writes_env) (simp_all add: server_env_def kernel_ok_def)
  show "thread_env (client_env env hk now creact cst)" if "\<And>sig. list_all client_call_fits (creact sig)" "\<And>sigs. rearms (cst sigs)"
    using assms writing_task.client_signal_keeps that
    by (intro only_writes_env) (simp_all add: client_env_def kernel_ok_def)
qed

end
