(* ===== verification/Spec2Isabelle.thy ===== *)
theory Spec2Isabelle
  imports Pool_Buffer Socket_Buffer Ring_Threads Log_Wrapper String_Helper Singleton
    Event_Loop_Progress Event_Loop_Fifo Tcp_Loop_Tasks Tcp_Solo_Run Tcp_Lifetime Tcp_Thread_Tasks
begin

text \<open>
  A model of reechat_base, the networking base library of the reechat servers and clients: byte
  buffers, event loops on libevent, a TCP connection that carries length prefixed packets between
  two threads, and the client and server tasks that keep such a connection alive. All sources
  named below are under src/src.

  The program and how its parts interact. A \<^verbatim>\<open>TcpSocketWrapper\<close> (tcp_socket_wrapper.cpp)
  belongs to a network loop and a worker loop. The user thread puts messages into a sender ring
  (\<^verbatim>\<open>SendData\<close>), the network loop writes them to the descriptor (\<^verbatim>\<open>TryWriteBufferToSocket\<close>), reads
  what arrives into a receiver ring (\<^verbatim>\<open>TryReadDataFromSocket\<close>) and queues a functor on the worker
  loop, which cuts the ring into packets and hands each to a callback
  (\<^verbatim>\<open>TryProcessBufferedDataInWorkLoop\<close>). The rings are \<^verbatim>\<open>RingBuffer\<close> of socket_buffer.cpp, each used
  by one writing and one reading thread without a lock. The loops are \<^verbatim>\<open>EventLoop\<close> of
  event_loop.cpp: a queue of functors under a mutex, and a socket pair watched by libevent
  (event_watcher.cpp) that wakes the loop thread. \<^verbatim>\<open>TcpClientTask\<close> and \<^verbatim>\<open>TcpServerTask\<close> own a
  socket each and add verification of the peer, hello messages, reconnecting and timeouts.

  The theories, in the order of their imports, and what they model.

  \<^item> \<^verbatim>\<open>Prelude\<close>: machine words, the failures of C++ (a failed \<^verbatim>\<open>assert\<close>, an access out of bounds, a
    null pointer, an empty \<^verbatim>\<open>std::function\<close>) as values of the sum type \<^verbatim>\<open>result\<close>, bounds checked
    \<^verbatim>\<open>memcpy\<close>, and integers in memory in either byte order.
  \<^item> \<^verbatim>\<open>Byte_Order\<close>: \<^verbatim>\<open>evppbswap_64\<close> of socket_buffer.hpp, proved to reverse the eight bytes, and
    the POSIX conversions.
  \<^item> \<^verbatim>\<open>Byte_Queue\<close>: the interface both buffers provide, a locale of a queue of bytes with limited
    room; its lemmas hold for every schedule of puts and takes.
  \<^item> \<^verbatim>\<open>Ring_Buffer\<close>: class \<^verbatim>\<open>RingBuffer\<close>, one definition per member, with counters that wrap at
    32 bits; it interprets the queue. \<^verbatim>\<open>Ring_Threads\<close>: the same ring under its two threads.
  \<^item> \<^verbatim>\<open>Socket_Buffer\<close>: class \<^verbatim>\<open>SocketBuffer\<close>, all members; it interprets the queue for every
    content of fresh storage. \<^verbatim>\<open>Pool_Buffer\<close>: \<^verbatim>\<open>PoolBuffer\<close> and \<^verbatim>\<open>UdpPoolBuffer\<close>.
  \<^item> \<^verbatim>\<open>Step_Systems\<close>: locales for transition systems with an invariant, with a measure that every
    step lowers, and with a simulation of an abstract system; the threads, the loop, the connection,
    the connection with its loops, the pair and both tasks interpret them.
  \<^item> \<^verbatim>\<open>Base_Status\<close>, \<^verbatim>\<open>Log_Wrapper\<close>, \<^verbatim>\<open>String_Helper\<close>, \<^verbatim>\<open>Singleton\<close>: base_status.hpp,
    rtc_log_wrapper.hpp and .cpp, string_helper.h, singleton.h.
  \<^item> \<^verbatim>\<open>Event_Watcher\<close>: event_watcher.hpp and .cpp, the base class and its pipe, timer and signal
    subclasses, as records that extend one another.
  \<^item> \<^verbatim>\<open>Event_Loop\<close>: event_loop.hpp and .cpp. The loop thread is a stack of frames, cut where the
    code takes the mutex or touches an atomic; other threads run between the cuts.
    \<^verbatim>\<open>Event_Loop_Runs\<close> has its invariant, \<^verbatim>\<open>Event_Loop_Progress\<close> the measure and what holds at rest,
    \<^verbatim>\<open>Event_Loop_Fifo\<close> the queue of functors a loop refines.
  \<^item> \<^verbatim>\<open>Tcp_Socket\<close>: every member function of \<^verbatim>\<open>TcpSocketWrapper\<close>. \<^verbatim>\<open>Tcp_Framing\<close>: the abstract
    frame cutter and that the worker loop refines it. \<^verbatim>\<open>Tcp_Delivery\<close>: a stream arriving in pieces.
    \<^verbatim>\<open>Tcp_Sending\<close>: the sender, and both ends together. \<^verbatim>\<open>Tcp_States\<close>: the connection's states and
    registered events under any order of operations.
  \<^item> \<^verbatim>\<open>Tcp_Callbacks\<close>: what the worker loop and a sender do to a socket when the callbacks send and
    close. \<^verbatim>\<open>Tcp_Loops\<close>: a socket composed with its network loop, its worker loop (each a queue, as
    \<^verbatim>\<open>Event_Loop_Fifo\<close> justifies), the kernel's events and the user's thread, from \<^verbatim>\<open>BeginConnect\<close> or
    \<^verbatim>\<open>BeginProcess\<close> on. \<^verbatim>\<open>Tcp_Loops_Run\<close>: runs of it on a connection just accepted.
  \<^item> \<^verbatim>\<open>Tcp_Pair\<close>: two such systems with the bytes between them, whose network delivers to one end
    what the other has put on the wire, in order. \<^verbatim>\<open>Tcp_Progress\<close>: the pair when no more
    is sent, a measure of what is left to do, and what holds at rest. \<^verbatim>\<open>Tcp_Pair_Run\<close>: a message that
    crosses. \<^verbatim>\<open>Tcp_Lifetime\<close>: the shared pointers that own a wrapper, through its runs.
  \<^item> \<^verbatim>\<open>Tcp_Client\<close>, \<^verbatim>\<open>Tcp_Server\<close>: tcp_client_task.cpp and tcp_server_task.cpp. \<^verbatim>\<open>Tcp_Client_Runs\<close>: a
    client task under any sequence of events, and the session it refines. \<^verbatim>\<open>Tcp_Server_Runs\<close>: the
    same for a server task, and the order of its calls. \<^verbatim>\<open>Tcp_Tasks\<close>: the tasks' handlers as the
    functions of their sockets, the contract by which they use a socket, and that they keep what
    \<^verbatim>\<open>Tcp_Loops\<close> and \<^verbatim>\<open>Tcp_Pair\<close> assume of them.
  \<^item> \<^verbatim>\<open>Tcp_One_Loop\<close>: a socket whose network loop is its worker loop, as in the programs of test/: what
    each operation does when \<^verbatim>\<open>RunInLoop\<close> calls at once and callbacks write and close from within.
    \<^verbatim>\<open>Tcp_Solo\<close>: such a socket with its loop's queue, the kernel and other threads. \<^verbatim>\<open>Tcp_Joined\<close>: a
    locale of an end of a connection, which both compositions interpret, and two ends joined, of
    either kind. \<^verbatim>\<open>Tcp_Loop_Tasks\<close>: the tasks on one loop, a handler within a handler.
    \<^verbatim>\<open>Tcp_Solo_Run\<close>: a message that crosses between two such sockets.
  \<^item> \<^verbatim>\<open>Tcp_Threads\<close>: the operations that use a ring (\<^verbatim>\<open>SendData\<close> and \<^verbatim>\<open>SendDataWithHead\<close>,
    \<^verbatim>\<open>TryWriteBufferToSocket\<close>, \<^verbatim>\<open>TryReadDataFromSocket\<close>, \<^verbatim>\<open>TryProcessBufferedDataInWorkLoop\<close>) cut into machines at
    each load of the other thread's counter, each copy, each publication, each system call and each
    callback. \<^verbatim>\<open>Tcp_Thread_Rings\<close>: what each thread knows of the rings between two steps, and that no
    step of another makes it false. \<^verbatim>\<open>Tcp_Thread_System\<close>: the composition of \<^verbatim>\<open>Tcp_Loops\<close> with the sending
    thread, the network loop and the worker loop between their steps, and its invariant;
    \<^verbatim>\<open>Tcp_Thread_Net\<close>, \<^verbatim>\<open>Tcp_Thread_Runs\<close>: that every step keeps it, and that three threads are an end of
    a connection as \<^verbatim>\<open>Tcp_Joined\<close> has it. \<^verbatim>\<open>Tcp_Thread_Atomic\<close>: every step of \<^verbatim>\<open>Tcp_Loops\<close> is a run of the
    threads. \<^verbatim>\<open>Tcp_Thread_Rest\<close>: the measure of what is begun or posted, and what holds at rest.
    \<^verbatim>\<open>Tcp_Two_Senders\<close>: what two sending threads do to the ring. \<^verbatim>\<open>Tcp_Thread_Pairs\<close>: two such ends, and
    runs of them. \<^verbatim>\<open>Tcp_Thread_Tasks\<close>: the tasks' handlers under the threads.

  Correspondence. A class is a record with its members' names behind a prefix (\<^verbatim>\<open>rb_\<close>, \<^verbatim>\<open>sb_\<close>,
  \<^verbatim>\<open>pb_\<close>, \<^verbatim>\<open>w_\<close>, \<^verbatim>\<open>el_\<close>, \<^verbatim>\<open>tsw_\<close>, \<^verbatim>\<open>tc_\<close>, \<^verbatim>\<open>ts_\<close>); a member function is a definition of its
  name. Pointers into a buffer are offsets. What the system calls and libevent answer (descriptors,
  return codes, \<^verbatim>\<open>errno\<close>, the bytes \<^verbatim>\<open>read\<close> delivers, the n-th answer of \<^verbatim>\<open>send\<close>, the contents of
  fresh memory, the clock) are arguments. A \<^verbatim>\<open>std::function\<close> member of the socket is a flag, set or
  empty; what calling it does is a parameter. Virtual members of the tasks are recorded in the
  order they are called. A functor handed to another thread's loop is appended to a list of posts.
  Some records carry history fields (bytes on the wire, signals raised, functors queued and
  called, descriptors closed); no operation reads them.

  What the lemmas show. For the connection at the grain of single accesses to the rings: two
  sockets under three threads each deliver each other's messages whatever the interleaving (C1), what
  is begun and posted comes to an end and leaves nothing to do (C2), and the tasks use their sockets so
  that this holds of them (C3). At the grain of whole functors: once no more is sent a pair comes to
  rest with every message handed over (C4, C5); sockets and tasks with one loop deliver, too, and do not
  fault (C6 to C8). The two grains agree: runs of whole functors are runs of the threads (C9), and the
  machines by themselves do what the operations do (C12). In every state the threads reach none
  faults but for a full ring, and no packet and no output is stranded (C10, C11); two threads that send at
  once lose a message (C13). Framing is undone by the receiver whatever the pieces (C14); the wrapper is
  owned while libevent may call and let go of after a close, the helper the events point to is freed
  last, the write loop ends, a send is accepted when there is room, and a connect may be refused (C15 to
  C19). For the loop: every queued functor is called once, it refines a queue, no wake-up is lost, no
  assertion fires, and every run comes to rest (C20 to C24). For the rings: the lock free use by two
  threads, and the assertion a full ring fails (C25, C26). For the tasks: well-formedness under any
  events, the session a client refines, verification first, bounds on reconnects and hellos, closing
  of silent clients (C27 to C33). For the other buffers and helpers C34 to C40. Several properties
  state behaviour that looks unintended, as the code has it: C13, C19, C26, C36 and C37, the exceptions
  named in C8, C10, C11, C16 and C31, and among the further facts a full ring that closes, a write
  after the close, output added before the connect completes (\<^verbatim>\<open>Tcp_Loops\<close>) and a close signal after
  the stop (\<^verbatim>\<open>Tcp_Client_Runs\<close>, \<^verbatim>\<open>Tcp_Server_Runs\<close>).

  Hypotheses. \<^verbatim>\<open>kernel_ok\<close>: \<^verbatim>\<open>send\<close> of at least one byte fails or accepts at least one and at most
  all. \<^verbatim>\<open>quiet\<close>, \<^verbatim>\<open>calm\<close>, \<^verbatim>\<open>tame\<close>: the user's callbacks return without a fault and leave alone the
  part of the socket the property is about. \<^verbatim>\<open>posting\<close>: they send and ask for a close through
  the network loop, and may set or clear the socket's functions. \<^verbatim>\<open>system_env\<close> is \<^verbatim>\<open>kernel_ok\<close> and
  \<^verbatim>\<open>posting\<close>. \<^verbatim>\<open>pair_env\<close>: both ends have a \<^verbatim>\<open>system_env\<close> and the same byte order, and their callbacks
  are \<^verbatim>\<open>listening\<close>: they may clear the packet function and do not set it again. \<^verbatim>\<open>Tcp_Tasks\<close> proves
  \<^verbatim>\<open>posting\<close> and \<^verbatim>\<open>listening\<close> of the tasks' handlers. \<^verbatim>\<open>driven_env\<close>, for coming to rest: the kernel takes at
  least one byte of every send, and the callbacks neither send nor close. \<^verbatim>\<open>loop_env\<close>, for one
  loop: \<^verbatim>\<open>kernel_ok\<close>, and callbacks that return a sound socket, whose output only grew and whose packet
  function was not set again; \<^verbatim>\<open>Tcp_Loop_Tasks\<close> proves it of the tasks' handlers. \<^verbatim>\<open>Tcp_Loops\<close> has the network
  loop and the worker loop on different threads, \<^verbatim>\<open>Tcp_Solo\<close> has one loop for both; there a queued
  functor runs as one step, in \<^verbatim>\<open>Tcp_Thread_System\<close> what uses a ring is cut into its accesses.
  \<^verbatim>\<open>thread_env\<close>, for the threads: \<^verbatim>\<open>system_env\<close>, \<^verbatim>\<open>listening\<close>, and \<^verbatim>\<open>sending\<close>, by which a callback writes to
  the sending ring if it sends, and leaves its read counter alone; \<^verbatim>\<open>Tcp_Thread_Tasks\<close> proves it of
  the tasks' handlers. \<^verbatim>\<open>blind\<close>: a callback does not look at the posts that wait to be queued, which
  no code can; only C9 and runs over it need it. \<^verbatim>\<open>silent\<close>, for C2: the callbacks do not send. The threads
  keep one discipline, the condition \<^verbatim>\<open>one_sender\<close> of their steps: no two of them send at the same
  time (the ring has one writing thread; the code does not enforce it, C13). A load of both counters
  is one access, as one of the two is the loading thread's own. What touches no ring is one step, and
  so is a callback, with what it sends. The pointer \<^verbatim>\<open>SendData\<close> is given stays
  the caller's until it returns, and a socket connects once, as with the tasks. The loop of \<^verbatim>\<open>TryWriteBufferToSocket\<close> is a partial
  function, whose value None is not returning, and is proved to return. All other loops are total
  functions with a termination proof; no fuel is used. A ring's capacity is a power of two below
  2 to the 32, as the 16 megabytes of the program are. A \<^verbatim>\<open>SocketBuffer\<close> grows while twice its
  capacity and the new bytes fit \<^verbatim>\<open>size_t\<close>.

  Not modelled: libevent, WebRTC's rtc_base and the kernel beyond what their callers rely on; the
  text of log messages; \<^verbatim>\<open>CopyOnWriteBuffer\<close> other than as a list of bytes; the Apple only option of
  \<^verbatim>\<open>ConnectServerInNetworkLoop\<close>; memory ordering weaker than sequential consistency (the code uses
  the default order of \<^verbatim>\<open>std::atomic\<close>); a callback cut into the accesses of its own sends, and coming to
  rest when callbacks send; members of \<^verbatim>\<open>TcpSocketWrapper\<close> that no code reads
  (\<^verbatim>\<open>attached_\<close>, \<^verbatim>\<open>SignalOnWriteComplete\<close>, \<^verbatim>\<open>SignalHighWaterMark\<close>). The lines of the sources that no
  definition translates are prototypes, class heads, includes and comments, and the macros that are
  used nowhere. \<^verbatim>\<open>share_this_helper_\<close> is null until
  it is first set, where the code leaves it uninitialised.
\<close>

section \<open>Concrete inputs\<close>

text \<open>
  Two small connected sockets' worth of data, on which the properties are exercised: rings of 16
  bytes in place of 16 megabytes, a kernel that takes what it is offered, callbacks that do nothing.
\<close>

definition demo_socket :: tcp_socket where
  "demo_socket =
     \<lparr> tsw_socketfd = 7, tsw_listen = False, tsw_auto_reconnect = True,
       tsw_reconnect_interval = 3000, tsw_connecting_timeout = 3000,
       tsw_socket_read_event = Some (tcp_event_add None
         (tcp_event_set 7 (EV_READ OR EV_PERSIST) On_Read_Event True event_zero)),
       tsw_socket_write_event = Some (tcp_event_set 7 EV_WRITE On_Write_Event True event_zero),
       tsw_sender_buffer = RingBuffer_new (\<lambda>_. 0) 16,
       tsw_receiver_buffer = RingBuffer_new (\<lambda>_. 0) 16,
       tsw_remote_addr = ([], 0), tsw_high_water_mark = 16,
       tsw_share_this_helper = True, tsw_listen_port = 0, tsw_state = CS_CONNECTED,
       tsw_SignalReadPacket = True, tsw_SignalNewConnection = False,
       tsw_SignalOnCloseEvent = True, tsw_SignalOnConnected = True,
       tsw_posts = [], tsw_signals = [], tsw_wire = [], tsw_sends = 0, tsw_closed = [] \<rparr>"

definition demo_env :: tcp_env where
  "demo_env = \<lparr> env_le = True, env_in_network = False, env_in_worker = False,
     env_signal = (\<lambda>_ s. Inr s), env_send = (\<lambda>_ bs. (int (length bs), 0)) \<rparr>"

definition demo_busy :: tcp_env where
  "demo_busy = \<lparr> env_le = True, env_in_network = True, env_in_worker = True,
     env_signal = (\<lambda>_ s. Inr s), env_send = (\<lambda>_ _. (- 1, EAGAIN)) \<rparr>"

definition demo_sent :: tcp_socket where
  "demo_sent =
     (case SendData demo_env [0, 0, 7] 3 demo_socket of
        Some (Inr (_, _, s)) \<Rightarrow> s
      | _ \<Rightarrow> demo_socket)"

definition demo_written :: tcp_socket where
  "demo_written =
     (case TryWriteBufferToSocket demo_env demo_sent of Some (Inr s) \<Rightarrow> s | _ \<Rightarrow> demo_socket)"

definition demo_arrived :: tcp_socket where
  "demo_arrived =
     (case TryReadDataFromSocket demo_env (Sys_Data [1, 0, 7]) demo_socket of
        Inr s \<Rightarrow> s | _ \<Rightarrow> demo_socket)"

definition demo_delivered :: tcp_socket where
  "demo_delivered =
     (case TryProcessBufferedDataInWorkLoop demo_env demo_arrived of
        Inr s \<Rightarrow> s | _ \<Rightarrow> demo_socket)"

definition demo_wrapped :: tcp_socket where
  "demo_wrapped = demo_socket\<lparr>tsw_receiver_buffer :=
     \<lparr> rb_capacity = 16, rb_max_index = 15, rb_data = [0, 7, 2] @ replicate 12 0 @ [1],
       rb_read_count = 15, rb_write_count = 19 \<rparr>\<rparr>"

definition demo_full :: tcp_socket where
  "demo_full = demo_socket\<lparr>tsw_receiver_buffer :=
     \<lparr> rb_capacity = 16, rb_max_index = 15, rb_data = replicate 16 1,
       rb_read_count = 0, rb_write_count = 16 \<rparr>\<rparr>"

definition demo_idle :: tcp_socket where
  "demo_idle = demo_socket\<lparr>tsw_socket_read_event := Some event_zero,
     tsw_socket_write_event := Some event_zero, tsw_state := CS_CLOSED\<rparr>"

definition demo_task_env :: task_env where
  "demo_task_env = \<lparr> te_garbage1 = (\<lambda>_. 0), te_garbage2 = (\<lambda>_. 0), te_fd = 9,
     te_conn = (- 1, EINPROGRESS), te_tcp = demo_env, te_del_rc = 0, te_add_rc = 0 \<rparr>"

text \<open>A loop before \<^verbatim>\<open>Run\<close>, and one other thread, which queues a task that queues another.\<close>

definition demo_system :: loop_system where
  "demo_system =
     \<lparr> ls_loop = (case EventLoop_new (Some (3, 4)) 0 0 1 1024 of Inr l \<Rightarrow> l | Inl _ \<Rightarrow> EventLoop_members True 1),
       ls_progs = [[Queue_In_Loop 1 [Queue_In_Loop 2 []]]] \<rparr>"

definition demo_queued :: loop_system where
  "demo_queued =
     \<lparr> ls_loop = queue_effect (Task 1 [Queue_In_Loop 2 []]) (ls_loop demo_system), ls_progs = [[]] \<rparr>"

lemma demo_ring_inv: "ring_inv (RingBuffer_new (\<lambda>_. 0) 16)"
  using ring_new_inv [of 4 "\<lambda>_. 0"] by simp

lemma demo_ready: "sender_ready demo_socket" "receiver_ready demo_socket"
  using demo_ring_inv by (simp_all add: sender_ready_def receiver_ready_def demo_socket_def)

lemma demo_env_ok: "kernel_ok demo_env" "quiet demo_env" "calm demo_env" "tame demo_env"
  by (simp_all add: kernel_ok_def quiet_def calm_def tame_def demo_env_def Suc_leI)

lemma demo_le: "env_le demo_env = True"
  by (simp add: demo_env_def)

lemma demo_frame: "frame_of True [7] = [1, 0, 7]"
  by (simp add: frame_of_def host_bytes_def le_bytes_def upt_rec drop_bit_Suc)

lemma demo_empty:
  "tsw_wire demo_socket = []" "unsent demo_socket = []" "received demo_socket = []"
  "packets_of (tsw_signals demo_socket) = []"
  by (simp_all add: demo_socket_def ring_new_contents)

lemma demo_conn_inv: "conn_inv demo_socket"
  using demo_ring_inv by (auto simp: conn_inv_def conn_events_def demo_socket_def)

lemma demo_idle_ok: "conn_inv demo_idle" "\<not> read_registered demo_idle" "\<not> write_pending demo_idle"
  using demo_ring_inv
  by (simp_all add: conn_inv_def conn_events_def demo_idle_def demo_socket_def read_registered_def
    write_pending_def event_zero_def)

lemma demo_sending:
  "SendData demo_env ([0, 0] @ [7]) (of_nat (length [7 :: byte] + 2)) demo_socket =
     Some (Inr (True, [1, 0, 7], demo_sent))"
  by code_simp

lemma demo_sent_eq:
  "\<exists>r. demo_sent = post Net_Try_Write (demo_socket\<lparr>tsw_sender_buffer := r\<rparr>) \<and> ring_inv r \<and>
    ring_contents r = [1, 0, 7]"
proof -
  have p: "is_payload [7]" and h: "length [0 :: byte, 0] = 2" by (simp_all add: is_payload_def)
  have room: "length [7 :: byte] + 4 \<le> ring_free (tsw_sender_buffer demo_socket)" by code_simp
  have "\<not> env_in_network demo_env" by (simp add: demo_env_def)
  with SendData_ok [OF demo_ready(1) p h room, of demo_env] demo_sending demo_empty(2) show ?thesis
    by (auto simp: run_try_write_def demo_le demo_frame)
qed

lemma demo_sent_ready: "sender_ready demo_sent"
  and demo_sent_bytes: "tsw_wire demo_sent = []" "unsent demo_sent = [1, 0, 7]"
  and demo_sent_conn: "conn_inv demo_sent"
proof -
  obtain r where r: "demo_sent = post Net_Try_Write (demo_socket\<lparr>tsw_sender_buffer := r\<rparr>)"
    "ring_inv r" "ring_contents r = [1, 0, 7]" using demo_sent_eq by blast
  show "sender_ready demo_sent" using demo_ready(1) r(2) by (simp add: r(1) sender_ready_def post_def)
  show "tsw_wire demo_sent = []" using demo_empty(1) by (simp add: r(1) post_def)
  show "unsent demo_sent = [1, 0, 7]" using r(3) by (simp add: r(1) post_def)
  show "conn_inv demo_sent" using demo_conn_inv r(2) by (simp add: r(1) conn_inv_def post_def)
qed

lemma demo_writing:
  "TryWriteBufferToSocket demo_env demo_sent = Some (Inr demo_written) \<and>
   tsw_wire demo_written = [1, 0, 7] \<and> unsent demo_written = []"
proof -
  let ?r = "tsw_sender_buffer demo_sent"
  have inv: "ring_inv ?r" using demo_sent_ready by (simp add: sender_ready_def)
  have three: "ring_series_read ?r = 3" by code_simp
  obtain n where n: "ring_AvailableSeriesRead ?r = Inr n" "unat n = ring_series_read ?r"
    using ring_AvailableSeriesRead_ok [OF inv] by blast
  then have pos: "n > 0" using three by (simp add: word_less_nat_alt)
  have "env_send demo_env (tsw_sends demo_sent) (take (unat n) (unsent demo_sent)) = (3, 0)"
    unfolding n(2) three demo_sent_bytes by (simp add: demo_env_def)
  from try_write_step(2) [OF inv n(2) pos demo_env_ok(1) this] obtain r n' where
    r: "ring_contents r = []" "unat n' = ring_series_read r"
    "try_write_loop demo_env n demo_sent = try_write_loop demo_env n'
      (demo_sent\<lparr>tsw_sends := Suc (tsw_sends demo_sent), tsw_sender_buffer := r,
         tsw_wire := [1, 0, 7]\<rparr>)"
    unfolding demo_sent_bytes by auto
  have "ring_series_read r = 0" using r(1) by (simp add: ring_series_read_def flip: length_0_conv)
  then have "\<not> n' > 0" using r(2) by (simp add: word_less_nat_alt)
  then have w: "TryWriteBufferToSocket demo_env demo_sent = Some (Inr
      (demo_sent\<lparr>tsw_sends := Suc (tsw_sends demo_sent), tsw_sender_buffer := r,
         tsw_wire := [1, 0, 7]\<rparr>))"
    using n(1) r(3) by (simp add: TryWriteBufferToSocket_def try_write_loop.simps [of demo_env n'])
  then show ?thesis using r(1) by (simp add: demo_written_def)
qed

lemma demo_send_run: "send_run demo_env demo_socket [[7]] demo_written"
proof -
  have p: "is_payload [7]" by (simp add: is_payload_def)
  have h: "length [0 :: byte, 0] = 2" by simp
  from send_run.send [OF send_run.start p h demo_sending]
  have "send_run demo_env demo_socket [[7]] demo_sent" by simp
  then show ?thesis using conjunct1 [OF demo_writing] by (rule send_run.flush)
qed

lemma demo_receiving:
  "TryReadDataFromSocket demo_env (Sys_Data [1, 0, 7]) demo_socket = Inr demo_arrived"
  "TryProcessBufferedDataInWorkLoop demo_env demo_arrived = Inr demo_delivered"
  by code_simp+

lemmas demo_process = demo_receiving(2)

lemma demo_stream_run: "stream_run demo_env demo_socket [1, 0, 7] demo_arrived"
proof -
  have n: "ring_series_write (tsw_receiver_buffer demo_socket) = 16" by code_simp
  have b: "[1, 0, 7] = take (ring_series_write (tsw_receiver_buffer demo_socket)) [1, 0, 7 :: byte]"
    unfolding n by simp
  from stream_run.arrive [OF stream_run.start b _ demo_receiving(1)] show ?thesis by simp
qed

lemma demo_wire:
  "prefix [1, 0, 7] (tsw_wire demo_written)" "[1, 0, 7] = tsw_wire demo_written"
  "unsent demo_written = []"
  using demo_writing by simp_all

lemma demo_parse: "parse_frames True [1, 0, 7] = ([[1, 0, 7]], [], False)"
  by (simp add: parse_frames.simps host_word_def)

lemma demo_wrapped_ready: "receiver_ready demo_wrapped"
  by (auto simp: receiver_ready_def demo_wrapped_def demo_socket_def ring_inv_def intro!: exI [of _ 4])

lemma demo_wrapped_signals: "tsw_signals demo_wrapped = []"
  by (simp add: demo_wrapped_def demo_socket_def)

lemma demo_full_conn: "conn_inv demo_full"
  using demo_ring_inv
  by (auto simp: conn_inv_def conn_events_def demo_full_def demo_socket_def ring_inv_def
    intro!: exI [of _ 4])

lemma demo_loop:
  "loop_inv (ls_loop demo_system)" "el_phase (ls_loop demo_system) = Not_Started"
  "el_queued (ls_loop demo_system) = []" "\<not> el_exit (ls_loop demo_system)"
proof -
  obtain l where "EventLoop_new (Some (3, 4)) 0 0 1 1024 = Inr l" "loop_inv l"
    "el_phase l = Not_Started" "el_queued l = []" "\<not> el_exit l"
    using EventLoop_new_ok [of 3 0 0 1024 4 1] by auto
  then show "loop_inv (ls_loop demo_system)" "el_phase (ls_loop demo_system) = Not_Started"
    "el_queued (ls_loop demo_system) = []" "\<not> el_exit (ls_loop demo_system)"
    by (simp_all add: demo_system_def)
qed

lemmas demo_system_start = demo_loop(2) and demo_system_fresh = demo_loop(3)

lemma demo_system_ok: "stop_inv demo_system"
proof -
  let ?l = "ls_loop demo_system"
  have l: "el_stack ?l = []" "bs_status ?l = kInitialized" "el_pending_functors ?l = []" "el_called ?l = []"
    using demo_loop by (simp_all add: loop_inv_def loop_alive_def loop_account_def)
  have "system_total q s demo_system = 0" for q s
    using l by (simp add: system_total_def loop_total_def) (simp add: demo_system_def)
  with l demo_loop show ?thesis by (simp add: stop_inv_def stop_seen_def)
qed

lemma demo_queued_step: "loop_step demo_system demo_queued"
proof -
  have p: "0 < length (ls_progs demo_system)"
    "ls_progs demo_system ! 0 = Queue_In_Loop 1 [Queue_In_Loop 2 []] # []"
    by (simp_all add: demo_system_def)
  have "thread_step (Suc 0) (Queue_In_Loop 1 [Queue_In_Loop 2 []]) (ls_loop demo_system) =
      Inr ([], queue_effect (Task 1 [Queue_In_Loop 2 []]) (ls_loop demo_system))"
    by (simp only: thread_step_cases [OF demo_loop(1)] action.case)
  from loop_step.other [OF p this] show ?thesis by (simp add: demo_queued_def demo_system_def)
qed

definition demo_hooks :: task_hooks where
  "demo_hooks = \<lparr> hk_OnRecvVerifyMsg = (\<lambda>p. p = [2]), hk_OnSendHelloMsg = (\<lambda>_. True) \<rparr>"





section \<open>Further facts about the components\<close>

text \<open>
  Messages handed to SendData on one socket, written out in any pieces the kernel takes,
  arriving at another socket in any pieces and processed by its worker loop at any moments, are
  delivered to the packet callback framed by their length, in order and without loss: a prefix
  of them while bytes are under way, all of them once everything sent has arrived and been
  processed.
\<close>

theorem tcp_end_to_end:
  assumes "send_run env s ps t" "sender_ready s" "kernel_ok env" "quiet env"
      "tsw_wire s = []" "unsent s = []"
    and "stream_run env' s' xs t'" "receiver_ready s'" "calm env'" "received s' = []"
      "packets_of (tsw_signals s') = []" "TryProcessBufferedDataInWorkLoop env' t' = Inr u"
    and "env_le env' = env_le env" "prefix xs (tsw_wire t)"
  shows "prefix (packets_of (tsw_signals u)) (map (frame_of (env_le env)) ps) \<and>
    (xs = tsw_wire t \<and> unsent t = [] \<longrightarrow>
      packets_of (tsw_signals u) = map (frame_of (env_le env)) ps)"
  using send_receive [OF assms] by blast

text \<open>
  However a byte stream is cut into reads, and whenever the worker loop runs in between, once it
  has run the packets delivered are the frames of the bytes that arrived and the ring holds the
  unfinished rest: the cutting has no influence.
\<close>

theorem tcp_any_chunking:
  assumes "stream_run env s xs t" "receiver_ready s" "calm env" "received s = []"
    "packets_of (tsw_signals s) = []" "TryProcessBufferedDataInWorkLoop env t = Inr u"
  shows "packets_of (tsw_signals u) = fst (parse_frames (env_le env) xs) \<and>
    received u = fst (snd (parse_frames (env_le env) xs))"
  using stream_run_delivers [OF assms] by blast

text \<open>
  In every state a connection can reach by connecting, accepting, events firing, flushing,
  errors and closing, in any order, reading is registered only while connected, a connecting
  socket's write event is the one that completes the connect, and every enabled operation
  returns without a fault.
\<close>

theorem tcp_connection_safe:
  assumes "(conn_step env)\<^sup>*\<^sup>* s t" "conn_inv s" "kernel_ok env" "tame env" "conn_enabled op t"
  shows "conn_inv t \<and> (\<exists>u. conn_apply env op t = Some (Inr u) \<and> conn_inv u)"
proof -
  have "conn_inv t" using conn_runs.run_inv [OF assms(1)] assms(2-4) by (simp add: conn_env_ok_def)
  with conn_apply_ok assms(3-5) show ?thesis by blast
qed

text \<open>
  A connect that is under way is completed by its write event: without a socket error the state
  becomes connected, with one or on the timeout it becomes closed, and in each case the
  invariant of the events holds.
\<close>

theorem tcp_connect_completes:
  assumes "conn_inv s" "\<not> read_registered s" "\<not> write_pending s" "tame env" "fd \<noteq> - 1" "event = EV_WRITE \<or> event = EV_TIMEOUT"
  shows "\<exists>t. ConnectServerInNetworkLoop env fd (- 1, EINPROGRESS) s = Inr t \<and>
    tsw_state t = CS_CONNECTING \<and> write_pending t \<and>
    (\<exists>u. OnConnection env so_error event True t = Inr u \<and> conn_inv u \<and>
      tsw_state u = (if event = EV_WRITE \<and> so_error = 0 then CS_CONNECTED else CS_CLOSED))"
proof -
  obtain t where t: "ConnectServerInNetworkLoop env fd (- 1, EINPROGRESS) s = Inr t" "conn_inv t"
    "tsw_state t = CS_CONNECTING" "write_pending t"
    using Connect_conn [OF assms(1,4,2,3), of fd "(- 1, EINPROGRESS)"] assms(5) by auto
  then obtain f where f: "tsw_socket_write_event t = Some f" "ev_base f"
    by (auto simp: conn_events_def elim!: conn_invE)
  have "EV_WRITE \<noteq> EV_TIMEOUT" by (simp add: EV_WRITE_def EV_TIMEOUT_def)
  with OnConnection_conn [OF t(2) f assms(4), of so_error event True] assms(6) t show ?thesis by auto
qed

text \<open>
  A connection the listener accepts becomes a new connected socket on the accepted descriptor
  with the peer's address, reading registered and the invariant established; accept's failure
  yields no socket.
\<close>

theorem tcp_accept_connects:
  assumes "tame env" "env_in_network env" "nb \<noteq> - 1"
  shows "if acc = - 1 then AcceptConnection env acc nb addr g1 g2 = Inr None
    else \<exists>c. AcceptConnection env acc nb addr g1 g2 = Inr (Some c) \<and> conn_inv c \<and>
      tsw_state c = CS_CONNECTED \<and> read_registered c \<and> tsw_remote_addr c = addr \<and>
      tsw_socketfd c = acc"
  using AcceptConnection_ok [OF assms(1,2) _ assms(3)] by (auto simp: AcceptConnection_def)

text \<open>
  BeginListen fails at the first system call that fails, registering nothing, and otherwise
  listens with the accept handler registered and the write event gone.
\<close>

theorem tcp_listen_cases:
  assumes "tsw_socket_read_event s = Some e" "\<not> ev_added e"
  shows "\<exists>ok s'. BeginListen fd nb so bd li port s = Inr (ok, s') \<and>
    ok = (- 1 \<notin> {fd, nb, so, bd, li}) \<and> tsw_listen s' = (ok \<or> tsw_listen s) \<and>
    read_registered s' = ok \<and> tsw_socketfd s' = fd \<and>
    (ok \<longrightarrow> tsw_socket_write_event s' = None \<and> tsw_listen_port s' = port)"
  using BeginListen_cases [OF assms(1), of fd nb so bd li port] assms
  by (auto simp: read_registered_def)

text \<open>
  Closing does not stop the write side: with data still unsent and a busy kernel, a flush that
  was posted before the close registers the write event of the closed socket again, with the
  freed helper as its argument.
\<close>

theorem tcp_flush_after_close:
  assumes "conn_inv s" "tsw_state s = CS_CONNECTED" "env_in_worker env" "unsent s \<noteq> []"
    "\<And>n bs. env_send env n bs = (- 1, EAGAIN)"
    "tsw_socket_write_event s = Some f" "ev_callback f = Some (On_Write_Event, True)"
  shows "\<exists>t. TryWriteBufferToSocket env (CloseConnectionInNetworkLoop env s) = Some (Inr t) \<and>
    tsw_state t = CS_CLOSED \<and> \<not> tsw_share_this_helper t \<and>
    (\<exists>f'. tsw_socket_write_event t = Some f' \<and> ev_added f' \<and>
      ev_callback f' = Some (On_Write_Event, True))"
  by (rule flush_after_close [OF assms])

text \<open>
  When the receiver ring is full, read is called with length zero and its answer is taken for
  the end of the stream: the connection is closed although the peer is still sending.
\<close>

theorem tcp_full_ring_closes:
  assumes "conn_inv s" "tame env" "ring_free (tsw_receiver_buffer s) = 0"
  shows "\<exists>s'. TryReadDataFromSocket env (Sys_Data bytes) s = Inr s' \<and> tsw_state s' = CS_CLOSED"
  by (rule read_without_room [OF assms])

text \<open>
  In every reachable state the functors queued are those called, those taken and those waiting,
  each once; pending_functor_count_ counts those not finished; and until a StopInLoop drains,
  the order of calls is the order of queueing.
\<close>

theorem loop_exactly_once_fifo:
  assumes "loop_inv (ls_loop S)" "loop_step\<^sup>*\<^sup>* S T"
  defines "l \<equiv> ls_loop T"
  shows "mset (el_queued l) = mset (el_called l) + mset (stack_functors (el_stack l)) +
      mset (el_pending_functors l) \<and>
    el_pending_functor_count l = int (length (el_pending_functors l) +
      length (stack_functors (el_stack l)) + count_list (el_stack l) Decrement) \<and>
    (Stop_In_Loop \<in> set (el_called l) \<or>
      el_queued l = el_called l @ stack_functors (el_stack l) @ el_pending_functors l)"
proof -
  have "loop_inv l" using loop_runs.run_inv [OF assms(2,1)] by (simp add: l_def)
  then show ?thesis by (auto simp: loop_inv_def loop_account_def loop_fifo_def)
qed

text \<open>
  Over any sequence of writes that fit and reads of what is there, the ring gives back the bytes
  it took, in order, and keeps the rest, through any number of wraps of the storage and of the
  32 bit counters.
\<close>

theorem ring_conserves_bytes:
  assumes "ring_inv r"
  shows "\<exists>acc out r'. queue_run ring_contents ring_free ring_put ring_get r ops = Inr (acc, out, r') \<and>
    ring_inv r' \<and> out @ ring_contents r' = ring_contents r @ acc"
  by (rule ring_queue.run_conserves [OF assms])

text \<open>
  WriteContent appends the whole content when it fits, wherever the write index stands, and
  otherwise reports failure and changes nothing.
\<close>

theorem ring_write_all_or_nothing:
  assumes "ring_inv r" "unat len \<le> length content"
  shows "if unat len \<le> ring_free r
    then \<exists>r'. ring_WriteContent r content len = Inr (True, r') \<and> ring_inv r' \<and>
      ring_contents r' = ring_contents r @ take (unat len) content
    else ring_WriteContent r content len = Inr (False, r)"
  using ring_WriteContent_ok [OF assms] ring_WriteContent_full [OF assms(1)] by auto

text \<open>
  Without a limit a client never gives up: after any number of losses, each followed by its
  timer, it has a new socket, has reported nothing, and has let go of one socket per loss.
\<close>

theorem client_retries_forever:
  assumes "client_ok c" "\<not> env_in_network (te_tcp env)" "tc_tcp_socket c \<noteq> None"
    "tc_max_reconnect_times c \<le> 0"
  shows "\<exists>c'. lose_and_retry env n c = Inr c' \<and> tc_tcp_socket c' \<noteq> None \<and>
    tc_effects c' = tc_effects c \<and> length (tc_released c') = length (tc_released c) + n"
  using lose_and_retry_ok [OF assms(1-3), of n] assms(4) by auto

text \<open>
  A client's first packet is never parsed: accepted, it enters the manager and later packets are
  parsed; refused, the task stops, leaves the manager and drops its socket and timer.
\<close>

theorem client_verifies_first:
  assumes "\<not> tc_verified c"
  shows "if hk_OnRecvVerifyMsg hk bs
    then tc_effects (Client_OnInternalPacket env hk bs' (Client_OnInternalPacket env hk bs c)) =
      tc_effects c @ [Recv_Verify_Msg bs, Add_To_Manager, Msg_Parse bs']
    else tc_effects (Client_OnInternalPacket env hk bs c) =
        tc_effects c @ [Recv_Verify_Msg bs, Remove_From_Manager] \<and>
      tc_tcp_socket (Client_OnInternalPacket env hk bs c) = None \<and>
      tc_reconnect_timer (Client_OnInternalPacket env hk bs c) = None"
proof (cases "hk_OnRecvVerifyMsg hk bs")
  case True
  then show ?thesis
    using packet_cases(1,2) assms(1) by (simp add: client_effect_def)
next
  case False
  then show ?thesis
    using packet_cases(3) assms(1) by (simp add: Client_OnInternalPacket_def Let_def client_effect_def)
qed

text \<open>
  Of the packets a server task receives, those up to the first one accepted are only verified,
  that one enters the client into the manager exactly once, and all later ones are only parsed.
\<close>

theorem server_verifies_first:
  assumes "\<not> ts_verified_client t"
  shows "ts_effects (fold (Server_OnInternalPacket hk) ps t) = ts_effects t @
    map Recv_Verify_Msg (takeWhile (\<lambda>p. \<not> hk_OnRecvVerifyMsg hk p) ps) @
    (case dropWhile (\<lambda>p. \<not> hk_OnRecvVerifyMsg hk p) ps of
       [] \<Rightarrow> []
     | p # qs \<Rightarrow> Recv_Verify_Msg p # Add_To_Manager # map Msg_Parse qs)"
  using server_packets [OF assms, of hk ps] by (simp add: packet_effects_def)

text \<open>
  A server task that has stopped drops its timers but keeps its verified flag and last hello
  time, so a later schedule that finds the client overdue uses the null close timer.
\<close>

theorem server_stopped_faults:
  assumes "ts_verified_client t" "ts_last_hello_time t \<noteq> 0" "now - ts_last_hello_time t > 30000"
  shows "ts_conn_socket (Server_StopProcess env t) = None \<and>
    Server_ScheduleEvent env now (Server_StopProcess env t) = Inl Null_Deref"
  using Server_StopProcess_ok [of env t] assms by (simp add: Server_ScheduleEvent_stopped)

text \<open>
  ReadFromFD offers readv its writable space and, when that is less than 64k, 64k more on the
  stack: whatever amount of that arrives is appended to the unread bytes, in order, growing when
  needed, and an error leaves the buffer as it was.
\<close>

theorem socket_buffer_reads_fd:
  assumes "sb_inv b" "2 * unat (sb_capacity b) + 65536 < 2 ^ 64"
    "\<And>bs. readv (sb_fd_room b) = Inr bs \<Longrightarrow> length bs \<le> sb_fd_room b"
  shows "case readv (sb_fd_room b) of
      Inl errno \<Rightarrow> sb_ReadFromFD g readv b = Inr (Inl errno, b)
    | Inr bs \<Rightarrow> \<exists>b'. sb_ReadFromFD g readv b = Inr (Inr (length bs), b') \<and> sb_inv b' \<and>
        sb_contents b' = sb_contents b @ bs"
proof (cases "readv (sb_fd_room b)")
  case (Inl errno)
  have "(if sb_capacity b - sb_write_index b < 65536
      then unat (sb_capacity b - sb_write_index b) + 65536
      else unat (sb_capacity b - sb_write_index b)) = sb_fd_room b"
    using sb_WritableBytes_ok(2) [OF assms(1)] by (simp add: sb_fd_room_def word_less_nat_alt)
  with Inl sb_WritableBytes_ok(1) [OF assms(1)] show ?thesis by (simp add: sb_ReadFromFD_def Let_def)
next
  case (Inr bs)
  with sb_ReadFromFD_ok [where readv = readv and bs = bs and g = g, OF assms(1,2)] assms(3) show ?thesis by simp
qed

text \<open>
  EnsureWritableBytes makes room for the length asked for, moving the unread bytes to the front
  when that is enough and allocating otherwise, keeps them as they are, and never more than
  doubles the capacity plus that length.
\<close>

theorem socket_buffer_grows:
  assumes "sb_inv b" "2 * unat (sb_capacity b) + unat len < 2 ^ 64"
  shows "\<exists>b'. sb_EnsureWritableBytes g len b = Inr b' \<and> sb_inv b' \<and>
    sb_contents b' = sb_contents b \<and> unat len \<le> sb_writable b' \<and>
    unat (sb_capacity b') \<le> 2 * unat (sb_capacity b) + unat len"
  using sb_EnsureWritableBytes_ok [OF assms, of g] by blast

text \<open>
  Prepend puts the given bytes in front of the unread ones while the prependable area has room
  for them, without touching the rest, and fails its assertion otherwise.
\<close>

theorem socket_buffer_prepends:
  assumes "sb_inv b" "unat len \<le> length d"
  shows "if len \<le> sb_PrependableBytes b
    then \<exists>b'. sb_Prepend d len b = Inr b' \<and> sb_inv b' \<and>
      sb_contents b' = take (unat len) d @ sb_contents b \<and> sb_capacity b' = sb_capacity b
    else sb_Prepend d len b = Inl Assert_Failed"
  using sb_Prepend_ok [OF assms(1) _ assms(2)]
  by (auto simp: sb_PrependableBytes_def word_le_nat_alt sb_Prepend_def)

text \<open>
  FindCRLF returns the position of the first carriage return with a line feed after it among the
  unread bytes, and the null pointer exactly when there is none.
\<close>

theorem socket_buffer_finds_crlf:
  assumes "sb_inv b"
  shows "case sb_FindCRLF b of
      Inl _ \<Rightarrow> False
    | Inr None \<Rightarrow> \<not> (\<exists>i. take 2 (drop i (sb_contents b)) = kCRLF)
    | Inr (Some p) \<Rightarrow> \<exists>i. p = unat (sb_read_index b) + i \<and> take 2 (drop i (sb_contents b)) = kCRLF \<and>
        (\<forall>j. take 2 (drop j (sb_contents b)) = kCRLF \<longrightarrow> i \<le> j)"
proof -
  let ?c = "sb_contents b" and ?i = "std_search kCRLF (sb_contents b)"
  have w: "unat (sb_write_index b) = unat (sb_read_index b) + length ?c"
    and l: "unat (sb_length b) = length ?c"
    using length_sb_contents [OF assms] unat_sb_length [OF assms] sb_invD(2) [OF assms] by simp_all
  have r: "sb_FindCRLF b = Inr (if ?i = length ?c then None else Some (unat (sb_read_index b) + ?i))"
    using sb_unread_read [OF assms, of "length ?c"] w l by (simp add: sb_FindCRLF_def Let_def)
  have two: "length kCRLF = 2" by (simp add: kCRLF_def)
  have least: "take 2 (drop j ?c) = kCRLF \<Longrightarrow> ?i \<le> j" for j
    using std_search_first [of j kCRLF ?c] two by (metis not_le)
  show ?thesis
  proof (cases "?i = length ?c")
    case True
    have "take 2 (drop i ?c) \<noteq> kCRLF" for i
    proof
      assume a: "take 2 (drop i ?c) = kCRLF"
      then have "drop i ?c = []" using least [of i] True by simp
      with a show False by (simp add: kCRLF_def)
    qed
    with True r show ?thesis by simp
  next
    case False
    then have "?i < length ?c" using std_search_le [of kCRLF ?c] by simp
    from std_search_found [OF this] least two False r show ?thesis by auto
  qed
qed

text \<open>
  However many messages were stored in a pool buffer before, after SetData it holds the last one
  only, cut to 80 kilobytes, with zeros behind it.
\<close>

theorem pool_buffer_latest:
  assumes "pool_inv p" "unat len \<le> length data"
  shows "\<exists>p'. pool_SetData data len p = Inr p' \<and> pool_inv p' \<and>
    pool_payload p' = Some (take (min (unat len) 81920) data) \<and>
    drop (min (unat len) 81920) (pool_Data p') = replicate (81920 - min (unat len) 81920) 0"
proof -
  obtain p' where "pool_SetData data len p = Inr p'" "pool_inv p'"
    "pool_payload p' = Some (take (min (unat len) 81920) data)"
    "pool_Data p' = take (min (unat len) 81920) data @ replicate (81920 - min (unat len) 81920) 0"
    using pool_SetData_ok [OF assms] by blast
  with assms(2) show ?thesis by auto
qed

text \<open>
  In a connection's socket run with its two loops and its user, from its start and under any
  interleaving, a whole packet in the receiving ring always has its processing queued on the
  worker loop: none is left waiting for bytes that need not come.
\<close>

theorem tcp_no_packet_stranded:
  assumes "sys_start env y" "(sys_step env)\<^sup>*\<^sup>* y z" "system_env env"
    and "fst (parse_frames (env_le env) (received (sy_socket z))) \<noteq> []"
  shows "Work_Process_Buffered \<in> set (sy_work z)"
  using reachable_inv [OF assms(1-3)] assms(4) by (simp add: sys_inv_def input_ok_def)

text \<open>
  In the same runs, output that waits in the sending ring has a write queued on the network loop
  or the write event registered, unless the connection is closed; it can be stranded only if
  some was added before the connection was up, or an illegal length was received.
\<close>

theorem tcp_no_output_stranded:
  assumes "sys_start env y" "(sys_step env)\<^sup>*\<^sup>* y z" "system_env env"
    and "unsent (sy_socket z) \<noteq> []" "\<not> sy_early z" "\<not> sy_broken z"
  shows "Net_Try_Write \<in> set (sy_net z) \<or> write_pending (sy_socket z) \<or>
    tsw_state (sy_socket z) = CS_CLOSED"
  using reachable_inv [OF assms(1-3)] assms(4-6) by (auto simp: sys_inv_def output_ok_def drained_def)

text \<open>
  In the same runs no step faults or hangs: what heads the network queue runs, a registered
  event fires, and what heads the worker queue runs, whatever the kernel answers and the
  callbacks send. The one exception is processing a receiving ring that is exactly full, which
  fails its assertion.
\<close>

theorem tcp_system_no_fault:
  assumes "sys_start env y" "(sys_step env)\<^sup>*\<^sup>* y z" "system_env env"
  shows "(case sy_net z of
      [] \<Rightarrow> True
    | p # ps \<Rightarrow> \<exists>s. run_net (on_network env) answers p (sy_socket z) = Some (Inr s)) \<and>
    (case sy_work z of
      [] \<Rightarrow> True
    | p # ps \<Rightarrow>
        if p = Work_Process_Buffered \<and> ring_full (sy_socket z)
        then run_work (on_worker env) p (sy_socket z) = Inl Assert_Failed
        else \<exists>s. run_work (on_worker env) p (sy_socket z) = Inr s) \<and>
    (read_registered (sy_socket z) \<longrightarrow>
      (\<exists>s. fire_read (on_network env) answer (sy_socket z) = Inr s)) \<and>
    (write_pending (sy_socket z) \<longrightarrow>
      (\<exists>s. fire_write (on_network env) so_error EV_WRITE (sy_socket z) = Some (Inr s)))"
proof -
  have inv: "sys_inv env z" using reachable_inv [OF assms] .
  then have c: "conn_inv (sy_socket z)" by (simp add: sys_inv_def)
  have full: "ring_full (sy_socket z) \<Longrightarrow>
      run_work (on_worker env) Work_Process_Buffered (sy_socket z) = Inl Assert_Failed"
    using process_full by (simp add: ring_full_def)
  have "case sy_net z of [] \<Rightarrow> True
    | p # ps \<Rightarrow> \<exists>s. run_net (on_network env) answers p (sy_socket z) = Some (Inr s)"
    using net_step_ok [OF inv assms(3), of "hd (sy_net z)" "tl (sy_net z)" answers]
    by (cases "sy_net z") auto
  moreover have "case sy_work z of [] \<Rightarrow> True
    | p # ps \<Rightarrow> if p = Work_Process_Buffered \<and> ring_full (sy_socket z)
        then run_work (on_worker env) p (sy_socket z) = Inl Assert_Failed
        else \<exists>s. run_work (on_worker env) p (sy_socket z) = Inr s"
    using work_step_ok [OF inv assms(3), of "hd (sy_work z)" "tl (sy_work z)"] full
    by (cases "sy_work z") auto
  ultimately show ?thesis
    using fire_read_net [OF c _ assms(3), of answer] fire_write_net [OF c _ assms(3), of EV_WRITE so_error]
    by blast
qed

text \<open>
  Where the ring has room for the frame and two bytes more, SendData of a payload and
  SendDataWithHead of the frame made of it are one operation: the same answer, the same socket,
  the same bytes in the ring, whichever thread calls.
\<close>

theorem tcp_send_ways_agree:
  assumes "sender_ready s" "is_payload p" "length h = 2"
    "length p + 4 \<le> ring_free (tsw_sender_buffer s)"
  shows "SendData env (h @ p) (of_nat (length p + 2)) s =
    map_option (\<lambda>x. rbind x (\<lambda>(ok, s'). Inr (ok, frame_of (env_le env) p, s')))
      (SendDataWithHead env (frame_of (env_le env) p) s)"
  using SendDataWithHead_frame [OF assms] .

text \<open>
  Over a client task's whole life a packet is parsed only after the task entered the manager,
  and each entry comes right after a verification message that was accepted.
\<close>

theorem client_parses_verified:
  assumes "Client_BeginProcess env (TcpClientTask_new ip port) = Inr c" "\<not> env_in_network (te_tcp env)"
    "(client_step env hk)\<^sup>*\<^sup>* c d"
  shows "calls_ok hk (rev (tc_effects d))"
proof -
  note c = new_client_wf [OF assms(2,1)]
  have "(session_step hk)\<^sup>*\<^sup>* (client_session c) (client_session d)"
    using client_run_session [OF assms(3) c(1) assms(2)] .
  from sessions.run_inv [OF this] c(2) show ?thesis by (simp add: client_session_def)
qed

text \<open>
  Two connected sockets, each with its two loops, its user and callbacks that send and close,
  under any interleaving from their starts on: where what one end put into its sending ring is a
  row of framed messages, the packets the other end's callback was handed are a prefix of that
  row, and all of it once everything is read and no processing is queued, unless the packet
  function was cleared. Nothing is lost, doubled, reordered or cut anew, in either direction.
\<close>

theorem tcp_pair_delivers:
  assumes "pair_env envl envr" "pair_start envl envr p" "(pair_step envl envr)\<^sup>*\<^sup>* p q"
    and "(a, b) \<in> {(pa_left q, pa_right q), (pa_right q, pa_left q)}"
    and "sy_output a = concat (map (frame_of (env_le envl)) ms)" "\<forall>m \<in> set ms. is_payload m"
  shows "prefix (packets_of (tsw_signals (sy_socket b))) (map (frame_of (env_le envl)) ms) \<and>
    (sy_taken b = tsw_wire (sy_socket a) \<and> unsent (sy_socket a) = [] \<and>
       Work_Process_Buffered \<notin> set (sy_work b) \<and> tsw_SignalReadPacket (sy_socket b) \<longrightarrow>
     packets_of (tsw_signals (sy_socket b)) = map (frame_of (env_le envl)) ms)"
proof -
  have inv: "pair_inv envl envr q"
    using pairs.run_inv [OF assms(3)] pair_start_inv [OF assms(2)] assms(1) by blast
  then obtain env env' where e: "stream_inv env a" "stream_inv env' b" "linked a b" "env_le env = env_le envl"
    "env_le env' = env_le envl"
    using assms(1,4) by (auto simp: pair_inv_def pair_env_def)
  have parse: "fst (parse_frames (env_le envl) (sy_output a)) = map (frame_of (env_le envl)) ms"
    unfolding assms(5) using frames_parse [OF assms(6), of "env_le envl" "[]"] by simp
  have "sy_output a = tsw_wire (sy_socket a) @ unsent (sy_socket a)"
    using stream_output [OF e(1)] by simp
  then show ?thesis
    using linked_delivers [OF e(1-3)] e(4,5) parse by simp
qed

text \<open>
  A client task and a server task, each with its handlers as the functions of its socket and a
  subclass that sends, stops and notes hellos in the virtual members, behave as a socket's user
  must: no handler fails, a handler touches its socket only through sends and closes that it
  posts, and never sets the packet function again. So the packets handed to either task's
  OnInternalPacket are, under any interleaving of the four loops, a prefix of the messages the
  other task sent, whole and in order; and what a new task passes on to MsgParse is a prefix of
  what the other sent after the message that verified it.
\<close>

theorem tasks_exchange:
  assumes "kernel_ok (te_tcp ce)" "kernel_ok (te_tcp se)" "env_le (te_tcp se) = env_le (te_tcp ce)"
    and "\<And>sig. list_all client_call_fits (creact sig)" "\<And>sig. list_all call_fits (sreact sig)"
    and "\<And>sigs. rearms (cst sigs)"
    and "cenv = client_env ce chk now creact cst" "senv = server_env se shk sreact sst"
    and "pair_start cenv senv p" "(pair_step cenv senv)\<^sup>*\<^sup>* p q"
    and "(a, b) \<in> {(pa_left q, pa_right q), (pa_right q, pa_left q)}"
    and "sy_output a = concat (map (frame_of (env_le cenv)) ms)" "\<forall>m \<in> set ms. is_payload m"
  shows "(\<forall>sig s. ring_inv (tsw_sender_buffer s) \<longrightarrow>
      (\<exists>s'. env_signal cenv sig s = Inr s' \<and> obeys s s') \<and> (\<exists>s'. env_signal senv sig s = Inr s' \<and> obeys s s')) \<and>
    prefix (packets_of (tsw_signals (sy_socket b))) (map (frame_of (env_le cenv)) ms) \<and>
    prefix (parsed (ts_effects (fold (Server_OnInternalPacket shk) (packets_of (tsw_signals (sy_socket b)))
        TcpServerTask_new))) (after_verified shk (map (frame_of (env_le cenv)) ms)) \<and>
    prefix (parsed (tc_effects (fold (Client_OnInternalPacket ce chk) (packets_of (tsw_signals (sy_socket b)))
        (TcpClientTask_new ip port)))) (after_verified chk (map (frame_of (env_le cenv)) ms))"
proof -
  have env: "pair_env cenv senv"
    unfolding assms(7,8) by (rule tasks_pair_env) (use assms(1-6) in auto)
  have inv: "pair_inv cenv senv q"
    using pairs.run_inv [OF assms(10)] pair_start_inv [OF assms(9)] env by blast
  then obtain e e' where e: "stream_inv e a" "stream_inv e' b" "linked a b" "env_le e = env_le cenv"
    "env_le e' = env_le cenv"
    using env assms(11) by (auto simp: pair_inv_def pair_env_def)
  have "fst (parse_frames (env_le cenv) (sy_output a)) = map (frame_of (env_le cenv)) ms"
    unfolding assms(12) using frames_parse [OF assms(13), of "env_le cenv" "[]"] by simp
  then have "prefix (packets_of (tsw_signals (sy_socket b))) (map (frame_of (env_le cenv)) ms)"
    using linked_delivers(1) [OF e(1-3)] e(4,5) by simp
  moreover have "\<exists>s'. env_signal cenv sig s = Inr s' \<and> obeys s s'" "\<exists>s'. env_signal senv sig s = Inr s' \<and> obeys s s'"
    if "ring_inv (tsw_sender_buffer s)" for sig s
    using posted.client_signal_keeps [OF that assms(4,6)] posted.server_signal_keeps [OF that assms(5)]
    by (simp_all add: assms(7,8) client_env_def server_env_def)
  ultimately show ?thesis
    using server_parses [of shk _ TcpServerTask_new] client_parses [of ce chk _ "TcpClientTask_new ip port"]
    by (simp add: TcpServerTask_new_def TcpClientTask_new_def after_verified_prefix)
qed

text \<open>
  Two connected ends deliver each other's messages, too, where one has a single loop and the
  other has two.
\<close>

lemma mixed_loops_deliver:
  assumes "loop_env envl" "system_env envr" "listening envr" "env_le envr = env_le envl"
    and "so_start envl a" "sys_start envr b"
    and "(join_step (so_step envl) (sys_step envr) solo_view sys_view)\<^sup>*\<^sup>* (a, b) (c, d)"
    and "so_output c = concat (map (frame_of (env_le envl)) ms)" "\<forall>m \<in> set ms. is_payload m"
    and "sy_output d = concat (map (frame_of (env_le envl)) ns)" "\<forall>m \<in> set ns. is_payload m"
  shows "prefix (packets_of (tsw_signals (sy_socket d))) (map (frame_of (env_le envl)) ms)"
    "prefix (packets_of (tsw_signals (so_socket c))) (map (frame_of (env_le envl)) ns)"
proof -
  note r = same_order_id [OF assms(4)]
  have p: "fst (parse_frames (env_le envl) (so_output c)) = map (frame_of (env_le envl)) ms"
    "fst (parse_frames (env_le envl) (sy_output d)) = map (frame_of (env_le envl)) ns"
    unfolding assms(8,10) using frames_parse [OF assms(9), of "env_le envl" "[]"]
      frames_parse [OF assms(11), of "env_le envl" "[]"] by simp_all
  show "prefix (packets_of (tsw_signals (sy_socket d))) (map (frame_of (env_le envl)) ms)"
    "prefix (packets_of (tsw_signals (so_socket c))) (map (frame_of (env_le envl)) ns)"
    using one_and_two.delivers [of envl envr "(a, b)" "(c, d)"] so_start_inv [OF assms(5,1)]
      stream_inv_start [OF assms(6)] assms(1-3,7) p
    by (simp_all add: r solo_view_def sys_view_def socket_view_def)
qed

section \<open>Properties\<close>

text \<open>
  C1. Two connected sockets under their three threads each - the one that sends, the network
  loop and the worker loop - cut at every load of a ring's counters, every copy, every
  publication, every system call and every callback: however these steps interleave, and in
  whatever pieces the network delivers, the packets handed over at one end are a prefix of the
  messages whose frames the other end put into its ring, each whole, once and in order.
\<close>

theorem threads_deliver:
  assumes "thread_env envl" "thread_env envr" "env_le envr = env_le envl"
    and "sys_start envl a" "sys_start envr b"
    and "(join_step (th_step envl) (th_step envr) th_view th_view)\<^sup>*\<^sup>* (threads_of a, threads_of b) (c, d)"
    and "(x, y) \<in> {(c, d), (d, c)}"
    and "sy_output (th_system x) = concat (map (frame_of (env_le envl)) ms)" "\<forall>m \<in> set ms. is_payload m"
  shows "prefix (packets_of (tsw_signals (th_socket y))) (map (frame_of (env_le envl)) ms)"
proof -
  note r = same_order_id [OF assms(3)]
  have "fst (parse_frames (env_le envl) (sy_output (th_system x))) = map (frame_of (env_le envl)) ms"
    unfolding assms(8) using frames_parse [OF assms(9), of "env_le envl" "[]"] by simp
  moreover have "ve_taken (th_view (threads_of a)) = []" "ve_taken (th_view (threads_of b)) = []"
    using th_start_inv(2) [OF assms(4)] th_start_inv(2) [OF assms(5)] by (simp_all add: view_threads_of)
  ultimately show ?thesis
    using threads_joined.delivers [of envl envr "(threads_of a, threads_of b)" "(c, d)"] th_start_inv(1) [OF assms(4)]
      th_start_inv(1) [OF assms(5)] assms(1,2,6,7)
    by (auto simp: r th_view_def)
qed

theorem threads_deliver_witness:
  "\<exists>c d. (join_step (th_step open_env) (th_step open_env) th_view th_view)\<^sup>*\<^sup>*
      (threads_of accepted_system, threads_of accepted_system) (c, d) \<and>
    sy_taken (th_system d) = [1, 0, 7] \<and>
    prefix (packets_of (tsw_signals (th_socket d))) (map (frame_of (env_le open_env)) [[7]])"
proof -
  obtain c d where r: "(join_step (th_step open_env) (th_step open_env) th_view th_view)\<^sup>*\<^sup>*
      (threads_of accepted_system, threads_of accepted_system) (threads_of c, threads_of d)"
    "sy_output c = [1, 0, 7]" "sy_taken d = [1, 0, 7]" using threads_pair_run by blast
  have out: "sy_output (th_system (threads_of c)) = concat (map (frame_of (env_le open_env)) [[7]])"
    using open_env_threads(4) by (simp add: r(2) demo_frame threads_of_def)
  have ends: "(threads_of c, threads_of d) \<in> {(threads_of c, threads_of d), (threads_of d, threads_of c)}"
    and m: "\<forall>m \<in> set [[7 :: byte]]. is_payload m" by (simp_all add: is_payload_def)
  from threads_deliver [OF open_env_threads(1,1) refl accepted_start accepted_start r(1) ends out m] r(1,3)
  show ?thesis by (intro exI [of _ "threads_of c"] exI [of _ "threads_of d"]) (simp add: threads_of_def)
qed















text \<open>
  C9. The composition of two sockets at the grain of whole functors and calls is an instance of
  the one at the grain of single accesses: every run of the pair, with its loops' functors, its
  events and its users' calls, is a run of the two times three threads that ends in the same two
  states with every thread idle, where callbacks do not look at the queues they post to. So what
  is proved of all interleavings holds of whole operations, and no run of whole operations is
  lost in the finer model.
\<close>

theorem threads_refine:
  assumes "thread_env envl" "blind envl" "thread_env envr" "blind envr"
    and "pair_start envl envr p" "(pair_step envl envr)\<^sup>*\<^sup>* p q"
  shows "(join_step (th_step envl) (th_step envr) th_view th_view)\<^sup>*\<^sup>*
    (threads_of (pa_left p), threads_of (pa_right p)) (threads_of (pa_left q), threads_of (pa_right q))"
proof -
  have "th_inv envl (threads_of (pa_left p))" "th_inv envr (threads_of (pa_right p))"
    using assms(5) th_start_inv(1) by (auto simp: pair_start_def)
  from pair_runs [OF assms(1-4) this assms(6)] show ?thesis by (simp add: threads_pair_def)
qed

theorem threads_refine_witness:
  "\<exists>q :: tcp_pair. (join_step (th_step open_env) (th_step open_env) th_view th_view)\<^sup>*\<^sup>*
      (threads_of accepted_system, threads_of accepted_system) (threads_of (pa_left q), threads_of (pa_right q)) \<and>
    sy_output (pa_left q) = [1, 0, 7]"
proof -
  obtain q where q: "(pair_step open_env open_env)\<^sup>*\<^sup>* accepted_pair q" "sy_output (pa_left q) = [1, 0, 7]"
    using open_pair_run by blast
  have start: "pa_left accepted_pair = accepted_system" "pa_right accepted_pair = accepted_system"
    by (simp_all add: accepted_pair_def)
  from threads_refine [OF open_env_threads(1,2,1,2) accepted_pair_start q(1), unfolded start] q(2) show ?thesis by blast
qed





text \<open>
  C12. Cut into their accesses, the operations are what they were: where nobody comes in
  between, the writing machine stops, and only in the state in which TryWriteBufferToSocket
  returns; the same for reading, for the processing of what was received, and for the ring's
  WriteContent with the post that follows it.
\<close>

theorem machines_agree:
  shows "(TryWriteBufferToSocket env s = Some (Inr t) \<longrightarrow> (\<forall>u. runs (net_next env) (N_Load, s) (N_Idle, u) \<longleftrightarrow> u = t)) \<and>
    (TryReadDataFromSocket env answer s = Inr t \<longrightarrow> (\<forall>u. runs (net_next env) (N_Reading answer, s) (N_Idle, u) \<longleftrightarrow> u = t)) \<and>
    (TryProcessBufferedDataInWorkLoop env s = Inr t \<longrightarrow> (\<forall>u. runs (work_next env) (K_Load, s) (K_Idle, u) \<longleftrightarrow> u = t)) \<and>
    (ring_WriteContent (tsw_sender_buffer s) bs (of_nat (length bs)) = Inr (ok, r) \<longrightarrow>
      (\<forall>u. runs user_next (U_Write bs, s) (U_Idle, u) \<longleftrightarrow> u = post Net_Try_Write (s\<lparr>tsw_sender_buffer := r\<rparr>)))"
proof -
  have only: "\<forall>u. runs step x (p, u) \<longleftrightarrow> u = t" if "runs step x (p, t)" "\<And>v u. step p v \<noteq> Inr u"
    for step :: "'p \<Rightarrow> tcp_socket \<Rightarrow> ('p \<times> tcp_socket) result" and x p t
  proof (intro allI iffI)
    fix u
    assume "runs step x (p, u)"
    from runs_same_end [OF this that(1)] that(2) show "u = t" by simp
  qed (use that(1) in simp)
  have "runs (net_next env) (N_Load, s) (N_Idle, t)" if w: "TryWriteBufferToSocket env s = Some (Inr t)"
  proof -
    from w obtain n where n: "ring_AvailableSeriesRead (tsw_sender_buffer s) = Inr n" "try_write_loop env n s = Some (Inr t)"
      by (auto simp: TryWriteBufferToSocket_def split: sum.splits)
    then show ?thesis using write_alone [OF n(2)] by simp
  qed
  then show ?thesis
    using only [of "net_next env"] only [of "work_next env"] only [of user_next] read_alone process_alone user_alone
    by (simp add: net_next_def work_next_def user_next_def)
qed

theorem machines_agree_witness:
  "runs (net_next open_env) (N_Reading (Sys_Error EAGAIN), up_socket) (N_Idle, up_socket)"
proof -
  obtain n where "ring_AvailableSeriesWrite (tsw_receiver_buffer up_socket) = Inr n"
    using ring_AvailableSeriesWrite_ok up_socket_ok(2) by (auto simp: receiver_ready_def)
  then have "TryReadDataFromSocket open_env (Sys_Error EAGAIN) up_socket = Inr up_socket"
    by (simp add: TryReadDataFromSocket_def)
  with machines_agree [where env = open_env and answer = "Sys_Error EAGAIN" and s = up_socket and t = up_socket] show ?thesis by blast
qed



text \<open>
  C14. TryProcessBufferedDataInWorkLoop implements the frame cutter: on a ring that is not
  exactly full it ends without a fault, hands the callback exactly the whole frames the ring
  holds, and leaves exactly the rest in the ring, wherever the frames and their headers wrap.
\<close>

theorem tcp_receive_refines:
  assumes "receiver_ready s" "calm env"
    "length (received s) < unat (rb_capacity (tsw_receiver_buffer s))"
  shows "\<exists>s'. TryProcessBufferedDataInWorkLoop env s = Inr s' \<and>
    (packets_of (tsw_signals s'), received s') =
      (packets_of (tsw_signals s) @ fst (parse_frames (env_le env) (received s)),
       fst (snd (parse_frames (env_le env) (received s))))"
  using process_loop_ok [OF assms] by auto

theorem tcp_receive_refines_witness:
  "\<exists>s'. TryProcessBufferedDataInWorkLoop demo_env demo_wrapped = Inr s' \<and>
    packets_of (tsw_signals s') = [[1, 0, 7]] \<and> received s' = [2]"
proof -
  have r: "received demo_wrapped = [1, 0, 7, 2]" by code_simp
  have p: "parse_frames True [1, 0, 7, 2] = ([[1, 0, 7]], [2], False)"
    by (simp add: parse_frames.simps host_word_def)
  have n: "length (received demo_wrapped) < unat (rb_capacity (tsw_receiver_buffer demo_wrapped))"
    by code_simp
  show ?thesis
    using tcp_receive_refines [OF demo_wrapped_ready demo_env_ok(3) n] r p
    by (simp add: demo_env_def demo_wrapped_signals)
qed



text \<open>
  C16. In the same runs the helper that libevent's callbacks are handed is freed only after a
  close has taken both events off their base; an event is registered on the freed helper only if
  a write has run after the close, as a write sent too late does.
\<close>

theorem tcp_helper_freed_last:
  assumes "sys_start env y" "(sys_step env)\<^sup>*\<^sup>* y z" "system_env env"
    and "\<not> tsw_share_this_helper (sy_socket z)" "read_registered (sy_socket z) \<or> write_pending (sy_socket z)"
  shows "sy_closed z \<and> sy_late z"
proof -
  have inv: "sys_inv env z" using reachable_inv [OF assms(1-3)] .
  then have "conn_inv (sy_socket z)" by (simp add: sys_inv_def)
  then have "events_set (sy_socket z)"
    using assms(5)
    by (auto simp: conn_inv_def conn_events_def events_set_def read_registered_def write_pending_def)
  with inv assms(4,5) show ?thesis by (auto simp: sys_inv_def close_ok_def all_off_def)
qed

theorem tcp_helper_freed_last_witness:
  "\<exists>z. (sys_step busy_env)\<^sup>*\<^sup>* accepted_system z \<and> write_pending (sy_socket z) \<and>
    \<not> tsw_share_this_helper (sy_socket z) \<and> sy_closed z \<and> sy_late z"
proof -
  obtain s where s: "(sys_step busy_env)\<^sup>*\<^sup>* accepted_system (up_system s [] [] True True [1, 0, 7] [])"
    "write_pending s" "\<not> tsw_share_this_helper s" using late_run by blast
  let ?z = "up_system s [] [] True True [1, 0, 7] []"
  have z: "\<not> tsw_share_this_helper (sy_socket ?z)"
    "read_registered (sy_socket ?z) \<or> write_pending (sy_socket ?z)"
    using s(2,3) by (simp_all add: up_system_def)
  from tcp_helper_freed_last [OF accepted_start s(1) busy_env_ok z] s show ?thesis
    by (intro exI [of _ ?z]) (simp add: up_system_def)
qed

text \<open>
  C17. The write loop ends for every kernel that never accepts zero bytes: what was buffered is
  on the wire or still buffered, in order, and afterwards the buffer is empty, or the connection
  is closed, or the write event is registered to go on.
\<close>

theorem tcp_write_loop_ends:
  assumes "sender_ready s" "kernel_ok env" "quiet env"
  shows "\<exists>s'. TryWriteBufferToSocket env s = Some (Inr s') \<and>
    tsw_wire s' @ unsent s' = tsw_wire s @ unsent s \<and> prefix (tsw_wire s) (tsw_wire s') \<and>
    (unsent s' = [] \<or> tsw_state s' = CS_CLOSED \<or> write_pending s')"
  using TryWrite_ok [OF assms] by blast

theorem tcp_write_loop_ends_witness:
  "\<exists>s'. TryWriteBufferToSocket demo_env demo_sent = Some (Inr s') \<and>
    tsw_wire s' @ unsent s' = [1, 0, 7]"
  using tcp_write_loop_ends [OF demo_sent_ready demo_env_ok(1,2)] demo_sent_bytes by auto

text \<open>
  C18. SendData on a buffer of two header bytes and a payload of 1 to 65535 bytes: it is refused
  without effect exactly when the ring has less than the message plus two bytes free, and
  otherwise appends the little frame of that payload, header filled in, and hands the write to
  the network loop.
\<close>

theorem tcp_send_accepts:
  assumes "sender_ready s" "is_payload p" "length h = 2" "\<not> env_in_network env"
  shows "if ring_free (tsw_sender_buffer s) < length p + 4
    then SendData env (h @ p) (of_nat (length p + 2)) s = Some (Inr (False, h @ p, s))
    else \<exists>r. SendData env (h @ p) (of_nat (length p + 2)) s =
          Some (Inr (True, frame_of (env_le env) p, post Net_Try_Write (s\<lparr>tsw_sender_buffer := r\<rparr>))) \<and>
        ring_inv r \<and> ring_contents r = unsent s @ frame_of (env_le env) p"
proof (cases "ring_free (tsw_sender_buffer s) < length p + 4")
  case True
  then show ?thesis using SendData_full [OF assms(1,2)] by simp
next
  case False
  then show ?thesis
    using SendData_ok [OF assms(1-3), of env] assms(4)
    by (auto simp: run_try_write_def)
qed

theorem tcp_send_accepts_witness:
  "\<exists>r. SendData demo_env [0, 0, 7] 3 demo_socket =
      Some (Inr (True, [1, 0, 7], post Net_Try_Write (demo_socket\<lparr>tsw_sender_buffer := r\<rparr>))) \<and>
    ring_contents r = [1, 0, 7]"
proof -
  have f: "ring_free (tsw_sender_buffer demo_socket) = 16" by code_simp
  have p: "is_payload [7]" by (simp add: is_payload_def)
  have h: "length [0 :: byte, 0] = 2" by simp
  have n: "\<not> env_in_network demo_env" by (simp add: demo_env_def)
  show ?thesis
    using tcp_send_accepts [OF demo_ready(1) p h n] f demo_empty(2)
    by (auto simp: demo_le demo_frame)
qed

text \<open>
  C19. A connect the system refuses at once is reported as closed to the worker loop, and yet
  the function goes on: the socket is left in the connecting state with its write event
  registered.
\<close>

theorem tcp_connect_refused:
  assumes "conn_inv s" "\<not> read_registered s" "\<not> write_pending s" "tame env" "\<not> env_in_worker env"
    "tsw_SignalOnCloseEvent s" "fd \<noteq> - 1" "ret \<noteq> 0" "errno \<noteq> EINPROGRESS" "errno \<noteq> EINTR"
  shows "\<exists>s'. ConnectServerInNetworkLoop env fd (ret, errno) s = Inr s' \<and>
    tsw_state s' = CS_CONNECTING \<and> write_pending s' \<and>
    tsw_posts s' = tsw_posts s @ [Work_Close_Signal]"
  using connect_refused [OF assms(1-7)] assms(8-10) by simp

theorem tcp_connect_refused_witness:
  "\<exists>s'. ConnectServerInNetworkLoop demo_env 9 (- 1, 111) demo_idle = Inr s' \<and>
    tsw_state s' = CS_CONNECTING \<and> write_pending s'"
proof -
  have w: "\<not> env_in_worker demo_env" by (simp add: demo_env_def)
  have c: "tsw_SignalOnCloseEvent demo_idle" by (simp add: demo_idle_def demo_socket_def)
  show ?thesis
    using tcp_connect_refused [OF demo_idle_ok demo_env_ok(4) w c, of 9 "- 1" 111]
    by (auto simp: EINPROGRESS_def EINTR_def)
qed

text \<open>
  C20. Whatever the loop thread and the other threads do in between, a loop that comes to rest
  has either never been stopped, and then has called every functor ever queued, in the order of
  queueing, with the counter back at zero, or has returned from Run, and then each queued
  functor was called once or is still in the queue.
\<close>

theorem loop_calls_all_queued:
  assumes "stop_inv S" "loop_step\<^sup>*\<^sup>* S T" "\<not> (\<exists>U. loop_step T U)"
  shows "bs_status (ls_loop T) = kRunning \<and> el_called (ls_loop T) = el_queued (ls_loop T) \<and>
      el_pending_functors (ls_loop T) = [] \<and> el_pending_functor_count (ls_loop T) = 0 \<or>
    bs_status (ls_loop T) = kStopped \<and>
      mset (el_queued (ls_loop T)) =
        mset (el_called (ls_loop T)) + mset (el_pending_functors (ls_loop T))"
  using rest_outcome [OF stop_runs.run_inv [OF assms(2,1)] assms(3)] .

theorem loop_calls_all_queued_witness:
  "\<exists>T. loop_step\<^sup>*\<^sup>* demo_system T \<and>
    (bs_status (ls_loop T) = kRunning \<and> el_called (ls_loop T) = el_queued (ls_loop T) \<or>
     bs_status (ls_loop T) = kStopped)"
proof -
  obtain T where T: "loop_step\<^sup>*\<^sup>* demo_system T" "\<not> (\<exists>U. loop_step T U)"
    using stop_runs.comes_to_rest [OF demo_system_ok] by blast
  with loop_calls_all_queued [OF demo_system_ok T] show ?thesis by blast
qed



text \<open>
  C22. The event loop refines a queue: until a stop runs in the loop, every step of its thread,
  its pipe and the other threads, read through the functors that still wait and those called, is
  an enqueue at the back, a call from the front, or nothing.
\<close>

theorem loop_refines_fifo:
  assumes "loop_inv (ls_loop s)" "loop_step\<^sup>*\<^sup>* s t" "not_stopped (ls_loop t)"
  shows "fifo_step\<^sup>*\<^sup>* (loop_queue (ls_loop s)) (loop_queue (ls_loop t))"
  using loop_fifo_system.run_simulates [OF assms(2,1,3)] by blast

theorem loop_refines_fifo_witness:
  "cq_waiting (loop_queue (ls_loop demo_queued)) = [Task 1 [Queue_In_Loop 2 []]] \<and>
   fifo_step\<^sup>*\<^sup>* (loop_queue (ls_loop demo_system)) (loop_queue (ls_loop demo_queued))"
proof -
  have st: "loop_step\<^sup>*\<^sup>* demo_system demo_queued" using demo_queued_step by blast
  have q: "el_stack (ls_loop demo_system) = []" "el_pending_functors (ls_loop demo_system) = []"
    "el_called (ls_loop demo_system) = []"
    using demo_loop by (simp_all add: loop_inv_def loop_alive_def loop_account_def)
  have ns: "not_stopped (ls_loop demo_queued)"
    using q(3) by (simp add: not_stopped_def demo_queued_def queue_effect_def)
  have "cq_waiting (loop_queue (ls_loop demo_queued)) = [Task 1 [Queue_In_Loop 2 []]]"
    using q by (simp add: loop_queue_def demo_queued_def queue_effect_def)
  with loop_refines_fifo [OF demo_loop(1) st ns] show ?thesis by blast
qed

text \<open>
  C23. No wake-up is lost: in every reachable state with a functor waiting, before Run has
  returned, a byte lies unread in the pipe of the attached watcher or the loop thread already
  stands before the lock that takes the queue.
\<close>

theorem loop_no_lost_wakeup:
  assumes "loop_inv (ls_loop S)" "loop_step\<^sup>*\<^sup>* S T" "el_phase (ls_loop T) \<noteq> Returned"
    "el_pending_functors (ls_loop T) \<noteq> []"
  shows "el_notified (ls_loop T) \<and>
    (el_pipe (ls_loop T) > 0 \<or> Do_Pending \<in> set (el_stack (ls_loop T))) \<and>
    (\<exists>w. el_watcher (ls_loop T) = Some w \<and> (el_phase (ls_loop T) = Dispatching \<longrightarrow> w_attached w))"
proof -
  have "loop_inv (ls_loop T)" using loop_runs.run_inv [OF assms(2,1)] .
  with assms(3,4) show ?thesis
    by (auto simp: loop_inv_def loop_wakeup_def loop_alive_def split: option.splits)
qed

theorem loop_no_lost_wakeup_witness:
  "el_notified (ls_loop demo_queued) \<and>
    (el_pipe (ls_loop demo_queued) > 0 \<or> Do_Pending \<in> set (el_stack (ls_loop demo_queued)))"
proof -
  have i: "loop_inv (ls_loop demo_system)" using demo_system_ok by (simp add: stop_inv_def)
  have p: "el_phase (ls_loop demo_queued) \<noteq> Returned" "el_pending_functors (ls_loop demo_queued) \<noteq> []"
    using demo_system_start by (simp_all add: demo_queued_def queue_effect_def)
  show ?thesis using loop_no_lost_wakeup [OF i r_into_rtranclp [of loop_step, OF demo_queued_step] p] by blast
qed





text \<open>
  C26. A write may fill the ring exactly, which it reports as a success, and then AvailableRead
  fails its assertion: the full ring is a legal state that the reader cannot look at.
\<close>

theorem ring_full_aborts:
  assumes "ring_inv r" "unat len = ring_free r" "unat len \<le> length content"
  shows "\<exists>r'. ring_WriteContent r content len = Inr (True, r') \<and> ring_inv r' \<and>
    ring_AvailableRead r' = Inl Assert_Failed"
proof -
  obtain r' where r': "ring_WriteContent r content len = Inr (True, r')" "ring_inv r'"
    "ring_contents r' = ring_contents r @ take (unat len) content"
    using ring_WriteContent_ok [OF assms(1,3)] assms(2) by auto
  have cap: "rb_capacity r' = rb_capacity r"
    using r'(1) by (auto simp: ring_WriteContent_def Let_def assert_that_eq_Inr rbind_eq_Inr split: if_splits)
  have "length (ring_contents r') = unat (rb_capacity r')"
    unfolding r'(3) cap using assms(2,3) ring_length_le [OF assms(1)]
    by (simp add: ring_free_def min_def del: length_ring_contents)
  from ring_AvailableRead_full [OF this] r'(1,2) show ?thesis by blast
qed

theorem ring_full_aborts_witness:
  "\<exists>r'. ring_WriteContent (RingBuffer_new (\<lambda>_. 0) 16) (replicate 16 9) 16 = Inr (True, r') \<and>
    ring_AvailableRead r' = Inl Assert_Failed"
proof -
  have f: "unat (16 :: u32) = ring_free (RingBuffer_new (\<lambda>_. 0) 16)" by code_simp
  show ?thesis using ring_full_aborts [OF demo_ring_inv f, of "replicate 16 9"] by auto
qed









text \<open>
  C31. A server task that has begun stays well-formed through any sequence of events: it runs,
  with a socket that calls its functions and both timers set up for their handlers, or it has
  stopped and has none of the three. Every enabled event is handled, with one exception: a
  schedule that finds a stopped task overdue uses the null close timer.
\<close>

theorem server_typed:
  assumes "Server_BeginProcess env now sock t0 = Inr (True, t)" "(server_step env hk)\<^sup>*\<^sup>* t u"
    "server_enabled ev u"
  shows "server_wf u \<and>
    (if \<exists>at. ev = Sv_Schedule at \<and> server_stopped u \<and> overdue at u
     then server_apply env hk ev u = Inl Null_Deref
     else \<exists>v. server_apply env hk ev u = Inr v \<and> server_wf v)"
proof -
  have "server_wf t" using begin_running [OF assms(1)] by (simp add: server_wf_def)
  with server_runs.run_inv [OF assms(2)] have u: "server_wf u" by blast
  with server_apply_ok [OF u assms(3)] show ?thesis by blast
qed

theorem server_typed_witness:
  "\<exists>t. Server_BeginProcess demo_task_env 1 (Some demo_socket) TcpServerTask_new = Inr (True, t) \<and>
    (let u = Server_StopProcess demo_task_env (Server_OnInternalPacket demo_hooks [2] t)
     in server_apply demo_task_env demo_hooks (Sv_Schedule 30002) u = Inl Null_Deref)"
proof -
  obtain t where t: "Server_BeginProcess demo_task_env 1 (Some demo_socket) TcpServerTask_new = Inr (True, t)"
    "ts_verified_client t = ts_verified_client TcpServerTask_new" "ts_last_hello_time t = 1"
    using Server_BeginProcess_ok [of demo_task_env 1 demo_socket TcpServerTask_new] by blast
  let ?p = "Server_OnInternalPacket demo_hooks [2] t"
  let ?u = "Server_StopProcess demo_task_env ?p"
  have "server_step demo_task_env demo_hooks t ?p"
    by (rule server_step.intros [of "Sv_Packet [2]"]) (simp_all add: server_enabled_def server_apply_def)
  moreover have "server_step demo_task_env demo_hooks ?p ?u"
    by (rule server_step.intros [of Sv_Stop]) (simp_all add: server_enabled_def server_apply_def)
  ultimately have run: "(server_step demo_task_env demo_hooks)\<^sup>*\<^sup>* t ?u" by auto
  have en: "server_enabled (Sv_Schedule 30002) ?u" by (simp add: server_enabled_def)
  have p: "ts_verified_client ?p" "ts_last_hello_time ?p = 1"
    using t(2,3) by (simp_all add: Server_OnInternalPacket_def server_effect_def demo_hooks_def TcpServerTask_new_def Let_def)
  have "overdue 30002 ?u" using p Server_StopProcess_ok [of demo_task_env ?p] by (simp add: overdue_def)
  with server_typed [OF t(1) run en] stop_stopped(1) t(1) show ?thesis by auto
qed

text \<open>
  C32. Whatever events a new server task meets and in whatever order, the packets it hands to
  its subclass are first ones whose verification is refused, then, once the client is verified,
  the one that was accepted with a single entry into the manager right after it, and from then
  on only packets to parse.
\<close>

theorem server_verifies_in_order:
  assumes "Server_BeginProcess env now sock TcpServerTask_new = Inr (True, t)"
    "(server_step env hk)\<^sup>*\<^sup>* t u"
  shows "\<exists>vs. (\<forall>v \<in> set vs. \<not> hk_OnRecvVerifyMsg hk v) \<and>
    (if ts_verified_client u
     then \<exists>p qs. hk_OnRecvVerifyMsg hk p \<and> filter (\<lambda>e. e \<noteq> Remove_From_Manager) (ts_effects u) =
       map Recv_Verify_Msg vs @ Recv_Verify_Msg p # Add_To_Manager # map Msg_Parse qs
     else filter (\<lambda>e. e \<noteq> Remove_From_Manager) (ts_effects u) = map Recv_Verify_Msg vs)"
  using served.run_inv [OF assms(2) begin_serving [OF assms(1)]] unfolding serving_def packet_calls_def .

theorem server_verifies_in_order_witness:
  "\<exists>t p vs qs. Server_BeginProcess demo_task_env 1 (Some demo_socket) TcpServerTask_new = Inr (True, t) \<and>
    hk_OnRecvVerifyMsg demo_hooks p \<and>
    filter (\<lambda>e. e \<noteq> Remove_From_Manager) (ts_effects (Server_OnInternalPacket demo_hooks [2] t)) =
      map Recv_Verify_Msg vs @ Recv_Verify_Msg p # Add_To_Manager # map Msg_Parse qs"
proof -
  obtain t where t: "Server_BeginProcess demo_task_env 1 (Some demo_socket) TcpServerTask_new = Inr (True, t)"
    "ts_verified_client t = ts_verified_client TcpServerTask_new"
    using Server_BeginProcess_ok [of demo_task_env 1 demo_socket TcpServerTask_new] by blast
  let ?u = "Server_OnInternalPacket demo_hooks [2] t"
  have st: "server_step demo_task_env demo_hooks t ?u"
    by (rule server_step.intros [of "Sv_Packet [2]"]) (simp_all add: server_enabled_def server_apply_def)
  have "ts_verified_client ?u"
    using t(2) by (simp add: Server_OnInternalPacket_def server_effect_def demo_hooks_def TcpServerTask_new_def Let_def)
  with server_verifies_in_order [OF t(1) r_into_rtranclp [of "server_step _ _", OF st]] t(1)
  show ?thesis by auto
qed



text \<open>
  C34. Every schedule of appends and retrieves on a SocketBuffer, whatever it holds and however
  often it has to grow or move its bytes, runs without a fault: the bytes taken and those still
  unread are those it held and was given, in order.
\<close>

theorem socket_buffer_conserves:
  assumes "sb_inv b"
  shows "\<exists>acc out b'. queue_run sb_contents sb_room (sb_put g) sb_get b ops = Inr (acc, out, b') \<and>
    sb_inv b' \<and> out @ sb_contents b' = sb_contents b @ acc"
  by (rule socket_queue.run_conserves [OF assms])

theorem socket_buffer_conserves_witness:
  "\<exists>b acc out b'. SocketBuffer_new (\<lambda>_. 0) 2 8 = Inr b \<and>
    queue_run sb_contents sb_room (sb_put (\<lambda>_. 0)) sb_get b [Put [1, 2, 3], Take 2] = Inr (acc, out, b') \<and>
    out @ sb_contents b' = acc"
proof -
  obtain b where b: "SocketBuffer_new (\<lambda>_. 0) 2 8 = Inr b" "sb_inv b" "sb_contents b = []"
    using SocketBuffer_new_ok [of 2 8 "\<lambda>_. 0"] by auto
  from socket_buffer_conserves [OF b(2), of "\<lambda>_. 0" "[Put [1, 2, 3], Take 2]"] b show ?thesis by auto
qed

text \<open>
  C35. Integers of 64, 32, 16 and 8 bits appended to an empty SocketBuffer are read back in the
  same order with the same values on hosts of either byte order, and nothing remains.
\<close>

theorem socket_buffer_int_roundtrip:
  assumes "sb_inv b" "sb_contents b = []" "16 * unat (sb_capacity b) + 128 < 2 ^ 64"
  shows "\<exists>b1 b2 b3 b4 r1 r2 r3 r4.
    sb_AppendInt64 le g x b = Inr b1 \<and> sb_AppendInt32 le g y b1 = Inr b2 \<and>
    sb_AppendInt16 le g z b2 = Inr b3 \<and> sb_AppendInt8 g w b3 = Inr b4 \<and>
    sb_ReadInt64 le b4 = Inr (x, r1) \<and> sb_ReadInt32 le r1 = Inr (y, r2) \<and>
    sb_ReadInt16 le r2 = Inr (z, r3) \<and> sb_ReadInt8 r3 = Inr (w, r4) \<and> sb_contents r4 = []"
proof -
  obtain b1 where b1: "sb_AppendInt64 le g x b = Inr b1" "sb_inv b1"
    "sb_contents b1 = host_bytes le 8 (evppbswap_64 x)"
    "unat (sb_capacity b1) \<le> 2 * unat (sb_capacity b) + 8"
    using sb_Write_ok [OF assms(1), of 8 "host_bytes le 8 (evppbswap_64 x)" g] assms(2,3)
    by (auto simp: sb_AppendInt64_def)
  obtain b2 where b2: "sb_AppendInt32 le g y b1 = Inr b2" "sb_inv b2"
    "sb_contents b2 = sb_contents b1 @ be_bytes 4 y" "unat (sb_capacity b2) \<le> 2 * unat (sb_capacity b1) + 4"
    using sb_Write_ok [OF b1(2), of 4 "host_bytes le 4 (htonl le y)" g] assms(3) b1(4)
    by (auto simp: sb_AppendInt32_def host_bytes_htonl)
  obtain b3 where b3: "sb_AppendInt16 le g z b2 = Inr b3" "sb_inv b3"
    "sb_contents b3 = sb_contents b2 @ be_bytes 2 z" "unat (sb_capacity b3) \<le> 2 * unat (sb_capacity b2) + 2"
    using sb_Write_ok [OF b2(2), of 2 "host_bytes le 2 (htons le z)" g] assms(3) b1(4) b2(4)
    by (auto simp: sb_AppendInt16_def host_bytes_htons)
  obtain b4 where b4: "sb_AppendInt8 g w b3 = Inr b4" "sb_inv b4" "sb_contents b4 = sb_contents b3 @ [w]"
    using sb_Write_ok [OF b3(2), of 1 "[w]" g] assms(3) b1(4) b2(4) b3(4)
    by (auto simp: sb_AppendInt8_def)
  obtain r1 where r1: "sb_ReadInt64 le b4 = Inr (x, r1)" "sb_inv r1" "sb_contents r1 = be_bytes 4 y @ be_bytes 2 z @ [w]"
    using sb_ReadInt64_ok [OF b4(2), of le x] b1(3) b2(3) b3(3) b4(3) by auto
  obtain r2 where r2: "sb_ReadInt32 le r1 = Inr (y, r2)" "sb_inv r2" "sb_contents r2 = be_bytes 2 z @ [w]"
    using sb_ReadInt32_ok [OF r1(2,3), of le] by auto
  obtain r3 where r3: "sb_ReadInt16 le r2 = Inr (z, r3)" "sb_inv r3" "sb_contents r3 = [w]"
    using sb_ReadInt16_ok(1) [OF r2(2,3), of le] by auto
  obtain r4 where "sb_ReadInt8 r3 = Inr (w, r4)" "sb_contents r4 = []"
    using sb_ReadInt8_ok [OF r3(2), of w] r3(3) by auto
  with b1(1) b2(1) b3(1) b4(1) r1(1) r2(1) r3(1) show ?thesis by blast
qed

theorem socket_buffer_int_roundtrip_witness:
  "\<exists>b b1 b2 b3 b4 r1 r2. SocketBuffer_new (\<lambda>_. 0) 2 8 = Inr b \<and>
    sb_AppendInt64 True (\<lambda>_. 0) 513 b = Inr b1 \<and> sb_AppendInt32 True (\<lambda>_. 0) 7 b1 = Inr b2 \<and>
    sb_AppendInt16 True (\<lambda>_. 0) 8 b2 = Inr b3 \<and> sb_AppendInt8 (\<lambda>_. 0) 9 b3 = Inr b4 \<and>
    sb_ReadInt64 True b4 = Inr (513, r1) \<and> sb_ReadInt32 True r1 = Inr (7, r2)"
proof -
  obtain b where b: "SocketBuffer_new (\<lambda>_. 0) 2 8 = Inr b" "sb_inv b" "sb_contents b = []"
    using SocketBuffer_new_ok [of 2 8 "\<lambda>_. 0"] by auto
  have "16 * unat (sb_capacity b) + 128 < 2 ^ 64" using b(1)
    by (auto simp: SocketBuffer_new_def Let_def assert_that_eq_Inr rbind_eq_Inr)
  from socket_buffer_int_roundtrip [OF b(2,3) this, of True "\<lambda>_. 0" 513 7 8 9] b(1) show ?thesis by blast
qed

text \<open>
  C36. AppendInt16 and AppendInt32 store the most significant byte first on every host;
  AppendInt64 swaps unconditionally, so it does on a little endian host but stores the least
  significant byte first on a big endian one.
\<close>

theorem socket_buffer_network_order:
  assumes "sb_inv b" "2 * unat (sb_capacity b) + 8 < 2 ^ 64"
  shows "(\<exists>b'. sb_AppendInt16 le g z b = Inr b' \<and> sb_contents b' = sb_contents b @ be_bytes 2 z) \<and>
    (\<exists>b'. sb_AppendInt32 le g y b = Inr b' \<and> sb_contents b' = sb_contents b @ be_bytes 4 y) \<and>
    (\<exists>b'. sb_AppendInt64 le g x b = Inr b' \<and>
      sb_contents b' = sb_contents b @ (if le then be_bytes 8 x else le_bytes 8 x))"
  using sb_Write_ok [OF assms(1), of 2 "host_bytes le 2 (htons le z)" g]
    sb_Write_ok [OF assms(1), of 4 "host_bytes le 4 (htonl le y)" g]
    sb_Write_ok [OF assms(1), of 8 "host_bytes le 8 (evppbswap_64 x)" g] assms(2)
  by (cases le)
    (auto simp: sb_AppendInt16_def sb_AppendInt32_def sb_AppendInt64_def host_bytes_htons
      host_bytes_htonl host_bytes_swap64_little host_bytes_swap64_big)

theorem socket_buffer_network_order_witness:
  "\<exists>b b'. SocketBuffer_new (\<lambda>_. 0) 2 8 = Inr b \<and> sb_AppendInt64 False (\<lambda>_. 0) 1 b = Inr b' \<and>
    sb_contents b' = [1, 0, 0, 0, 0, 0, 0, 0]"
proof -
  obtain b where b: "SocketBuffer_new (\<lambda>_. 0) 2 8 = Inr b" "sb_inv b" "sb_contents b = []"
    using SocketBuffer_new_ok [of 2 8 "\<lambda>_. 0"] by auto
  have fit: "2 * unat (sb_capacity b) + 8 < 2 ^ 64" using b(1)
    by (auto simp: SocketBuffer_new_def Let_def assert_that_eq_Inr rbind_eq_Inr)
  have "le_bytes 8 (1 :: u64) = [1, 0, 0, 0, 0, 0, 0, 0]" by code_simp
  with socket_buffer_network_order [OF b(2) fit, of False "\<lambda>_. 0" 0 0 1] b show ?thesis by auto
qed

text \<open>
  C37. Truncate adds its argument to the read index without a check: any length that makes the
  sum wrap puts the write index before the read index, although nothing should happen for a
  length beyond the unread bytes.
\<close>

theorem socket_buffer_truncate_wraps:
  assumes "sb_inv b" "unat (sb_read_index b) + unat n \<ge> 2 ^ 64"
  shows "sb_write_index (sb_Truncate n b) < sb_read_index (sb_Truncate n b) \<and> \<not> sb_inv (sb_Truncate n b)"
proof -
  have "unat (sb_read_index b + n) < unat (sb_read_index b)"
    using assms(2) unat_lt_2p64 [of "sb_read_index b"] unat_lt_2p64 [of n]
    by (simp add: unat_word_ariths mod_if) linarith
  moreover have "n \<noteq> 0" using assms(2) unat_lt_2p64 [of "sb_read_index b"] by auto
  ultimately have "sb_Truncate n b = b\<lparr>sb_write_index := sb_read_index b + n\<rparr>"
    "sb_read_index b + n < sb_read_index b"
    using sb_invD(2) [OF assms(1)] by (simp_all add: sb_Truncate_def word_less_nat_alt)
  then show ?thesis by (auto simp: sb_inv_def not_le)
qed

theorem socket_buffer_truncate_wraps_witness:
  "\<exists>b. SocketBuffer_new (\<lambda>_. 0) 2 8 = Inr b \<and> \<not> sb_inv (sb_Truncate 18446744073709551615 b)"
proof -
  obtain b where b: "SocketBuffer_new (\<lambda>_. 0) 2 8 = Inr b" "sb_inv b"
    using SocketBuffer_new_ok [of 2 8 "\<lambda>_. 0"] by auto
  have "sb_read_index b = 8" using b(1)
    by (auto simp: SocketBuffer_new_def Let_def assert_that_eq_Inr rbind_eq_Inr)
  then have "unat (sb_read_index b) + unat (18446744073709551615 :: size_t) \<ge> 2 ^ 64" by simp
  from socket_buffer_truncate_wraps [OF b(2) this] b(1) show ?thesis by blast
qed

text \<open>
  C38. Without a depth limit stringtok appends the maximal runs of characters that are no
  delimiter, in order: no token is empty or holds a delimiter, and together they are the string
  without its delimiters.
\<close>

theorem stringtok_words:
  assumes "deep \<le> 0"
  shows "stringtok container s delims deep = container @ words_of delims s \<and>
    concat (words_of delims s) = filter (\<lambda>c. c \<notin> set delims) s \<and>
    set (words_of delims s) \<subseteq> {w. w \<noteq> [] \<and> set w \<inter> set delims = {}}"
  using tok_loop_words [of 0 s deep delims 0 container] assms words_of_concat words_of_tokens
  by (simp add: stringtok_def)

theorem stringtok_words_witness:
  "concat (stringtok [] ''ab  c '' default_delimiters 0) = ''abc''"
  using stringtok_words [of 0 "[]" "''ab  c ''" default_delimiters]
  by (simp add: default_delimiters_def)

text \<open>
  C39. Used through instance, getMe and delMe, in any order, the class has at most one live
  object, which is the one instance returns, again and again; delMe leaves none.
\<close>

theorem singleton_at_most_one:
  "length (sg_live (fold singleton_step calls singleton_init)) \<le> 1 \<and>
   (\<exists>p h. Singleton_instance (fold singleton_step calls singleton_init) = (Some p, h) \<and>
     sg_live h = [p] \<and> Singleton_instance h = (Some p, h) \<and> sg_live (Singleton_delMe h) = [])"
proof -
  let ?h = "fold singleton_step calls singleton_init"
  have i: "singleton_inv ?h"
    by (rule singleton_run_inv) (simp add: singleton_inv_def singleton_init_def)
  obtain p h where h: "Singleton_instance ?h = (Some p, h)" "singleton_inv h" "p \<in> set (sg_live h)"
    "Singleton_instance h = (Some p, h)" using singleton_instance_ok [OF i] by blast
  then have "sg_live h = [p]" by (auto simp: singleton_inv_def split: option.splits)
  with h singleton_delMe_ok(2) [OF h(2)] i show ?thesis
    by (auto simp: singleton_inv_def split: option.splits)
qed



end
